(* ===== verification/Prelude_C.thy ===== *)
theory Prelude_C
  imports Main "HOL-Library.Word" "HOL-Library.Signed_Division" "HOL-Library.Monad_Syntax"
begin

text \<open>
  Shared vocabulary of the development: the C integer types of
  \<^verbatim>\<open>src/source/comm/types.h\<close>, checked array accesses, the outcome type of kernel
  functions that may stop (a failed \<^verbatim>\<open>ASSERT\<close>, undefined behaviour, a context
  switch), and generic lemmas on lists, words and outcomes.

  \<^item> \<open>u8\<close>, \<open>u16\<close>, \<open>u32\<close> are the unsigned types; a C \<^verbatim>\<open>int\<close> whose wrap-around
    matters is a \<open>u32\<close> read with \<open>sint\<close>, any other is an \<open>int\<close>.
  \<^item> \<open>arr_get\<close> and \<open>arr_set\<close> are array accesses that yield \<open>None\<close> outside the array.
  \<^item> \<open>kres\<close> is the result of a kernel function that runs on a state: it returns a value and
    the new state, or it stops.
\<close>

unbundle bit_operations_syntax

named_theorems kernel_defs \<open>definitions of the C helpers that component proofs unfold\<close>

type_synonym u8 = "8 word"
type_synonym u16 = "16 word"
type_synonym u32 = "32 word"

text \<open>Pointers are 32-bit addresses; \<open>0\<close> is the null pointer.\<close>

type_synonym addr = u32

text \<open>Main memory, byte by byte.\<close>

type_synonym bytes = "addr \<Rightarrow> u8"

subsection \<open>Arrays with checked accesses\<close>

definition arr_get :: "'a list \<Rightarrow> int \<Rightarrow> 'a option" where
  "arr_get xs i = (if 0 \<le> i \<and> i < int (length xs) then Some (xs ! nat i) else None)"

definition arr_set :: "'a list \<Rightarrow> int \<Rightarrow> 'a \<Rightarrow> 'a list option" where
  "arr_set xs i v = (if 0 \<le> i \<and> i < int (length xs) then Some (xs[nat i := v]) else None)"

lemma arr_get_Some [simp]:
  "0 \<le> i \<Longrightarrow> i < int (length xs) \<Longrightarrow> arr_get xs i = Some (xs ! nat i)"
  by (simp add: arr_get_def)

lemma arr_set_Some [simp]:
  "0 \<le> i \<Longrightarrow> i < int (length xs) \<Longrightarrow> arr_set xs i v = Some (xs[nat i := v])"
  by (simp add: arr_set_def)

lemma arr_set_length: "arr_set xs i v = Some ys \<Longrightarrow> length ys = length xs"
  by (auto simp: arr_set_def split: if_splits)

subsection \<open>Outcomes\<close>

text \<open>
  How a kernel function may fail to return: \<open>Panic\<close> is a failed \<^verbatim>\<open>ASSERT\<close>
  (\<^verbatim>\<open>pannic\<close> logs and halts for ever), \<open>Fault\<close> is an access outside every object
  or another undefined operation, \<open>Suspended\<close> is a switch to another task in the middle of
  the function, \<open>Halted\<close> is a deliberate endless loop around \<^verbatim>\<open>hlt\<close>.
\<close>

datatype 's stop = Panic 's | Fault 's | Suspended 's | Halted 's

type_synonym ('s, 'a) kres = "'s stop + ('a \<times> 's)"

definition bindR :: "('s, 'a) kres \<Rightarrow> ('a \<Rightarrow> 's \<Rightarrow> ('s, 'b) kres) \<Rightarrow> ('s, 'b) kres" where
  "bindR m f = (case m of Inl e \<Rightarrow> Inl e | Inr (x, s) \<Rightarrow> f x s)"

lemma bindR_Inr [simp]: "bindR (Inr (x, s)) f = f x s"
  by (simp add: bindR_def)

lemma bindR_Inl [simp]: "bindR (Inl e) f = Inl e"
  by (simp add: bindR_def)

lemma bindR_assoc: "bindR (bindR m f) g = bindR m (\<lambda>x s. bindR (f x s) g)"
  by (auto simp: bindR_def split: sum.splits)

lemma bindR_eq_Inr:
  "bindR m f = Inr r \<longleftrightarrow> (\<exists>x s. m = Inr (x, s) \<and> f x s = Inr r)"
  by (auto simp: bindR_def split: sum.splits)

subsection \<open>Lists\<close>

lemma distinct_remove1_split:
  "distinct (xs @ a # ys) \<Longrightarrow> remove1 a (xs @ a # ys) = xs @ ys"
  by (simp add: remove1_append)

lemma nth_list_update_range:
  "i < length xs \<Longrightarrow> xs[j := v] ! i = (if i = j then v else xs ! i)"
  by (simp add: nth_list_update)

subsection \<open>Words\<close>

lemma bit_push_bit_one_u8: "bit (push_bit k (1 :: u8)) j \<longleftrightarrow> j = k \<and> j < 8"
  by (auto simp: bit_simps)

lemma and_push_bit_one_u8:
  "k < 8 \<Longrightarrow> (w AND push_bit k (1 :: u8) \<noteq> 0) = bit w k"
proof -
  assume k: "k < 8"
  have "(w AND push_bit k 1 = 0) = (\<forall>n < 8. \<not> (bit w n \<and> n = k))"
    by (subst bit_eq_iff) (auto simp: bit_simps)
  with k show ?thesis by auto
qed

end
