(* ===== verification/Machine.thy ===== *)
theory Machine
  imports Prelude_C
begin

text \<open>
  The part of the processor state that the C code reads and writes through the inline
  assembly of \<^verbatim>\<open>src/source/comm/cpu_instr.h\<close>: the flags register, the control
  registers, the task register, the descriptor table registers, the accesses to I/O ports, in order,
  and the main memory. What a read of a port yields is up to the devices: a \<open>device\<close> is a function
  of all the port accesses so far and the port. On top of it the critical sections of \<^verbatim>\<open>src/source/kernel/cpu/irq.c\<close>, with the interface (locale
  \<open>critical_section\<close>) the scheduler and the synchronisation primitives rely on. Every later
  state of the kernel extends the record \<open>machine\<close>.
\<close>

datatype port_event = PortOut u16 u8 | PortInB u16 | PortInW u16

type_synonym device = "port_event list \<Rightarrow> u16 \<Rightarrow> u16"

record table_reg =
  tr_limit :: u16
  tr_start15_0 :: u16
  tr_start31_16 :: u16

record machine =
  eflags :: u32
  cr0_reg :: u32
  cr2_reg :: u32
  cr3_reg :: u32
  cr4_reg :: u32
  tr_reg :: u16
  gdtr :: table_reg
  idtr :: table_reg
  io_log :: "port_event list"
  mem :: bytes

definition EFLAGS_DEFAULT :: u32 where
  "EFLAGS_DEFAULT = push_bit 1 1"

definition EFLAGS_IF :: u32 where
  "EFLAGS_IF = push_bit 9 1"

subsection \<open>Instructions\<close>

definition outb :: "u16 \<Rightarrow> u8 \<Rightarrow> 'm machine_scheme \<Rightarrow> 'm machine_scheme" where
  "outb port d s = s\<lparr>io_log := io_log s @ [PortOut port d]\<rparr>"

definition inb :: "device \<Rightarrow> u16 \<Rightarrow> 'm machine_scheme \<Rightarrow> u8 \<times> 'm machine_scheme" where
  "inb dev port s = (ucast (dev (io_log s) port), s\<lparr>io_log := io_log s @ [PortInB port]\<rparr>)"

definition inw :: "device \<Rightarrow> u16 \<Rightarrow> 'm machine_scheme \<Rightarrow> u16 \<times> 'm machine_scheme" where
  "inw dev port s = (dev (io_log s) port, s\<lparr>io_log := io_log s @ [PortInW port]\<rparr>)"

definition make_table_reg :: "u32 \<Rightarrow> u32 \<Rightarrow> table_reg" where
  "make_table_reg start sz =
     \<lparr>tr_limit = ucast (sz - 1), tr_start15_0 = ucast (start AND 0xffff),
      tr_start31_16 = ucast (drop_bit 16 start)\<rparr>"

definition lgdt :: "u32 \<Rightarrow> u32 \<Rightarrow> 'm machine_scheme \<Rightarrow> 'm machine_scheme" where
  "lgdt start sz s = s\<lparr>gdtr := make_table_reg start sz\<rparr>"

definition lidt :: "u32 \<Rightarrow> u32 \<Rightarrow> 'm machine_scheme \<Rightarrow> 'm machine_scheme" where
  "lidt start sz s = s\<lparr>idtr := make_table_reg start sz\<rparr>"

definition read_cr0 :: "'m machine_scheme \<Rightarrow> u32" where
  "read_cr0 s = cr0_reg s"

definition write_cr0 :: "u32 \<Rightarrow> 'm machine_scheme \<Rightarrow> 'm machine_scheme" where
  "write_cr0 v s = s\<lparr>cr0_reg := v\<rparr>"

definition read_cr2 :: "'m machine_scheme \<Rightarrow> u32" where
  "read_cr2 s = cr2_reg s"

definition read_cr4 :: "'m machine_scheme \<Rightarrow> u32" where
  "read_cr4 s = cr4_reg s"

definition write_cr4 :: "u32 \<Rightarrow> 'm machine_scheme \<Rightarrow> 'm machine_scheme" where
  "write_cr4 v s = s\<lparr>cr4_reg := v\<rparr>"

definition cli :: "'m machine_scheme \<Rightarrow> 'm machine_scheme" where
  "cli s = s\<lparr>eflags := eflags s AND NOT EFLAGS_IF\<rparr>"

definition sti :: "'m machine_scheme \<Rightarrow> 'm machine_scheme" where
  "sti s = s\<lparr>eflags := eflags s OR EFLAGS_IF\<rparr>"

definition read_eflags :: "'m machine_scheme \<Rightarrow> u32" where
  "read_eflags s = eflags s"

definition write_eflags :: "u32 \<Rightarrow> 'm machine_scheme \<Rightarrow> 'm machine_scheme" where
  "write_eflags v s = s\<lparr>eflags := v\<rparr>"

definition write_cr3 :: "u32 \<Rightarrow> 'm machine_scheme \<Rightarrow> 'm machine_scheme" where
  "write_cr3 v s = s\<lparr>cr3_reg := v\<rparr>"

definition write_tr :: "u16 \<Rightarrow> 'm machine_scheme \<Rightarrow> 'm machine_scheme" where
  "write_tr sel s = s\<lparr>tr_reg := sel\<rparr>"

definition if_set :: "'m machine_scheme \<Rightarrow> bool" where
  "if_set s \<longleftrightarrow> eflags s AND EFLAGS_IF \<noteq> 0"

subsection \<open>Critical sections\<close>

definition irq_disable_global :: "'m machine_scheme \<Rightarrow> 'm machine_scheme" where
  "irq_disable_global s = cli s"

definition irq_enable_global :: "'m machine_scheme \<Rightarrow> 'm machine_scheme" where
  "irq_enable_global s = sti s"

definition irq_enter_protection :: "'m machine_scheme \<Rightarrow> u32 \<times> 'm machine_scheme" where
  "irq_enter_protection s =
     (let state = read_eflags s; s1 = irq_disable_global s in (state, s1))"

definition irq_leave_protection :: "u32 \<Rightarrow> 'm machine_scheme \<Rightarrow> 'm machine_scheme" where
  "irq_leave_protection state s = write_eflags state s"

lemmas irq_defs [kernel_defs] =
  irq_enter_protection_def irq_leave_protection_def irq_disable_global_def
  irq_enable_global_def cli_def sti_def read_eflags_def write_eflags_def Let_def

lemma cli_clears_if: "\<not> if_set (cli s)"
  by (simp add: cli_def if_set_def EFLAGS_IF_def and.assoc bit_eq_iff bit_simps)

text \<open>
  The interface of a critical section: entering hands out a token and masks interrupts,
  leaving with the token restores the flags found on entry, whatever the section did to the
  rest of the state, and neither touches anything else (\<open>rest\<close>).
\<close>

locale critical_section =
  fixes enter :: "'s \<Rightarrow> 'tok \<times> 's"
    and leave :: "'tok \<Rightarrow> 's \<Rightarrow> 's"
    and masked :: "'s \<Rightarrow> bool"
    and flags :: "'s \<Rightarrow> 'f"
    and rest :: "'s \<Rightarrow> 'r"
  assumes enter_masked: "enter s = (tok, s1) \<Longrightarrow> masked s1"
    and enter_rest: "enter s = (tok, s1) \<Longrightarrow> rest s1 = rest s"
    and leave_flags: "enter s = (tok, s1) \<Longrightarrow> flags (leave tok s2) = flags s"
    and leave_rest: "rest (leave tok s2) = rest s2"
    and state_eq: "flags s = flags t \<Longrightarrow> rest s = rest t \<Longrightarrow> s = t"
begin

text \<open>A section whose body keeps the rest of the state is invisible from outside.\<close>

lemma empty_section:
  assumes "enter s = (tok, s1)" and "rest s2 = rest s1"
  shows "leave tok s2 = s"
  using assms by (intro state_eq) (simp_all add: leave_flags leave_rest enter_rest)

text \<open>Sections nest: the inner one gives back the outer one's masking.\<close>

lemma nested_flags:
  assumes "enter s = (tok, s1)" and "enter s1 = (tok', s2)"
  shows "flags (leave tok' s3) = flags s1"
  using assms(2) by (rule leave_flags)

end

definition machine_rest :: "'m machine_scheme \<Rightarrow> 'm machine_scheme" where
  "machine_rest s = s\<lparr>eflags := 0\<rparr>"

interpretation irq: critical_section
  "irq_enter_protection :: 'm machine_scheme \<Rightarrow> u32 \<times> 'm machine_scheme" irq_leave_protection
  "\<lambda>s. \<not> if_set s" eflags machine_rest
proof (unfold_locales, goal_cases)
  case (1 s tok s1)
  then show ?case using cli_clears_if [of s]
    by (auto simp: irq_enter_protection_def irq_disable_global_def Let_def)
next
  case (5 s t)
  then show ?case by (cases s; cases t) (simp add: machine_rest_def)
qed (auto simp: irq_defs machine_rest_def)

end
