(* ===== verification/Mem.thy ===== *)
theory Mem
  imports Prelude_C
begin

text \<open>
  Main memory as the C code and the processor access it: byte strings at an address, the
  address range they take, NUL-terminated strings, and little-endian 32-bit words. Addresses
  wrap at \<open>2 ^ 32\<close>.
\<close>

subsection \<open>Byte strings in memory\<close>

primrec store_bytes :: "addr \<Rightarrow> u8 list \<Rightarrow> bytes \<Rightarrow> bytes" where
  "store_bytes a [] m = m"
| "store_bytes a (x # xs) m = store_bytes (a + 1) xs (m(a := x))"

definition load_bytes :: "bytes \<Rightarrow> addr \<Rightarrow> nat \<Rightarrow> u8 list" where
  "load_bytes m a n = map (\<lambda>i. m (a + of_nat i)) [0..<n]"

text \<open>\<open>cstring m a xs\<close>: a NUL-terminated string at \<open>a\<close>.\<close>

definition cstring :: "bytes \<Rightarrow> addr \<Rightarrow> u8 list \<Rightarrow> bool" where
  "cstring m a xs \<longleftrightarrow> 0 \<notin> set xs \<and> load_bytes m a (length xs) = xs \<and> m (a + of_nat (length xs)) = 0"

text \<open>The addresses of \<open>n\<close> bytes from \<open>a\<close>.\<close>

definition region :: "addr \<Rightarrow> nat \<Rightarrow> addr set" where
  "region a n = {a + of_nat i | i. i < n}"

lemma region_0 [simp]: "region a 0 = {}"
  by (simp add: region_def)

lemma region_Suc: "region a (Suc n) = insert a (region (a + 1) n)"
proof (rule set_eqI)
  fix x
  have "x \<in> region a (Suc n) \<longleftrightarrow> (\<exists>i < Suc n. x = a + of_nat i)" by (auto simp: region_def)
  also have "\<dots> \<longleftrightarrow> x = a \<or> (\<exists>i < n. x = a + 1 + of_nat i)"
    by (simp add: Ex_less_Suc2 ac_simps)
  also have "\<dots> \<longleftrightarrow> x \<in> insert a (region (a + 1) n)" by (auto simp: region_def)
  finally show "x \<in> region a (Suc n) \<longleftrightarrow> x \<in> insert a (region (a + 1) n)" .
qed

lemma in_regionI: "i < n \<Longrightarrow> a + of_nat i \<in> region a n"
  by (auto simp: region_def)

lemma region_offset_iff:
  assumes "i < 2 ^ 32" "n \<le> 2 ^ 32"
  shows "(a + of_nat i :: addr) \<in> region a n \<longleftrightarrow> i < n"
proof
  assume "(a + of_nat i :: addr) \<in> region a n"
  then obtain j where "j < n" "(of_nat i :: addr) = of_nat j" by (auto simp: region_def)
  then have "unat (of_nat i :: addr) = unat (of_nat j :: addr)" by simp
  then show "i < n" using \<open>j < n\<close> assms by (simp add: unat_of_nat)
qed (rule in_regionI)

lemma region_mono: "n \<le> k \<Longrightarrow> region a n \<subseteq> region a k"
  by (auto simp: region_def)

lemma unat_of_nat_u32: "i < 2 ^ 32 \<Longrightarrow> unat (of_nat i :: u32) = i"
  by (simp add: unat_of_nat)

lemma addr_off_inj:
  "i < 2 ^ 32 \<Longrightarrow> j < 2 ^ 32 \<Longrightarrow> (a + of_nat i :: addr) = a + of_nat j \<longleftrightarrow> i = j"
  by (metis add_left_cancel unat_of_nat_u32)

lemma load_bytes_length [simp]: "length (load_bytes m a n) = n"
  by (simp add: load_bytes_def)

lemma load_bytes_nth [simp]: "i < n \<Longrightarrow> load_bytes m a n ! i = m (a + of_nat i)"
  by (simp add: load_bytes_def)

lemma load_bytes_0 [simp]: "load_bytes m a 0 = []"
  by (simp add: load_bytes_def)

lemma load_bytes_Suc: "load_bytes m a (Suc n) = m a # load_bytes m (a + 1) n"
  by (rule nth_equalityI) (auto simp: nth_Cons ac_simps split: nat.splits)

lemma load_bytes_cong:
  "(\<And>x. x \<in> region a n \<Longrightarrow> m x = m' x) \<Longrightarrow> load_bytes m a n = load_bytes m' a n"
  using in_regionI [of _ n a] by (auto simp: load_bytes_def)

lemma store_bytes_other: "x \<notin> region a (length xs) \<Longrightarrow> store_bytes a xs m x = m x"
  by (induction xs arbitrary: a m) (auto simp: region_Suc)

lemma store_bytes_nth:
  assumes "i < length xs" "length xs \<le> 2 ^ 32"
  shows "store_bytes a xs m (a + of_nat i) = xs ! i"
  using assms
proof (induction xs arbitrary: a m i)
  case (Cons x xs)
  show ?case
  proof (cases i)
    case 0
    have "(a + 1) + of_nat j \<noteq> a" if "j < length xs" for j
      using addr_off_inj [of "Suc j" 0 a] that Cons.prems by (simp add: ac_simps)
    then have "a \<notin> region (a + 1) (length xs)" by (auto simp: region_def)
    with 0 show ?thesis by (simp add: store_bytes_other)
  next
    case (Suc j)
    with Cons.IH [of j "a + 1"] Cons.prems show ?thesis by (simp add: ac_simps)
  qed
qed simp

lemma load_store_bytes: "length xs \<le> 2 ^ 32 \<Longrightarrow> load_bytes (store_bytes a xs m) a (length xs) = xs"
  by (rule nth_equalityI) (simp_all add: store_bytes_nth)

lemma store_bytes_append:
  "store_bytes a (xs @ ys) m = store_bytes (a + of_nat (length xs)) ys (store_bytes a xs m)"
  by (induction xs arbitrary: a m) (simp_all add: ac_simps)

subsection \<open>32-bit words in memory\<close>

text \<open>Little-endian 32-bit accesses, as the processor makes them.\<close>

definition load32 :: "bytes \<Rightarrow> addr \<Rightarrow> u32" where
  "load32 m a = ucast (m a) OR push_bit 8 (ucast (m (a + 1)))
     OR push_bit 16 (ucast (m (a + 2))) OR push_bit 24 (ucast (m (a + 3)))"

definition store32 :: "addr \<Rightarrow> u32 \<Rightarrow> bytes \<Rightarrow> bytes" where
  "store32 a v m = m(a := ucast v, a + 1 := ucast (drop_bit 8 v),
     a + 2 := ucast (drop_bit 16 v), a + 3 := ucast (drop_bit 24 v))"

lemma addr_add_neq [simp]:
  "(a :: addr) + 1 \<noteq> a" "a + 2 \<noteq> a" "a + 3 \<noteq> a" "a + 2 \<noteq> a + 1" "a + 3 \<noteq> a + 1" "a + 3 \<noteq> a + 2"
  "(a :: addr) \<noteq> a + 1" "a \<noteq> a + 2" "a \<noteq> a + 3" "a + 1 \<noteq> a + 2" "a + 1 \<noteq> a + 3" "a + 2 \<noteq> a + 3"
  by (simp_all add: eq_commute [of a])

lemma load32_store32 [simp]: "load32 (store32 a v m) a = v"
proof (rule bit_eqI)
  fix n :: nat
  assume "possible_bit TYPE(u32) n"
  then have "n < 32" by simp
  then consider "n < 8" | "8 \<le> n" "n < 16" | "16 \<le> n" "n < 24" | "24 \<le> n" by linarith
  then show "bit (load32 (store32 a v m) a) n = bit v n"
    using \<open>n < 32\<close> by cases (auto simp: load32_def store32_def bit_simps)
qed

definition word_aligned :: "addr \<Rightarrow> bool" where
  "word_aligned a \<longleftrightarrow> a AND 3 = 0"

lemma word_aligned_mod: "word_aligned a \<longleftrightarrow> 4 dvd unat a"
proof -
  have "a AND 3 = a mod 4"
    using take_bit_eq_mask [of 2 a] take_bit_eq_mod [of 2 a] by (simp add: mask_eq_exp_minus_1)
  moreover have "a mod 4 = 0 \<longleftrightarrow> unat a mod 4 = 0"
    by (simp flip: unat_eq_0 add: unat_mod_distrib)
  ultimately show ?thesis by (simp add: word_aligned_def dvd_eq_mod_eq_0)
qed

lemma load32_cong:
  "(\<And>x. x \<in> region a 4 \<Longrightarrow> m x = m' x) \<Longrightarrow> load32 m a = load32 m' a"
  using in_regionI [of 0 4 a] in_regionI [of 1 4 a] in_regionI [of 2 4 a] in_regionI [of 3 4 a]
  by (simp add: load32_def)

lemma store32_other: "x \<notin> region a 4 \<Longrightarrow> store32 a v m x = m x"
  using in_regionI [of 0 4 a] in_regionI [of 1 4 a] in_regionI [of 2 4 a] in_regionI [of 3 4 a]
  by (auto simp: store32_def)

lemma unat_add_lt: "unat a + n < 2 ^ 32 \<Longrightarrow> unat (a + of_nat n :: u32) = unat a + n"
  by (simp add: unat_word_ariths unat_of_nat)

lemma aligned_word_of:
  assumes "word_aligned a" "x \<in> region a 4"
  shows "unat x div 4 = unat a div 4"
proof -
  obtain i where i: "i < 4" "x = a + of_nat i" using assms(2) by (auto simp: region_def)
  obtain k where k: "unat a = 4 * k" using assms(1) by (auto simp: word_aligned_mod elim: dvdE)
  have "unat a < 2 ^ 32" using unsigned_less [of a] by simp
  then have "k < 2 ^ 30" using k by simp
  then have "unat a + i < 2 ^ 32" using i(1) k by simp
  then have "unat x = unat a + i" using i(2) unat_add_lt by blast
  with i(1) k show ?thesis by simp
qed

lemma aligned_disjoint:
  assumes "word_aligned a" "word_aligned b" "a \<noteq> b"
  shows "region a 4 \<inter> region b 4 = {}"
proof -
  have "unat a div 4 \<noteq> unat b div 4"
    using assms by (auto simp: word_aligned_mod word_unat_eq_iff elim!: dvdE)
  then show ?thesis using aligned_word_of [OF assms(1)] aligned_word_of [OF assms(2)] by fastforce
qed

lemma load32_store32_other [simp]:
  assumes "word_aligned a" "word_aligned b" "a \<noteq> b"
  shows "load32 (store32 a v m) b = load32 m b"
  using aligned_disjoint [OF assms] by (intro load32_cong store32_other) auto

lemma load32_store32_if:
  "word_aligned a \<Longrightarrow> word_aligned b \<Longrightarrow>
   load32 (store32 a v m) b = (if a = b then v else load32 m b)"
  by simp

lemma region_sub:
  assumes "k + n \<le> l"
  shows "region (a + of_nat k) n \<subseteq> region a l"
proof
  fix x assume "x \<in> region (a + of_nat k) n"
  then obtain i where "i < n" "x = a + of_nat (k + i)" by (auto simp: region_def add.assoc)
  then show "x \<in> region a l" using assms in_regionI [of "k + i" l a] by simp
qed

lemma region_unat:
  assumes "unat a + n \<le> 2 ^ 32"
  shows "x \<in> region a n \<Longrightarrow> unat a \<le> unat x \<and> unat x < unat a + n"
proof -
  assume "x \<in> region a n"
  then obtain i where i: "i < n" "x = a + of_nat i" by (auto simp: region_def)
  then have "unat x = unat a + i" using unat_add_lt [of a i] assms by simp
  then show ?thesis using i(1) by simp
qed

lemma region_disjoint:
  assumes "unat a + n \<le> 2 ^ 32" "unat b + k \<le> 2 ^ 32" "unat a + n \<le> unat b \<or> unat b + k \<le> unat a"
  shows "region a n \<inter> region b k = {}"
  using region_unat [OF assms(1)] region_unat [OF assms(2)] assms(3) by fastforce

end
