(* ===== verification/Disk.thy ===== *)
theory Disk
  imports Machine Mem
begin

text \<open>
  Reading sectors from the ATA disk, the function \<^verbatim>\<open>read_disk\<close> of
  \<^verbatim>\<open>src/source/kernel/fs/fs.c\<close>: the registers of the drive are written in the two steps of a
  48-bit command, then every sector is read word by word after the drive signalled that data is
  ready. The polling loop may run for ever (\<open>None\<close>).

  \<open>ata\<close> is the part of a drive the code relies on, as a function of the port accesses: each
  register keeps its last two values, the read command takes address and count from them, and each
  word read advances the position. \<open>ata_ok\<close> says that a device delivers the contents of the disk and
  gets ready for every sector.
\<close>

definition SECTOR_SIZE :: nat where "SECTOR_SIZE = 512"

partial_function (option) wait_disk :: "device \<Rightarrow> 'm machine_scheme \<Rightarrow> 'm machine_scheme option" where
  [code]: "wait_disk dev s =
     (let (v, s1) = inb dev 0x1f7 s
      in if v AND 0x88 \<noteq> 0x08 then wait_disk dev s1 else Some s1)"

text \<open>The inner loop stores \<open>n\<close> words from \<open>data_buf\<close> on.\<close>

primrec read_words :: "device \<Rightarrow> nat \<Rightarrow> addr \<Rightarrow> 'm machine_scheme \<Rightarrow> 'm machine_scheme" where
  "read_words dev 0 data_buf s = s"
| "read_words dev (Suc n) data_buf s =
     (let (v, s1) = inw dev 0x1f0 s
      in read_words dev n (data_buf + 2)
           (s1\<lparr>mem := (mem s1)(data_buf := ucast v, data_buf + 1 := ucast (drop_bit 8 v))\<rparr>))"

primrec read_sectors :: "device \<Rightarrow> nat \<Rightarrow> addr \<Rightarrow> 'm machine_scheme \<Rightarrow> 'm machine_scheme option" where
  "read_sectors dev 0 data_buf s = Some s"
| "read_sectors dev (Suc n) data_buf s =
     Option.bind (wait_disk dev s) (\<lambda>s1.
       read_sectors dev n (data_buf + of_nat SECTOR_SIZE) (read_words dev (SECTOR_SIZE div 2) data_buf s1))"

definition read_disk :: "device \<Rightarrow> u32 \<Rightarrow> u32 \<Rightarrow> addr \<Rightarrow> 'm machine_scheme \<Rightarrow> 'm machine_scheme option" where
  "read_disk dev sector sector_count buf s =
     (let s = outb 0x1f6 0xE0 s;
          s = outb 0x1f2 (ucast (drop_bit 8 sector_count)) s;
          s = outb 0x1f3 (ucast (drop_bit 24 sector)) s;
          s = outb 0x1f4 0 s;
          s = outb 0x1f5 0 s;
          s = outb 0x1f2 (ucast sector_count) s;
          s = outb 0x1f3 (ucast sector) s;
          s = outb 0x1f4 (ucast (drop_bit 8 sector)) s;
          s = outb 0x1f5 (ucast (drop_bit 16 sector)) s;
          s = outb 0x1f7 0x24 s
      in read_sectors dev (unat sector_count) buf s)"

subsection \<open>The drive\<close>

text \<open>The registers with their previous contents, the next word and the number of words left.\<close>

record ata_state =
  cnt :: "u8 \<times> u8"
  lba0 :: "u8 \<times> u8"
  lba1 :: "u8 \<times> u8"
  lba2 :: "u8 \<times> u8"
  word_pos :: nat
  words_left :: nat

definition shift_in :: "u8 \<Rightarrow> u8 \<times> u8 \<Rightarrow> u8 \<times> u8" where
  "shift_in v r = (v, fst r)"

definition reg_sum :: "(u8 \<times> u8) list \<Rightarrow> nat" where
  "reg_sum rs = foldr (\<lambda>v n. unat v + 256 * n) (map fst rs @ map snd rs) 0"

definition sector_total :: "u8 \<times> u8 \<Rightarrow> nat" where
  "sector_total r = (if reg_sum [r] = 0 then 65536 else reg_sum [r])"

fun ata_step :: "ata_state \<Rightarrow> port_event \<Rightarrow> ata_state" where
  "ata_step st (PortOut p v) =
     (if p = 0x1f2 then st\<lparr>cnt := shift_in v (cnt st)\<rparr>
      else if p = 0x1f3 then st\<lparr>lba0 := shift_in v (lba0 st)\<rparr>
      else if p = 0x1f4 then st\<lparr>lba1 := shift_in v (lba1 st)\<rparr>
      else if p = 0x1f5 then st\<lparr>lba2 := shift_in v (lba2 st)\<rparr>
      else if p = 0x1f7 \<and> v = 0x24 then
        st\<lparr>word_pos := 256 * reg_sum [lba0 st, lba1 st, lba2 st], words_left := 256 * sector_total (cnt st)\<rparr>
      else st)"
| "ata_step st (PortInW p) =
     (if p = 0x1f0 then st\<lparr>word_pos := word_pos st + 1, words_left := words_left st - 1\<rparr> else st)"
| "ata_step st (PortInB p) = st"

definition ata :: "port_event list \<Rightarrow> ata_state" where
  "ata es = foldl ata_step \<lparr>cnt = (0, 0), lba0 = (0, 0), lba1 = (0, 0), lba2 = (0, 0), word_pos = 0, words_left = 0\<rparr> es"

text \<open>The little-endian word of the disk at a word position.\<close>

definition disk_word :: "(nat \<Rightarrow> u8) \<Rightarrow> nat \<Rightarrow> u16" where
  "disk_word disk k = ucast (disk (2 * k)) OR push_bit 8 (ucast (disk (2 * k + 1)))"

definition ata_ok :: "(nat \<Rightarrow> u8) \<Rightarrow> device \<Rightarrow> bool" where
  "ata_ok disk dev \<longleftrightarrow> (\<forall>h. 0 < words_left (ata h) \<longrightarrow>
     dev h 0x1f0 = disk_word disk (word_pos (ata h))
     \<and> (\<exists>n. (ucast (dev (h @ replicate n (PortInB 0x1f7)) 0x1f7) :: u8) AND 0x88 = 0x08))"

lemma ata_snoc: "ata (es @ [e]) = ata_step (ata es) e"
  by (simp add: ata_def)

lemma ata_status [simp]: "ata (es @ replicate n (PortInB p)) = ata es"
proof -
  have "foldl ata_step st (replicate n (PortInB p)) = st" for st by (induction n) simp_all
  then show ?thesis by (simp add: ata_def)
qed

lemma wait_disk_ready:
  fixes s :: "'m machine_scheme"
  assumes "(ucast (dev (io_log s @ replicate n (PortInB 0x1f7)) 0x1f7) :: u8) AND 0x88 = 0x08"
  shows "\<exists>k. wait_disk dev s = Some (s\<lparr>io_log := io_log s @ replicate k (PortInB 0x1f7)\<rparr>)"
  using assms
proof (induction n arbitrary: s)
  case 0
  then have "wait_disk dev s = Some (s\<lparr>io_log := io_log s @ replicate (Suc 0) (PortInB 0x1f7)\<rparr>)"
    by (subst wait_disk.simps) (simp add: inb_def)
  then show ?case by blast
next
  case (Suc n)
  let ?s = "s\<lparr>io_log := io_log s @ [PortInB 0x1f7]\<rparr>"
  show ?case
  proof (cases "(ucast (dev (io_log s) 0x1f7) :: u8) AND 0x88 = 0x08")
    case True
    then have "wait_disk dev s = Some (s\<lparr>io_log := io_log s @ replicate (Suc 0) (PortInB 0x1f7)\<rparr>)"
      by (subst wait_disk.simps) (simp add: inb_def)
    then show ?thesis by blast
  next
    case False
    then have "wait_disk dev s = wait_disk dev ?s" by (subst wait_disk.simps) (simp add: inb_def)
    moreover have "(ucast (dev (io_log ?s @ replicate n (PortInB 0x1f7)) 0x1f7) :: u8) AND 0x88 = 0x08"
      using Suc.prems by simp
    from Suc.IH [OF this] obtain k where
      "wait_disk dev ?s = Some (?s\<lparr>io_log := io_log ?s @ replicate k (PortInB 0x1f7)\<rparr>)" by blast
    ultimately have "wait_disk dev s = Some (s\<lparr>io_log := io_log s @ replicate (Suc k) (PortInB 0x1f7)\<rparr>)" by simp
    then show ?thesis by blast
  qed
qed

text \<open>Words read advance the drive and give the bytes of the disk.\<close>

definition disk_bytes :: "(nat \<Rightarrow> u8) \<Rightarrow> nat \<Rightarrow> nat \<Rightarrow> u8 list" where
  "disk_bytes disk off n = map (\<lambda>i. disk (off + i)) [0..<n]"

lemma disk_word_bytes: "ucast (disk_word d k) = d (2 * k)" "ucast (drop_bit 8 (disk_word d k)) = d (2 * k + 1)"
proof -
  show "ucast (disk_word d k) = d (2 * k)" by (rule bit_eqI) (auto simp: disk_word_def bit_simps)
  show "ucast (drop_bit 8 (disk_word d k)) = d (2 * k + 1)"
    by (rule bit_eqI) (auto simp: disk_word_def bit_simps dest: bit_imp_le_length)
qed

lemma disk_bytes_split: "disk_bytes disk off (m + n) = disk_bytes disk off m @ disk_bytes disk (off + m) n"
  by (rule nth_equalityI) (auto simp: disk_bytes_def nth_append)

lemma read_words_effect:
  fixes s :: "'m machine_scheme"
  assumes "ata_ok disk dev" "n \<le> words_left (ata (io_log s))"
  shows "\<exists>es. read_words dev n b s = s\<lparr>io_log := es,
      mem := store_bytes b (disk_bytes disk (2 * word_pos (ata (io_log s))) (2 * n)) (mem s)\<rparr>
    \<and> ata es = (ata (io_log s))\<lparr>word_pos := word_pos (ata (io_log s)) + n, words_left := words_left (ata (io_log s)) - n\<rparr>"
  using assms(2)
proof (induction n arbitrary: b s)
  case 0
  then show ?case by (auto simp: disk_bytes_def intro: exI [of _ "io_log s"])
next
  case (Suc n)
  let ?p = "word_pos (ata (io_log s))"
  let ?m = "(mem s)(b := disk (2 * ?p), b + 1 := disk (2 * ?p + 1))"
  let ?s = "s\<lparr>io_log := io_log s @ [PortInW 0x1f0], mem := ?m\<rparr>"
  have "dev (io_log s) 0x1f0 = disk_word disk ?p" using assms(1) Suc.prems by (simp add: ata_ok_def)
  then have step: "read_words dev (Suc n) b s = read_words dev n (b + 2) ?s"
    by (simp add: inw_def disk_word_bytes)
  have a: "ata (io_log ?s) = (ata (io_log s))\<lparr>word_pos := ?p + 1, words_left := words_left (ata (io_log s)) - 1\<rparr>"
    by (simp add: ata_snoc)
  then have "n \<le> words_left (ata (io_log ?s))" using Suc.prems by simp
  from Suc.IH [OF this, of "b + 2"] obtain es where ih:
    "read_words dev n (b + 2) ?s = ?s\<lparr>io_log := es,
       mem := store_bytes (b + 2) (disk_bytes disk (2 * (?p + 1)) (2 * n)) (mem ?s)\<rparr>"
    "ata es = (ata (io_log ?s))\<lparr>word_pos := word_pos (ata (io_log ?s)) + n, words_left := words_left (ata (io_log ?s)) - n\<rparr>"
    unfolding a by (auto simp del: fun_upd_apply)
  have "disk_bytes disk (2 * ?p) (2 + 2 * n) = [disk (2 * ?p), disk (2 * ?p + 1)] @ disk_bytes disk (2 * (?p + 1)) (2 * n)"
    unfolding disk_bytes_split by (simp add: disk_bytes_def upt_rec)
  then have "store_bytes b (disk_bytes disk (2 * ?p) (2 * Suc n)) (mem s)
      = store_bytes (b + 2) (disk_bytes disk (2 * (?p + 1)) (2 * n)) ?m"
    by (simp add: add.assoc)
  with ih step a show ?case by (intro exI [of _ es]) (simp del: fun_upd_apply)
qed

lemma read_sectors_effect:
  fixes s :: "'m machine_scheme"
  assumes "ata_ok disk dev" "256 * n \<le> words_left (ata (io_log s))"
  shows "\<exists>es. read_sectors dev n b s = Some (s\<lparr>io_log := es,
      mem := store_bytes b (disk_bytes disk (2 * word_pos (ata (io_log s))) (512 * n)) (mem s)\<rparr>)"
  using assms(2)
proof (induction n arbitrary: b s)
  case 0
  then show ?case by (auto simp: disk_bytes_def intro: exI [of _ "io_log s"])
next
  case (Suc n)
  let ?p = "word_pos (ata (io_log s))"
  have "0 < words_left (ata (io_log s))" using Suc.prems by simp
  then obtain j where "(ucast (dev (io_log s @ replicate j (PortInB 0x1f7)) 0x1f7) :: u8) AND 0x88 = 0x08"
    using assms(1) by (auto simp: ata_ok_def)
  from wait_disk_ready [of dev s, OF this] obtain k where
    w: "wait_disk dev s = Some (s\<lparr>io_log := io_log s @ replicate k (PortInB 0x1f7)\<rparr>)" by blast
  let ?s = "s\<lparr>io_log := io_log s @ replicate k (PortInB 0x1f7)\<rparr>"
  have "256 \<le> words_left (ata (io_log ?s))" using Suc.prems by simp
  from read_words_effect [OF assms(1) this, of b] obtain es where r:
    "read_words dev 256 b ?s = ?s\<lparr>io_log := es, mem := store_bytes b (disk_bytes disk (2 * ?p) 512) (mem s)\<rparr>"
    "ata es = (ata (io_log s))\<lparr>word_pos := ?p + 256, words_left := words_left (ata (io_log s)) - 256\<rparr>" by auto
  let ?t = "s\<lparr>io_log := es, mem := store_bytes b (disk_bytes disk (2 * ?p) 512) (mem s)\<rparr>"
  have "256 * n \<le> words_left (ata (io_log ?t))" using Suc.prems r(2) by simp
  from Suc.IH [OF this, of "b + 512"] obtain es2 where ih:
    "read_sectors dev n (b + 512) ?t = Some (?t\<lparr>io_log := es2,
       mem := store_bytes (b + 512) (disk_bytes disk (2 * (?p + 256)) (512 * n)) (mem ?t)\<rparr>)" using r(2) by auto
  have "length (disk_bytes disk (2 * ?p) 512) = 512" by (simp add: disk_bytes_def)
  then have "store_bytes b (disk_bytes disk (2 * ?p) (512 + 512 * n)) (mem s) =
      store_bytes (b + 512) (disk_bytes disk (2 * (?p + 256)) (512 * n)) (store_bytes b (disk_bytes disk (2 * ?p) 512) (mem s))"
    unfolding disk_bytes_split store_bytes_append by (simp add: algebra_simps)
  then have "s\<lparr>io_log := es2, mem := store_bytes b (disk_bytes disk (2 * ?p) (512 * Suc n)) (mem s)\<rparr> =
      ?t\<lparr>io_log := es2, mem := store_bytes (b + 512) (disk_bytes disk (2 * (?p + 256)) (512 * n)) (mem ?t)\<rparr>" by simp
  moreover have "read_sectors dev (Suc n) b s = read_sectors dev n (b + 512) ?t" using w r(1) by (simp add: SECTOR_SIZE_def)
  ultimately show ?case using ih by metis
qed

lemma unat_byte_of: "unat (ucast (drop_bit k (v :: u32)) :: u8) = unat v div 2 ^ k mod 256"
proof -
  have "unat (ucast (drop_bit k v) :: u8) = take_bit 8 (drop_bit k (unat v))"
    using take_bit_nat_eq_self [of "unat v" 32] unsigned_less [of v, where 'a = nat]
    by (simp add: unsigned_ucast_eq unsigned_drop_bit_eq)
  then show ?thesis by (simp add: take_bit_eq_mod drop_bit_eq_div)
qed

lemma reg_sum_lba:
  "reg_sum [(ucast v, ucast (drop_bit 24 v)), (ucast (drop_bit 8 v), 0), (ucast (drop_bit 16 v), 0)] = unat (v :: u32)"
proof -
  note u = unat_byte_of [of _ v]
  have "unat v < 2 ^ 32" using unsigned_less [of v] by simp
  moreover have "unat v = unat v mod 256 + 256 * (unat v div 256 mod 256) + 65536 * (unat v div 65536 mod 256)
      + 16777216 * (unat v div 16777216)"
  proof -
    have "unat v div 65536 = unat v div 256 div 256" "unat v div 16777216 = unat v div 65536 div 256"
      by (simp_all add: div_mult2_eq [symmetric])
    then have "unat v div 256 = 256 * (unat v div 65536) + unat v div 256 mod 256"
      "unat v div 65536 = 256 * (unat v div 16777216) + unat v div 65536 mod 256"
      by (metis mult_div_mod_eq)+
    moreover have "unat v = 256 * (unat v div 256) + unat v mod 256" by (metis mult_div_mod_eq)
    ultimately show ?thesis by linarith
  qed
  ultimately show ?thesis using u [of 0] u [of 8] u [of 16] u [of 24] by (simp add: reg_sum_def)
qed

lemma read_disk_effect:
  assumes "ata_ok disk dev" and "0 < unat n" and "unat n < 2 ^ 16"
  shows "\<exists>es. read_disk dev sector n buf s = Some (s\<lparr>io_log := es,
    mem := store_bytes buf (disk_bytes disk (SECTOR_SIZE * unat sector) (SECTOR_SIZE * unat n)) (mem s)\<rparr>)"
proof -
  let ?es = "[PortOut 0x1f6 0xE0, PortOut 0x1f2 (ucast (drop_bit 8 n)), PortOut 0x1f3 (ucast (drop_bit 24 sector)),
    PortOut 0x1f4 0, PortOut 0x1f5 0, PortOut 0x1f2 (ucast n), PortOut 0x1f3 (ucast sector),
    PortOut 0x1f4 (ucast (drop_bit 8 sector)), PortOut 0x1f5 (ucast (drop_bit 16 sector)), PortOut 0x1f7 0x24]"
  let ?s = "s\<lparr>io_log := io_log s @ ?es\<rparr>"
  have r: "read_disk dev sector n buf s = read_sectors dev (unat n) buf ?s"
    by (simp add: read_disk_def outb_def Let_def)
  have c: "reg_sum [(ucast n, ucast (drop_bit 8 n))] = unat n"
    using assms(3) unat_byte_of [of 0 n] unat_byte_of [of 8 n] by (simp add: reg_sum_def)
  have "word_pos (ata (io_log ?s)) = 256 * unat sector" "words_left (ata (io_log ?s)) = 256 * unat n"
    using reg_sum_lba [of sector] c assms(2) by (simp_all add: ata_def shift_in_def sector_total_def)
  then show ?thesis using read_sectors_effect [OF assms(1), of "unat n" ?s buf] r
    by (auto simp: SECTOR_SIZE_def mult.assoc [symmetric])
qed

text \<open>Reading from disk. On a drive that behaves like \<open>ata\<close>, a read of 1 to 65535 sectors
  returns, and memory is changed exactly by storing the bytes of these sectors at the buffer.\<close>

theorem read_disk_loads:
  assumes "ata_ok disk dev" and "0 < unat n" and "unat n < 2 ^ 16"
  shows "\<exists>es. read_disk dev sector n buf s = Some (s\<lparr>io_log := es,
    mem := store_bytes buf (disk_bytes disk (SECTOR_SIZE * unat sector) (SECTOR_SIZE * unat n)) (mem s)\<rparr>)"
  by (rule read_disk_effect [OF assms])

text \<open>A disk whose byte \<open>i\<close> is \<open>i\<close> modulo 256, and a drive that is always ready.\<close>

definition demo_disk :: "nat \<Rightarrow> u8" where
  "demo_disk i = of_nat i"

definition demo_drive :: device where
  "demo_drive h p = (if p = 0x1f0 then disk_word demo_disk (word_pos (ata h)) else 0x08)"

lemma demo_drive_ok: "ata_ok demo_disk demo_drive"
  by (simp add: ata_ok_def demo_drive_def)

theorem read_disk_loads_witness:
  "\<exists>es. read_disk demo_drive 3 2 0x9000
      \<lparr>eflags = 2, cr0_reg = 0, cr2_reg = 0, cr3_reg = 0, cr4_reg = 0, tr_reg = 0, gdtr = make_table_reg 0 0,
       idtr = make_table_reg 0 0, io_log = [], mem = \<lambda>_. 0\<rparr> =
    Some \<lparr>eflags = 2, cr0_reg = 0, cr2_reg = 0, cr3_reg = 0, cr4_reg = 0, tr_reg = 0, gdtr = make_table_reg 0 0,
       idtr = make_table_reg 0 0, io_log = es, mem = store_bytes 0x9000 (disk_bytes demo_disk 1536 1024) (\<lambda>_. 0)\<rparr>"
  using read_disk_loads [OF demo_drive_ok, of 2 3 "0x9000" "\<lparr>eflags = 2, cr0_reg = 0, cr2_reg = 0, cr3_reg = 0,
    cr4_reg = 0, tr_reg = 0, gdtr = make_table_reg 0 0, idtr = make_table_reg 0 0, io_log = [], mem = \<lambda>_. 0\<rparr>"]
  by (simp add: SECTOR_SIZE_def)

end
