(* ===== verification/Klib.thy ===== *)
theory Klib
  imports Mem
begin

text \<open>
  The string, memory and formatting routines of \<^verbatim>\<open>src/source/kernel/tools/klib.c\<close> and
  \<^verbatim>\<open>klib.h\<close>, on the byte memory. A loop that runs to a NUL byte, or until it has divided a
  number down to zero, yields \<open>None\<close> if it never ends; loops that count a size are total: a C
  \<^verbatim>\<open>int size\<close> that is decremented to zero makes \<open>unat size\<close> turns.
\<close>

subsection \<open>Alignment\<close>

definition up2 :: "u32 \<Rightarrow> u32 \<Rightarrow> u32" where
  "up2 sz bound = (sz + bound - 1) AND NOT (bound - 1)"

definition down2 :: "u32 \<Rightarrow> u32 \<Rightarrow> u32" where
  "down2 sz bound = sz AND NOT (bound - 1)"

subsection \<open>Strings\<close>

partial_function (option) kstrcpy_loop :: "addr \<Rightarrow> addr \<Rightarrow> bytes \<Rightarrow> bytes option" where
  [code]: "kstrcpy_loop dest src m =
     (if m dest \<noteq> 0 \<and> m src \<noteq> 0 then kstrcpy_loop (dest + 1) (src + 1) (m(dest := m src))
      else Some (m(dest := 0)))"

definition kstrcpy :: "addr \<Rightarrow> addr \<Rightarrow> bytes \<Rightarrow> bytes option" where
  "kstrcpy dest src m = (if dest = 0 \<or> src = 0 then Some m else kstrcpy_loop dest src m)"

text \<open>
  The loop of \<^verbatim>\<open>kstrncpy\<close>, with \<open>size\<close> a signed number (it ends at \<open>-1\<close> when the
  size is used up), the write pointer and the read pointer.
\<close>

function kstrncpy_loop :: "addr \<Rightarrow> addr \<Rightarrow> int \<Rightarrow> bytes \<Rightarrow> addr \<times> int \<times> bytes" where
  "kstrncpy_loop d s n m =
     (if 0 < n \<and> m s \<noteq> 0 then kstrncpy_loop (d + 1) (s + 1) (n - 1) (m(d := m s))
      else (d, n - 1, m))"
  by pat_completeness auto
termination by (relation "measure (\<lambda>(d, s, n, m). nat n)") auto

declare kstrncpy_loop.simps [simp del]

definition kstrncpy :: "addr \<Rightarrow> addr \<Rightarrow> int \<Rightarrow> bytes \<Rightarrow> bytes" where
  "kstrncpy dest src sz m =
     (if dest = 0 \<or> src = 0 \<or> sz = 0 then m
      else let (d, n, m1) = kstrncpy_loop dest src sz m
           in if n = 0 then m1(d - 1 := 0) else m1(d := 0))"

partial_function (option) kstrlen_loop :: "addr \<Rightarrow> u32 \<Rightarrow> bytes \<Rightarrow> u32 option" where
  [code]: "kstrlen_loop c len m = (if m c \<noteq> 0 then kstrlen_loop (c + 1) (len + 1) m else Some len)"

definition kstrlen :: "addr \<Rightarrow> bytes \<Rightarrow> u32 option" where
  "kstrlen str m = (if str = 0 then Some 0 else kstrlen_loop str 0 m)"

text \<open>The size only has to be non-zero: it is never decremented.\<close>

partial_function (option) kstrncmp_loop :: "addr \<Rightarrow> addr \<Rightarrow> u32 \<Rightarrow> bytes \<Rightarrow> (addr \<times> addr) option" where
  [code]: "kstrncmp_loop s1 s2 sz m =
     (if m s1 \<noteq> 0 \<and> m s2 \<noteq> 0 \<and> m s1 = m s2 \<and> sz \<noteq> 0 then kstrncmp_loop (s1 + 1) (s2 + 1) sz m
      else Some (s1, s2))"

definition kstrncmp :: "addr \<Rightarrow> addr \<Rightarrow> u32 \<Rightarrow> bytes \<Rightarrow> int option" where
  "kstrncmp s1 s2 sz m =
     (if s1 = 0 \<or> s2 = 0 then Some (-1)
      else map_option (\<lambda>(p, q). if m p = 0 \<or> m q = 0 \<or> m p = m q then 0 else 1)
             (kstrncmp_loop s1 s2 sz m))"

subsection \<open>Memory\<close>

primrec kmemcpy_loop :: "nat \<Rightarrow> addr \<Rightarrow> addr \<Rightarrow> bytes \<Rightarrow> bytes" where
  "kmemcpy_loop 0 d s m = m"
| "kmemcpy_loop (Suc n) d s m = kmemcpy_loop n (d + 1) (s + 1) (m(d := m s))"

definition kmemcpy :: "addr \<Rightarrow> addr \<Rightarrow> u32 \<Rightarrow> bytes \<Rightarrow> bytes" where
  "kmemcpy dest src sz m =
     (if dest = 0 \<or> src = 0 \<or> sz = 0 then m else kmemcpy_loop (unat sz) dest src m)"

primrec kmemset_loop :: "nat \<Rightarrow> addr \<Rightarrow> u8 \<Rightarrow> bytes \<Rightarrow> bytes" where
  "kmemset_loop 0 d v m = m"
| "kmemset_loop (Suc n) d v m = kmemset_loop n (d + 1) v (m(d := v))"

definition kmemset :: "addr \<Rightarrow> u8 \<Rightarrow> u32 \<Rightarrow> bytes \<Rightarrow> bytes" where
  "kmemset dest v sz m = (if dest = 0 \<or> sz = 0 then m else kmemset_loop (unat sz) dest v m)"

primrec kmemcmp_loop :: "nat \<Rightarrow> addr \<Rightarrow> addr \<Rightarrow> bytes \<Rightarrow> int" where
  "kmemcmp_loop 0 p q m = 0"
| "kmemcmp_loop (Suc n) p q m = (if m p \<noteq> m q then 1 else kmemcmp_loop n (p + 1) (q + 1) m)"

definition kmemcmp :: "addr \<Rightarrow> addr \<Rightarrow> u32 \<Rightarrow> bytes \<Rightarrow> int" where
  "kmemcmp d1 d2 sz m = (if d1 = 0 \<or> d2 = 0 then 1 else kmemcmp_loop (unat sz) d1 d2 m)"

subsection \<open>Numbers\<close>

text \<open>The characters \<^verbatim>\<open>"FEDCBA9876543210123456789ABCDEF"\<close>; index 15 is the digit 0.\<close>

definition num2ch :: "u8 list" where
  "num2ch = [70, 69, 68, 67, 66, 65, 57, 56, 55, 54, 53, 52, 51, 50, 49, 48,
     49, 50, 51, 52, 53, 54, 55, 56, 57, 65, 66, 67, 68, 69, 70]"

text \<open>The two \<^verbatim>\<open>do ... while\<close> loops; they yield the pointer behind the last digit.\<close>

partial_function (option) kitoa_signed :: "int \<Rightarrow> int \<Rightarrow> addr \<Rightarrow> bytes \<Rightarrow> (addr \<times> bytes) option" where
  [code]: "kitoa_signed num base p m =
     (let m1 = m(p := num2ch ! nat (num smod base + 15)); num1 = num sdiv base
      in if num1 \<noteq> 0 then kitoa_signed num1 base (p + 1) m1 else Some (p + 1, m1))"

partial_function (option) kitoa_unsigned :: "u32 \<Rightarrow> u32 \<Rightarrow> addr \<Rightarrow> bytes \<Rightarrow> (addr \<times> bytes) option" where
  [code]: "kitoa_unsigned u base p m =
     (let m1 = m(p := num2ch ! unat (u mod base + 15)); u1 = u div base
      in if u1 \<noteq> 0 then kitoa_unsigned u1 base (p + 1) m1 else Some (p + 1, m1))"

function kitoa_reverse :: "addr \<Rightarrow> addr \<Rightarrow> bytes \<Rightarrow> bytes" where
  "kitoa_reverse start p m =
     (if start < p then kitoa_reverse (start + 1) (p - 1) (m(start := m p, p := m start)) else m)"
  by pat_completeness auto
termination
proof (relation "measure (\<lambda>(start, p, m). unat p)", simp, goal_cases)
  case (1 start p m)
  then have "p \<noteq> 0" by auto
  then show ?case by (simp add: unat_minus_one word_less_nat_alt [symmetric] unat_gt_0)
qed

declare kitoa_reverse.simps [simp del]

definition kitoa :: "addr \<Rightarrow> u32 \<Rightarrow> u32 \<Rightarrow> bytes \<Rightarrow> bytes option" where
  "kitoa buf num base m =
     (if base \<noteq> 2 \<and> base \<noteq> 8 \<and> base \<noteq> 10 \<and> base \<noteq> 16 then Some (m(buf := 0))
      else let signed_num = (sint num < 0 \<and> base = 10);
               (p, m1) = (if signed_num then (buf + 1, m(buf := 45)) else (buf, m))
           in map_option (\<lambda>(p, m2).
                let m3 = m2(p := 0)
                in kitoa_reverse (if \<not> signed_num then buf else buf + 1) (p - 1) m3)
              (if signed_num then kitoa_signed (sint num) (sint base) p m1
               else kitoa_unsigned num base p m1))"

subsection \<open>Formatting\<close>

datatype fmt_state = NORMAL | READ_FMT

text \<open>
  \<^verbatim>\<open>kvsprintf\<close>; the variable arguments are a list of 32-bit words (an argument that is not
  there is a fault, \<open>None\<close>). \<open>copy_str\<close> is the inner loop of the format \<^verbatim>\<open>%s\<close>.
\<close>

primrec copy_str :: "nat \<Rightarrow> addr \<Rightarrow> addr \<Rightarrow> bytes \<Rightarrow> bytes" where
  "copy_str 0 d s m = m"
| "copy_str (Suc n) d s m = copy_str n (d + 1) (s + 1) (m(d := m s))"

partial_function (option) kvsprintf_loop ::
    "fmt_state \<Rightarrow> addr \<Rightarrow> addr \<Rightarrow> u32 list \<Rightarrow> bytes \<Rightarrow> (addr \<times> bytes) option" where
  [code]: "kvsprintf_loop st fmt d args m =
     (let ch = m fmt; fmt = fmt + 1
      in if ch = 0 then Some (d, m)
         else case st of
           NORMAL \<Rightarrow>
             if ch = 37 then kvsprintf_loop READ_FMT fmt d args m
             else kvsprintf_loop NORMAL fmt (d + 1) args (m(d := ch))
         | READ_FMT \<Rightarrow>
             if ch = 100 then
               (case args of [] \<Rightarrow> None
                | num # args' \<Rightarrow> Option.bind (kitoa d num 10 m) (\<lambda>m1.
                    Option.bind (kstrlen d m1) (\<lambda>len. kvsprintf_loop NORMAL fmt (d + len) args' m1)))
             else if ch = 120 then
               (case args of [] \<Rightarrow> None
                | num # args' \<Rightarrow> Option.bind (kitoa (d + 2) num 16 (m(d := 48, d + 1 := 120))) (\<lambda>m1.
                    Option.bind (kstrlen (d + 2) m1) (\<lambda>len. kvsprintf_loop NORMAL fmt (d + 2 + len) args' m1)))
             else if ch = 99 then
               (case args of [] \<Rightarrow> None
                | c # args' \<Rightarrow> kvsprintf_loop NORMAL fmt (d + 1) args' (m(d := ucast c)))
             else if ch = 115 then
               (case args of [] \<Rightarrow> None
                | str # args' \<Rightarrow> Option.bind (kstrlen str m) (\<lambda>len.
                    kvsprintf_loop NORMAL fmt (d + len) args' (copy_str (unat len) d str m)))
             else kvsprintf_loop NORMAL fmt d args m)"

definition kvsprintf :: "addr \<Rightarrow> addr \<Rightarrow> u32 list \<Rightarrow> bytes \<Rightarrow> bytes option" where
  "kvsprintf buffer fmt args m = map_option snd (kvsprintf_loop NORMAL fmt buffer args m)"

definition ksprintf :: "addr \<Rightarrow> addr \<Rightarrow> u32 list \<Rightarrow> bytes \<Rightarrow> bytes option" where
  "ksprintf buf fmt args m = kvsprintf buf fmt args m"

subsection \<open>Argument vectors and paths\<close>

partial_function (option) strings_count_loop :: "addr \<Rightarrow> u32 \<Rightarrow> bytes \<Rightarrow> u32 option" where
  [code]: "strings_count_loop start count m =
     (if load32 m start \<noteq> 0 then strings_count_loop (start + 4) (count + 1) m else Some count)"

definition strings_count :: "addr \<Rightarrow> bytes \<Rightarrow> u32 option" where
  "strings_count start m = (if start \<noteq> 0 then strings_count_loop start 0 m else Some 0)"

partial_function (option) file_name_end :: "addr \<Rightarrow> bytes \<Rightarrow> addr option" where
  [code]: "file_name_end s m = (if m s \<noteq> 0 then file_name_end (s + 1) m else Some s)"

partial_function (option) file_name_back :: "addr \<Rightarrow> addr \<Rightarrow> bytes \<Rightarrow> addr option" where
  [code]: "file_name_back name s m =
     (if m s \<noteq> 92 \<and> m s \<noteq> 47 \<and> name \<le> s then file_name_back name (s - 1) m else Some s)"

definition get_file_name :: "addr \<Rightarrow> bytes \<Rightarrow> addr option" where
  "get_file_name name m =
     Option.bind (file_name_end name m) (\<lambda>s. map_option (\<lambda>s. s + 1) (file_name_back name s m))"

subsection \<open>Copying and filling\<close>

lemma store_bytes_cong_upd:
  "x \<notin> region a (length xs) \<Longrightarrow> store_bytes a xs (m(x := v)) = (store_bytes a xs m)(x := v)"
proof (induction xs arbitrary: a m)
  case (Cons y ys)
  then have "x \<noteq> a" "x \<notin> region (a + 1) (length ys)" by (auto simp: region_Suc)
  then show ?case
    using Cons.IH [of "a + 1" "m(a := y)"] fun_upd_twist [of x a m v y]
    by (simp del: fun_upd_apply)
qed simp

lemma kmemcpy_loop_eq:
  assumes "region d n \<inter> region s n = {}"
  shows "kmemcpy_loop n d s m = store_bytes d (load_bytes m s n) m"
  using assms
proof (induction n arbitrary: d s m)
  case (Suc n)
  have "d \<notin> region (s + 1) n" "region (d + 1) n \<inter> region (s + 1) n = {}"
    using Suc.prems by (auto simp: region_Suc)
  then have "load_bytes (m(d := m s)) (s + 1) n = load_bytes m (s + 1) n"
    by (intro load_bytes_cong) auto
  with Suc.IH [OF \<open>region (d + 1) n \<inter> region (s + 1) n = {}\<close>, of "m(d := m s)"] show ?case
    by (simp only: kmemcpy_loop.simps load_bytes_Suc store_bytes.simps)
qed simp

lemma kmemset_loop_eq: "kmemset_loop n d v m = store_bytes d (replicate n v) m"
  by (induction n arbitrary: d m) auto

lemma copy_str_eq: "copy_str n d s m = kmemcpy_loop n d s m"
  by (induction n arbitrary: d s m) auto

lemma kmemcmp_loop_eq:
  "kmemcmp_loop n p q m = (if load_bytes m p n = load_bytes m q n then 0 else 1)"
  by (induction n arbitrary: p q) (auto simp: load_bytes_Suc)

subsection \<open>Strings\<close>

lemma cstring_Nil [simp]: "cstring m a [] \<longleftrightarrow> m a = 0"
  by (simp add: cstring_def)

lemma cstring_Cons: "cstring m a (x # xs) \<longleftrightarrow> x \<noteq> 0 \<and> m a = x \<and> cstring m (a + 1) xs"
  by (auto simp: cstring_def load_bytes_Suc ac_simps)

lemma cstring_cong:
  "cstring m a xs \<Longrightarrow> (\<And>x. x \<in> region a (Suc (length xs)) \<Longrightarrow> m' x = m x) \<Longrightarrow> cstring m' a xs"
proof (induction xs arbitrary: a)
  case (Cons x xs)
  have "cstring m' (a + 1) xs"
    using Cons.prems by (intro Cons.IH) (auto simp: cstring_Cons region_Suc [of a])
  with Cons.prems show ?case by (simp add: cstring_Cons region_Suc)
qed (simp add: region_Suc)

lemma cstring_unique: "cstring m a xs \<Longrightarrow> cstring m a ys \<Longrightarrow> xs = ys"
proof (induction xs arbitrary: a ys)
  case (Cons x xs)
  then show ?case by (cases ys) (auto simp: cstring_Cons)
qed (case_tac ys; auto simp: cstring_Cons)

lemma kstrlen_loop_eq: "cstring m c xs \<Longrightarrow> kstrlen_loop c len m = Some (len + of_nat (length xs))"
proof (induction xs arbitrary: c len)
  case Nil
  then show ?case by (subst kstrlen_loop.simps) simp
next
  case (Cons x xs)
  then show ?case by (subst kstrlen_loop.simps) (simp add: cstring_Cons ac_simps)
qed

lemma kstrlen_eq: "cstring m c xs \<Longrightarrow> c \<noteq> 0 \<Longrightarrow> kstrlen c m = Some (of_nat (length xs))"
  by (simp add: kstrlen_def kstrlen_loop_eq)

text \<open>
  \<open>kstrncpy_loop\<close> copies the string or its first \<open>n\<close> characters, provided that no character of
  the source is overwritten before it is read.
\<close>

lemma kstrncpy_loop_eq:
  assumes "cstring m s xs" and "0 \<le> n" and "region d (length xs) \<inter> region s (Suc (length xs)) = {}"
  shows "kstrncpy_loop d s n m =
    (let c = min (nat n) (length xs)
     in (d + of_nat c, n - int c - 1, store_bytes d (take c xs) m))"
  using assms
proof (induction xs arbitrary: d s n m)
  case Nil
  then show ?case by (subst kstrncpy_loop.simps) simp
next
  case (Cons x xs)
  show ?case
  proof (cases "n = 0")
    case True
    then show ?thesis by (subst kstrncpy_loop.simps) simp
  next
    case False
    have "d \<notin> region (s + 1) (Suc (length xs))"
      "region (d + 1) (length xs) \<inter> region (s + 1) (Suc (length xs)) = {}"
      using Cons.prems(3) by (auto simp: region_Suc)
    moreover have "cstring (m(d := x)) (s + 1) xs"
    proof (rule cstring_cong [of m])
      show "cstring m (s + 1) xs" using Cons.prems(1) by (simp add: cstring_Cons)
    qed (use calculation(1) in auto)
    ultimately have "kstrncpy_loop (d + 1) (s + 1) (n - 1) (m(d := x)) =
      (let c = min (nat (n - 1)) (length xs)
       in (d + 1 + of_nat c, n - 1 - int c - 1, store_bytes (d + 1) (take c xs) (m(d := x))))"
      using Cons.prems(2) False Cons.IH [of "m(d := x)" "s + 1" "n - 1" "d + 1"]
      by (simp del: fun_upd_apply)
    moreover obtain k where "nat n = Suc k" "nat (n - 1) = k"
      using False Cons.prems(2) by (cases "nat n") auto
    ultimately show ?thesis
      using False Cons.prems(1,2)
      by (subst kstrncpy_loop.simps) (simp add: cstring_Cons Let_def ac_simps del: fun_upd_apply)
  qed
qed

subsection \<open>Printing numbers\<close>

text \<open>The digits of a number, least significant first, and how the characters read back.\<close>

function digits_le :: "nat \<Rightarrow> nat \<Rightarrow> nat list" where
  "digits_le b n = (n mod b) # (if n div b = 0 \<or> b < 2 then [] else digits_le b (n div b))"
  by pat_completeness auto
termination
  by (relation "measure snd") (auto simp: div_greater_zero_iff)

declare digits_le.simps [simp del]

definition digit_ch :: "nat \<Rightarrow> u8" where
  "digit_ch d = num2ch ! (15 + d)"

definition digit_val :: "u8 \<Rightarrow> nat" where
  "digit_val c = (if c < 58 then unat c - 48 else unat c - 55)"

definition parse_nat :: "nat \<Rightarrow> u8 list \<Rightarrow> nat" where
  "parse_nat b cs = foldl (\<lambda>v c. v * b + digit_val c) 0 cs"

definition parse_int :: "nat \<Rightarrow> u8 list \<Rightarrow> int" where
  "parse_int b cs = (case cs of [] \<Rightarrow> 0
     | c # cs' \<Rightarrow> if c = 45 then - int (parse_nat b cs') else int (parse_nat b cs))"

lemma digit_ch_facts:
  assumes "d < 16"
  shows "digit_val (digit_ch d) = d" and "digit_ch d \<noteq> 0" and "digit_ch d \<noteq> 45"
    and "num2ch ! (15 - d) = digit_ch d"
proof -
  have "list_all (\<lambda>d. digit_val (digit_ch d) = d \<and> digit_ch d \<noteq> 0 \<and> digit_ch d \<noteq> 45
      \<and> num2ch ! (15 - d) = digit_ch d) [0..<16]"
    by code_simp
  then have "digit_val (digit_ch d) = d \<and> digit_ch d \<noteq> 0 \<and> digit_ch d \<noteq> 45 \<and> num2ch ! (15 - d) = digit_ch d"
    using assms by (simp only: list_all_iff set_upt) auto
  then show "digit_val (digit_ch d) = d" "digit_ch d \<noteq> 0" "digit_ch d \<noteq> 45"
    "num2ch ! (15 - d) = digit_ch d" by auto
qed

lemma digits_le_bound: "2 \<le> b \<Longrightarrow> d \<in> set (digits_le b n) \<Longrightarrow> d < b"
proof (induction b n rule: digits_le.induct)
  case (1 b n)
  from "1.prems"(2) have "d = n mod b \<or> n div b \<noteq> 0 \<and> d \<in> set (digits_le b (n div b))"
    by (subst (asm) digits_le.simps) (auto split: if_splits)
  with 1 show ?case by auto
qed

lemma digits_le_value: "2 \<le> b \<Longrightarrow> foldr (\<lambda>d v. v * b + d) (digits_le b n) 0 = n"
  by (induction b n rule: digits_le.induct) (subst digits_le.simps, auto simp: div_eq_0_iff)

lemma digits_le_length: "2 \<le> b \<Longrightarrow> n < b ^ Suc k \<Longrightarrow> length (digits_le b n) \<le> Suc k"
proof (induction k arbitrary: n)
  case 0
  then show ?case by (subst digits_le.simps) simp
next
  case (Suc k)
  have "n div b < b ^ Suc k"
    using Suc.prems by (simp add: less_mult_imp_div_less mult.commute)
  with Suc.IH [of "n div b"] Suc.prems(1) show ?case by (subst digits_le.simps) simp
qed

lemma parse_rev_digits:
  assumes "2 \<le> b" "b \<le> 16"
  shows "parse_nat b (rev (map digit_ch (digits_le b n))) = n"
proof -
  have eq: "foldr (\<lambda>c v. v * b + digit_val c) (map digit_ch ds) 0 = foldr (\<lambda>d v. v * b + d) ds 0"
    if "\<forall>d \<in> set ds. d < 16" for ds
    using that by (induction ds) (auto simp: digit_ch_facts)
  have "\<forall>d \<in> set (digits_le b n). d < 16"
    using digits_le_bound [OF assms(1)] assms(2) by (auto intro: order.strict_trans2)
  from eq [OF this] show ?thesis
    using digits_le_value [OF assms(1), of n] by (simp add: parse_nat_def foldl_conv_foldr)
qed

lemma digits_le_chars:
  assumes "2 \<le> b" "b \<le> 16" "c \<in> set (map digit_ch (digits_le b n))"
  shows "c \<noteq> 0" and "c \<noteq> 45"
  using assms digits_le_bound [of b _ n] digit_ch_facts(2,3) by fastforce+

lemma kitoa_unsigned_eq:
  assumes "2 \<le> unat base" "unat base \<le> 16"
  shows "kitoa_unsigned u base p m =
    Some (p + of_nat (length (digits_le (unat base) (unat u))),
          store_bytes p (map digit_ch (digits_le (unat base) (unat u))) m)"
  using assms
proof (induction "unat u" arbitrary: u p m rule: less_induct)
  case less
  have "unat (u mod base + 15) = unat u mod unat base + 15"
  proof -
    have "unat u mod unat base < 16" using assms mod_less_divisor [of "unat base" "unat u"] by linarith
    then show ?thesis by (simp add: unat_word_ariths unat_mod_distrib)
  qed
  then have ch: "num2ch ! unat (u mod base + 15) = digit_ch (unat u mod unat base)"
    by (simp add: digit_ch_def ac_simps)
  have dv: "unat (u div base) = unat u div unat base" by (simp add: unat_div_distrib)
  show ?case
  proof (cases "u div base = 0")
    case True
    then have "unat u div unat base = 0" using dv by simp
    then show ?thesis using True
      by (subst kitoa_unsigned.simps, subst (1 2) digits_le.simps) (simp add: ch del: fun_upd_apply)
  next
    case False
    then have nz: "unat u div unat base \<noteq> 0" using dv by (metis unat_eq_0)
    then have "unat (u div base) < unat u" using dv assms(1) by (cases "unat u = 0") auto
    from less.hyps [OF this assms, of "p + 1" "m(p := digit_ch (unat u mod unat base))"]
    show ?thesis using False nz assms
      by (subst kitoa_unsigned.simps, subst (1 2) digits_le.simps)
        (simp add: ch dv ac_simps del: fun_upd_apply)
  qed
qed

lemma kitoa_signed_eq:
  assumes "num < 0"
  shows "kitoa_signed num 10 p m =
    Some (p + of_nat (length (digits_le 10 (nat (- num)))),
          store_bytes p (map digit_ch (digits_le 10 (nat (- num)))) m)"
  using assms
proof (induction "nat (- num)" arbitrary: num p m rule: less_induct)
  case less
  define n where "n = nat (- num)"
  then have num: "num = - int n" "0 < n" using less.prems by auto
  have sm: "num smod 10 = - int (n mod 10)" and sd: "num sdiv 10 = - int (n div 10)"
    by (simp_all add: num signed_modulo_int_def signed_divide_int_def zmod_int zdiv_int)
  have "nat (num smod 10 + 15) = 15 - n mod 10" unfolding sm by linarith
  moreover have "n mod 10 < 16" using mod_less_divisor [of 10 n] by linarith
  ultimately have ch: "num2ch ! nat (num smod 10 + 15) = digit_ch (n mod 10)"
    using digit_ch_facts(4) by simp
  show ?case
  proof (cases "n div 10 = 0")
    case True
    then show ?thesis unfolding n_def [symmetric]
      by (subst kitoa_signed.simps, subst (1 2) digits_le.simps) (simp add: ch sd del: fun_upd_apply)
  next
    case False
    then have "nat (- (num sdiv 10)) < nat (- num)" "num sdiv 10 < 0" "nat (- (num sdiv 10)) = n div 10"
      unfolding sd using num by auto
    from less.hyps [OF this(1,2), of "p + 1" "m(p := digit_ch (n mod 10))"] this(3)
    show ?thesis unfolding n_def [symmetric] using False \<open>num sdiv 10 < 0\<close>
      by (subst kitoa_signed.simps, subst (1 2) digits_le.simps)
        (simp add: ch add.commute [of p] add.left_commute [of p] del: fun_upd_apply)
  qed
qed

lemma kitoa_reverse_eq:
  assumes "unat s + n \<le> 2 ^ 32" and "n = 0 \<Longrightarrow> s \<noteq> 0"
  shows "(\<forall>i < n. kitoa_reverse s (s + of_nat n - 1) m (s + of_nat i) = m (s + of_nat (n - 1 - i)))
    \<and> (\<forall>x. x \<notin> region s n \<longrightarrow> kitoa_reverse s (s + of_nat n - 1) m x = m x)"
  using assms
proof (induction n arbitrary: s m rule: less_induct)
  case (less n)
  let ?p = "s + of_nat n - 1 :: addr"
  show ?case
  proof (cases "n < 2")
    case True
    then have "\<not> s < ?p"
      using less.prems by (cases n) (auto simp: word_less_nat_alt unat_minus_one)
    then have "kitoa_reverse s ?p m = m" by (subst kitoa_reverse.simps) simp
    with True show ?thesis by (cases n) auto
  next
    case False
    then obtain k where n: "n = Suc (Suc k)" by (metis One_nat_def Suc_1 not_less_eq_eq not0_implies_Suc not_less Suc_le_D)
    have up: "unat (s + of_nat i) = unat s + i" if "i < n" for i
      using that less.prems(1) by (intro unat_add_lt) simp
    have p: "?p = s + of_nat (Suc k)" by (simp add: n)
    have "s < ?p" using up [of "Suc k"] n unfolding p word_less_nat_alt by simp
    define m1 where "m1 = m(s := m ?p, ?p := m s)"
    have step: "kitoa_reverse s ?p m = kitoa_reverse (s + 1) (s + 1 + of_nat k - 1) m1"
      using \<open>s < ?p\<close> by (subst kitoa_reverse.simps) (simp add: m1_def p algebra_simps)
    have s1: "unat (s + 1) = unat s + 1" using up [of 1] n by simp
    have ih: "\<And>i. i < k \<Longrightarrow> kitoa_reverse s ?p m (s + 1 + of_nat i) = m1 (s + 1 + of_nat (k - 1 - i))"
      "\<And>x. x \<notin> region (s + 1) k \<Longrightarrow> kitoa_reverse s ?p m x = m1 x"
      unfolding step using less.IH [of k "s + 1" m1] less.prems(1) n s1 by (auto simp: unat_eq_0 [symmetric])
    have inj: "(s + of_nat i = s + of_nat j) = (i = j)" if "i < n" "j < n" for i j
      using that less.prems(1) by (intro addr_off_inj) auto
    have edge: "s \<notin> region (s + 1) k" "?p \<notin> region (s + 1) k"
      using inj [of 0 "Suc _"] inj [of "Suc k" "Suc _"] n unfolding p
      by (auto simp: region_def ac_simps)
    have mid: "m1 (s + 1 + of_nat j) = m (s + of_nat (Suc j))" if "j < k" for j
      using inj [of "Suc j" 0] inj [of "Suc j" "Suc k"] n that by (simp add: m1_def p ac_simps)
    show ?thesis
    proof (intro conjI allI impI)
      fix i assume "i < n"
      then consider "i = 0" | "i = Suc k" | j where "i = Suc j" "j < k"
        using n by (metis less_Suc_eq not0_implies_Suc not_less_eq)
      then show "kitoa_reverse s ?p m (s + of_nat i) = m (s + of_nat (n - 1 - i))"
      proof cases
        case 1
        have "m1 s = m ?p"
          using \<open>s < ?p\<close> unfolding m1_def by (simp only: fun_upd_other [OF less_imp_neq] fun_upd_same)
        with 1 show ?thesis using ih(2) [OF edge(1)] by (simp add: n add_ac)
      next
        case 2
        then show ?thesis using ih(2) [OF edge(2)] by (simp add: m1_def n add_ac)
      next
        case 3
        have "n - 1 - i = Suc (k - 1 - j)" using 3 n by simp
        then show ?thesis using ih(1) [OF 3(2)] mid [of "k - 1 - j"] 3 by (simp add: ac_simps)
      qed
    next
      fix x assume x: "x \<notin> region s n"
      then have "x \<notin> region (s + 1) k" "x \<noteq> s" "x \<noteq> ?p"
        using in_regionI [of 0 n s] in_regionI [of "Suc k" n s] region_mono [of k "Suc k" "s + 1"] n
        unfolding p by (auto simp: region_Suc)
      then show "kitoa_reverse s ?p m x = m x" using ih(2) by (simp add: m1_def)
    qed
  qed
qed

lemma region_shift: "region (a + of_nat k) n \<subseteq> region a (k + n)"
  by (auto simp: region_def) (metis add.assoc add_less_cancel_left of_nat_add)

text \<open>Storing digits with a NUL behind them and reversing the digits in place.\<close>

lemma reverse_stored:
  fixes m :: bytes
  assumes "cs \<noteq> []" and "0 \<notin> set cs" and "unat s + Suc (length cs) \<le> 2 ^ 32"
  defines "m' \<equiv> kitoa_reverse s (s + of_nat (length cs) - 1)
      ((store_bytes s cs m)(s + of_nat (length cs) := 0))"
  shows "cstring m' s (rev cs)" and "\<And>x. x \<notin> region s (Suc (length cs)) \<Longrightarrow> m' x = m x"
proof -
  let ?n = "length cs" and ?m1 = "(store_bytes s cs m)(s + of_nat (length cs) := 0)"
  have rv: "\<And>i. i < ?n \<Longrightarrow> m' (s + of_nat i) = ?m1 (s + of_nat (?n - 1 - i))"
    "\<And>x. x \<notin> region s ?n \<Longrightarrow> m' x = ?m1 x"
    using kitoa_reverse_eq [of s ?n ?m1] assms(1,3) unfolding m'_def by auto
  have "m' (s + of_nat i) = rev cs ! i" if "i < ?n" for i
  proof -
    have "?n - 1 - i < ?n" using that by linarith
    then obtain j where j: "?n - 1 - i = j" "j < ?n" by blast
    have "s + of_nat j \<noteq> s + of_nat ?n" using addr_off_inj [of j ?n s] j(2) assms(3) by auto
    moreover have "store_bytes s cs m (s + of_nat j) = cs ! j"
      using j(2) assms(3) by (intro store_bytes_nth) auto
    moreover have "rev cs ! i = cs ! j" using that j(1) by (simp add: rev_nth)
    ultimately show ?thesis using rv(1) [OF that] unfolding j(1) by simp
  qed
  then have "load_bytes m' s ?n = rev cs" by (intro nth_equalityI) auto
  moreover have "s + of_nat ?n \<notin> region s ?n"
    using assms(3) region_offset_iff [of ?n ?n s] by simp
  ultimately show "cstring m' s (rev cs)"
    using rv(2) assms(2) by (simp add: cstring_def)
  fix x assume x: "x \<notin> region s (Suc ?n)"
  then have "x \<notin> region s ?n" "x \<noteq> s + of_nat ?n"
    using in_regionI [of ?n "Suc ?n" s] region_mono [of ?n "Suc ?n" s] by auto
  then show "m' x = m x" using rv(2) by (simp add: store_bytes_other)
qed

lemma kitoa_unsigned_case:
  assumes "base = 2 \<or> base = 8 \<or> base = 10 \<or> base = 16" and "\<not> (sint num < 0 \<and> base = 10)"
    and "unat buf + 33 \<le> 2 ^ 32"
  shows "\<exists>m' xs. kitoa buf num base m = Some m' \<and> cstring m' buf xs \<and> length xs \<le> 32
    \<and> parse_int (unat base) xs = uint num \<and> (\<forall>x. x \<notin> region buf (Suc (length xs)) \<longrightarrow> m' x = m x)"
proof -
  have b: "2 \<le> unat base" "unat base \<le> 16" using assms(1) by auto
  define cs where "cs = map digit_ch (digits_le (unat base) (unat num))"
  let ?m1 = "(store_bytes buf cs m)(buf + of_nat (length cs) := 0)"
  have ne: "cs \<noteq> []" unfolding cs_def by (subst digits_le.simps) simp
  have chars: "0 \<notin> set cs" "45 \<notin> set cs"
    using digits_le_chars [OF b, of _ "unat num"] by (auto simp: cs_def)
  have "unat num < 2 ^ Suc 31" using unsigned_less [of num] by simp
  also have "\<dots> \<le> unat base ^ Suc 31" using b(1) by (intro power_mono) auto
  finally have len: "length cs \<le> 32"
    using digits_le_length [OF b(1), of "unat num" 31] by (simp add: cs_def)
  have "kitoa_unsigned num base buf m = Some (buf + of_nat (length cs), store_bytes buf cs m)"
    using kitoa_unsigned_eq [OF b] by (simp add: cs_def)
  then have k: "kitoa buf num base m = Some (kitoa_reverse buf (buf + of_nat (length cs) - 1) ?m1)"
    using assms(1,2) by (auto simp: kitoa_def)
  have "parse_int (unat base) (rev cs) = int (parse_nat (unat base) (rev cs))"
  proof -
    obtain c us where r: "rev cs = c # us" using ne by (cases "rev cs") auto
    then have "c \<in> set cs" by (metis list.set_intros(1) set_rev)
    with chars(2) r show ?thesis by (auto simp: parse_int_def)
  qed
  also have "\<dots> = uint num" using parse_rev_digits [OF b, of "unat num"] by (simp add: cs_def)
  finally have v: "parse_int (unat base) (rev cs) = uint num" .
  have "unat buf + Suc (length cs) \<le> 2 ^ 32" using len assms(3) by linarith
  note rs = reverse_stored [OF ne chars(1) this, where m = m]
  define m2 where "m2 = kitoa_reverse buf (buf + of_nat (length cs) - 1) ?m1"
  have "kitoa buf num base m = Some m2" unfolding m2_def by (rule k)
  moreover have "cstring m2 buf (rev cs)" unfolding m2_def by (rule rs(1))
  moreover have "\<forall>x. x \<notin> region buf (Suc (length (rev cs))) \<longrightarrow> m2 x = m x"
    unfolding m2_def length_rev using rs(2) by blast
  moreover note v len
  ultimately show ?thesis by (intro exI [of _ m2] exI [of _ "rev cs"]) simp
qed

lemma kitoa_signed_case:
  assumes "sint num < 0" and "unat buf + 33 \<le> 2 ^ 32"
  shows "\<exists>m' xs. kitoa buf num 10 m = Some m' \<and> cstring m' buf xs \<and> length xs \<le> 32
    \<and> parse_int 10 xs = sint num \<and> (\<forall>x. x \<notin> region buf (Suc (length xs)) \<longrightarrow> m' x = m x)"
proof -
  define cs where "cs = map digit_ch (digits_le 10 (nat (- sint num)))"
  let ?s = "buf + 1" and ?m0 = "m(buf := 45)"
  let ?m1 = "(store_bytes ?s cs ?m0)(?s + of_nat (length cs) := 0)"
  let ?m2 = "kitoa_reverse ?s (?s + of_nat (length cs) - 1) ?m1"
  have ne: "cs \<noteq> []" unfolding cs_def by (subst digits_le.simps) simp
  have chars: "0 \<notin> set cs"
    using digits_le_chars [of 10 _ "nat (- sint num)"] by (auto simp: cs_def)
  have "- sint num \<le> 2 ^ 31" using sint_ge [of num] by simp
  then have "nat (- sint num) < 10 ^ Suc 9" by simp
  then have len: "length cs \<le> 10"
    using digits_le_length [of 10 "nat (- sint num)" 9] by (simp add: cs_def)
  have su: "unat ?s = unat buf + 1" using unat_add_lt [of buf 1] assms(2) by simp
  then have "unat ?s + Suc (length cs) \<le> 2 ^ 32" using assms(2) len by simp
  note rs = reverse_stored [OF ne chars this, where m = ?m0]
  have "kitoa_signed (sint num) 10 ?s ?m0 = Some (?s + of_nat (length cs), store_bytes ?s cs ?m0)"
    using kitoa_signed_eq [OF assms(1)] by (simp add: cs_def)
  then have k: "kitoa buf num 10 m = Some ?m2" using assms(1) by (simp add: kitoa_def)
  have "buf \<notin> region ?s (Suc (length cs))"
    using addr_off_inj [of 0 "Suc _" buf] len assms(2) by (auto simp: region_def ac_simps)
  then have "?m2 buf = 45" using rs(2) by simp
  then have c: "cstring ?m2 buf (45 # rev cs)" using rs(1) by (simp add: cstring_Cons)
  have "parse_int 10 (45 # rev cs) = sint num"
    using parse_rev_digits [of 10 "nat (- sint num)"] assms(1) by (simp add: parse_int_def cs_def)
  moreover have "?m2 x = m x" if "x \<notin> region buf (Suc (Suc (length cs)))" for x
    using that rs(2) [of x] by (simp add: region_Suc [of buf])
  ultimately show ?thesis
    using k c len by (intro exI [of _ ?m2] exI [of _ "45 # rev cs"]) auto
qed

subsection \<open>File names\<close>

definition is_sep :: "u8 \<Rightarrow> bool" where
  "is_sep c \<longleftrightarrow> c = 92 \<or> c = 47"

lemma file_name_end_eq: "cstring m s xs \<Longrightarrow> file_name_end s m = Some (s + of_nat (length xs))"
proof (induction xs arbitrary: s)
  case Nil
  then show ?case by (subst file_name_end.simps) simp
next
  case (Cons x xs)
  then show ?case by (subst file_name_end.simps) (simp add: cstring_Cons ac_simps)
qed

lemma file_name_back_eq:
  assumes "name \<noteq> 0" and "unat name + k < 2 ^ 32"
  shows "\<exists>j \<le> Suc k. file_name_back name (name + of_nat k) m = Some (name + of_nat j - 1)
    \<and> (\<forall>i. j \<le> i \<and> i \<le> k \<longrightarrow> \<not> is_sep (m (name + of_nat i)))
    \<and> (j = 0 \<or> is_sep (m (name + of_nat (j - 1))))"
  using assms(2)
proof (induction k)
  case 0
  have "\<not> name \<le> name - 1" using assms(1) by (simp add: not_le word_less_nat_alt unat_minus_one unat_gt_0)
  then have *: "file_name_back name (name - 1) m = Some (name - 1)"
    by (subst file_name_back.simps) simp
  show ?case
  proof (cases "is_sep (m name)")
    case True
    then have "file_name_back name name m = Some name"
      by (subst file_name_back.simps) (auto simp: is_sep_def)
    with True show ?thesis by (intro exI [of _ 1]) auto
  next
    case False
    then have "file_name_back name name m = Some (name - 1)"
      using * by (subst file_name_back.simps) (auto simp: is_sep_def)
    with False show ?thesis by (intro exI [of _ 0]) auto
  qed
next
  case (Suc k)
  let ?s = "name + of_nat (Suc k)"
  have "name \<le> ?s" using unat_add_lt [OF Suc.prems] by (simp add: word_le_nat_alt)
  show ?case
  proof (cases "is_sep (m ?s)")
    case True
    then have "file_name_back name ?s m = Some ?s"
      by (subst file_name_back.simps) (auto simp: is_sep_def)
    with True show ?thesis by (intro exI [of _ "Suc (Suc k)"]) auto
  next
    case False
    then have "file_name_back name ?s m = file_name_back name (name + of_nat k) m"
      using \<open>name \<le> ?s\<close> by (subst file_name_back.simps) (auto simp: is_sep_def)
    with Suc False show ?thesis by (auto simp: le_Suc_eq)
  qed
qed

subsection \<open>Main properties\<close>

text \<open>C37: \<^verbatim>\<open>kitoa\<close> in base 2, 8, 10 or 16 terminates for every number and leaves at the buffer
  a NUL-terminated string of at most 32 characters that reads back as the number: with its sign
  in base 10 (including the most negative number), as an unsigned number otherwise. Nothing outside
  the string is written.\<close>

theorem kitoa_prints_number:
  assumes "base = 2 \<or> base = 8 \<or> base = 10 \<or> base = 16" and "unat buf + 33 \<le> 2 ^ 32"
  shows "\<exists>m' xs. kitoa buf num base m = Some m' \<and> cstring m' buf xs \<and> length xs \<le> 32
    \<and> parse_int (unat base) xs = (if base = 10 then sint num else uint num)
    \<and> (\<forall>x. x \<notin> region buf (Suc (length xs)) \<longrightarrow> m' x = m x)"
proof (cases "sint num < 0 \<and> base = 10")
  case True
  then show ?thesis using kitoa_signed_case [of num buf m] assms(2) by auto
next
  case False
  have "uint num = sint num" if "base = 10"
    using that False sint_lt [of num] by (simp add: uint_sint take_bit_int_eq_self)
  then show ?thesis using kitoa_unsigned_case [OF assms(1) False assms(2), of m] by auto
qed

theorem kitoa_prints_number_witness:
  "\<exists>m' xs. kitoa 0x1000 (- 123) 10 (\<lambda>_. 7) = Some m' \<and> cstring m' 0x1000 xs \<and> parse_int 10 xs = - 123"
  using kitoa_prints_number [of 10 "0x1000" "- 123" "\<lambda>_. 7"] by auto

text \<open>\<^verbatim>\<open>kstrncpy\<close> on a source string that the destination does not overlap. A string
  shorter than \<open>size - 1\<close> is copied with its NUL. A string of exactly \<open>size - 1\<close> characters
  loses its last character (and an empty one with size 1 clears the byte before the destination).
  A string of \<open>size\<close> or more characters is cut to \<open>size\<close> characters and the NUL is written
  one byte behind the destination.\<close>

theorem kstrncpy_behaviour:
  assumes "cstring m src xs" and "dest \<noteq> 0" and "src \<noteq> 0" and "0 < sz"
    and "region dest (length xs) \<inter> region src (Suc (length xs)) = {}"
  shows "kstrncpy dest src sz m =
    (if int (length xs) < sz - 1 then store_bytes dest (xs @ [0]) m
     else if int (length xs) = sz - 1
          then (if xs = [] then m(dest - 1 := 0) else store_bytes dest (butlast xs @ [0]) m)
     else store_bytes dest (take (nat sz) xs @ [0]) m)"
proof -
  let ?c = "min (nat sz) (length xs)"
  have k: "kstrncpy dest src sz m = (let m1 = store_bytes dest (take ?c xs) m
      in if sz - int ?c - 1 = 0 then m1(dest + of_nat ?c - 1 := 0) else m1(dest + of_nat ?c := 0))"
    using kstrncpy_loop_eq [OF assms(1) _ assms(5), of sz] assms(2,3,4) by (simp add: kstrncpy_def Let_def)
  have last: "(store_bytes dest xs m)(dest + of_nat (length xs) - 1 := 0) = store_bytes dest (butlast xs @ [0]) m"
    if ne: "xs \<noteq> []"
  proof -
    obtain ys y where xs: "xs = ys @ [y]" using ne by (metis append_butlast_last_id)
    show ?thesis by (simp add: xs store_bytes_append)
  qed
  consider "int (length xs) < sz - 1" | "int (length xs) = sz - 1" | "sz - 1 < int (length xs)"
    by linarith
  then show ?thesis
  proof cases
    case 1
    then have "?c = length xs" by auto
    with 1 k show ?thesis by (simp add: store_bytes_append)
  next
    case 2
    then have "?c = length xs" by auto
    with 2 k last show ?thesis by (cases "xs = []") auto
  next
    case 3
    then have c: "?c = nat sz" using assms(4) by auto
    have "sz - int (nat sz) - 1 \<noteq> 0" using assms(4) by simp
    with 3 k c assms(4) show ?thesis by (simp add: store_bytes_append)
  qed
qed

theorem kstrncpy_behaviour_witness:
  "cstring (store_bytes 0x100 [104, 105] (\<lambda>_. 0)) 0x100 [104, 105]
   \<and> kstrncpy 0x200 0x100 3 (store_bytes 0x100 [104, 105] (\<lambda>_. 0)) =
       store_bytes 0x200 [104, 0] (store_bytes 0x100 [104, 105] (\<lambda>_. 0))"
proof -
  have c: "cstring (store_bytes 0x100 [104, 105] (\<lambda>_. 0)) 0x100 [104, 105]"
    by (simp add: cstring_Cons)
  have "region 0x200 (length [104, 105 :: u8]) \<inter> region 0x100 (Suc (length [104, 105 :: u8])) = {}"
    by (simp add: region_Suc)
  from kstrncpy_behaviour [OF c _ _ _ this, of 3] c show ?thesis by simp
qed

text \<open>\<^verbatim>\<open>kmemcpy\<close> between ranges that do not overlap makes the destination equal to the
  source and writes nothing else; then \<^verbatim>\<open>kmemcmp\<close> of the two ranges reports equality.\<close>

theorem kmemcpy_copies:
  assumes "dest \<noteq> 0" and "src \<noteq> 0" and "region dest (unat sz) \<inter> region src (unat sz) = {}"
  shows "load_bytes (kmemcpy dest src sz m) dest (unat sz) = load_bytes m src (unat sz)
    \<and> (\<forall>x. x \<notin> region dest (unat sz) \<longrightarrow> kmemcpy dest src sz m x = m x)
    \<and> kmemcmp dest src sz (kmemcpy dest src sz m) = 0"
proof -
  let ?m = "store_bytes dest (load_bytes m src (unat sz)) m"
  have m: "kmemcpy dest src sz m = ?m"
    using assms(1,2) kmemcpy_loop_eq [OF assms(3)] by (auto simp: kmemcpy_def)
  have "unat sz < 2 ^ 32" using unsigned_less [of sz] by simp
  then have "length (load_bytes m src (unat sz)) \<le> 2 ^ 32" by simp
  from load_store_bytes [OF this, of dest m]
  have d: "load_bytes ?m dest (unat sz) = load_bytes m src (unat sz)" by simp
  have fr: "\<forall>x. x \<notin> region dest (unat sz) \<longrightarrow> ?m x = m x" by (simp add: store_bytes_other)
  then have "load_bytes ?m src (unat sz) = load_bytes m src (unat sz)"
    using assms(3) by (intro load_bytes_cong) auto
  with d fr assms(1,2) show ?thesis by (simp add: m kmemcmp_def kmemcmp_loop_eq)
qed

theorem kmemcpy_copies_witness:
  "kmemcmp 0x200 0x100 4 (kmemcpy 0x200 0x100 4 (store_bytes 0x100 [1, 2, 3, 4] (\<lambda>_. 0))) = 0"
proof -
  have n: "unat (4 :: u32) = Suc (Suc (Suc (Suc 0)))" by simp
  have "region 0x200 (unat (4 :: u32)) \<inter> region 0x100 (unat (4 :: u32)) = {}"
    unfolding n by (simp add: region_Suc)
  from kmemcpy_copies [OF _ _ this] show ?thesis by simp
qed

text \<open>\<^verbatim>\<open>get_file_name\<close> returns the part of the path behind its last separator (slash or
  backslash), or the whole path if it has none.\<close>

theorem get_file_name_behind_separator:
  assumes "cstring m name xs" and "name \<noteq> 0" and "unat name + length xs < 2 ^ 32"
  shows "\<exists>k \<le> length xs. get_file_name name m = Some (name + of_nat k)
    \<and> cstring m (name + of_nat k) (drop k xs) \<and> (\<forall>c \<in> set (drop k xs). \<not> is_sep c)
    \<and> (k = 0 \<or> is_sep (xs ! (k - 1)))"
proof -
  have at: "m (name + of_nat i) = xs ! i" if "i < length xs" for i
    using assms(1) that by (metis cstring_def load_bytes_nth)
  have nul: "m (name + of_nat (length xs)) = 0" using assms(1) by (simp add: cstring_def)
  obtain j where j: "j \<le> Suc (length xs)"
    "file_name_back name (name + of_nat (length xs)) m = Some (name + of_nat j - 1)"
    "\<forall>i. j \<le> i \<and> i \<le> length xs \<longrightarrow> \<not> is_sep (m (name + of_nat i))"
    "j = 0 \<or> is_sep (m (name + of_nat (j - 1)))"
    using file_name_back_eq [OF assms(2,3), of m] by blast
  have "j \<noteq> Suc (length xs)" using j(4) nul by (auto simp: is_sep_def)
  then have jl: "j \<le> length xs" using j(1) by simp
  have "cstring m (name + of_nat j) (drop j xs)"
    using jl assms(1)
  proof (induction j arbitrary: name xs)
    case (Suc j)
    then show ?case by (cases xs) (auto simp: cstring_Cons add.assoc [symmetric])
  qed simp
  moreover have "\<not> is_sep c" if c: "c \<in> set (drop j xs)" for c
  proof -
    obtain i where "i < length (drop j xs)" "drop j xs ! i = c"
      using c by (metis in_set_conv_nth)
    then have "i < length xs - j" "c = xs ! (j + i)" using jl by auto
    then show ?thesis using j(3) [rule_format, of "j + i"] at [of "j + i"] by auto
  qed
  moreover have "j = 0 \<or> is_sep (xs ! (j - 1))" using j(4) at [of "j - 1"] jl by (cases j) auto
  moreover have "get_file_name name m = Some (name + of_nat j)"
    using file_name_end_eq [OF assms(1)] j(2) by (simp add: get_file_name_def)
  ultimately show ?thesis using jl by blast
qed

theorem get_file_name_behind_separator_witness:
  "\<exists>k \<le> 3. get_file_name 0x100 (store_bytes 0x100 [97, 47, 98] (\<lambda>_. 0)) = Some (0x100 + of_nat k)
     \<and> (k = 0 \<or> is_sep ([97, 47, 98 :: u8] ! (k - 1)))"
proof -
  have "cstring (store_bytes 0x100 [97, 47, 98] (\<lambda>_. 0)) 0x100 [97, 47, 98]"
    by (simp add: cstring_Cons)
  from get_file_name_behind_separator [OF this] obtain k where
    "k \<le> 3" "get_file_name 0x100 (store_bytes 0x100 [97, 47, 98] (\<lambda>_. 0)) = Some (0x100 + of_nat k)"
    "k = 0 \<or> is_sep ([97, 47, 98 :: u8] ! (k - 1))"
    by (auto simp: numeral_3_eq_3)
  then show ?thesis by blast
qed

end
