(* ===== verification/Elf.thy ===== *)
theory Elf
  imports Klib
begin

text \<open>
  ELF headers, \<^verbatim>\<open>src/source/comm/elf.h\<close>: the packed structures as the code reads them from
  memory, for the boot loader and for \<^verbatim>\<open>execve\<close>.
\<close>

definition load16 :: "bytes \<Rightarrow> addr \<Rightarrow> u16" where
  "load16 m a = ucast (m a) OR push_bit 8 (ucast (m (a + 1)))"

definition EI_NIDENT :: nat where "EI_NIDENT = 16"
definition ELF_MAGIC :: u8 where "ELF_MAGIC = 0x7F"
definition PT_LOAD :: u32 where "PT_LOAD = 1"

record Elf32_Ehdr =
  e_ident :: "u8 list"
  e_type :: u16
  e_machine :: u16
  e_version :: u32
  e_entry :: u32
  e_phoff :: u32
  e_shoff :: u32
  e_flags :: u32
  e_ehsize :: u16
  e_phentsize :: u16
  e_phnum :: u16
  e_shentsize :: u16
  e_shnum :: u16
  e_shstrndx :: u16

record Elf32_Phdr =
  p_type :: u32
  p_offset :: u32
  p_vaddr :: u32
  p_paddr :: u32
  p_filesz :: u32
  p_memsz :: u32
  p_flags :: u32
  p_align :: u32

text \<open>The structures at an address; they take 52 and 32 bytes.\<close>

definition read_ehdr :: "bytes \<Rightarrow> addr \<Rightarrow> Elf32_Ehdr" where
  "read_ehdr m a =
     \<lparr>e_ident = load_bytes m a EI_NIDENT, e_type = load16 m (a + 16), e_machine = load16 m (a + 18),
      e_version = load32 m (a + 20), e_entry = load32 m (a + 24), e_phoff = load32 m (a + 28),
      e_shoff = load32 m (a + 32), e_flags = load32 m (a + 36), e_ehsize = load16 m (a + 40),
      e_phentsize = load16 m (a + 42), e_phnum = load16 m (a + 44), e_shentsize = load16 m (a + 46),
      e_shnum = load16 m (a + 48), e_shstrndx = load16 m (a + 50)\<rparr>"

definition read_phdr :: "bytes \<Rightarrow> addr \<Rightarrow> Elf32_Phdr" where
  "read_phdr m a =
     \<lparr>p_type = load32 m a, p_offset = load32 m (a + 4), p_vaddr = load32 m (a + 8), p_paddr = load32 m (a + 12),
      p_filesz = load32 m (a + 16), p_memsz = load32 m (a + 20), p_flags = load32 m (a + 24),
      p_align = load32 m (a + 28)\<rparr>"

definition elf_ident_ok :: "u8 list \<Rightarrow> bool" where
  "elf_ident_ok ident \<longleftrightarrow> \<not> (ident ! 0 \<noteq> ELF_MAGIC \<or> ident ! 1 \<noteq> 69 \<or> ident ! 2 \<noteq> 76 \<or> ident ! 3 \<noteq> 70)"

text \<open>The headers depend on their own bytes only.\<close>

lemma load16_cong:
  "(\<And>x. x \<in> region a 2 \<Longrightarrow> m x = m' x) \<Longrightarrow> load16 m a = load16 m' a"
  using in_regionI [of 0 2 a] in_regionI [of 1 2 a] by (simp add: load16_def)

lemma load16_part: "(\<And>x. x \<in> region a l \<Longrightarrow> m x = m' x) \<Longrightarrow> k + 2 \<le> l \<Longrightarrow> load16 m (a + of_nat k) = load16 m' (a + of_nat k)"
  using region_sub [of k 2 l a] by (intro load16_cong) blast

lemma load32_part: "(\<And>x. x \<in> region a l \<Longrightarrow> m x = m' x) \<Longrightarrow> k + 4 \<le> l \<Longrightarrow> load32 m (a + of_nat k) = load32 m' (a + of_nat k)"
  using region_sub [of k 4 l a] by (intro load32_cong) blast

lemma read_ehdr_cong:
  assumes "\<And>x. x \<in> region a 52 \<Longrightarrow> m x = m' x"
  shows "read_ehdr m a = read_ehdr m' a"
proof -
  have h: "load16 m (a + of_nat k) = load16 m' (a + of_nat k)" if "k + 2 \<le> 52" for k
    using load16_part [of a 52 m m' k] assms that by blast
  have w: "load32 m (a + of_nat k) = load32 m' (a + of_nat k)" if "k + 4 \<le> 52" for k
    using load32_part [of a 52 m m' k] assms that by blast
  have "load_bytes m a EI_NIDENT = load_bytes m' a EI_NIDENT"
    using assms region_mono [of 16 52 a] by (intro load_bytes_cong) (auto simp: EI_NIDENT_def)
  then show ?thesis
    using h [of 16] h [of 18] h [of 40] h [of 42] h [of 44] h [of 46] h [of 48] h [of 50]
      w [of 20] w [of 24] w [of 28] w [of 32] w [of 36]
    by (simp add: read_ehdr_def)
qed

lemma read_phdr_cong:
  assumes "\<And>x. x \<in> region a 32 \<Longrightarrow> m x = m' x"
  shows "read_phdr m a = read_phdr m' a"
proof -
  have w: "load32 m (a + of_nat k) = load32 m' (a + of_nat k)" if "k + 4 \<le> 32" for k
    using load32_part [of a 32 m m' k] assms that by blast
  show ?thesis
    using w [of 0] w [of 4] w [of 8] w [of 12] w [of 16] w [of 20] w [of 24] w [of 28]
    by (simp add: read_phdr_def)
qed

end
