(* ===== verification/Bitmap.thy ===== *)
theory Bitmap
  imports Prelude_C
begin

text \<open>
  The bitmap of \<^verbatim>\<open>src/source/kernel/tools/bitmap.c\<close>, on which the physical page
  allocator rests. A bitmap is its bit count and its array of bytes; every access to the
  array is checked, so \<open>None\<close> is an access outside it. The first part holds the
  operations in the order of the source, the second relates them to the plain sequence of
  bits \<open>bm_bit\<close>.
\<close>

subsection \<open>The bitmap and its operations\<close>

record bitmap_t =
  bit_count :: int
  bits :: "u8 list"

definition bitmap_byte_count :: "int \<Rightarrow> int" where
  "bitmap_byte_count n = (n + 8 - 1) sdiv 8"

text \<open>\<^verbatim>\<open>kmemset\<close> on the byte array: the loop writes \<open>n\<close> bytes from index \<open>i\<close> on.\<close>

primrec kmemset_bytes_loop :: "nat \<Rightarrow> u8 list \<Rightarrow> int \<Rightarrow> u8 \<Rightarrow> u8 list option" where
  "kmemset_bytes_loop 0 d i v = Some d"
| "kmemset_bytes_loop (Suc n) d i v = do {
     d' \<leftarrow> arr_set d i v;
     kmemset_bytes_loop n d' (i + 1) v
   }"

definition kmemset_bytes :: "u8 list \<Rightarrow> u8 \<Rightarrow> int \<Rightarrow> u8 list option" where
  "kmemset_bytes d v sz =
     (if sz = 0 then Some d
      else if sz < 0 then None
      else kmemset_bytes_loop (nat sz) d 0 v)"

definition bitmap_init :: "u8 list \<Rightarrow> int \<Rightarrow> int \<Rightarrow> bitmap_t option" where
  "bitmap_init buf count init_bit = do {
     let bytes = bitmap_byte_count count;
     bs \<leftarrow> kmemset_bytes buf (if init_bit \<noteq> 0 then 0xff else 0) bytes;
     Some \<lparr>bit_count = count, bits = bs\<rparr>
   }"

text \<open>
  The byte of bit \<open>index\<close> and its mask. A negative index would shift by a negative amount,
  which is undefined, so the operations refuse it.
\<close>

definition bit_mask :: "int \<Rightarrow> u8" where
  "bit_mask index = push_bit (nat (index smod 8)) 1"

function bitmap_set_bit_loop :: "bitmap_t \<Rightarrow> int \<Rightarrow> int \<Rightarrow> int \<Rightarrow> int \<Rightarrow> bitmap_t option" where
  "bitmap_set_bit_loop bm i index count bit_value =
     (if i < count \<and> index < bit_count bm then
        (if index < 0 then None
         else case arr_get (bits bm) (index sdiv 8) of
             None \<Rightarrow> None
           | Some w \<Rightarrow>
             (case arr_set (bits bm) (index sdiv 8)
                     (if bit_value \<noteq> 0 then w OR bit_mask index else w AND NOT (bit_mask index)) of
                None \<Rightarrow> None
              | Some bs \<Rightarrow>
                  bitmap_set_bit_loop (bm\<lparr>bits := bs\<rparr>) (i + 1) (index + 1) count bit_value))
      else Some bm)"
  by pat_completeness auto
termination
  by (relation "measure (\<lambda>(bm, i, index, count, v). nat (count - i))") auto

declare bitmap_set_bit_loop.simps [simp del]

definition bitmap_set_bit :: "bitmap_t \<Rightarrow> int \<Rightarrow> int \<Rightarrow> int \<Rightarrow> bitmap_t option" where
  "bitmap_set_bit bm index count bit_value = bitmap_set_bit_loop bm 0 index count bit_value"

definition bitmap_get_bit :: "bitmap_t \<Rightarrow> int \<Rightarrow> int option" where
  "bitmap_get_bit bm index =
     (if index < 0 then None
      else do {
        w \<leftarrow> arr_get (bits bm) (index sdiv 8);
        Some (if w AND bit_mask index \<noteq> 0 then 1 else 0)
      })"

definition bitmap_is_set :: "bitmap_t \<Rightarrow> int \<Rightarrow> int option" where
  "bitmap_is_set bm index = do {
     v \<leftarrow> bitmap_get_bit bm index;
     Some (if v \<noteq> 0 then 1 else 0)
   }"

text \<open>
  The inner loop of \<^verbatim>\<open>bitmap_alloc_nbits\<close>. Its state is \<open>i\<close>, \<open>search_idx\<close> and
  \<open>ok_idx\<close>; the post-increment reads bit \<open>search_idx\<close> and then moves on, and the
  \<^verbatim>\<open>break\<close> leaves \<open>i\<close> as it is.
\<close>

function bitmap_alloc_scan ::
  "bitmap_t \<Rightarrow> int \<Rightarrow> int \<Rightarrow> int \<Rightarrow> int \<Rightarrow> int \<Rightarrow> (int \<times> int \<times> int) option" where
  "bitmap_alloc_scan bm b count i search_idx ok_idx =
     (if i < count \<and> search_idx < bit_count bm then
        (case bitmap_get_bit bm search_idx of
           None \<Rightarrow> None
         | Some v \<Rightarrow>
             (if v \<noteq> b then Some (i, search_idx + 1, -1)
              else bitmap_alloc_scan bm b count (i + 1) (search_idx + 1) ok_idx))
      else Some (i, search_idx, ok_idx))"
  by pat_completeness auto
termination
  by (relation "measure (\<lambda>(bm, b, count, i, s, k). nat (count - i))") auto

declare bitmap_alloc_scan.simps [simp del]

lemma bitmap_alloc_scan_advances:
  "bitmap_alloc_scan bm b count i s k = Some (i', s', k') \<Longrightarrow>
     s \<le> s' \<and> (i < count \<longrightarrow> s < bit_count bm \<longrightarrow> s < s')"
proof (induction bm b count i s k rule: bitmap_alloc_scan.induct)
  case (1 bm b count i s k)
  show ?case
  proof (cases "i < count \<and> s < bit_count bm")
    case True
    with 1 show ?thesis
      by (fastforce simp: bitmap_alloc_scan.simps [of bm b count i s k]
          split: option.splits if_splits)
  next
    case False
    with "1.prems" show ?thesis
      by (auto simp: bitmap_alloc_scan.simps [of bm b count i s k])
  qed
qed

function bitmap_alloc_loop ::
  "bitmap_t \<Rightarrow> int \<Rightarrow> int \<Rightarrow> int \<Rightarrow> (int \<times> bitmap_t) option" where
  "bitmap_alloc_loop bm b count search_idx =
     (if search_idx < bit_count bm then
        (case bitmap_get_bit bm search_idx of
           None \<Rightarrow> None
         | Some v \<Rightarrow>
             (if v \<noteq> b then bitmap_alloc_loop bm b count (search_idx + 1)
              else case bitmap_alloc_scan bm b count 1 search_idx search_idx of
                  None \<Rightarrow> None
                | Some (i, search_idx', ok_idx) \<Rightarrow>
                    (if count \<le> i then
                       map_option (\<lambda>bm'. (ok_idx, bm')) (bitmap_set_bit bm ok_idx count (NOT b))
                     else bitmap_alloc_loop bm b count search_idx')))
      else Some (-1, bm))"
  by pat_completeness auto

text \<open>Every round of the outer loop moves \<open>search_idx\<close> forward, so the loop ends.\<close>

termination
proof (relation "measure (\<lambda>(bm, b, count, s). nat (bit_count bm - s))", goal_cases)
  case 1
  then show ?case by simp
next
  case (2 bm b count s v)
  then show ?case by simp
next
  case (3 bm b count s v x i r s' k)
  from 3 have scan: "bitmap_alloc_scan bm b count 1 s s = Some (i, s', k)" by simp
  have "1 < count"
  proof (rule ccontr)
    assume "\<not> 1 < count"
    then have "i = 1"
      using scan by (simp add: bitmap_alloc_scan.simps [of bm b count 1 s s])
    with 3 \<open>\<not> 1 < count\<close> show False by simp
  qed
  with scan 3 have "s < s'"
    by (auto dest!: bitmap_alloc_scan_advances)
  with 3 show ?case by simp
qed

declare bitmap_alloc_loop.simps [simp del]

definition bitmap_alloc_nbits :: "bitmap_t \<Rightarrow> int \<Rightarrow> int \<Rightarrow> (int \<times> bitmap_t) option" where
  "bitmap_alloc_nbits bm b count = bitmap_alloc_loop bm b count 0"


subsection \<open>The bits of a bitmap\<close>

text \<open>
  The abstract value of a bitmap is the predicate \<open>bm_bit\<close> on bit numbers;
  \<open>bitmap_wf\<close> says that the byte array holds all the bits.
\<close>

definition bm_bit :: "bitmap_t \<Rightarrow> nat \<Rightarrow> bool" where
  "bm_bit bm j = bit (bits bm ! (j div 8)) (j mod 8)"

definition bitmap_wf :: "bitmap_t \<Rightarrow> bool" where
  "bitmap_wf bm \<longleftrightarrow> 0 \<le> bit_count bm \<and> bit_count bm \<le> 8 * int (length (bits bm))"

lemma sdiv8_nonneg [simp]: "0 \<le> i \<Longrightarrow> i sdiv 8 = i div (8 :: int)"
  by (cases "i = 0") (simp_all add: signed_divide_int_def)

lemma smod8_nonneg [simp]: "0 \<le> i \<Longrightarrow> i smod 8 = i mod (8 :: int)"
  by (cases "i = 0") (simp_all add: signed_modulo_int_def)

lemma nat_div8: "0 \<le> i \<Longrightarrow> nat (i div 8) = nat i div 8"
  by (simp add: nat_div_distrib)

lemma nat_mod8: "0 \<le> i \<Longrightarrow> nat (i mod 8) = nat i mod 8"
  by (simp add: nat_mod_distrib)

lemma bit_mask_nonneg: "0 \<le> i \<Longrightarrow> bit_mask i = push_bit (nat i mod 8) 1"
  by (simp add: bit_mask_def nat_mod8)

lemma and_bit_mask: "0 \<le> i \<Longrightarrow> (w AND bit_mask i = 0) = (\<not> bit w (nat i mod 8))"
  using and_push_bit_one_u8 [of "nat i mod 8" w] by (auto simp: bit_mask_nonneg)

lemma byte_index_in_range:
  "bitmap_wf bm \<Longrightarrow> 0 \<le> i \<Longrightarrow> i < bit_count bm \<Longrightarrow> i div 8 < int (length (bits bm))"
  unfolding bitmap_wf_def by linarith

lemma bitmap_get_bit_eq:
  assumes "bitmap_wf bm" and "0 \<le> i" and "i < bit_count bm"
  shows "bitmap_get_bit bm i = Some (if bm_bit bm (nat i) then 1 else 0)"
proof -
  have "i div 8 < int (length (bits bm))"
    using assms by (rule byte_index_in_range)
  with assms show ?thesis
    by (simp add: bitmap_get_bit_def and_bit_mask bm_bit_def nat_div8)
qed

text \<open>One write of \<^verbatim>\<open>bitmap_set_bit\<close>: the byte of bit \<open>k\<close> with that bit changed.\<close>

definition bm_write :: "bitmap_t \<Rightarrow> nat \<Rightarrow> bool \<Rightarrow> bitmap_t" where
  "bm_write bm k v =
     bm\<lparr>bits := (bits bm)[k div 8 :=
       (if v then bits bm ! (k div 8) OR push_bit (k mod 8) 1
        else bits bm ! (k div 8) AND NOT (push_bit (k mod 8) 1))]\<rparr>"

lemma bm_write_count [simp]: "bit_count (bm_write bm k v) = bit_count bm"
  by (simp add: bm_write_def)

lemma bm_write_length [simp]: "length (bits (bm_write bm k v)) = length (bits bm)"
  by (simp add: bm_write_def)

lemma bm_write_wf [simp]: "bitmap_wf (bm_write bm k v) = bitmap_wf bm"
  by (simp add: bitmap_wf_def)

lemma bm_bit_bm_write:
  assumes "k div 8 < length (bits bm)"
  shows "bm_bit (bm_write bm k v) j = (if j = k then v else bm_bit bm j)"
proof (cases "j div 8 = k div 8")
  case True
  have eq: "(j mod 8 = k mod 8) = (j = k)"
    using True by (metis div_mult_mod_eq)
  show ?thesis
    using True assms eq by (auto simp: bm_bit_def bm_write_def bit_simps)
next
  case False
  then have "j \<noteq> k" by auto
  with False show ?thesis by (simp add: bm_bit_def bm_write_def)
qed

lemma bitmap_set_bit_loop_step:
  assumes "bitmap_wf bm" and "0 \<le> index" and "i < count" and "index < bit_count bm"
  shows "bitmap_set_bit_loop bm i index count v =
    bitmap_set_bit_loop (bm_write bm (nat index) (v \<noteq> 0)) (i + 1) (index + 1) count v"
proof -
  have "index div 8 < int (length (bits bm))"
    using assms by (intro byte_index_in_range) auto
  with assms show ?thesis
    by (subst bitmap_set_bit_loop.simps)
      (simp add: bit_mask_nonneg bm_write_def nat_div8)
qed

lemma bitmap_set_bit_loop_correct:
  assumes "bitmap_wf bm" and "0 \<le> index"
  shows "\<exists>bm'. bitmap_set_bit_loop bm i index count v = Some bm' \<and> bitmap_wf bm'
    \<and> bit_count bm' = bit_count bm \<and> length (bits bm') = length (bits bm)
    \<and> (\<forall>j. int j < bit_count bm \<longrightarrow>
         bm_bit bm' j = (if index \<le> int j \<and> int j < index + (count - i) then v \<noteq> 0
                         else bm_bit bm j))"
  using assms
proof (induction "nat (count - i)" arbitrary: bm i index)
  case 0
  then have "bitmap_set_bit_loop bm i index count v = Some bm"
    by (subst bitmap_set_bit_loop.simps) simp
  with 0 show ?case by auto
next
  case (Suc n)
  show ?case
  proof (cases "index < bit_count bm")
    case False
    then have "bitmap_set_bit_loop bm i index count v = Some bm"
      by (subst bitmap_set_bit_loop.simps) simp
    with False Suc.prems show ?thesis by auto
  next
    case True
    let ?b = "bm_write bm (nat index) (v \<noteq> 0)"
    have step: "bitmap_set_bit_loop bm i index count v =
        bitmap_set_bit_loop ?b (i + 1) (index + 1) count v"
      using Suc True by (intro bitmap_set_bit_loop_step) auto
    have IH: "\<exists>bm'. bitmap_set_bit_loop ?b (i + 1) (index + 1) count v = Some bm' \<and> bitmap_wf bm'
      \<and> bit_count bm' = bit_count ?b \<and> length (bits bm') = length (bits ?b)
      \<and> (\<forall>j. int j < bit_count ?b \<longrightarrow>
           bm_bit bm' j = (if index + 1 \<le> int j \<and> int j < index + 1 + (count - (i + 1)) then v \<noteq> 0
                           else bm_bit ?b j))"
      using Suc by (intro Suc.hyps(1)) auto
    have "index div 8 < int (length (bits bm))"
      using Suc.prems True by (intro byte_index_in_range) auto
    then have w: "bm_bit ?b j = (if j = nat index then v \<noteq> 0 else bm_bit bm j)" for j
      using Suc.prems by (intro bm_bit_bm_write) (simp add: nat_div8 [symmetric])
    show ?thesis
      using IH Suc by (auto simp: step w)
  qed
qed

lemma bitmap_set_bit_correct:
  assumes "bitmap_wf bm" and "0 \<le> index"
  obtains bm' where "bitmap_set_bit bm index count v = Some bm'" and "bitmap_wf bm'"
    and "bit_count bm' = bit_count bm" and "length (bits bm') = length (bits bm)"
    and "\<And>j. int j < bit_count bm \<Longrightarrow>
         bm_bit bm' j = (if index \<le> int j \<and> int j < index + count then v \<noteq> 0 else bm_bit bm j)"
  using bitmap_set_bit_loop_correct [OF assms, of 0 count v]
  by (auto simp: bitmap_set_bit_def)

lemma bitmap_alloc_scan_correct:
  assumes "bitmap_wf bm" and "0 \<le> s"
  shows "\<exists>i' s' k'. bitmap_alloc_scan bm (if b then 1 else 0) count i s k = Some (i', s', k')
    \<and> 0 \<le> s' \<and> (count \<le> i' \<longrightarrow> k' = k \<and> (\<forall>j. s \<le> int j \<and> int j < s + (count - i) \<longrightarrow>
          int j < bit_count bm \<and> bm_bit bm j = b))"
  using assms
proof (induction "nat (count - i)" arbitrary: i s)
  case 0
  then show ?case
    by (subst bitmap_alloc_scan.simps) auto
next
  case (Suc n)
  let ?b = "if b then 1 else 0 :: int"
  show ?case
  proof (cases "s < bit_count bm \<and> bm_bit bm (nat s) = b")
    case False
    with Suc show ?thesis
      by (subst bitmap_alloc_scan.simps) (auto simp: bitmap_get_bit_eq)
  next
    case True
    then have unf: "bitmap_alloc_scan bm ?b count i s k
        = bitmap_alloc_scan bm ?b count (i + 1) (s + 1) k"
      using Suc by (subst bitmap_alloc_scan.simps) (auto simp: bitmap_get_bit_eq)
    have n: "n = nat (count - (i + 1))"
      using Suc.hyps(2) by arith
    obtain i' s' k' where
      r: "bitmap_alloc_scan bm ?b count (i + 1) (s + 1) k = Some (i', s', k')" and "0 \<le> s'"
      and ok: "count \<le> i' \<Longrightarrow> k' = k \<and> (\<forall>j. s + 1 \<le> int j \<and> int j < s + (count - i) \<longrightarrow>
             int j < bit_count bm \<and> bm_bit bm j = b)"
      using Suc.hyps(1) [OF n Suc.prems(1), of "s + 1"] Suc.prems(2) by auto
    have "int j < bit_count bm \<and> bm_bit bm j = b"
      if "count \<le> i'" and "s \<le> int j" and "int j < s + (count - i)" for j
      using True that ok by (cases "int j = s") auto
    with r ok \<open>0 \<le> s'\<close> show ?thesis by (auto simp: unf)
  qed
qed


text \<open>
  The loop with a starting index: it never reads outside the array, and it either reports
  \<open>-1\<close> and leaves the bitmap alone, or returns an index below the bit count whose bit
  equals \<open>b\<close>, as do the \<open>count - 1\<close> bits from it on, and sets the \<open>count\<close> bits from
  the index to 1 (the argument \<open>NOT b\<close> is never 0).
\<close>

definition alloc_result :: "bitmap_t \<Rightarrow> bool \<Rightarrow> int \<Rightarrow> int \<Rightarrow> bitmap_t \<Rightarrow> bool" where
  "alloc_result bm b count k bm' \<longleftrightarrow>
     bitmap_wf bm' \<and> bit_count bm' = bit_count bm \<and> length (bits bm') = length (bits bm) \<and>
     (if k = -1 then bm' = bm
      else 0 \<le> k \<and> k < bit_count bm \<and> bm_bit bm (nat k) = b \<and>
        (\<forall>j. k \<le> int j \<and> int j < k + (count - 1) \<longrightarrow> int j < bit_count bm \<and> bm_bit bm j = b) \<and>
        (\<forall>j. int j < bit_count bm \<longrightarrow>
           bm_bit bm' j = (k \<le> int j \<and> int j < k + count \<or> bm_bit bm j)))"

lemma not_int_neq_0: "NOT (if b then 1 else 0 :: int) \<noteq> 0"
  by simp

lemma bitmap_alloc_loop_correct:
  assumes "bitmap_wf bm" and "0 \<le> s"
  shows "\<exists>k bm'. bitmap_alloc_loop bm (if b then 1 else 0) count s = Some (k, bm')
    \<and> alloc_result bm b count k bm'"
  using assms
proof (induction bm "if b then 1 else 0 :: int" count s rule: bitmap_alloc_loop.induct)
  case (1 bm count s)
  let ?b = "if b then 1 else 0 :: int"
  consider "bit_count bm \<le> s" | "s < bit_count bm" "bm_bit bm (nat s) \<noteq> b"
    | "s < bit_count bm" "bm_bit bm (nat s) = b"
    by linarith
  then show ?case
  proof cases
    case 1
    with "1.prems" show ?thesis
      by (subst bitmap_alloc_loop.simps) (auto simp: alloc_result_def)
  next
    case 2
    then have get: "bitmap_get_bit bm s = Some (if bm_bit bm (nat s) then 1 else 0)"
      using "1.prems" by (intro bitmap_get_bit_eq) auto
    have "bitmap_alloc_loop bm ?b count s = bitmap_alloc_loop bm ?b count (s + 1)"
      using 2 get by (subst bitmap_alloc_loop.simps) auto
    moreover have "\<exists>k bm'. bitmap_alloc_loop bm ?b count (s + 1) = Some (k, bm')
        \<and> alloc_result bm b count k bm'"
      using "1.hyps"(1) [OF 2(1) get] 2(2) "1.prems" by auto
    ultimately show ?thesis by simp
  next
    case 3
    have get: "bitmap_get_bit bm s = Some ?b"
      using "1.prems" 3 by (auto simp: bitmap_get_bit_eq)
    obtain i' s' k' where scan: "bitmap_alloc_scan bm ?b count 1 s s = Some (i', s', k')"
      and "0 \<le> s'" and ok: "count \<le> i' \<longrightarrow> k' = s \<and> (\<forall>j. s \<le> int j \<and> int j < s + (count - 1) \<longrightarrow>
          int j < bit_count bm \<and> bm_bit bm j = b)"
      using bitmap_alloc_scan_correct [OF "1.prems", of b count 1 s] by auto
    show ?thesis
    proof (cases "count \<le> i'")
      case True
      obtain bm' where set: "bitmap_set_bit bm s count (NOT ?b) = Some bm'" "bitmap_wf bm'"
        "bit_count bm' = bit_count bm" "length (bits bm') = length (bits bm)"
        "\<And>j. int j < bit_count bm \<Longrightarrow>
           bm_bit bm' j = (if s \<le> int j \<and> int j < s + count then NOT ?b \<noteq> 0 else bm_bit bm j)"
        using bitmap_set_bit_correct [OF "1.prems"] by blast
      have "bitmap_alloc_loop bm ?b count s = Some (s, bm')"
        using 3 get scan True ok set(1) by (subst bitmap_alloc_loop.simps) simp
      moreover have "alloc_result bm b count s bm'"
        using "1.prems" 3 ok True set not_int_neq_0 [of b]
        by (auto simp: alloc_result_def)
      ultimately show ?thesis by blast
    next
      case False
      then have "bitmap_alloc_loop bm ?b count s = bitmap_alloc_loop bm ?b count s'"
        using 3 get scan by (subst bitmap_alloc_loop.simps) simp
      moreover have "\<exists>k bm'. bitmap_alloc_loop bm ?b count s' = Some (k, bm')
          \<and> alloc_result bm b count k bm'"
        using "1.hyps"(2) [OF 3(1) get _ scan refl refl False] "1.prems"(1) \<open>0 \<le> s'\<close> by auto
      ultimately show ?thesis by simp
    qed
  qed
qed


subsection \<open>Allocation of a single bit\<close>

text \<open>
  With \<open>count = 1\<close>, the only value the kernel passes, the search is a first fit.
\<close>

definition first_free :: "bitmap_t \<Rightarrow> nat \<Rightarrow> bool" where
  "first_free bm k \<longleftrightarrow> int k < bit_count bm \<and> \<not> bm_bit bm k \<and> (\<forall>j < k. bm_bit bm j)"

lemma first_free_unique: "first_free bm k \<Longrightarrow> first_free bm k' \<Longrightarrow> k = k'"
  by (metis first_free_def linorder_neqE_nat)

lemma first_free_exists:
  assumes "int j < bit_count bm" and "\<not> bm_bit bm j"
  shows "\<exists>k. first_free bm k"
proof -
  obtain k where k: "\<not> bm_bit bm k" "\<forall>m < k. bm_bit bm m"
    using assms(2) exists_least_iff [of "\<lambda>k. \<not> bm_bit bm k"] by blast
  then have "k \<le> j"
    using assms(2) linorder_not_le by blast
  with k assms(1) have "first_free bm k"
    by (simp add: first_free_def)
  then show ?thesis ..
qed

lemma bitmap_set_one:
  assumes "bitmap_wf bm" and "int k < bit_count bm"
  shows "bitmap_set_bit bm (int k) 1 v = Some (bm_write bm k (v \<noteq> 0))"
proof -
  have "bitmap_set_bit bm (int k) 1 v
      = bitmap_set_bit_loop (bm_write bm k (v \<noteq> 0)) 1 (int k + 1) 1 v"
    using bitmap_set_bit_loop_step [OF assms(1), of "int k" 0 1 v] assms(2)
    by (simp add: bitmap_set_bit_def)
  then show ?thesis
    by (simp add: bitmap_set_bit_loop.simps [of "bm_write bm k (v \<noteq> 0)" 1])
qed

lemma bitmap_alloc_loop_one:
  assumes "bitmap_wf bm" and "\<forall>j < s. bm_bit bm j"
  shows "bitmap_alloc_loop bm 0 1 (int s) =
    (if \<forall>j. int j < bit_count bm \<longrightarrow> bm_bit bm j then Some (-1, bm)
     else let k = (THE k. first_free bm k) in Some (int k, bm_write bm k True))"
  using assms
proof (induction "nat (bit_count bm - int s)" arbitrary: s)
  case 0
  then show ?case
    by (subst bitmap_alloc_loop.simps) auto
next
  case (Suc n)
  then have s: "int s < bit_count bm" by simp
  have get: "bitmap_get_bit bm (int s) = Some (if bm_bit bm s then 1 else 0)"
    using Suc.prems s by (simp add: bitmap_get_bit_eq)
  show ?case
  proof (cases "bm_bit bm s")
    case True
    have "bitmap_alloc_loop bm 0 1 (int s) = bitmap_alloc_loop bm 0 1 (int (Suc s))"
      using True get s by (subst bitmap_alloc_loop.simps) (simp add: add.commute)
    moreover have "n = nat (bit_count bm - int (Suc s))" "\<forall>j < Suc s. bm_bit bm j"
      using Suc True by (auto simp: less_Suc_eq)
    ultimately show ?thesis
      using Suc.hyps(1) Suc.prems(1) by presburger
  next
    case False
    have ff: "first_free bm s"
      using False s Suc.prems by (simp add: first_free_def)
    then have the: "(THE k. first_free bm k) = s"
      using first_free_unique by blast
    have "bitmap_alloc_loop bm 0 1 (int s) = Some (int s, bm_write bm s True)"
      using False get s Suc.prems(1)
      by (subst bitmap_alloc_loop.simps)
        (simp add: bitmap_alloc_scan.simps [of bm 0 1 1] bitmap_set_one)
    with the False s show ?thesis by auto
  qed
qed

lemma bitmap_alloc_one_full:
  assumes "bitmap_wf bm" and "\<And>j. int j < bit_count bm \<Longrightarrow> bm_bit bm j"
  shows "bitmap_alloc_nbits bm 0 1 = Some (-1, bm)"
  using bitmap_alloc_loop_one [OF assms(1), of 0] assms(2) by (simp add: bitmap_alloc_nbits_def)

lemma bitmap_alloc_one_free:
  assumes "bitmap_wf bm" and "first_free bm k"
  shows "bitmap_alloc_nbits bm 0 1 = Some (int k, bm_write bm k True)"
proof -
  have "(THE k. first_free bm k) = k"
    using assms(2) first_free_unique by blast
  moreover have "\<not> (\<forall>j. int j < bit_count bm \<longrightarrow> bm_bit bm j)"
    using assms(2) by (auto simp: first_free_def)
  ultimately show ?thesis
    using bitmap_alloc_loop_one [OF assms(1), of 0] by (simp add: bitmap_alloc_nbits_def)
qed

lemma kmemset_bytes_loop_fill:
  assumes "i + n \<le> length d"
  shows "kmemset_bytes_loop n d (int i) v = Some (take i d @ replicate n v @ drop (i + n) d)"
  using assms
proof (induction n arbitrary: i d)
  case 0
  then show ?case by simp
next
  case (Suc n)
  have "kmemset_bytes_loop (Suc n) d (int i) v = kmemset_bytes_loop n (d[i := v]) (int (Suc i)) v"
    using Suc.prems by (simp add: add.commute)
  also have "\<dots> = Some (take (Suc i) (d[i := v]) @ replicate n v @ drop (Suc i + n) (d[i := v]))"
    using Suc.prems by (intro Suc.IH) simp
  finally show ?case
    using Suc.prems by (simp add: take_Suc_conv_app_nth replicate_append_same)
qed

lemma bitmap_byte_count_eq: "0 \<le> n \<Longrightarrow> bitmap_byte_count n = (n + 7) div 8"
  by (simp add: bitmap_byte_count_def)

lemma bitmap_init_eq:
  assumes "0 \<le> n" and "bitmap_byte_count n \<le> int (length buf)"
  shows "bitmap_init buf n v = Some \<lparr>bit_count = n,
    bits = replicate (nat (bitmap_byte_count n)) (if v \<noteq> 0 then 0xff else 0)
           @ drop (nat (bitmap_byte_count n)) buf\<rparr>"
proof (cases "bitmap_byte_count n = 0")
  case True
  then show ?thesis by (simp add: bitmap_init_def kmemset_bytes_def)
next
  case False
  moreover have "0 \<le> bitmap_byte_count n"
    using assms(1) by (simp add: bitmap_byte_count_eq)
  ultimately show ?thesis
    using kmemset_bytes_loop_fill [of 0 "nat (bitmap_byte_count n)" buf] assms(2)
    by (simp add: bitmap_init_def kmemset_bytes_def Let_def)
qed

subsection \<open>Properties\<close>


text \<open>On a well-formed bitmap, \<^verbatim>\<open>bitmap_alloc_nbits(bitmap, 0, 1)\<close> either reports
  -1 because every bit is set and leaves the bitmap as it was, or returns the first clear bit
  and sets exactly that bit.\<close>

theorem bitmap_alloc_single:
  assumes "bitmap_wf bm"
  shows "((\<forall>j. int j < bit_count bm \<longrightarrow> bm_bit bm j) \<and> bitmap_alloc_nbits bm 0 1 = Some (-1, bm))
    \<or> (\<exists>k bm'. first_free bm k \<and> bitmap_alloc_nbits bm 0 1 = Some (int k, bm') \<and> bitmap_wf bm'
         \<and> bit_count bm' = bit_count bm \<and> (\<forall>j. bm_bit bm' j = (j = k \<or> bm_bit bm j)))"
proof (cases "\<forall>j. int j < bit_count bm \<longrightarrow> bm_bit bm j")
  case True
  with assms show ?thesis by (simp add: bitmap_alloc_one_full)
next
  case False
  then obtain k where k: "first_free bm k"
    using first_free_exists by blast
  then have "k div 8 < length (bits bm)"
    using assms by (auto simp: first_free_def bitmap_wf_def)
  then have "\<forall>j. bm_bit (bm_write bm k True) j = (j = k \<or> bm_bit bm j)"
    by (simp add: bm_bit_bm_write)
  with k assms show ?thesis
    using bitmap_alloc_one_free [OF assms k] by (intro disjI2 exI [of _ k] exI [of _ "bm_write bm k True"]) simp
qed

theorem bitmap_alloc_single_witness:
  "bitmap_wf \<lparr>bit_count = 10, bits = [0xff, 0x01]\<rparr>
   \<and> bitmap_alloc_nbits \<lparr>bit_count = 10, bits = [0xff, 0x01]\<rparr> 0 1
       = Some (9, \<lparr>bit_count = 10, bits = [0xff, 0x03]\<rparr>)
   \<and> (\<exists>k bm'. first_free \<lparr>bit_count = 10, bits = [0xff, 0x01]\<rparr> k
        \<and> bitmap_alloc_nbits \<lparr>bit_count = 10, bits = [0xff, 0x01]\<rparr> 0 1 = Some (int k, bm')
        \<and> bm_bit bm' k)"
proof -
  let ?bm = "\<lparr>bit_count = 10, bits = [0xff, 0x01]\<rparr>"
  have wf: "bitmap_wf ?bm" by (simp add: bitmap_wf_def)
  have run: "bitmap_alloc_nbits ?bm 0 1 = Some (9, \<lparr>bit_count = 10, bits = [0xff, 0x03]\<rparr>)"
    by code_simp
  show ?thesis
    using bitmap_alloc_single [OF wf] wf run by auto
qed

text \<open>C27: For every bit value and every count, \<^verbatim>\<open>bitmap_alloc_nbits\<close> returns without
  touching a byte outside the array, keeps the bitmap well formed, and a returned index is the
  start of a run in which all bits but the last one have the requested value.\<close>

theorem bitmap_alloc_contract:
  assumes "bitmap_wf bm"
  shows "\<exists>k bm'. bitmap_alloc_nbits bm (if b then 1 else 0) count = Some (k, bm')
    \<and> alloc_result bm b count k bm'"
  using bitmap_alloc_loop_correct [OF assms, of 0 b count] by (simp add: bitmap_alloc_nbits_def)

theorem bitmap_alloc_contract_witness:
  "\<exists>k bm'. bitmap_alloc_nbits \<lparr>bit_count = 12, bits = [0x31, 0]\<rparr> (if False then 1 else 0) 4 = Some (k, bm')
    \<and> alloc_result \<lparr>bit_count = 12, bits = [0x31, 0]\<rparr> False 4 k bm'"
proof (rule bitmap_alloc_contract)
  show "bitmap_wf \<lparr>bit_count = 12, bits = [0x31, 0]\<rparr>" by (simp add: bitmap_wf_def)
qed

text \<open>Asked for two bits, \<^verbatim>\<open>bitmap_alloc_nbits\<close> returns the first clear bit
  whatever the bit after it is (it may be in use, or not exist at all): the inner loop reads
  the starting bit again instead of the next one.\<close>

theorem bitmap_alloc_two_ignores_second:
  assumes "bitmap_wf bm" and "first_free bm k"
  shows "\<exists>bm'. bitmap_alloc_nbits bm 0 2 = Some (int k, bm')"
proof -
  have start: "bitmap_alloc_loop bm 0 2 (int s) = bitmap_alloc_loop bm 0 2 (int k)" if "s \<le> k" for s
    using that
  proof (induction "k - s" arbitrary: s)
    case 0
    then show ?case by simp
  next
    case (Suc n)
    then have s: "s < k" by simp
    then have "bitmap_get_bit bm (int s) = Some 1" "int s < bit_count bm"
      using assms by (auto simp: bitmap_get_bit_eq first_free_def)
    then have "bitmap_alloc_loop bm 0 2 (int s) = bitmap_alloc_loop bm 0 2 (int (Suc s))"
      by (subst bitmap_alloc_loop.simps) (simp add: add.commute)
    with Suc.hyps(1) [of "Suc s"] Suc.hyps(2) s show ?case by simp
  qed
  obtain bm' where set: "bitmap_set_bit bm (int k) 2 (- 1) = Some bm'"
    using bitmap_set_bit_correct [OF assms(1), of "int k" 2 "- 1"] by auto
  have "bitmap_get_bit bm (int k) = Some 0" "int k < bit_count bm"
    using assms by (auto simp: bitmap_get_bit_eq first_free_def)
  then have "bitmap_alloc_loop bm 0 2 (int k) = Some (int k, bm')"
    using set
    by (subst bitmap_alloc_loop.simps)
      (simp add: bitmap_alloc_scan.simps [of bm 0 2 1] bitmap_alloc_scan.simps [of bm 0 2 2])
  with start [of 0] show ?thesis by (simp add: bitmap_alloc_nbits_def)
qed

theorem bitmap_alloc_two_ignores_second_witness:
  "bm_bit \<lparr>bit_count = 3, bits = [0x02]\<rparr> 1
   \<and> (\<exists>bm'. bitmap_alloc_nbits \<lparr>bit_count = 3, bits = [0x02]\<rparr> 0 2 = Some (int 0, bm'))"
proof -
  have "bitmap_wf \<lparr>bit_count = 3, bits = [0x02]\<rparr>" by (simp add: bitmap_wf_def)
  moreover have "first_free \<lparr>bit_count = 3, bits = [0x02]\<rparr> 0"
    by (simp add: first_free_def bm_bit_def)
  moreover have "bm_bit \<lparr>bit_count = 3, bits = [0x02]\<rparr> 1"
    by (simp add: bm_bit_def)
  ultimately show ?thesis
    using bitmap_alloc_two_ignores_second by blast
qed

text \<open>\<^verbatim>\<open>bitmap_set_bit\<close> followed by \<^verbatim>\<open>bitmap_get_bit\<close>: the bits from
  \<open>index\<close> to \<open>index + count - 1\<close> read back as the value written, all others as before, and
  no access leaves the array even when the range passes the end of the bitmap.\<close>

theorem bitmap_set_then_get:
  assumes "bitmap_wf bm" and "0 \<le> index" and "0 \<le> i" and "i < bit_count bm"
  shows "\<exists>bm'. bitmap_set_bit bm index count v = Some bm' \<and> bitmap_wf bm' \<and>
    bitmap_get_bit bm' i =
      (if index \<le> i \<and> i < index + count then Some (if v \<noteq> 0 then 1 else 0) else bitmap_get_bit bm i)"
proof -
  obtain bm' where bm': "bitmap_set_bit bm index count v = Some bm'" "bitmap_wf bm'"
    "bit_count bm' = bit_count bm"
    "\<And>j. int j < bit_count bm \<Longrightarrow>
       bm_bit bm' j = (if index \<le> int j \<and> int j < index + count then v \<noteq> 0 else bm_bit bm j)"
    using bitmap_set_bit_correct [OF assms(1,2)] by metis
  with assms show ?thesis by (simp add: bitmap_get_bit_eq)
qed

theorem bitmap_set_then_get_witness:
  "\<exists>bm'. bitmap_set_bit \<lparr>bit_count = 12, bits = [0, 0]\<rparr> 6 100 1 = Some bm' \<and> bitmap_wf bm' \<and>
    bitmap_get_bit bm' 9 = Some 1"
  using bitmap_set_then_get [of "\<lparr>bit_count = 12, bits = [0, 0]\<rparr>" 6 9 100 1]
  by (simp add: bitmap_wf_def)

end
