(* ===== verification/KList.thy ===== *)
theory KList
  imports Prelude_C
begin

text \<open>
  The intrusive doubly linked list of \<^verbatim>\<open>src/source/kernel/tools/list.c\<close> and
  \<^verbatim>\<open>list.h\<close>. The nodes live in a store from addresses to nodes, shared by all lists;
  a list head holds the first and last address and a 32-bit count. The operations are followed
  by the representation predicate \<open>dlist\<close>, the lemmas that each operation implements the
  one on HOL lists and touches no node outside its list, and the queue interface
  (locale \<open>node_queue\<close>) through which the scheduler and the semaphores use them.
\<close>

subsection \<open>Nodes, lists and operations\<close>

record list_node_t =
  n_pre :: addr
  n_next :: addr

record list_t =
  l_first :: addr
  l_last :: addr
  l_count :: u32

type_synonym nheap = "addr \<Rightarrow> list_node_t"

definition list_node_init :: "addr \<Rightarrow> nheap \<Rightarrow> nheap" where
  "list_node_init node h = h(node := \<lparr>n_pre = 0, n_next = 0\<rparr>)"

definition list_init :: list_t where
  "list_init = \<lparr>l_first = 0, l_last = 0, l_count = 0\<rparr>"

definition list_is_empty :: "list_t \<Rightarrow> bool" where
  "list_is_empty l \<longleftrightarrow> l_count l = 0"

definition list_size :: "list_t \<Rightarrow> u32" where
  "list_size l = l_count l"

definition list_first :: "list_t \<Rightarrow> addr" where
  "list_first l = l_first l"

definition list_last :: "list_t \<Rightarrow> addr" where
  "list_last l = l_last l"

definition set_next :: "addr \<Rightarrow> addr \<Rightarrow> nheap \<Rightarrow> nheap" where
  "set_next a v h = h(a := (h a)\<lparr>n_next := v\<rparr>)"

definition set_pre :: "addr \<Rightarrow> addr \<Rightarrow> nheap \<Rightarrow> nheap" where
  "set_pre a v h = h(a := (h a)\<lparr>n_pre := v\<rparr>)"

definition list_insert_front :: "list_t \<Rightarrow> addr \<Rightarrow> nheap \<Rightarrow> list_t \<times> nheap" where
  "list_insert_front l node h =
     (let h1 = set_next node (l_first l) h;
          h2 = set_pre node 0 h1;
          (l', h3) =
            (if list_is_empty l then (l\<lparr>l_last := node, l_first := node\<rparr>, h2)
             else (l\<lparr>l_first := node\<rparr>, set_pre (l_first l) node h2))
      in (l'\<lparr>l_count := l_count l' + 1\<rparr>, h3))"

definition list_insert_back :: "list_t \<Rightarrow> addr \<Rightarrow> nheap \<Rightarrow> list_t \<times> nheap" where
  "list_insert_back l node h =
     (let h1 = set_pre node (l_last l) h;
          h2 = set_next node 0 h1;
          (l', h3) =
            (if list_is_empty l then (l\<lparr>l_last := node, l_first := node\<rparr>, h2)
             else (l\<lparr>l_last := node\<rparr>, set_next (l_last l) node h2))
      in (l'\<lparr>l_count := l_count l' + 1\<rparr>, h3))"

definition list_remove_front :: "list_t \<Rightarrow> nheap \<Rightarrow> addr \<times> list_t \<times> nheap" where
  "list_remove_front l h =
     (if list_is_empty l then (0, l, h)
      else let removed_node = l_first l;
               l1 = l\<lparr>l_first := n_next (h removed_node)\<rparr>;
               (l2, h1) =
                 (if l_first l1 = 0 then (l1\<lparr>l_last := 0\<rparr>, h)
                  else (l1, set_pre (n_next (h removed_node)) 0 h));
               h2 = set_pre removed_node 0 (set_next removed_node 0 h1)
           in (removed_node, l2\<lparr>l_count := l_count l2 - 1\<rparr>, h2))"

definition list_remove :: "list_t \<Rightarrow> addr \<Rightarrow> nheap \<Rightarrow> list_t \<times> nheap" where
  "list_remove l node h =
     (let l1 = (if node = l_first l then l\<lparr>l_first := n_next (h node)\<rparr> else l);
          l2 = (if node = l_last l1 then l1\<lparr>l_last := n_pre (h node)\<rparr> else l1);
          h1 = (if n_pre (h node) \<noteq> 0 then set_next (n_pre (h node)) (n_next (h node)) h else h);
          h2 = (if n_next (h1 node) \<noteq> 0 then set_pre (n_next (h1 node)) (n_pre (h1 node)) h1 else h1);
          h3 = set_pre node 0 (set_next node 0 h2)
      in (l2\<lparr>l_count := l_count l2 - 1\<rparr>, h3))"

subsection \<open>Representation\<close>

text \<open>
  \<open>links h p xs q\<close>: the nodes \<open>xs\<close> are chained in order, the first one's predecessor is
  \<open>p\<close> and the last one's successor is \<open>q\<close>.
\<close>

definition head_or :: "addr list \<Rightarrow> addr \<Rightarrow> addr" where
  "head_or xs q = (case xs of [] \<Rightarrow> q | x # _ \<Rightarrow> x)"

definition last_or :: "addr \<Rightarrow> addr list \<Rightarrow> addr" where
  "last_or p xs = (if xs = [] then p else last xs)"

lemma head_or_simps [simp]:
  "head_or [] q = q" "head_or (x # xs) q = x" "head_or (xs @ ys) q = head_or xs (head_or ys q)"
  by (auto simp: head_or_def split: list.splits)

lemma last_or_simps [simp]:
  "last_or p [] = p" "last_or p (x # xs) = last_or x xs" "last_or p (xs @ ys) = last_or (last_or p xs) ys"
  by (auto simp: last_or_def)

fun links :: "nheap \<Rightarrow> addr \<Rightarrow> addr list \<Rightarrow> addr \<Rightarrow> bool" where
  "links h p [] q = True"
| "links h p (x # xs) q =
     (x \<noteq> 0 \<and> n_pre (h x) = p \<and> n_next (h x) = head_or xs q \<and> links h x xs q)"

definition dlist :: "nheap \<Rightarrow> list_t \<Rightarrow> addr list \<Rightarrow> bool" where
  "dlist h l xs \<longleftrightarrow>
     links h 0 xs 0 \<and> distinct xs \<and> l_first l = head_or xs 0 \<and> l_last l = last_or 0 xs
     \<and> l_count l = of_nat (length xs) \<and> length xs < 2 ^ 31"

lemma links_append:
  "links h p (xs @ ys) q \<longleftrightarrow> links h p xs (head_or ys q) \<and> links h (last_or p xs) ys q"
  by (induction xs arbitrary: p) auto

lemma links_nonnull: "links h p xs q \<Longrightarrow> 0 \<notin> set xs"
  by (induction xs arbitrary: p) auto

lemma links_cong:
  "(\<And>a. a \<in> set xs \<Longrightarrow> h' a = h a) \<Longrightarrow> links h' p xs q = links h p xs q"
  by (induction xs arbitrary: p) auto

lemma links_upd [simp]: "a \<notin> set xs \<Longrightarrow> links (h(a := v)) p xs q = links h p xs q"
  by (intro links_cong) auto

lemma links_set_next [simp]: "a \<notin> set xs \<Longrightarrow> links (set_next a v h) p xs q = links h p xs q"
  by (simp add: set_next_def)

lemma links_set_pre [simp]: "a \<notin> set xs \<Longrightarrow> links (set_pre a v h) p xs q = links h p xs q"
  by (simp add: set_pre_def)

text \<open>Redirecting the outer ends of a chain.\<close>

lemma links_new_end:
  "links h p (xs @ [z]) q \<Longrightarrow> z \<notin> set xs \<Longrightarrow> links (set_next z q' h) p (xs @ [z]) q'"
  by (simp add: links_append set_next_def)

lemma links_new_start:
  "links h p (x # xs) q \<Longrightarrow> x \<notin> set xs \<Longrightarrow> links (set_pre x p' h) p' (x # xs) q"
  by (simp add: set_pre_def)

lemma set_next_apply [simp]:
  "set_next a v h b = (if b = a then (h a)\<lparr>n_next := v\<rparr> else h b)"
  by (simp add: set_next_def)

lemma set_pre_apply [simp]:
  "set_pre a v h b = (if b = a then (h a)\<lparr>n_pre := v\<rparr> else h b)"
  by (simp add: set_pre_def)

lemma distinct_length_bound:
  assumes "distinct (xs :: u32 list)" and "0 \<notin> set xs"
  shows "length xs < 2 ^ 32"
proof -
  have "card (insert 0 (set xs)) \<le> card (UNIV :: u32 set)"
    by (intro card_mono) auto
  with assms show ?thesis
    by (simp add: distinct_card card_word)
qed

lemma dlist_empty_iff: "dlist h l xs \<Longrightarrow> list_is_empty l \<longleftrightarrow> xs = []"
  by (auto simp: dlist_def list_is_empty_def word_of_nat_eq_0_iff dest!: nat_dvd_not_less)

lemma dlist_init: "dlist h list_init []"
  by (simp add: dlist_def list_init_def)

lemma dlist_size: "dlist h l xs \<Longrightarrow> sint (list_size l) = int (length xs)"
  by (simp add: dlist_def list_size_def signed_of_nat signed_take_bit_int_eq_self_iff)

lemma dlist_first: "dlist h l xs \<Longrightarrow> list_first l = head_or xs 0"
  by (simp add: dlist_def list_first_def)

lemma dlist_cong:
  "(\<And>a. a \<in> set xs \<Longrightarrow> h' a = h a) \<Longrightarrow> dlist h' l xs = dlist h l xs"
  using links_cong [of xs h' h 0 0] by (simp add: dlist_def)


subsection \<open>The operations on represented lists\<close>

lemma list_insert_front_dlist:
  assumes "dlist h l xs" and "a \<notin> set xs" and "a \<noteq> 0" and "Suc (length xs) < 2 ^ 31"
    and "list_insert_front l a h = (l', h')"
  shows "dlist h' l' (a # xs)" and "\<And>b. b \<notin> insert a (set xs) \<Longrightarrow> h' b = h b"
proof -
  have "dlist h' l' (a # xs) \<and> (\<forall>b. b \<notin> insert a (set xs) \<longrightarrow> h' b = h b)"
  proof (cases xs)
    case Nil
    with assms show ?thesis
      by (auto simp: dlist_def list_insert_front_def list_is_empty_def Let_def)
  next
    case (Cons x ys)
    let ?h = "set_pre a 0 (set_next a x h)"
    have ne: "\<not> list_is_empty l"
      using dlist_empty_iff [OF assms(1)] Cons by simp
    then have eq: "l' = l\<lparr>l_first := a, l_count := l_count l + 1\<rparr>" "h' = set_pre x a ?h"
      using assms Cons by (auto simp: list_insert_front_def dlist_def Let_def)
    have "links ?h 0 (x # ys) 0"
      using assms Cons by (auto simp: dlist_def)
    then have "links h' a (x # ys) 0"
      unfolding eq(2) using assms(1) Cons by (intro links_new_start) (auto simp: dlist_def)
    with assms Cons eq show ?thesis
      by (auto simp: dlist_def)
  qed
  then show "dlist h' l' (a # xs)" and "\<And>b. b \<notin> insert a (set xs) \<Longrightarrow> h' b = h b"
    by auto
qed

lemma list_insert_back_dlist:
  assumes "dlist h l xs" and "a \<notin> set xs" and "a \<noteq> 0" and "Suc (length xs) < 2 ^ 31"
    and "list_insert_back l a h = (l', h')"
  shows "dlist h' l' (xs @ [a])" and "\<And>b. b \<notin> insert a (set xs) \<Longrightarrow> h' b = h b"
proof -
  have "dlist h' l' (xs @ [a]) \<and> (\<forall>b. b \<notin> insert a (set xs) \<longrightarrow> h' b = h b)"
  proof (cases xs rule: rev_cases)
    case Nil
    with assms show ?thesis
      by (auto simp: dlist_def list_insert_back_def list_is_empty_def Let_def)
  next
    case (snoc ys z)
    let ?h = "set_next a 0 (set_pre a z h)"
    have ne: "\<not> list_is_empty l"
      using dlist_empty_iff [OF assms(1)] snoc by simp
    then have eq: "l' = l\<lparr>l_last := a, l_count := l_count l + 1\<rparr>" "h' = set_next z a ?h"
      using assms snoc by (auto simp: list_insert_back_def dlist_def Let_def)
    have "links ?h 0 (ys @ [z]) 0"
      using assms snoc by (auto simp: dlist_def)
    then have "links h' 0 (ys @ [z]) a"
      unfolding eq(2) using assms(1) snoc by (intro links_new_end) (auto simp: dlist_def)
    moreover have "z \<noteq> a" using assms snoc by auto
    ultimately have "links h' 0 (ys @ [z] @ [a]) 0"
      using assms(3) eq(2) by (subst append_assoc [symmetric], subst links_append) auto
    with assms snoc eq show ?thesis
      by (auto simp: dlist_def)
  qed
  then show "dlist h' l' (xs @ [a])" and "\<And>b. b \<notin> insert a (set xs) \<Longrightarrow> h' b = h b"
    by auto
qed

lemma list_remove_front_dlist:
  assumes "dlist h l (a # xs)" and "list_remove_front l h = (r, l', h')"
  shows "r = a" and "dlist h' l' xs" and "h' a = \<lparr>n_pre = 0, n_next = 0\<rparr>"
    and "\<And>b. b \<notin> insert a (set xs) \<Longrightarrow> h' b = h b"
proof -
  have ne: "\<not> list_is_empty l"
    using dlist_empty_iff [OF assms(1)] by simp
  have "r = a \<and> dlist h' l' xs \<and> h' a = \<lparr>n_pre = 0, n_next = 0\<rparr>
    \<and> (\<forall>b. b \<notin> insert a (set xs) \<longrightarrow> h' b = h b)"
  proof (cases xs)
    case Nil
    with assms ne show ?thesis
      by (auto simp: dlist_def list_remove_front_def Let_def)
  next
    case (Cons x ys)
    have lnk: "links h a (x # ys) 0" "x \<noteq> 0" "x \<notin> set ys" "a \<notin> set (x # ys)" "n_next (h a) = x"
      using assms(1) Cons by (auto simp: dlist_def)
    have eq: "r = a" "l' = l\<lparr>l_first := x, l_count := l_count l - 1\<rparr>"
      "h' = set_pre a 0 (set_next a 0 (set_pre x 0 h))"
      using assms ne Cons lnk by (auto simp: list_remove_front_def Let_def dlist_def)
    have "links (set_pre x 0 h) 0 (x # ys) 0"
      using lnk by (intro links_new_start) auto
    then have "links h' 0 (x # ys) 0"
      using lnk eq by auto
    with assms Cons eq lnk show ?thesis
      by (auto simp: dlist_def)
  qed
  then show "r = a" and "dlist h' l' xs" and "h' a = \<lparr>n_pre = 0, n_next = 0\<rparr>"
    and "\<And>b. b \<notin> insert a (set xs) \<Longrightarrow> h' b = h b"
    by auto
qed


text \<open>Unlinking an inner node: the two halves are joined.\<close>

lemma links_end_redirect:
  "links h p ys a \<Longrightarrow> distinct ys \<Longrightarrow>
     links (if ys \<noteq> [] then set_next (last ys) q h else h) p ys q"
  by (cases ys rule: rev_cases) (auto intro: links_new_end)

lemma links_start_redirect:
  "links h a zs q \<Longrightarrow> distinct zs \<Longrightarrow>
     links (if zs \<noteq> [] then set_pre (hd zs) p h else h) p zs q"
  by (cases zs) (auto simp: set_pre_def)

lemma links_unlink:
  assumes "links h 0 (ys @ a # zs) 0" and "distinct (ys @ a # zs)"
  defines "h1 \<equiv> (if ys \<noteq> [] then set_next (last ys) (head_or zs 0) h else h)"
  defines "h2 \<equiv> (if zs \<noteq> [] then set_pre (hd zs) (last_or 0 ys) h1 else h1)"
  shows "links h2 0 (ys @ zs) 0"
proof -
  have "links h1 0 ys (head_or zs 0)"
    unfolding h1_def using assms(1,2) by (intro links_end_redirect) (auto simp: links_append)
  moreover have "hd zs \<notin> set ys" if "zs \<noteq> []"
    using that assms(2) by (cases zs) auto
  ultimately have left: "links h2 0 ys (head_or zs 0)"
    by (auto simp: h2_def)
  have "last ys \<notin> set zs" if "ys \<noteq> []"
    using that assms(2) by (cases ys rule: rev_cases) auto
  then have "links h1 a zs 0"
    using assms(1) by (auto simp: h1_def links_append)
  then have "links h2 (last_or 0 ys) zs 0"
    unfolding h2_def using assms(2) by (intro links_start_redirect) auto
  with left show ?thesis by (simp add: links_append)
qed

lemma links_neighbours:
  assumes "links h 0 (ys @ a # zs) 0" and "distinct (ys @ a # zs)"
  shows "n_pre (h a) = last_or 0 ys" "n_next (h a) = head_or zs 0"
    and "last_or 0 ys \<noteq> a" "head_or zs 0 \<noteq> a"
    and "(last_or 0 ys = 0) = (ys = [])" "(head_or zs 0 = 0) = (zs = [])"
proof -
  have nz: "0 \<notin> set (ys @ a # zs)"
    using assms(1) by (rule links_nonnull)
  show "n_pre (h a) = last_or 0 ys" "n_next (h a) = head_or zs 0"
    using assms(1) by (auto simp: links_append)
  show "last_or 0 ys \<noteq> a" "head_or zs 0 \<noteq> a"
    using assms(2) nz by (auto simp: last_or_def head_or_def split: list.splits)
  show "(last_or 0 ys = 0) = (ys = [])"
    using nz by (cases ys rule: rev_cases) auto
  show "(head_or zs 0 = 0) = (zs = [])"
    using nz by (auto simp: head_or_def split: list.splits)
qed

lemma list_remove_eq:
  assumes "dlist h l (ys @ a # zs)" and "list_remove l a h = (l', h')"
  defines "h1 \<equiv> (if ys \<noteq> [] then set_next (last ys) (head_or zs 0) h else h)"
  defines "h2 \<equiv> (if zs \<noteq> [] then set_pre (hd zs) (last_or 0 ys) h1 else h1)"
  shows "h' = set_pre a 0 (set_next a 0 h2)"
    and "l' = \<lparr>l_first = head_or (ys @ zs) 0, l_last = last_or 0 (ys @ zs), l_count = l_count l - 1\<rparr>"
proof -
  have lnk: "links h 0 (ys @ a # zs) 0" and dst: "distinct (ys @ a # zs)"
    using assms(1) by (auto simp: dlist_def)
  note nb = links_neighbours [OF lnk dst]
  have h1: "h1 = (if n_pre (h a) \<noteq> 0 then set_next (n_pre (h a)) (n_next (h a)) h else h)"
    using nb by (auto simp: h1_def last_or_def)
  have "h1 a = h a"
    using nb by (auto simp: h1_def last_or_def)
  then have h2: "h2 = (if n_next (h1 a) \<noteq> 0 then set_pre (n_next (h1 a)) (n_pre (h1 a)) h1 else h1)"
    using nb by (auto simp: h2_def head_or_def split: list.splits)
  show "h' = set_pre a 0 (set_next a 0 h2)"
    using assms(2) unfolding h2 h1 by (simp add: list_remove_def Let_def)
  have "l_first l = head_or ys a" "l_last l = last_or a zs"
    using assms(1) by (auto simp: dlist_def)
  moreover have "(head_or ys a = a) = (ys = [])" "(last_or a zs = a) = (zs = [])"
    using dst by (cases ys; cases zs rule: rev_cases; auto)+
  ultimately show "l' = \<lparr>l_first = head_or (ys @ zs) 0, l_last = last_or 0 (ys @ zs),
      l_count = l_count l - 1\<rparr>"
    using assms(2) nb
    by (cases l) (auto simp: list_remove_def Let_def head_or_def last_or_def split: list.splits if_splits)
qed

lemma list_remove_dlist:
  assumes "dlist h l xs" and "a \<in> set xs" and "list_remove l a h = (l', h')"
  shows "dlist h' l' (remove1 a xs)" and "h' a = \<lparr>n_pre = 0, n_next = 0\<rparr>"
    and "\<And>b. b \<notin> set xs \<Longrightarrow> h' b = h b"
proof -
  obtain ys zs where xs: "xs = ys @ a # zs"
    using assms(2) by (auto simp: in_set_conv_decomp)
  define h1 where "h1 = (if ys \<noteq> [] then set_next (last ys) (head_or zs 0) h else h)"
  define h2 where "h2 = (if zs \<noteq> [] then set_pre (hd zs) (last_or 0 ys) h1 else h1)"
  have lnk: "links h 0 (ys @ a # zs) 0" and dst: "distinct (ys @ a # zs)"
    using assms(1) xs by (auto simp: dlist_def)
  note eq = list_remove_eq [OF assms(1) [unfolded xs] assms(3), folded h1_def, folded h2_def]
  have "links h2 0 (ys @ zs) 0"
    using links_unlink [OF lnk dst, folded h1_def, folded h2_def] .
  then have "links h' 0 (ys @ zs) 0"
    using dst eq(1) by auto
  moreover have "l_count l' = of_nat (length (ys @ zs))"
    using assms(1) xs eq(2) by (simp add: dlist_def)
  ultimately show "dlist h' l' (remove1 a xs)"
    using assms(1) eq(2) dst xs by (simp add: dlist_def distinct_remove1_split)
  show "h' a = \<lparr>n_pre = 0, n_next = 0\<rparr>"
    using eq(1) by simp
  show "h' b = h b" if "b \<notin> set xs" for b
  proof -
    have "ys = [] \<or> b \<noteq> last ys" "zs = [] \<or> b \<noteq> hd zs" "b \<noteq> a"
      using that xs by auto
    then have "h1 b = h b" "h2 b = h1 b" "b \<noteq> a"
      unfolding h2_def by (cases "ys = []"; cases "zs = []"; simp add: h1_def)+
    then show ?thesis
      by (simp add: eq(1))
  qed
qed


subsection \<open>The queue interface\<close>

text \<open>
  What the clients of the lists rely on: \<open>rep h l xs\<close> relates a store and a list head to
  the sequence of its nodes; appending and deleting act as on sequences and leave every node
  outside the list (and the new node) alone, so other lists in the same store keep their
  contents. \<open>cap\<close> bounds the length, \<open>valid\<close> singles out usable nodes.
\<close>

locale node_queue =
  fixes rep :: "('a \<Rightarrow> 'n) \<Rightarrow> 'l \<Rightarrow> 'a list \<Rightarrow> bool"
    and ins :: "'l \<Rightarrow> 'a \<Rightarrow> ('a \<Rightarrow> 'n) \<Rightarrow> 'l \<times> ('a \<Rightarrow> 'n)"
    and del :: "'l \<Rightarrow> 'a \<Rightarrow> ('a \<Rightarrow> 'n) \<Rightarrow> 'l \<times> ('a \<Rightarrow> 'n)"
    and valid :: "'a \<Rightarrow> bool"
    and cap :: nat
  assumes rep_distinct: "rep h l xs \<Longrightarrow> distinct xs"
    and rep_valid: "rep h l xs \<Longrightarrow> a \<in> set xs \<Longrightarrow> valid a"
    and rep_cap: "rep h l xs \<Longrightarrow> length xs < cap"
    and rep_frame: "rep h l xs \<Longrightarrow> (\<And>a. a \<in> set xs \<Longrightarrow> h' a = h a) \<Longrightarrow> rep h' l xs"
    and ins_rep: "rep h l xs \<Longrightarrow> a \<notin> set xs \<Longrightarrow> valid a \<Longrightarrow> Suc (length xs) < cap \<Longrightarrow>
      ins l a h = (l', h') \<Longrightarrow> rep h' l' (xs @ [a])"
    and ins_frame: "rep h l xs \<Longrightarrow> a \<notin> set xs \<Longrightarrow> valid a \<Longrightarrow> Suc (length xs) < cap \<Longrightarrow>
      ins l a h = (l', h') \<Longrightarrow> b \<notin> set xs \<Longrightarrow> b \<noteq> a \<Longrightarrow> h' b = h b"
    and del_rep: "rep h l xs \<Longrightarrow> a \<in> set xs \<Longrightarrow> del l a h = (l', h') \<Longrightarrow> rep h' l' (remove1 a xs)"
    and del_frame: "rep h l xs \<Longrightarrow> a \<in> set xs \<Longrightarrow> del l a h = (l', h') \<Longrightarrow>
      b \<notin> set xs \<Longrightarrow> h' b = h b"
begin

lemma other_ins:
  assumes "rep h l xs" "a \<notin> set xs" "valid a" "Suc (length xs) < cap" "ins l a h = (l', h')"
    and "rep h k ys" "set ys \<inter> set xs = {}" "a \<notin> set ys"
  shows "rep h' k ys"
proof (rule rep_frame [OF assms(6)])
  fix b assume "b \<in> set ys"
  with assms(7,8) have "b \<notin> set xs" "b \<noteq> a" by auto
  then show "h' b = h b" by (rule ins_frame [OF assms(1-5)])
qed

lemma other_del:
  assumes "rep h l xs" "a \<in> set xs" "del l a h = (l', h')"
    and "rep h k ys" "set ys \<inter> set xs = {}"
  shows "rep h' k ys"
proof (rule rep_frame [OF assms(4)])
  fix b assume "b \<in> set ys"
  with assms(5) have "b \<notin> set xs" by auto
  then show "h' b = h b" by (rule del_frame [OF assms(1-3)])
qed

text \<open>Moving a node to the end of its own list.\<close>

lemma rotate:
  assumes "rep h l xs" "a \<in> set xs" "del l a h = (l1, h1)" "ins l1 a h1 = (l2, h2)"
  shows "rep h2 l2 (remove1 a xs @ [a])"
    and "\<And>k ys. rep h k ys \<Longrightarrow> set ys \<inter> set xs = {} \<Longrightarrow> rep h2 k ys"
proof -
  have r1: "rep h1 l1 (remove1 a xs)"
    using assms(1-3) by (rule del_rep)
  have a: "a \<notin> set (remove1 a xs)" "valid a"
    using assms(1,2) by (auto simp: rep_distinct rep_valid)
  have len: "Suc (length (remove1 a xs)) < cap"
    using assms(2) rep_cap [OF assms(1)] length_pos_if_in_set [OF assms(2)]
    by (simp add: length_remove1)
  show "rep h2 l2 (remove1 a xs @ [a])"
    using ins_rep [OF r1 a len assms(4)] .
  fix k ys assume k: "rep h k ys" "set ys \<inter> set xs = {}"
  then have "rep h1 k ys"
    using other_del [OF assms(1-3)] by blast
  then show "rep h2 k ys"
    using other_ins [OF r1 a len assms(4)] k(2) assms(2) set_remove1_subset [of a xs] by blast
qed

text \<open>Moving a node from one list to the end of another.\<close>

lemma move:
  assumes "rep h l xs" "a \<in> set xs" "rep h k ys" "set ys \<inter> set xs = {}" "Suc (length ys) < cap"
    and "del l a h = (l1, h1)" "ins k a h1 = (k1, h2)"
  shows "rep h2 l1 (remove1 a xs)" and "rep h2 k1 (ys @ [a])"
    and "\<And>m zs. rep h m zs \<Longrightarrow> set zs \<inter> set xs = {} \<Longrightarrow> set zs \<inter> set ys = {} \<Longrightarrow> rep h2 m zs"
proof -
  have r1: "rep h1 l1 (remove1 a xs)"
    using assms(1,2,6) by (rule del_rep)
  have k1: "rep h1 k ys"
    using other_del [OF assms(1,2,6) assms(3,4)] .
  have a: "a \<notin> set ys" "valid a"
    using assms(1,2,4) by (auto simp: rep_valid)
  show "rep h2 k1 (ys @ [a])"
    using ins_rep [OF k1 a assms(5,7)] .
  show "rep h2 l1 (remove1 a xs)"
    using other_ins [OF k1 a assms(5,7) r1] assms(1,4) set_remove1_subset [of a xs]
    by (auto simp: rep_distinct)
  fix m zs assume m: "rep h m zs" "set zs \<inter> set xs = {}" "set zs \<inter> set ys = {}"
  then have "rep h1 m zs"
    using other_del [OF assms(1,2,6)] by blast
  then show "rep h2 m zs"
    using other_ins [OF k1 a assms(5,7)] m assms(2) by blast
qed

end

interpretation kl: node_queue dlist list_insert_back list_remove "\<lambda>a. a \<noteq> 0" "2 ^ 31"
proof (unfold_locales, goal_cases)
  case (1 h l xs)
  then show ?case by (simp add: dlist_def)
next
  case (2 h l xs a)
  then show ?case using links_nonnull by (auto simp: dlist_def)
next
  case (3 h l xs)
  then show ?case by (simp add: dlist_def)
next
  case (4 h l xs h')
  then show ?case using dlist_cong by blast
next
  case (5 h l xs a l' h')
  then show ?case by (intro list_insert_back_dlist(1))
next
  case (6 h l xs a l' h' b)
  then show ?case by (intro list_insert_back_dlist(2)) auto
next
  case (7 h l xs a l' h')
  then show ?case by (intro list_remove_dlist(1))
next
  case (8 h l xs a l' h' b)
  then show ?case by (intro list_remove_dlist(3))
qed

subsection \<open>Properties\<close>

text \<open>C36: \<^verbatim>\<open>list_remove\<close> on a node of a list unlinks exactly that node: the list then
  represents the old sequence without it, the node's own pointers are null, and no node outside
  the list is touched.\<close>

theorem list_remove_refines_remove1:
  assumes "dlist h l xs" and "a \<in> set xs"
  shows "dlist (snd (list_remove l a h)) (fst (list_remove l a h)) (remove1 a xs)
    \<and> snd (list_remove l a h) a = \<lparr>n_pre = 0, n_next = 0\<rparr>
    \<and> (\<forall>b. b \<notin> set xs \<longrightarrow> snd (list_remove l a h) b = h b)"
  using list_remove_dlist [OF assms, of "fst (list_remove l a h)" "snd (list_remove l a h)"] by simp

theorem list_remove_refines_remove1_witness:
  "dlist (snd (list_remove \<lparr>l_first = 8, l_last = 24, l_count = 3\<rparr> 16
      ((\<lambda>_. \<lparr>n_pre = 0, n_next = 0\<rparr>)(8 := \<lparr>n_pre = 0, n_next = 16\<rparr>,
         16 := \<lparr>n_pre = 8, n_next = 24\<rparr>, 24 := \<lparr>n_pre = 16, n_next = 0\<rparr>))))
    (fst (list_remove \<lparr>l_first = 8, l_last = 24, l_count = 3\<rparr> 16
      ((\<lambda>_. \<lparr>n_pre = 0, n_next = 0\<rparr>)(8 := \<lparr>n_pre = 0, n_next = 16\<rparr>,
         16 := \<lparr>n_pre = 8, n_next = 24\<rparr>, 24 := \<lparr>n_pre = 16, n_next = 0\<rparr>)))) [8, 24]"
proof -
  have "dlist ((\<lambda>_. \<lparr>n_pre = 0, n_next = 0\<rparr>)(8 := \<lparr>n_pre = 0, n_next = 16\<rparr>,
         16 := \<lparr>n_pre = 8, n_next = 24\<rparr>, 24 := \<lparr>n_pre = 16, n_next = 0\<rparr>))
      \<lparr>l_first = 8, l_last = 24, l_count = 3\<rparr> [8, 16, 24]"
    by (simp add: dlist_def)
  from list_remove_refines_remove1 [OF this, of 16] show ?thesis by simp
qed

text \<open>Appending with \<^verbatim>\<open>list_insert_back\<close> and taking with
  \<^verbatim>\<open>list_remove_front\<close> is a first-in first-out queue: the node taken is the oldest one
  and the rest keeps its order with the new node last.\<close>

theorem list_fifo:
  assumes "dlist h l (x # xs)" and "a \<notin> set (x # xs)" and "a \<noteq> 0" and "length xs + 2 < 2 ^ 31"
    and "list_insert_back l a h = (l1, h1)" and "list_remove_front l1 h1 = (r, l2, h2)"
  shows "r = x \<and> dlist h2 l2 (xs @ [a])"
proof -
  have "dlist h1 l1 ((x # xs) @ [a])"
    using assms by (intro list_insert_back_dlist(1)) auto
  then show ?thesis
    using list_remove_front_dlist [of h1 l1 x "xs @ [a]"] assms(6) by simp
qed

theorem list_fifo_witness:
  "\<exists>l1 h1 r l2 h2. list_insert_back \<lparr>l_first = 8, l_last = 8, l_count = 1\<rparr> 16
      (\<lambda>_. \<lparr>n_pre = 0, n_next = 0\<rparr>) = (l1, h1)
    \<and> list_remove_front l1 h1 = (r, l2, h2) \<and> r = 8 \<and> dlist h2 l2 [16]"
proof -
  let ?h = "\<lambda>_. \<lparr>n_pre = 0, n_next = 0\<rparr>" and ?l = "\<lparr>l_first = 8, l_last = 8, l_count = 1\<rparr>"
  obtain l1 h1 where ins: "list_insert_back ?l 16 ?h = (l1, h1)" by fastforce
  obtain r l2 h2 where del: "list_remove_front l1 h1 = (r, l2, h2)" using prod_cases3 by blast
  have "dlist ?h ?l [8]" by (simp add: dlist_def)
  from list_fifo [OF this _ _ _ ins del] have "r = 8 \<and> dlist h2 l2 [16]" by simp
  with ins del show ?thesis by blast
qed

end
