(* ===== verification/Sched.thy ===== *)
theory Sched
  imports KList Machine
begin

text \<open>
  The scheduler of \<^verbatim>\<open>src/source/kernel/core/task.c\<close>: task control blocks, the ready
  and sleep lists, dispatching, yielding, the clock tick, sleeping and exit. Task control
  blocks are addressed by their C address; the three list nodes embedded in a block have the
  block's address plus the field offset of \<^verbatim>\<open>task_t\<close>, and live in the shared node
  store. \<open>task_dispatch\<close> reports whether it switched: then control has left the calling
  task, and the statements after the call run when the task is switched to again.
\<close>

subsection \<open>Task control blocks\<close>

datatype task_state =
  TASK_CREATED | TASK_RUNNING | TASK_SLEEP | TASK_READY | TASK_WAITING | TASK_ZOMBIE

record tss_t =
  tss_pre_link :: u32
  tss_esp0 :: u32
  tss_ss0 :: u32
  tss_esp1 :: u32
  tss_ss1 :: u32
  tss_esp2 :: u32
  tss_ss2 :: u32
  tss_cr3 :: u32
  tss_eip :: u32
  tss_eflags :: u32
  tss_eax :: u32
  tss_ecx :: u32
  tss_edx :: u32
  tss_ebx :: u32
  tss_esp :: u32
  tss_ebp :: u32
  tss_esi :: u32
  tss_edi :: u32
  tss_es :: u32
  tss_cs :: u32
  tss_ss :: u32
  tss_ds :: u32
  tss_fs :: u32
  tss_gs :: u32
  tss_ldt :: u32
  tss_iomap :: u32

definition TASK_NAME_SIZE :: nat where "TASK_NAME_SIZE = 32"
definition TASK_TIME_SLICE_DEFAULT :: u32 where "TASK_TIME_SLICE_DEFAULT = 10"
definition OS_TICKS_MS :: u32 where "OS_TICKS_MS = 10"

record task_t =
  t_state :: task_state
  t_name :: "u8 list"
  t_pid :: u32
  t_parent :: addr
  t_sleep_ticks :: u32
  t_time_ticks :: u32
  t_slice_ticks :: u32
  t_tss :: tss_t
  t_tss_sel :: u32

text \<open>
  The offsets of the nodes in \<^verbatim>\<open>task_t\<close> on the 32-bit target (the state is 4 bytes,
  the name 32, pid and parent 4 each, a node 8), and the macro \<^verbatim>\<open>list_node_parent\<close>.
\<close>

definition run_node :: "addr \<Rightarrow> addr" where "run_node t = t + 44"
definition all_node :: "addr \<Rightarrow> addr" where "all_node t = t + 52"
definition wait_node :: "addr \<Rightarrow> addr" where "wait_node t = t + 60"

definition list_node_parent :: "addr \<Rightarrow> u32 \<Rightarrow> addr" where
  "list_node_parent node off = (if node \<noteq> 0 then node - off else 0)"

subsection \<open>The task manager\<close>

text \<open>
  \<open>idle_task\<close> and \<open>first_task\<close> are the addresses of the two blocks embedded in
  \<^verbatim>\<open>task_manager\<close>; they never change.
\<close>

record sched = machine +
  nodes :: nheap
  tasks :: "addr \<Rightarrow> task_t"
  curr_task :: addr
  ready_list :: list_t
  task_list :: list_t
  sleep_list :: list_t
  idle_task :: addr
  first_task :: addr
  app_code_sel :: u32
  app_data_sel :: u32

definition upd_task :: "addr \<Rightarrow> (task_t \<Rightarrow> task_t) \<Rightarrow> 's sched_scheme \<Rightarrow> 's sched_scheme" where
  "upd_task t f s = s\<lparr>tasks := (tasks s)(t := f (tasks s t))\<rparr>"

definition task_current :: "'s sched_scheme \<Rightarrow> addr" where
  "task_current s = curr_task s"

definition task_set_ready :: "addr \<Rightarrow> 's sched_scheme \<Rightarrow> 's sched_scheme" where
  "task_set_ready task s =
     (if task = idle_task s then s
      else let (l, h) = list_insert_back (ready_list s) (run_node task) (nodes s)
           in upd_task task (t_state_update (\<lambda>_. TASK_READY)) (s\<lparr>ready_list := l, nodes := h\<rparr>))"

definition task_set_blocked :: "addr \<Rightarrow> 's sched_scheme \<Rightarrow> 's sched_scheme" where
  "task_set_blocked task s =
     (if task = idle_task s then s
      else let (l, h) = list_remove (ready_list s) (run_node task) (nodes s)
           in s\<lparr>ready_list := l, nodes := h\<rparr>)"

definition task_next_run :: "'s sched_scheme \<Rightarrow> addr" where
  "task_next_run s =
     (if list_size (ready_list s) = 0 then idle_task s
      else list_node_parent (list_first (ready_list s)) 44)"

text \<open>
  The far jump to a task gate: the processor saves its registers in the TSS of the outgoing
  task and loads those of the incoming one, with its page directory. Of the registers the model
  has the flags.
\<close>

definition swtch_to_tss :: "addr \<Rightarrow> addr \<Rightarrow> 's sched_scheme \<Rightarrow> 's sched_scheme" where
  "swtch_to_tss from to s =
     (let s1 = upd_task from (t_tss_update (tss_eflags_update (\<lambda>_. eflags s))) s;
          new = t_tss (tasks s1 to)
      in s1\<lparr>eflags := tss_eflags new, cr3_reg := tss_cr3 new, tr_reg := ucast (t_tss_sel (tasks s1 to))\<rparr>)"

definition task_switch_from_to :: "addr \<Rightarrow> addr \<Rightarrow> 's sched_scheme \<Rightarrow> 's sched_scheme" where
  "task_switch_from_to from to s = swtch_to_tss from to s"

definition task_dispatch :: "'s sched_scheme \<Rightarrow> 's sched_scheme \<times> bool" where
  "task_dispatch s =
     (let (state, s1) = irq_enter_protection s;
          to = task_next_run s1
      in if to \<noteq> curr_task s1 then
           let from = task_current s1;
               s2 = s1\<lparr>curr_task := to\<rparr>;
               s3 = upd_task to (t_state_update (\<lambda>_. TASK_RUNNING)) s2
           in (task_switch_from_to from to s3, True)
         else (irq_leave_protection state s1, False))"

text \<open>
  \<open>after_dispatch state\<close> is the end of every caller of \<open>task_dispatch\<close>: if there was no
  switch, the flags of the caller's own critical section are restored.
\<close>

definition after_dispatch :: "u32 \<Rightarrow> 's sched_scheme \<times> bool \<Rightarrow> 's sched_scheme \<times> bool" where
  "after_dispatch state r =
     (let (s, switched) = r in if switched then (s, True) else (irq_leave_protection state s, False))"

definition sys_sched_yield :: "'s sched_scheme \<Rightarrow> 's sched_scheme \<times> bool" where
  "sys_sched_yield s =
     (let (state, s1) = irq_enter_protection s
      in if 1 < sint (list_size (ready_list s1)) then
           let curr_task = task_current s1;
               s2 = task_set_blocked curr_task s1;
               s3 = task_set_ready curr_task s2
           in after_dispatch state (task_dispatch s3)
         else (irq_leave_protection state s1, False))"

definition task_start :: "addr \<Rightarrow> 's sched_scheme \<Rightarrow> 's sched_scheme" where
  "task_start task s =
     (let (state, s1) = irq_enter_protection s
      in irq_leave_protection state (task_set_ready task s1))"

text \<open>\<open>task->state == TASK_SLEEP;\<close> is a comparison whose value is dropped: no effect.\<close>

definition task_set_sleep :: "addr \<Rightarrow> u32 \<Rightarrow> 's sched_scheme \<Rightarrow> 's sched_scheme" where
  "task_set_sleep task ticks s =
     (if ticks = 0 then s
      else let s1 = upd_task task (t_sleep_ticks_update (\<lambda>_. ticks)) s;
               (l, h) = list_insert_back (sleep_list s1) (run_node task) (nodes s1)
           in s1\<lparr>sleep_list := l, nodes := h\<rparr>)"

definition task_set_wakeup :: "addr \<Rightarrow> 's sched_scheme \<Rightarrow> 's sched_scheme" where
  "task_set_wakeup task s =
     (let (l, h) = list_remove (sleep_list s) (run_node task) (nodes s)
      in s\<lparr>sleep_list := l, nodes := h\<rparr>)"

text \<open>The walk over the sleep list; it may not end on a corrupted list.\<close>

partial_function (option) sleep_walk :: "addr \<Rightarrow> 's sched_scheme \<Rightarrow> 's sched_scheme option" where
  [code]: "sleep_walk cur s =
     (if cur = 0 then Some s
      else let nxt = n_next (nodes s cur);
               task = list_node_parent cur 44;
               s1 = upd_task task (t_sleep_ticks_update (\<lambda>n. n - 1)) s
           in sleep_walk nxt
                (if t_sleep_ticks (tasks s1 task) = 0
                 then task_set_ready task (task_set_wakeup task s1) else s1))"

definition tick_rest :: "'s sched_scheme \<Rightarrow> ('s sched_scheme \<times> bool) option" where
  "tick_rest s = map_option task_dispatch (sleep_walk (list_first (sleep_list s)) s)"

text \<open>
  The clock tick. When the slice is used up and another task takes over, the walk over the
  sleep list (\<open>tick_rest\<close>) is left for the moment the preempted task runs again.
\<close>

definition task_time_tick :: "'s sched_scheme \<Rightarrow> ('s sched_scheme \<times> bool) option" where
  "task_time_tick s =
     (let curr = task_current s;
          s1 = upd_task curr (t_slice_ticks_update (\<lambda>n. n - 1)) s
      in if t_slice_ticks (tasks s1 curr) = 0 then
           let s2 = upd_task curr (\<lambda>t. t\<lparr>t_slice_ticks := t_time_ticks t\<rparr>) s1;
               s3 = task_set_ready curr (task_set_blocked curr s2);
               (s4, switched) = task_dispatch s3
           in if switched then Some (s4, True) else tick_rest s4
         else tick_rest s1)"

definition sys_sleep :: "u32 \<Rightarrow> 's sched_scheme \<Rightarrow> 's sched_scheme \<times> bool" where
  "sys_sleep ms s =
     (let (state, s1) = irq_enter_protection s;
          s2 = task_set_blocked (curr_task s1) s1;
          s3 = task_set_sleep (curr_task s2) ((ms + (OS_TICKS_MS - 1)) div OS_TICKS_MS) s2
      in after_dispatch state (task_dispatch s3))"

definition sys_getpid :: "'s sched_scheme \<Rightarrow> u32" where
  "sys_getpid s = t_pid (tasks s (task_current s))"

definition sys_exit :: "u32 \<Rightarrow> 's sched_scheme \<Rightarrow> 's sched_scheme \<times> bool" where
  "sys_exit status s =
     (let (state, s1) = irq_enter_protection s;
          curr = task_current s1;
          s2 = upd_task curr (t_state_update (\<lambda>_. TASK_ZOMBIE)) s1;
          s3 = task_set_blocked curr s2
      in after_dispatch state (task_dispatch s3))"

subsection \<open>What the scheduler state represents\<close>

text \<open>
  \<open>T\<close> is the set of task control blocks. Blocks do not overlap, so node addresses of
  different kinds differ; no block or node is at the null address.
\<close>

definition task_layout :: "addr set \<Rightarrow> bool" where
  "task_layout T \<longleftrightarrow> finite T \<and> card T < 2 ^ 30 \<and> 0 \<notin> T
     \<and> (\<forall>t \<in> T. run_node t \<noteq> 0 \<and> all_node t \<noteq> 0 \<and> wait_node t \<noteq> 0)
     \<and> (\<forall>t \<in> T. \<forall>t' \<in> T. run_node t \<noteq> all_node t' \<and> run_node t \<noteq> wait_node t'
          \<and> all_node t \<noteq> wait_node t')"

text \<open>
  \<open>sched_rep T s rs ss\<close>: the ready list holds the tasks \<open>rs\<close> and the sleep list the
  tasks \<open>ss\<close>, both through the run nodes; a task is in at most one of the two, the idle task
  in none.
\<close>

definition sched_rep :: "addr set \<Rightarrow> 's sched_scheme \<Rightarrow> addr list \<Rightarrow> addr list \<Rightarrow> bool" where
  "sched_rep T s rs ss \<longleftrightarrow>
     task_layout T \<and> idle_task s \<in> T \<and> set rs \<subseteq> T \<and> set ss \<subseteq> T \<and> set rs \<inter> set ss = {}
     \<and> idle_task s \<notin> set rs \<union> set ss
     \<and> dlist (nodes s) (ready_list s) (map run_node rs)
     \<and> dlist (nodes s) (sleep_list s) (map run_node ss)"

text \<open>The running task is the head of the ready list, or the idle task.\<close>

definition head_runs :: "'s sched_scheme \<Rightarrow> addr list \<Rightarrow> bool" where
  "head_runs s rs \<longleftrightarrow> curr_task s = (case rs of [] \<Rightarrow> idle_task s | t # _ \<Rightarrow> t)"

text \<open>Nodes other than the run nodes of the tasks are not touched.\<close>

definition run_frame :: "addr set \<Rightarrow> 's sched_scheme \<Rightarrow> 's sched_scheme \<Rightarrow> bool" where
  "run_frame T s s' \<longleftrightarrow> (\<forall>a. a \<notin> run_node ` T \<longrightarrow> nodes s' a = nodes s a)"

lemma run_frame_refl [simp]: "run_frame T s s"
  by (simp add: run_frame_def)

lemma run_frame_trans: "run_frame T s s1 \<Longrightarrow> run_frame T s1 s2 \<Longrightarrow> run_frame T s s2"
  by (simp add: run_frame_def)

lemma run_node_eq [simp]: "run_node t = run_node t' \<longleftrightarrow> t = t'"
  by (simp add: run_node_def)

lemma run_node_parent: "run_node t \<noteq> 0 \<Longrightarrow> list_node_parent (run_node t) 44 = t"
  by (simp add: list_node_parent_def run_node_def)

lemma run_node_in_map [simp]: "run_node t \<in> run_node ` S \<longleftrightarrow> t \<in> S"
  by auto

lemma remove1_map_run_node: "remove1 (run_node t) (map run_node xs) = map run_node (remove1 t xs)"
  by (induction xs) auto

lemma distinct_map_run_node [simp]: "distinct (map run_node xs) = distinct xs"
  by (simp add: distinct_map inj_on_def)

lemma sched_rep_distinct: "sched_rep T s rs ss \<Longrightarrow> distinct rs \<and> distinct ss"
  by (auto simp: sched_rep_def dest: kl.rep_distinct)

lemma task_layout_length:
  assumes "task_layout T" and "distinct xs" and "set xs \<subseteq> T"
  shows "Suc (length xs) < 2 ^ 31"
proof -
  have "length xs \<le> card T"
    using assms by (metis card_mono distinct_card task_layout_def)
  with assms(1) show ?thesis by (simp add: task_layout_def)
qed

lemma sched_rep_room:
  assumes "sched_rep T s rs ss"
  shows "Suc (length rs) < 2 ^ 31" and "Suc (length ss) < 2 ^ 31"
  using assms sched_rep_distinct [OF assms] task_layout_length [of T]
  by (auto simp: sched_rep_def)

lemma sched_rep_nonnull: "sched_rep T s rs ss \<Longrightarrow> t \<in> T \<Longrightarrow> run_node t \<noteq> 0"
  by (simp add: sched_rep_def task_layout_def)

text \<open>\<open>sched_rep\<close> depends on five fields only.\<close>

lemma sched_rep_cong:
  "nodes s' = nodes s \<Longrightarrow> ready_list s' = ready_list s \<Longrightarrow> sleep_list s' = sleep_list s \<Longrightarrow>
   idle_task s' = idle_task s \<Longrightarrow> sched_rep T s' rs ss = sched_rep T s rs ss"
  by (simp add: sched_rep_def)

lemma upd_task_fields [simp]:
  "nodes (upd_task t f s) = nodes s" "ready_list (upd_task t f s) = ready_list s"
  "sleep_list (upd_task t f s) = sleep_list s" "idle_task (upd_task t f s) = idle_task s"
  "curr_task (upd_task t f s) = curr_task s" "task_list (upd_task t f s) = task_list s"
  "eflags (upd_task t f s) = eflags s"
  "tasks (upd_task t f s) u = (if u = t then f (tasks s t) else tasks s u)"
  by (simp_all add: upd_task_def)

lemma sched_rep_upd_task [simp]: "sched_rep T (upd_task t f s) rs ss = sched_rep T s rs ss"
  by (rule sched_rep_cong) simp_all

lemma sched_rep_eflags [simp]: "sched_rep T (s\<lparr>eflags := v\<rparr>) rs ss = sched_rep T s rs ss"
  by (rule sched_rep_cong) simp_all

lemma sched_rep_curr [simp]: "sched_rep T (s\<lparr>curr_task := v\<rparr>) rs ss = sched_rep T s rs ss"
  by (rule sched_rep_cong) simp_all

subsection \<open>Moving tasks between the lists\<close>

lemma task_set_ready_fields [simp]:
  "idle_task (task_set_ready t s) = idle_task s" "curr_task (task_set_ready t s) = curr_task s"
  "sleep_list (task_set_ready t s) = sleep_list s" "task_list (task_set_ready t s) = task_list s"
  "eflags (task_set_ready t s) = eflags s"
  "tasks (task_set_ready t s) u =
     (if u = t \<and> t \<noteq> idle_task s then (tasks s t)\<lparr>t_state := TASK_READY\<rparr> else tasks s u)"
  by (auto simp: task_set_ready_def Let_def split: prod.splits)

lemma task_set_blocked_fields [simp]:
  "idle_task (task_set_blocked t s) = idle_task s" "curr_task (task_set_blocked t s) = curr_task s"
  "sleep_list (task_set_blocked t s) = sleep_list s" "task_list (task_set_blocked t s) = task_list s"
  "eflags (task_set_blocked t s) = eflags s" "tasks (task_set_blocked t s) = tasks s"
  by (auto simp: task_set_blocked_def Let_def split: prod.splits)

lemma task_set_sleep_fields [simp]:
  "idle_task (task_set_sleep t n s) = idle_task s" "curr_task (task_set_sleep t n s) = curr_task s"
  "ready_list (task_set_sleep t n s) = ready_list s" "task_list (task_set_sleep t n s) = task_list s"
  "eflags (task_set_sleep t n s) = eflags s"
  "tasks (task_set_sleep t n s) u =
     (if u = t \<and> n \<noteq> 0 then (tasks s t)\<lparr>t_sleep_ticks := n\<rparr> else tasks s u)"
  by (auto simp: task_set_sleep_def Let_def split: prod.splits)

lemma task_set_wakeup_fields [simp]:
  "idle_task (task_set_wakeup t s) = idle_task s" "curr_task (task_set_wakeup t s) = curr_task s"
  "ready_list (task_set_wakeup t s) = ready_list s" "task_list (task_set_wakeup t s) = task_list s"
  "eflags (task_set_wakeup t s) = eflags s" "tasks (task_set_wakeup t s) = tasks s"
  by (auto simp: task_set_wakeup_def Let_def split: prod.splits)

lemma run_node_image_disjoint [simp]:
  "run_node ` A \<inter> run_node ` B = {} \<longleftrightarrow> A \<inter> B = {}"
  by (auto simp: disjoint_iff)

lemma insert_run_node:
  assumes "task_layout T" "set xs \<subseteq> T" "set ys \<subseteq> T" "set xs \<inter> set ys = {}"
    and "dlist h l (map run_node xs)" "dlist h k (map run_node ys)"
    and "t \<in> T" "t \<notin> set xs \<union> set ys"
    and ins: "list_insert_back l (run_node t) h = (l', h')"
  shows "dlist h' l' (map run_node (xs @ [t])) \<and> dlist h' k (map run_node ys)
    \<and> (\<forall>a. a \<notin> run_node ` T \<longrightarrow> h' a = h a)"
proof -
  have pre: "run_node t \<notin> set (map run_node xs)" "run_node t \<noteq> 0"
    "Suc (length (map run_node xs)) < 2 ^ 31"
    using assms(1,2,7,8) kl.rep_distinct [OF assms(5)] task_layout_length [of T xs]
    by (auto simp: task_layout_def)
  show ?thesis
    using kl.ins_rep [OF assms(5) pre ins] kl.other_ins [OF assms(5) pre ins assms(6)]
      kl.ins_frame [OF assms(5) pre ins] assms(2,4,7,8)
    by (auto simp: inf_commute)
qed

lemma remove_run_node:
  assumes "set xs \<subseteq> T" "set xs \<inter> set ys = {}"
    and "dlist h l (map run_node xs)" "dlist h k (map run_node ys)" and "t \<in> set xs"
    and del: "list_remove l (run_node t) h = (l', h')"
  shows "dlist h' l' (map run_node (remove1 t xs)) \<and> dlist h' k (map run_node ys)
    \<and> (\<forall>a. a \<notin> run_node ` T \<longrightarrow> h' a = h a)"
proof -
  have mem: "run_node t \<in> set (map run_node xs)"
    using assms(5) by simp
  show ?thesis
    using kl.del_rep [OF assms(3) mem del] kl.other_del [OF assms(3) mem del assms(4)]
      kl.del_frame [OF assms(3) mem del] assms(1,2)
    by (auto simp: inf_commute remove1_map_run_node)
qed

lemma task_set_ready_rep:
  assumes r: "sched_rep T s rs ss" and t: "t \<in> T" "t \<noteq> idle_task s" "t \<notin> set rs \<union> set ss"
  shows "sched_rep T (task_set_ready t s) (rs @ [t]) ss" and "run_frame T s (task_set_ready t s)"
proof -
  obtain l h where ins: "list_insert_back (ready_list s) (run_node t) (nodes s) = (l, h)"
    by fastforce
  have "dlist h l (map run_node (rs @ [t])) \<and> dlist h (sleep_list s) (map run_node ss)
      \<and> (\<forall>a. a \<notin> run_node ` T \<longrightarrow> h a = nodes s a)"
    using r t ins by (intro insert_run_node) (auto simp: sched_rep_def)
  then show "sched_rep T (task_set_ready t s) (rs @ [t]) ss" "run_frame T s (task_set_ready t s)"
    using r t ins by (auto simp: sched_rep_def task_set_ready_def run_frame_def)
qed

lemma task_set_blocked_rep:
  assumes r: "sched_rep T s rs ss" and t: "t \<in> set rs"
  shows "sched_rep T (task_set_blocked t s) (remove1 t rs) ss"
    and "run_frame T s (task_set_blocked t s)"
proof -
  obtain l h where del: "list_remove (ready_list s) (run_node t) (nodes s) = (l, h)"
    by fastforce
  have "dlist h l (map run_node (remove1 t rs)) \<and> dlist h (sleep_list s) (map run_node ss)
      \<and> (\<forall>a. a \<notin> run_node ` T \<longrightarrow> h a = nodes s a)"
    using r t del by (intro remove_run_node) (auto simp: sched_rep_def)
  then show "sched_rep T (task_set_blocked t s) (remove1 t rs) ss"
      "run_frame T s (task_set_blocked t s)"
    using r t del set_remove1_subset [of t rs]
    by (auto simp: sched_rep_def task_set_blocked_def run_frame_def)
qed

lemma task_set_sleep_rep:
  assumes r: "sched_rep T s rs ss" and t: "t \<in> T" "t \<noteq> idle_task s" "t \<notin> set rs \<union> set ss"
    and n: "n \<noteq> 0"
  shows "sched_rep T (task_set_sleep t n s) rs (ss @ [t])" and "run_frame T s (task_set_sleep t n s)"
proof -
  obtain l h where ins: "list_insert_back (sleep_list s) (run_node t) (nodes s) = (l, h)"
    by fastforce
  have "dlist h l (map run_node (ss @ [t])) \<and> dlist h (ready_list s) (map run_node rs)
      \<and> (\<forall>a. a \<notin> run_node ` T \<longrightarrow> h a = nodes s a)"
    using r t ins by (intro insert_run_node) (auto simp: sched_rep_def)
  then show "sched_rep T (task_set_sleep t n s) rs (ss @ [t])" "run_frame T s (task_set_sleep t n s)"
    using r t n ins by (auto simp: sched_rep_def task_set_sleep_def run_frame_def)
qed

lemma task_set_wakeup_rep:
  assumes r: "sched_rep T s rs ss" and t: "t \<in> set ss"
  shows "sched_rep T (task_set_wakeup t s) rs (remove1 t ss)"
    and "run_frame T s (task_set_wakeup t s)"
proof -
  obtain l h where del: "list_remove (sleep_list s) (run_node t) (nodes s) = (l, h)"
    by fastforce
  have "dlist h l (map run_node (remove1 t ss)) \<and> dlist h (ready_list s) (map run_node rs)
      \<and> (\<forall>a. a \<notin> run_node ` T \<longrightarrow> h a = nodes s a)"
    using r t del by (intro remove_run_node) (auto simp: sched_rep_def)
  then show "sched_rep T (task_set_wakeup t s) rs (remove1 t ss)"
      "run_frame T s (task_set_wakeup t s)"
    using r t del set_remove1_subset [of t ss]
    by (auto simp: sched_rep_def task_set_wakeup_def run_frame_def)
qed

subsection \<open>Dispatching\<close>

lemma task_next_run_rep:
  assumes "sched_rep T s rs ss"
  shows "task_next_run s = (case rs of [] \<Rightarrow> idle_task s | t # _ \<Rightarrow> t)"
proof -
  have rl: "dlist (nodes s) (ready_list s) (map run_node rs)"
    using assms by (simp add: sched_rep_def)
  have "list_size (ready_list s) = 0 \<longleftrightarrow> rs = []"
    using dlist_empty_iff [OF rl] by (simp add: list_is_empty_def list_size_def)
  moreover have "list_node_parent (list_first (ready_list s)) 44 = t" if "rs = t # us" for t us
  proof -
    have "t \<in> T" using assms that by (auto simp: sched_rep_def)
    then have "run_node t \<noteq> 0" by (rule sched_rep_nonnull [OF assms])
    with dlist_first [OF rl] that show ?thesis by (simp add: run_node_parent)
  qed
  ultimately show ?thesis
    by (auto simp: task_next_run_def split: list.splits)
qed

lemma irq_section_id: "irq_enter_protection s = (st, s1) \<Longrightarrow> irq_leave_protection st s1 = s"
  by (rule irq.empty_section) simp_all

lemma irq_enter_eq: "irq_enter_protection s = (eflags s, cli s)"
  by (simp add: irq_defs)

lemma cli_fields [simp]:
  "nodes (cli s) = nodes s" "ready_list (cli s) = ready_list s" "sleep_list (cli s) = sleep_list s"
  "task_list (cli s) = task_list s" "idle_task (cli s) = idle_task s" "curr_task (cli s) = curr_task s"
  "tasks (cli s) = tasks s"
  by (simp_all add: cli_def)

lemma sched_rep_cli [simp]: "sched_rep T (cli s) rs ss = sched_rep T s rs ss"
  by (rule sched_rep_cong) simp_all

lemma head_runs_cli [simp]: "head_runs (cli s) rs = head_runs s rs"
  by (simp add: head_runs_def split: list.splits)

lemma task_next_run_cli [simp]: "task_next_run (cli s) = task_next_run s"
  by (simp add: task_next_run_def)

lemma swtch_to_tss_fields [simp]:
  "nodes (swtch_to_tss f t s) = nodes s" "ready_list (swtch_to_tss f t s) = ready_list s"
  "sleep_list (swtch_to_tss f t s) = sleep_list s" "task_list (swtch_to_tss f t s) = task_list s"
  "idle_task (swtch_to_tss f t s) = idle_task s" "curr_task (swtch_to_tss f t s) = curr_task s"
  by (simp_all add: swtch_to_tss_def Let_def)

lemma swtch_to_tss_tasks [simp]:
  "t_state (tasks (swtch_to_tss f t s) u) = t_state (tasks s u)"
  "t_sleep_ticks (tasks (swtch_to_tss f t s) u) = t_sleep_ticks (tasks s u)"
  "t_slice_ticks (tasks (swtch_to_tss f t s) u) = t_slice_ticks (tasks s u)"
  "t_time_ticks (tasks (swtch_to_tss f t s) u) = t_time_ticks (tasks s u)"
  by (simp_all add: swtch_to_tss_def Let_def)

lemma task_dispatch_stay:
  assumes "sched_rep T s rs ss" and "head_runs s rs"
  shows "task_dispatch s = (s, False)"
  using assms irq_section_id [of s]
  by (simp add: task_dispatch_def irq_enter_eq task_next_run_rep head_runs_def)

lemma task_dispatch_switch:
  assumes "sched_rep T s rs ss" and "\<not> head_runs s rs"
  shows "task_dispatch s =
    (swtch_to_tss (curr_task s) (task_next_run s)
       (upd_task (task_next_run s) (t_state_update (\<lambda>_. TASK_RUNNING))
          ((cli s)\<lparr>curr_task := task_next_run s\<rparr>)), True)"
  using assms
  by (auto simp: task_dispatch_def irq_enter_eq task_next_run_rep head_runs_def
      task_switch_from_to_def task_current_def Let_def)

lemma task_dispatch_rep:
  assumes r: "sched_rep T s rs ss" and d: "task_dispatch s = (s', sw)"
  shows "sched_rep T s' rs ss" and "head_runs s' rs" and "nodes s' = nodes s"
    and "task_list s' = task_list s" and "idle_task s' = idle_task s"
    and "sw \<longleftrightarrow> \<not> head_runs s rs" and "\<not> sw \<Longrightarrow> s' = s"
    and "sw \<Longrightarrow> t_state (tasks s' (curr_task s')) = TASK_RUNNING"
    and "\<And>u. t_sleep_ticks (tasks s' u) = t_sleep_ticks (tasks s u)"
    and "\<And>u. t_slice_ticks (tasks s' u) = t_slice_ticks (tasks s u)"
    and "\<And>u. u \<noteq> curr_task s' \<Longrightarrow> t_state (tasks s' u) = t_state (tasks s u)"
proof -
  have "(sched_rep T s' rs ss \<and> head_runs s' rs \<and> nodes s' = nodes s \<and> task_list s' = task_list s
      \<and> idle_task s' = idle_task s)
    \<and> (sw \<longleftrightarrow> \<not> head_runs s rs) \<and> (\<not> sw \<longrightarrow> s' = s)
    \<and> (sw \<longrightarrow> t_state (tasks s' (curr_task s')) = TASK_RUNNING)
    \<and> (\<forall>u. t_sleep_ticks (tasks s' u) = t_sleep_ticks (tasks s u)
         \<and> t_slice_ticks (tasks s' u) = t_slice_ticks (tasks s u)
         \<and> (u \<noteq> curr_task s' \<longrightarrow> t_state (tasks s' u) = t_state (tasks s u)))"
  proof (cases "head_runs s rs")
    case True
    with r d show ?thesis by (simp add: task_dispatch_stay)
  next
    case False
    let ?to = "task_next_run s"
    have s': "s' = swtch_to_tss (curr_task s) ?to
        (upd_task ?to (t_state_update (\<lambda>_. TASK_RUNNING)) ((cli s)\<lparr>curr_task := ?to\<rparr>))" "sw"
      using task_dispatch_switch [OF r False] d by auto
    have "sched_rep T s' rs ss \<longleftrightarrow> sched_rep T s rs ss"
      unfolding s' by (rule sched_rep_cong) simp_all
    moreover have "head_runs s' rs"
      using task_next_run_rep [OF r] by (simp add: s' head_runs_def split: list.splits)
    ultimately show ?thesis
      using r False by (auto simp: s')
  qed
  then show "sched_rep T s' rs ss" "head_runs s' rs" "nodes s' = nodes s"
    "task_list s' = task_list s" "idle_task s' = idle_task s"
    "sw \<longleftrightarrow> \<not> head_runs s rs" "\<not> sw \<Longrightarrow> s' = s"
    "sw \<Longrightarrow> t_state (tasks s' (curr_task s')) = TASK_RUNNING"
    "\<And>u. t_sleep_ticks (tasks s' u) = t_sleep_ticks (tasks s u)"
    "\<And>u. t_slice_ticks (tasks s' u) = t_slice_ticks (tasks s u)"
    "\<And>u. u \<noteq> curr_task s' \<Longrightarrow> t_state (tasks s' u) = t_state (tasks s u)"
    by blast+
qed

text \<open>The common end of the scheduler's system calls.\<close>

lemma irq_leave_fields [simp]:
  "nodes (irq_leave_protection v s) = nodes s" "ready_list (irq_leave_protection v s) = ready_list s"
  "sleep_list (irq_leave_protection v s) = sleep_list s"
  "task_list (irq_leave_protection v s) = task_list s"
  "idle_task (irq_leave_protection v s) = idle_task s"
  "curr_task (irq_leave_protection v s) = curr_task s"
  "tasks (irq_leave_protection v s) = tasks s"
  "eflags (irq_leave_protection v s) = v"
  by (simp_all add: irq_defs)

lemma sched_rep_irq_leave [simp]: "sched_rep T (irq_leave_protection v s) rs ss = sched_rep T s rs ss"
  by (rule sched_rep_cong) simp_all

lemma head_runs_irq_leave [simp]: "head_runs (irq_leave_protection v s) rs = head_runs s rs"
  by (simp add: head_runs_def split: list.splits)

lemma head_runs_eflags [simp]: "head_runs (s\<lparr>eflags := v\<rparr>) rs = head_runs s rs"
  by (simp add: head_runs_def split: list.splits)

lemma after_dispatch_rep:
  assumes r: "sched_rep T s rs ss" and d: "after_dispatch st (task_dispatch s) = (s', sw)"
  shows "sched_rep T s' rs ss" and "head_runs s' rs" and "nodes s' = nodes s"
    and "task_list s' = task_list s" and "idle_task s' = idle_task s"
    and "sw \<longleftrightarrow> \<not> head_runs s rs" and "\<not> sw \<Longrightarrow> s' = s\<lparr>eflags := st\<rparr>"
    and "sw \<Longrightarrow> t_state (tasks s' (curr_task s')) = TASK_RUNNING"
    and "\<And>u. t_sleep_ticks (tasks s' u) = t_sleep_ticks (tasks s u)"
    and "\<And>u. t_slice_ticks (tasks s' u) = t_slice_ticks (tasks s u)"
    and "\<And>u. u \<noteq> curr_task s' \<Longrightarrow> t_state (tasks s' u) = t_state (tasks s u)"
proof -
  obtain s1 sw1 where d1: "task_dispatch s = (s1, sw1)" by fastforce
  then have "s' = (if sw1 then s1 else irq_leave_protection st s1)" "sw = sw1"
    using d by (auto simp: after_dispatch_def split: if_splits)
  with task_dispatch_rep [OF r d1]
  show "sched_rep T s' rs ss" "head_runs s' rs" "nodes s' = nodes s"
    "task_list s' = task_list s" "idle_task s' = idle_task s"
    "sw \<longleftrightarrow> \<not> head_runs s rs" "\<not> sw \<Longrightarrow> s' = s\<lparr>eflags := st\<rparr>"
    "sw \<Longrightarrow> t_state (tasks s' (curr_task s')) = TASK_RUNNING"
    "\<And>u. t_sleep_ticks (tasks s' u) = t_sleep_ticks (tasks s u)"
    "\<And>u. t_slice_ticks (tasks s' u) = t_slice_ticks (tasks s u)"
    "\<And>u. u \<noteq> curr_task s' \<Longrightarrow> t_state (tasks s' u) = t_state (tasks s u)"
    by (auto simp: irq_leave_protection_def [of st s] write_eflags_def split: if_splits)
qed

lemma requeue_rep:
  assumes r: "sched_rep T s rs ss" and t: "t \<in> set rs"
  shows "sched_rep T (task_set_ready t (task_set_blocked t s)) (remove1 t rs @ [t]) ss"
    and "run_frame T s (task_set_ready t (task_set_blocked t s))"
proof -
  note b = task_set_blocked_rep [OF r t]
  have "t \<in> T" "t \<noteq> idle_task (task_set_blocked t s)" "t \<notin> set (remove1 t rs) \<union> set ss"
    using r t sched_rep_distinct [OF r] by (auto simp: sched_rep_def)
  note p = task_set_ready_rep [OF b(1) this]
  show "sched_rep T (task_set_ready t (task_set_blocked t s)) (remove1 t rs @ [t]) ss"
    by (rule p(1))
  show "run_frame T s (task_set_ready t (task_set_blocked t s))"
    using b(2) p(2) by (rule run_frame_trans)
qed


subsection \<open>Yield, sleep and exit\<close>

lemma sys_sched_yield_rep:
  assumes r: "sched_rep T s rs ss" and hr: "head_runs s rs" and y: "sys_sched_yield s = (s', sw)"
  shows "sched_rep T s' (rotate1 rs) ss" and "head_runs s' (rotate1 rs)" and "run_frame T s s'"
    and "task_list s' = task_list s" and "idle_task s' = idle_task s"
    and "sw \<longleftrightarrow> 1 < length rs" and "\<not> sw \<Longrightarrow> s' = s"
proof -
  have size: "sint (list_size (ready_list s)) = int (length rs)"
    using r dlist_size [of "nodes s" "ready_list s" "map run_node rs"] by (simp add: sched_rep_def)
  have "sched_rep T s' (rotate1 rs) ss \<and> head_runs s' (rotate1 rs) \<and> run_frame T s s'
    \<and> task_list s' = task_list s \<and> idle_task s' = idle_task s
    \<and> (sw \<longleftrightarrow> 1 < length rs) \<and> (\<not> sw \<longrightarrow> s' = s)"
  proof (cases "1 < length rs")
    case False
    then have "s' = s" "\<not> sw"
      using y size irq_section_id [of s]
      by (auto simp: sys_sched_yield_def irq_enter_eq)
    moreover have "rotate1 rs = rs"
      using False by (cases rs) auto
    ultimately show ?thesis using r hr False by simp
  next
    case True
    then obtain c us where rs: "rs = c # us" and us: "us \<noteq> []" by (cases rs) auto
    let ?s = "task_set_ready c (task_set_blocked c (cli s))"
    have c: "curr_task s = c" using hr rs by (simp add: head_runs_def)
    have "sched_rep T (cli s) rs ss" using r by simp
    then have q: "sched_rep T ?s (us @ [c]) ss" "run_frame T (cli s) ?s"
      using requeue_rep [of T "cli s" rs ss c] rs by auto
    have d: "after_dispatch (eflags s) (task_dispatch ?s) = (s', sw)"
      using y True size c by (simp add: sys_sched_yield_def irq_enter_eq task_current_def)
    have "distinct rs" using sched_rep_distinct [OF r] by simp
    then have "\<not> head_runs ?s (us @ [c])"
      using c us rs by (cases us) (auto simp: head_runs_def)
    then show ?thesis
      using after_dispatch_rep [OF q(1) d] q(2) rs True by (auto simp: run_frame_def)
  qed
  then show "sched_rep T s' (rotate1 rs) ss" "head_runs s' (rotate1 rs)" "run_frame T s s'"
    "task_list s' = task_list s" "idle_task s' = idle_task s"
    "sw \<longleftrightarrow> 1 < length rs" "\<not> sw \<Longrightarrow> s' = s"
    by auto
qed

text \<open>The number of clock ticks a sleep of \<open>ms\<close> milliseconds is rounded up to.\<close>

definition sleep_ticks_of :: "u32 \<Rightarrow> u32" where
  "sleep_ticks_of ms = (ms + (OS_TICKS_MS - 1)) div OS_TICKS_MS"

lemma unat_sleep_ticks_of:
  "unat ms < 2 ^ 32 - 9 \<Longrightarrow> unat (sleep_ticks_of ms) = (unat ms + 9) div 10"
  by (simp add: sleep_ticks_of_def OS_TICKS_MS_def unat_div_distrib unat_word_ariths)

lemma sys_sleep_rep:
  assumes r: "sched_rep T s (c # rs) ss" and hr: "head_runs s (c # rs)" and y: "sys_sleep ms s = (s', sw)"
  shows "sched_rep T s' rs (if sleep_ticks_of ms = 0 then ss else ss @ [c])" and "head_runs s' rs"
    and "run_frame T s s'" and "sw" and "idle_task s' = idle_task s" and "task_list s' = task_list s"
    and "sleep_ticks_of ms \<noteq> 0 \<Longrightarrow> t_sleep_ticks (tasks s' c) = sleep_ticks_of ms"
    and "t_state (tasks s' c) = t_state (tasks s c)"
proof -
  let ?n = "sleep_ticks_of ms"
  let ?b = "task_set_blocked c (cli s)"
  let ?s = "task_set_sleep c ?n ?b"
  have c: "curr_task s = c" using hr by (simp add: head_runs_def)
  have cr: "sched_rep T (cli s) (c # rs) ss" using r by simp
  have b: "sched_rep T ?b rs ss" "run_frame T (cli s) ?b"
    using task_set_blocked_rep [OF cr, of c] by auto
  have cT: "c \<in> T" "c \<noteq> idle_task ?b" "c \<notin> set rs \<union> set ss"
    using r sched_rep_distinct [OF r] by (auto simp: sched_rep_def)
  have q: "sched_rep T ?s rs (if ?n = 0 then ss else ss @ [c])" "run_frame T ?b ?s"
    using b(1) task_set_sleep_rep [OF b(1) cT, of ?n] by (auto simp: task_set_sleep_def)
  have d: "after_dispatch (eflags s) (task_dispatch ?s) = (s', sw)"
    using y c by (simp add: sys_sleep_def irq_enter_eq sleep_ticks_of_def)
  note a = after_dispatch_rep [OF q(1) d]
  have "\<not> head_runs ?s rs"
    using c cT by (auto simp: head_runs_def split: list.splits)
  then show sw: "sw" using a(6) by simp
  have "run_frame T ?s s'" using a(3) by (simp add: run_frame_def)
  then show "run_frame T s s'"
    using b(2) q(2) by (auto simp: run_frame_def)
  have "c \<noteq> curr_task s'"
    using a(2,5) cT by (auto simp: head_runs_def split: list.splits)
  then show "t_state (tasks s' c) = t_state (tasks s c)"
    using a(11) by simp
  show "sched_rep T s' rs (if ?n = 0 then ss else ss @ [c])" "head_runs s' rs"
    "idle_task s' = idle_task s" "task_list s' = task_list s"
    using a by auto
  show "t_sleep_ticks (tasks s' c) = ?n" if "?n \<noteq> 0"
    using a(9) that by simp
qed

lemma sys_exit_rep:
  assumes r: "sched_rep T s (c # rs) ss" and hr: "head_runs s (c # rs)" and y: "sys_exit v s = (s', sw)"
  shows "sched_rep T s' rs ss" and "head_runs s' rs" and "run_frame T s s'" and "sw"
    and "t_state (tasks s' c) = TASK_ZOMBIE" and "idle_task s' = idle_task s"
proof -
  let ?z = "upd_task c (t_state_update (\<lambda>_. TASK_ZOMBIE)) (cli s)"
  let ?s = "task_set_blocked c ?z"
  have c: "curr_task s = c" using hr by (simp add: head_runs_def)
  have "sched_rep T ?z (c # rs) ss" using r by simp
  then have q: "sched_rep T ?s rs ss" "run_frame T ?z ?s"
    using task_set_blocked_rep [of T ?z "c # rs" ss c] by auto
  have d: "after_dispatch (eflags s) (task_dispatch ?s) = (s', sw)"
    using y c by (simp add: sys_exit_def irq_enter_eq task_current_def)
  note a = after_dispatch_rep [OF q(1) d]
  have nc: "c \<noteq> idle_task s" "c \<notin> set rs"
    using r sched_rep_distinct [OF r] by (auto simp: sched_rep_def)
  then show sw: "sw"
    using a(6) c by (auto simp: head_runs_def split: list.splits)
  have "run_frame T ?s s'" using a(3) by (simp add: run_frame_def)
  then show "run_frame T s s'"
    using q(2) by (auto simp: run_frame_def)
  have "c \<noteq> curr_task s'"
    using a(2,5) nc by (auto simp: head_runs_def split: list.splits)
  then show "t_state (tasks s' c) = TASK_ZOMBIE"
    using a(11) by simp
  show "sched_rep T s' rs ss" "head_runs s' rs" "idle_task s' = idle_task s"
    using a by auto
qed

subsection \<open>The clock tick\<close>

text \<open>
  A sleeping task is due when one tick is left. One pass over the sleep list counts every
  sleeper down and appends the due ones, in list order, to the ready list.
\<close>

definition due :: "'s sched_scheme \<Rightarrow> addr \<Rightarrow> bool" where
  "due s t \<longleftrightarrow> t_sleep_ticks (tasks s t) = 1"

definition slept_tick :: "'s sched_scheme \<Rightarrow> addr set \<Rightarrow> addr \<Rightarrow> task_t" where
  "slept_tick s V t =
     (if t \<in> V then (tasks s t)\<lparr>t_sleep_ticks := t_sleep_ticks (tasks s t) - 1,
          t_state := (if due s t then TASK_READY else t_state (tasks s t))\<rparr>
      else tasks s t)"

lemma dlist_next:
  assumes "dlist h l (xs @ a # ys)"
  shows "n_next (h a) = head_or ys 0"
  using assms by (simp add: dlist_def links_append)

lemma sleep_walk_step:
  assumes r: "sched_rep T s rs (us @ v # vs)"
  defines "s1 \<equiv> upd_task v (t_sleep_ticks_update (\<lambda>n. n - 1)) s"
  defines "s2 \<equiv> (if due s v then task_set_ready v (task_set_wakeup v s1) else s1)"
  shows "sleep_walk (run_node v) s = sleep_walk (head_or (map run_node vs) 0) s2"
    and "sched_rep T s2 (rs @ (if due s v then [v] else [])) (us @ (if due s v then [] else [v]) @ vs)"
    and "run_frame T s s2" and "tasks s2 t = slept_tick s {v} t"
    and "curr_task s2 = curr_task s" and "idle_task s2 = idle_task s" and "task_list s2 = task_list s"
proof -
  have v: "v \<in> T" "v \<noteq> idle_task s" "v \<notin> set rs" "v \<notin> set us \<union> set vs"
    using r sched_rep_distinct [OF r] by (auto simp: sched_rep_def)
  have nn: "run_node v \<noteq> 0" using sched_rep_nonnull [OF r v(1)] .
  have "dlist (nodes s) (sleep_list s) (map run_node us @ run_node v # map run_node vs)"
    using r by (simp add: sched_rep_def)
  then have nxt: "n_next (nodes s (run_node v)) = head_or (map run_node vs) 0"
    by (rule dlist_next)
  have due: "due s v \<longleftrightarrow> t_sleep_ticks (tasks s1 v) = 0"
    by (simp add: due_def s1_def)
  show "sleep_walk (run_node v) s = sleep_walk (head_or (map run_node vs) 0) s2"
    using nn nxt due by (subst sleep_walk.simps) (simp add: run_node_parent Let_def s1_def s2_def)
  have r1: "sched_rep T s1 rs (us @ v # vs)" using r by (simp add: s1_def)
  have rem: "remove1 v (us @ v # vs) = us @ vs"
    using v by (simp add: remove1_append)
  note w = task_set_wakeup_rep [OF r1, of v, unfolded rem]
  have "sched_rep T (task_set_wakeup v s1) rs (us @ vs)" using w by simp
  note q = task_set_ready_rep [OF this v(1)]
  show "sched_rep T s2 (rs @ (if due s v then [v] else [])) (us @ (if due s v then [] else [v]) @ vs)"
    using q(1) r1 v by (auto simp: s2_def s1_def)
  show "run_frame T s s2"
    using q(2) w(2) v by (auto simp: s2_def s1_def run_frame_def)
  show "tasks s2 t = slept_tick s {v} t"
    using v by (auto simp: s2_def s1_def slept_tick_def due_def)
  show "curr_task s2 = curr_task s" "idle_task s2 = idle_task s" "task_list s2 = task_list s"
    by (auto simp: s2_def s1_def)
qed

lemma sleep_walk_rep:
  assumes "sched_rep T s rs (us @ vs)"
  shows "\<exists>s'. sleep_walk (head_or (map run_node vs) 0) s = Some s'
    \<and> sched_rep T s' (rs @ filter (due s) vs) (us @ filter (\<lambda>t. \<not> due s t) vs)
    \<and> run_frame T s s' \<and> tasks s' = slept_tick s (set vs) \<and> curr_task s' = curr_task s
    \<and> idle_task s' = idle_task s \<and> task_list s' = task_list s"
  using assms
proof (induction vs arbitrary: s rs us)
  case Nil
  then show ?case by (subst sleep_walk.simps) (simp add: slept_tick_def fun_eq_iff)
next
  case (Cons v vs)
  define s1 where "s1 = upd_task v (t_sleep_ticks_update (\<lambda>n. n - 1)) s"
  define s2 where "s2 = (if due s v then task_set_ready v (task_set_wakeup v s1) else s1)"
  note step = sleep_walk_step [OF Cons.prems, folded s1_def, folded s2_def]
  have vs: "v \<notin> set vs" using sched_rep_distinct [OF Cons.prems] by auto
  have same: "due s2 t = due s t" if "t \<in> set vs" for t
    using step(4) [of t] that vs by (auto simp: due_def slept_tick_def)
  have "sched_rep T s2 (rs @ (if due s v then [v] else [])) ((us @ (if due s v then [] else [v])) @ vs)"
    using step(2) by simp
  from Cons.IH [OF this] obtain s' where
    s': "sleep_walk (head_or (map run_node vs) 0) s2 = Some s'"
    and rep: "sched_rep T s' ((rs @ (if due s v then [v] else [])) @ filter (due s2) vs)
      ((us @ (if due s v then [] else [v])) @ filter (\<lambda>t. \<not> due s2 t) vs)"
    and rf: "run_frame T s2 s'" and tk: "tasks s' = slept_tick s2 (set vs)"
    and ci: "curr_task s' = curr_task s2" "idle_task s' = idle_task s2" "task_list s' = task_list s2"
    by blast
  have fil: "filter (due s2) vs = filter (due s) vs"
    "filter (\<lambda>t. \<not> due s2 t) vs = filter (\<lambda>t. \<not> due s t) vs"
    by (auto intro: filter_cong simp: same)
  have "tasks s' t = slept_tick s (set (v # vs)) t" for t
    using tk step(4) [of t] vs by (auto simp: slept_tick_def same due_def)
  moreover have "run_frame T s s'"
    using step(3) rf by (rule run_frame_trans)
  ultimately show ?case
    using s' rep ci step(1,5,6,7) fil by (intro exI [of _ s']) (auto simp: fun_eq_iff)
qed

lemma tick_rest_rep:
  assumes r: "sched_rep T s rs ss"
  shows "\<exists>s' sw. tick_rest s = Some (s', sw)
    \<and> sched_rep T s' (rs @ filter (due s) ss) (filter (\<lambda>t. \<not> due s t) ss)
    \<and> head_runs s' (rs @ filter (due s) ss) \<and> run_frame T s s'
    \<and> (\<forall>t. t_sleep_ticks (tasks s' t) = t_sleep_ticks (slept_tick s (set ss) t)
         \<and> t_slice_ticks (tasks s' t) = t_slice_ticks (tasks s t))
    \<and> idle_task s' = idle_task s \<and> task_list s' = task_list s"
proof -
  obtain s1 where w: "sleep_walk (head_or (map run_node ss) 0) s = Some s1"
    and r1: "sched_rep T s1 (rs @ filter (due s) ss) (filter (\<lambda>t. \<not> due s t) ss)"
    and f1: "run_frame T s s1" "tasks s1 = slept_tick s (set ss)"
      "idle_task s1 = idle_task s" "task_list s1 = task_list s"
    using sleep_walk_rep [of T s rs "[]" ss] r by auto
  obtain s' sw where d: "task_dispatch s1 = (s', sw)" by fastforce
  have "list_first (sleep_list s) = head_or (map run_node ss) 0"
    using r by (auto simp: sched_rep_def intro: dlist_first)
  then have "tick_rest s = Some (s', sw)"
    using w d by (simp add: tick_rest_def)
  moreover have "t_slice_ticks (slept_tick s (set ss) t) = t_slice_ticks (tasks s t)" for t
    by (simp add: slept_tick_def)
  ultimately show ?thesis
    using task_dispatch_rep [OF r1 d] f1 by (intro exI [of _ s'] exI [of _ sw]) (auto simp: run_frame_def)
qed

text \<open>
  The whole tick on a represented state: \<open>tick_result\<close> spells out the effect. With a used-up
  slice and a second ready task the running task goes to the end of the queue, and the sleepers
  are not counted down in this call.
\<close>

definition slice_after_tick :: "task_t \<Rightarrow> u32" where
  "slice_after_tick t = (if t_slice_ticks t = 1 then t_time_ticks t else t_slice_ticks t - 1)"

definition tick_result ::
  "addr set \<Rightarrow> 's sched_scheme \<Rightarrow> addr list \<Rightarrow> addr list \<Rightarrow> 's sched_scheme \<Rightarrow> bool" where
  "tick_result T s rs ss s' \<longleftrightarrow>
     (if t_slice_ticks (tasks s (curr_task s)) = 1 \<and> 1 < length rs
      then sched_rep T s' (rotate1 rs) ss \<and> head_runs s' (rotate1 rs)
         \<and> (\<forall>t. t_sleep_ticks (tasks s' t) = t_sleep_ticks (tasks s t))
      else sched_rep T s' (rs @ filter (due s) ss) (filter (\<lambda>t. \<not> due s t) ss)
         \<and> head_runs s' (rs @ filter (due s) ss)
         \<and> (\<forall>t. t_sleep_ticks (tasks s' t) =
              (if t \<in> set ss then t_sleep_ticks (tasks s t) - 1 else t_sleep_ticks (tasks s t))))
     \<and> t_slice_ticks (tasks s' (curr_task s)) = slice_after_tick (tasks s (curr_task s))
     \<and> run_frame T s s' \<and> idle_task s' = idle_task s \<and> task_list s' = task_list s"

lemma head_runs_upd_task [simp]: "head_runs (upd_task t f s) rs = head_runs s rs"
  by (simp add: head_runs_def split: list.splits)

text \<open>What the sleepers see of a state in which only other fields of tasks changed.\<close>

lemma tick_rest_result:
  assumes r: "sched_rep T s1 rs ss" and "run_frame T s s1"
    and "idle_task s1 = idle_task s" "task_list s1 = task_list s"
    and "\<And>t. t_sleep_ticks (tasks s1 t) = t_sleep_ticks (tasks s t)"
    and "t_slice_ticks (tasks s1 (curr_task s)) = slice_after_tick (tasks s (curr_task s))"
    and "\<not> (t_slice_ticks (tasks s (curr_task s)) = 1 \<and> 1 < length rs)"
  shows "\<exists>s' sw. tick_rest s1 = Some (s', sw) \<and> tick_result T s rs ss s'"
proof -
  have due: "due s1 = due s" using assms(5) by (auto simp: due_def)
  obtain s' sw where t: "tick_rest s1 = Some (s', sw)"
    "sched_rep T s' (rs @ filter (due s) ss) (filter (\<lambda>t. \<not> due s t) ss)"
    "head_runs s' (rs @ filter (due s) ss)" "run_frame T s1 s'"
    "idle_task s' = idle_task s" "task_list s' = task_list s"
    and st: "\<And>t. t_sleep_ticks (tasks s' t) = t_sleep_ticks (slept_tick s1 (set ss) t)"
      "\<And>t. t_slice_ticks (tasks s' t) = t_slice_ticks (tasks s1 t)"
    using tick_rest_rep [OF r] assms(3,4) due by auto
  have "t_sleep_ticks (slept_tick s1 (set ss) t) =
      (if t \<in> set ss then t_sleep_ticks (tasks s t) - 1 else t_sleep_ticks (tasks s t))" for t
    using assms(5) by (simp add: slept_tick_def)
  with t st assms show ?thesis
    unfolding tick_result_def by (intro exI [of _ s'] exI [of _ sw]) (auto intro: run_frame_trans)
qed

lemma requeue_current:
  assumes r: "sched_rep T s rs ss" and hr: "head_runs s rs"
  defines "s1 \<equiv> task_set_ready (curr_task s) (task_set_blocked (curr_task s) s)"
  shows "sched_rep T s1 (rotate1 rs) ss" and "run_frame T s s1"
    and "head_runs s1 (rotate1 rs) \<longleftrightarrow> length rs \<le> 1"
proof -
  have "sched_rep T s1 (rotate1 rs) ss \<and> run_frame T s s1 \<and> (head_runs s1 (rotate1 rs) \<longleftrightarrow> length rs \<le> 1)"
  proof (cases rs)
    case Nil
    then have "s1 = s"
      using hr by (simp add: s1_def head_runs_def task_set_ready_def task_set_blocked_def)
    with r hr Nil show ?thesis by simp
  next
    case (Cons c us)
    then have c: "curr_task s = c" using hr by (simp add: head_runs_def)
    have "c \<notin> set us" using sched_rep_distinct [OF r] Cons by simp
    then have "head_runs s1 (us @ [c]) \<longleftrightarrow> us = []"
      by (cases us) (auto simp: head_runs_def s1_def c)
    with requeue_rep [OF r, of c] Cons c show ?thesis by (simp add: s1_def)
  qed
  then show "sched_rep T s1 (rotate1 rs) ss" "run_frame T s s1"
    "head_runs s1 (rotate1 rs) \<longleftrightarrow> length rs \<le> 1"
    by auto
qed

lemma task_time_tick_rep:
  assumes r: "sched_rep T s rs ss" and hr: "head_runs s rs"
  shows "\<exists>s' sw. task_time_tick s = Some (s', sw) \<and> tick_result T s rs ss s'"
proof -
  let ?c = "curr_task s"
  let ?s1 = "upd_task ?c (t_slice_ticks_update (\<lambda>n. n - 1)) s"
  let ?s2 = "upd_task ?c (\<lambda>t. t\<lparr>t_slice_ticks := t_time_ticks t\<rparr>) ?s1"
  let ?s3 = "task_set_ready ?c (task_set_blocked ?c ?s2)"
  show ?thesis
  proof (cases "t_slice_ticks (tasks s ?c) = 1")
    case False
    then have "task_time_tick s = tick_rest ?s1"
      by (simp add: task_time_tick_def task_current_def)
    moreover have "\<exists>s' sw. tick_rest ?s1 = Some (s', sw) \<and> tick_result T s rs ss s'"
      using r False by (intro tick_rest_result) (auto simp: slice_after_tick_def run_frame_def)
    ultimately show ?thesis by simp
  next
    case True
    have q: "sched_rep T ?s3 (rotate1 rs) ss" "run_frame T ?s2 ?s3"
      "head_runs ?s3 (rotate1 rs) \<longleftrightarrow> length rs \<le> 1"
      using requeue_current [of T ?s2 rs ss] r hr by simp_all
    obtain s4 sw where d: "task_dispatch ?s3 = (s4, sw)" by fastforce
    note dr = task_dispatch_rep [OF q(1) d]
    have unf: "task_time_tick s = (if sw then Some (s4, True) else tick_rest s4)"
      using True d by (simp add: task_time_tick_def task_current_def Let_def)
    have slice: "t_slice_ticks (tasks s4 ?c) = slice_after_tick (tasks s ?c)"
      using dr(10) True by (simp add: slice_after_tick_def)
    have ticks: "\<And>t. t_sleep_ticks (tasks s4 t) = t_sleep_ticks (tasks s t)"
      using dr(9) by simp
    have fr: "run_frame T s s4" "idle_task s4 = idle_task s" "task_list s4 = task_list s"
      using q(2) dr(3,4,5) by (auto simp: run_frame_def)
    show ?thesis
    proof (cases "length rs \<le> 1")
      case one: True
      then have "\<not> sw" "rotate1 rs = rs"
        using dr(6) q(3) by (cases rs; auto)+
      moreover have "\<exists>s' sw. tick_rest s4 = Some (s', sw) \<and> tick_result T s rs ss s'"
        using dr(1) fr ticks slice one \<open>rotate1 rs = rs\<close> by (intro tick_rest_result) auto
      ultimately show ?thesis using unf by simp
    next
      case more: False
      then have "sw" using dr(6) q(3) by simp
      moreover have "tick_result T s rs ss s4"
        using True more dr(1,2) ticks slice fr by (simp add: tick_result_def)
      ultimately show ?thesis using unf by auto
    qed
  qed
qed

subsection \<open>Runs of the scheduler\<close>

text \<open>
  The transitions of the running kernel: the current task yields, sleeps, exits or starts a
  new task, the clock ticks, or a preempted task finishes the tick that preempted it.
\<close>

inductive sched_step :: "addr set \<Rightarrow> 's sched_scheme \<Rightarrow> 's sched_scheme \<Rightarrow> bool" for T where
  step_yield: "sys_sched_yield s = (s', sw) \<Longrightarrow> sched_step T s s'"
| step_tick: "task_time_tick s = Some (s', sw) \<Longrightarrow> sched_step T s s'"
| step_tick_rest: "tick_rest s = Some (s', sw) \<Longrightarrow> sched_step T s s'"
| step_sleep: "curr_task s \<noteq> idle_task s \<Longrightarrow> sys_sleep ms s = (s', sw) \<Longrightarrow> sched_step T s s'"
| step_exit: "curr_task s \<noteq> idle_task s \<Longrightarrow> sys_exit v s = (s', sw) \<Longrightarrow> sched_step T s s'"
| step_start: "curr_task s \<noteq> idle_task s \<Longrightarrow> sched_rep T s rs ss \<Longrightarrow> t \<in> T \<Longrightarrow> t \<noteq> idle_task s \<Longrightarrow>
    t \<notin> set rs \<union> set ss \<Longrightarrow> s' = task_start t s \<Longrightarrow> sched_step T s s'"

inductive_cases sched_stepE: "sched_step T s s'"

definition sched_inv :: "addr set \<Rightarrow> 's sched_scheme \<Rightarrow> bool" where
  "sched_inv T s \<longleftrightarrow> (\<exists>rs ss. sched_rep T s rs ss \<and> head_runs s rs)"

lemma sched_rep_unique:
  assumes "sched_rep T s rs ss" and "sched_rep T s rs' ss'"
  shows "rs = rs'" and "ss = ss'"
proof -
  have inj: "inj run_node" by (simp add: inj_on_def)
  have det: "xs = ys" if "links h p xs 0" "links h p ys 0" "head_or xs 0 = head_or ys 0" for h p xs ys
    using that by (induction xs arbitrary: p ys) (case_tac ys; auto)+
  have "map run_node rs = map run_node rs'" "map run_node ss = map run_node ss'"
    using assms det by (auto simp: sched_rep_def dlist_def)
  then show "rs = rs'" "ss = ss'"
    using inj by (auto simp: inj_map_eq_map)
qed

lemma task_start_rep:
  assumes r: "sched_rep T s rs ss" and t: "t \<in> T" "t \<noteq> idle_task s" "t \<notin> set rs \<union> set ss"
  shows "sched_rep T (task_start t s) (rs @ [t]) ss"
    and "curr_task (task_start t s) = curr_task s" "idle_task (task_start t s) = idle_task s"
  using task_set_ready_rep(1) [of T "cli s" rs ss t] r t
  by (auto simp: task_start_def irq_enter_eq)

lemma sched_step_inv:
  assumes "sched_step T s s'" and "sched_inv T s"
  shows "sched_inv T s'"
proof -
  obtain rs ss where r: "sched_rep T s rs ss" and hr: "head_runs s rs"
    using assms(2) by (auto simp: sched_inv_def)
  have cons: "\<exists>us. rs = curr_task s # us" if "curr_task s \<noteq> idle_task s"
    using that hr by (auto simp: head_runs_def split: list.splits)
  from assms(1) show ?thesis
  proof cases
    case step_yield
    with r hr show ?thesis using sys_sched_yield_rep by (metis sched_inv_def)
  next
    case step_tick
    then show ?thesis
      using task_time_tick_rep [OF r hr] by (auto simp: sched_inv_def tick_result_def split: if_splits)
  next
    case step_tick_rest
    then show ?thesis using tick_rest_rep [OF r] by (auto simp: sched_inv_def)
  next
    case step_sleep
    with cons r hr show ?thesis using sys_sleep_rep [of T s] by (metis sched_inv_def)
  next
    case step_exit
    with cons r hr show ?thesis using sys_exit_rep [of T s] by (metis sched_inv_def)
  next
    case (step_start rs' ss' t)
    then have "sched_rep T s' (rs @ [t]) ss" "curr_task s' = curr_task s" "idle_task s' = idle_task s"
      using task_start_rep [of T s rs ss t] sched_rep_unique [OF r step_start(2)] r by auto
    moreover have "head_runs s' (rs @ [t])"
      using cons [OF step_start(1)] calculation(2) by (auto simp: head_runs_def split: list.splits)
    ultimately show ?thesis by (auto simp: sched_inv_def)
  qed
qed

lemma sched_run_inv: "(sched_step T)\<^sup>*\<^sup>* s s' \<Longrightarrow> sched_inv T s \<Longrightarrow> sched_inv T s'"
  by (induction rule: rtranclp_induct) (auto intro: sched_step_inv)

subsection \<open>Round robin and wake-up\<close>

lemma yields_rep:
  assumes "sched_rep T s rs ss" and "head_runs s rs"
  shows "sched_rep T (((\<lambda>s. fst (sys_sched_yield s)) ^^ k) s) (rotate k rs) ss
    \<and> head_runs (((\<lambda>s. fst (sys_sched_yield s)) ^^ k) s) (rotate k rs)"
proof (induction k)
  case 0
  with assms show ?case by simp
next
  case (Suc k)
  let ?s = "((\<lambda>s. fst (sys_sched_yield s)) ^^ k) s"
  obtain s' sw where y: "sys_sched_yield ?s = (s', sw)" by fastforce
  with sys_sched_yield_rep [of T ?s "rotate k rs" ss] Suc show ?case by simp
qed

text \<open>Repeated passes over the sleep list.\<close>

primrec tick_times :: "nat \<Rightarrow> 's sched_scheme \<Rightarrow> 's sched_scheme option" where
  "tick_times 0 s = Some s"
| "tick_times (Suc k) s = (case tick_rest s of None \<Rightarrow> None | Some (s', sw) \<Rightarrow> tick_times k s')"

lemma tick_times_sleeping:
  assumes "sched_rep T s rs ss" and "t \<in> set ss" and "k < unat (t_sleep_ticks (tasks s t))"
  shows "\<exists>s' rs' ss'. tick_times k s = Some s' \<and> sched_rep T s' rs' ss' \<and> t \<in> set ss'
    \<and> unat (t_sleep_ticks (tasks s' t)) = unat (t_sleep_ticks (tasks s t)) - k"
  using assms
proof (induction k arbitrary: s rs ss)
  case 0
  then show ?case by auto
next
  case (Suc k)
  let ?n = "t_sleep_ticks (tasks s t)"
  obtain s1 sw where s1: "tick_rest s = Some (s1, sw)"
    and r1: "sched_rep T s1 (rs @ filter (due s) ss) (filter (\<lambda>t. \<not> due s t) ss)"
    and n1: "t_sleep_ticks (tasks s1 t) = t_sleep_ticks (slept_tick s (set ss) t)"
    using tick_rest_rep [OF Suc.prems(1)] by blast
  have "?n \<noteq> 0" "?n \<noteq> 1"
    using Suc.prems(3) by (auto simp: unat_arith_simps)
  then have t: "t \<in> set (filter (\<lambda>t. \<not> due s t) ss)"
    and un: "unat (t_sleep_ticks (tasks s1 t)) = unat ?n - 1"
    using Suc.prems(2) n1 by (auto simp: due_def slept_tick_def unat_minus_one)
  then have "k < unat (t_sleep_ticks (tasks s1 t))" using Suc.prems(3) by simp
  from Suc.IH [OF r1 t this] obtain s' rs' ss' where
    "tick_times k s1 = Some s' \<and> sched_rep T s' rs' ss' \<and> t \<in> set ss'
      \<and> unat (t_sleep_ticks (tasks s' t)) = unat (t_sleep_ticks (tasks s1 t)) - k"
    by blast
  with s1 un show ?case by (intro exI [of _ s']) auto
qed

lemma tick_times_Suc_last:
  "tick_times (Suc k) s = (case tick_times k s of None \<Rightarrow> None | Some s' \<Rightarrow> map_option fst (tick_rest s'))"
proof (induction k arbitrary: s)
  case 0
  then show ?case by (simp split: option.splits prod.splits)
next
  case (Suc k)
  show ?case
  proof (cases "tick_rest s")
    case None
    then show ?thesis by simp
  next
    case (Some p)
    then obtain s1 sw where "tick_rest s = Some (s1, sw)" by (cases p) simp
    then have "tick_times (Suc (Suc k)) s = tick_times (Suc k) s1" "tick_times (Suc k) s = tick_times k s1"
      by simp_all
    with Suc.IH [of s1] show ?thesis by simp
  qed
qed

subsection \<open>A concrete scheduler state\<close>

text \<open>
  Blocks with every field zero (as \<^verbatim>\<open>kmemset\<close> leaves them), and a small state for the
  instances below: the idle task, two ready tasks of which the first runs, and one task that
  sleeps for three more ticks.
\<close>

definition tss_zero :: tss_t where
  "tss_zero = \<lparr>tss_pre_link = 0, tss_esp0 = 0, tss_ss0 = 0, tss_esp1 = 0, tss_ss1 = 0,
     tss_esp2 = 0, tss_ss2 = 0, tss_cr3 = 0, tss_eip = 0, tss_eflags = 0, tss_eax = 0,
     tss_ecx = 0, tss_edx = 0, tss_ebx = 0, tss_esp = 0, tss_ebp = 0, tss_esi = 0, tss_edi = 0,
     tss_es = 0, tss_cs = 0, tss_ss = 0, tss_ds = 0, tss_fs = 0, tss_gs = 0, tss_ldt = 0,
     tss_iomap = 0\<rparr>"

definition task_zero :: task_t where
  "task_zero = \<lparr>t_state = TASK_CREATED, t_name = replicate TASK_NAME_SIZE 0, t_pid = 0,
     t_parent = 0, t_sleep_ticks = 0, t_time_ticks = 0, t_slice_ticks = 0, t_tss = tss_zero,
     t_tss_sel = 0\<rparr>"

definition demo_tasks :: "addr set" where
  "demo_tasks = {0x1000, 0x2000, 0x3000, 0x4000}"

definition demo_base :: sched where
  "demo_base = \<lparr>eflags = EFLAGS_IF, cr0_reg = 0, cr2_reg = 0, cr3_reg = 0, cr4_reg = 0, tr_reg = 0,
     gdtr = make_table_reg 0 0, idtr = make_table_reg 0 0, io_log = [], mem = (\<lambda>_. 0),
     nodes = (\<lambda>_. \<lparr>n_pre = 0, n_next = 0\<rparr>),
     tasks = (\<lambda>_. task_zero\<lparr>t_time_ticks := 10, t_slice_ticks := 10\<rparr>),
     curr_task = 0x2000, ready_list = list_init, task_list = list_init, sleep_list = list_init,
     idle_task = 0x1000, first_task = 0x2000, app_code_sel = 0, app_data_sel = 0\<rparr>"

definition demo_sched :: sched where
  "demo_sched = task_set_sleep 0x4000 3 (task_set_ready 0x3000 (task_set_ready 0x2000 demo_base))"

lemma demo_layout: "task_layout demo_tasks"
  by (simp add: task_layout_def demo_tasks_def run_node_def all_node_def wait_node_def)

lemma demo_sched_rep: "sched_rep demo_tasks demo_sched [0x2000, 0x3000] [0x4000]"
proof -
  have "sched_rep demo_tasks demo_base [] []"
    using demo_layout dlist_init by (simp add: sched_rep_def demo_base_def demo_tasks_def)
  from task_set_ready_rep(1) [OF this, where t = "0x2000"]
  have "sched_rep demo_tasks (task_set_ready 0x2000 demo_base) [0x2000] []"
    by (simp add: demo_base_def demo_tasks_def)
  from task_set_ready_rep(1) [OF this, where t = "0x3000"]
  have "sched_rep demo_tasks (task_set_ready 0x3000 (task_set_ready 0x2000 demo_base)) [0x2000, 0x3000] []"
    by (simp add: demo_base_def demo_tasks_def)
  from task_set_sleep_rep(1) [OF this, where t = "0x4000" and n = 3] show ?thesis
    by (simp add: demo_sched_def demo_base_def demo_tasks_def)
qed

lemma demo_head_runs: "head_runs demo_sched [0x2000, 0x3000]"
  by (simp add: head_runs_def demo_sched_def demo_base_def)

lemma demo_sleep_ticks: "t_sleep_ticks (tasks demo_sched 0x4000) = 3"
  by (simp add: demo_sched_def)

lemma demo_slice_ticks: "t_slice_ticks (tasks demo_sched t) = 10"
  by (simp add: demo_sched_def demo_base_def)

subsection \<open>Properties\<close>

text \<open>C1: In every run of the scheduler (yields, clock ticks, sleeps, exits, task starts, resumed
  ticks) from a state in which the lists are well formed and the head of the ready list runs, the
  lists stay well formed, no task is in both, and the running task is the head of the ready list,
  or the idle task when the list is empty.\<close>

theorem sched_run_keeps_invariant:
  assumes "(sched_step T)\<^sup>*\<^sup>* s s'" and "sched_inv T s"
  shows "\<exists>rs ss. sched_rep T s' rs ss
    \<and> curr_task s' = (case rs of [] \<Rightarrow> idle_task s' | t # _ \<Rightarrow> t)"
  using sched_run_inv [OF assms] by (simp add: sched_inv_def head_runs_def)

theorem sched_run_keeps_invariant_witness:
  "(sched_step demo_tasks)\<^sup>*\<^sup>* demo_sched (fst (sys_sched_yield (fst (sys_sleep 25 demo_sched))))
   \<and> (\<exists>rs ss. sched_rep demo_tasks (fst (sys_sched_yield (fst (sys_sleep 25 demo_sched)))) rs ss)"
proof -
  let ?s1 = "fst (sys_sleep 25 demo_sched)" and ?s2 = "fst (sys_sched_yield (fst (sys_sleep 25 demo_sched)))"
  have "curr_task demo_sched \<noteq> idle_task demo_sched"
    by (simp add: demo_sched_def demo_base_def)
  then have "sched_step demo_tasks demo_sched ?s1"
    by (rule step_sleep [where ms = 25 and sw = "snd (sys_sleep 25 demo_sched)"]) simp
  moreover have "sched_step demo_tasks ?s1 ?s2"
    by (rule step_yield [where sw = "snd (sys_sched_yield ?s1)"]) simp
  ultimately have run: "(sched_step demo_tasks)\<^sup>*\<^sup>* demo_sched ?s2"
    by (meson converse_rtranclp_into_rtranclp rtranclp.rtrancl_refl)
  have "sched_inv demo_tasks demo_sched"
    using demo_sched_rep demo_head_runs by (auto simp: sched_inv_def)
  from sched_run_keeps_invariant [OF run this] run show ?thesis by blast
qed

text \<open>C13: The clock tick. It returns (the walk over the sleep list ends). If the running task's slice is
  not used up, or no other task is ready, every sleeper is counted down by one and those that
  reach zero are appended to the ready list in order; if the slice is used up and another task is
  ready, the running task goes to the end of the ready list, its slice is refilled, the next task
  runs, and no sleeper is counted down by this tick, although the comment of the function says that
  every tick counts them down: the walk is left to the rest of the handler (\<open>tick_rest\<close>), which the
  preempted task executes when it runs again.\<close>

theorem task_time_tick_effect:
  assumes "sched_rep T s rs ss" and "head_runs s rs"
  shows "\<exists>s' sw. task_time_tick s = Some (s', sw) \<and> tick_result T s rs ss s'"
  using assms by (rule task_time_tick_rep)

theorem task_time_tick_effect_witness:
  "\<exists>s' sw. task_time_tick demo_sched = Some (s', sw)
    \<and> tick_result demo_tasks demo_sched [0x2000, 0x3000] [0x4000] s'
    \<and> t_sleep_ticks (tasks s' 0x4000) = 2"
  using task_time_tick_effect [OF demo_sched_rep demo_head_runs]
  by (auto simp: tick_result_def demo_sleep_ticks demo_slice_ticks)

text \<open>C24: Round robin. When each running task gives up the processor in turn, the task at position
  \<open>k\<close> of the ready list runs after exactly \<open>k\<close> yields.\<close>

theorem yield_reaches_every_ready_task:
  assumes "sched_rep T s rs ss" and "head_runs s rs" and "k < length rs"
  shows "curr_task (((\<lambda>s. fst (sys_sched_yield s)) ^^ k) s) = rs ! k"
proof -
  have "rs \<noteq> []" using assms(3) by auto
  have "head_runs (((\<lambda>s. fst (sys_sched_yield s)) ^^ k) s) (rotate k rs)"
    using yields_rep [OF assms(1,2)] by blast
  then have "curr_task (((\<lambda>s. fst (sys_sched_yield s)) ^^ k) s) = hd (rotate k rs)"
    using \<open>rs \<noteq> []\<close> by (cases "rotate k rs") (auto simp: head_runs_def)
  with \<open>rs \<noteq> []\<close> assms(3) show ?thesis by (simp add: hd_rotate_conv_nth)
qed

theorem yield_reaches_every_ready_task_witness:
  "curr_task (((\<lambda>s. fst (sys_sched_yield s)) ^^ 1) demo_sched) = 0x3000"
  using yield_reaches_every_ready_task [OF demo_sched_rep demo_head_runs, of 1] by simp


text \<open>C31: A sleep of \<open>ms\<close> milliseconds (below the wrap-around of the rounding) takes the running
  task from the ready list to the end of the sleep list with its count set to \<open>ms / 10\<close> rounded
  up, hands the processor to the next ready task or the idle task, and leaves the task's state
  field alone (\<^verbatim>\<open>task->state == TASK_SLEEP\<close> assigns nothing).\<close>

theorem sys_sleep_effect:
  assumes "sched_rep T s (c # rs) ss" and "head_runs s (c # rs)"
    and "0 < unat ms" and "unat ms < 2 ^ 32 - 9" and "sys_sleep ms s = (s', sw)"
  shows "sched_rep T s' rs (ss @ [c]) \<and> head_runs s' rs \<and> sw
    \<and> unat (t_sleep_ticks (tasks s' c)) = (unat ms + 9) div 10
    \<and> t_state (tasks s' c) = t_state (tasks s c)"
proof -
  have n: "unat (sleep_ticks_of ms) = (unat ms + 9) div 10"
    using assms(4) by (rule unat_sleep_ticks_of)
  moreover have "0 < (unat ms + 9) div 10" using assms(3) by simp
  ultimately have nz: "sleep_ticks_of ms \<noteq> 0" by (metis unat_0 less_irrefl)
  note r = sys_sleep_rep [OF assms(1,2,5)]
  from r(1) nz have "sched_rep T s' rs (ss @ [c])" by simp
  moreover from r(7) [OF nz] n have "unat (t_sleep_ticks (tasks s' c)) = (unat ms + 9) div 10"
    by simp
  ultimately show ?thesis using r(2,4,8) by blast
qed

theorem sys_sleep_effect_witness:
  "sched_rep demo_tasks (fst (sys_sleep 25 demo_sched)) [0x3000] [0x4000, 0x2000]
   \<and> unat (t_sleep_ticks (tasks (fst (sys_sleep 25 demo_sched)) 0x2000)) = 3"
  using sys_sleep_effect [OF demo_sched_rep demo_head_runs, of 25
      "fst (sys_sleep 25 demo_sched)" "snd (sys_sleep 25 demo_sched)"] by simp

text \<open>C32: A sleeping task with \<open>n\<close> ticks left is still asleep after any smaller number of passes over
  the sleep list and is in the ready list after exactly \<open>n\<close> passes.\<close>

theorem sleeper_wakes_on_time:
  assumes "sched_rep T s rs ss" and "t \<in> set ss" and "unat (t_sleep_ticks (tasks s t)) = Suc n"
  shows "(\<forall>k \<le> n. \<exists>s' rs' ss'. tick_times k s = Some s' \<and> sched_rep T s' rs' ss' \<and> t \<in> set ss')
    \<and> (\<exists>s' rs' ss'. tick_times (Suc n) s = Some s' \<and> sched_rep T s' rs' ss' \<and> t \<in> set rs')"
proof (intro conjI allI impI)
  fix k assume "k \<le> n"
  with tick_times_sleeping [OF assms(1,2), of k] assms(3)
  show "\<exists>s' rs' ss'. tick_times k s = Some s' \<and> sched_rep T s' rs' ss' \<and> t \<in> set ss'"
    by auto
next
  obtain s1 rs1 ss1 where s1: "tick_times n s = Some s1" "sched_rep T s1 rs1 ss1" "t \<in> set ss1"
    "unat (t_sleep_ticks (tasks s1 t)) = 1"
    using tick_times_sleeping [OF assms(1,2), of n] assms(3) by auto
  then have "due s1 t" by (simp add: due_def word_unat_eq_iff)
  obtain s' sw where "tick_rest s1 = Some (s', sw)"
    "sched_rep T s' (rs1 @ filter (due s1) ss1) (filter (\<lambda>t. \<not> due s1 t) ss1)"
    using tick_rest_rep [OF s1(2)] by blast
  with s1 \<open>due s1 t\<close> show "\<exists>s' rs' ss'. tick_times (Suc n) s = Some s' \<and> sched_rep T s' rs' ss' \<and> t \<in> set rs'"
    unfolding tick_times_Suc_last
    by (intro exI [of _ s'] exI [of _ "rs1 @ filter (due s1) ss1"] exI [of _ "filter (\<lambda>t. \<not> due s1 t) ss1"]) auto
qed

theorem sleeper_wakes_on_time_witness:
  "\<exists>s' rs' ss'. tick_times 3 demo_sched = Some s' \<and> sched_rep demo_tasks s' rs' ss' \<and> 0x4000 \<in> set rs'"
proof -
  have "unat (t_sleep_ticks (tasks demo_sched 0x4000)) = Suc 2"
    by (simp add: demo_sleep_ticks)
  from sleeper_wakes_on_time [OF demo_sched_rep _ this] show ?thesis
    by (simp only: numeral_3_eq_3 numeral_2_eq_2) simp
qed

text \<open>C40: \<^verbatim>\<open>sys_sleep(0)\<close> loses the running task: it leaves the ready list, is not put on the
  sleep list, and the processor goes to another task. The same happens for every \<open>ms\<close> for which
  the rounding wraps to less than one tick.\<close>

theorem sys_sleep_zero_loses_task:
  assumes "sched_rep T s (c # rs) ss" and "head_runs s (c # rs)"
    and "unat ms = 0 \<or> 2 ^ 32 - 9 \<le> unat ms" and "sys_sleep ms s = (s', sw)"
  shows "sched_rep T s' rs ss \<and> c \<notin> set rs \<union> set ss \<and> sw \<and> curr_task s' \<noteq> c"
proof -
  have "sleep_ticks_of ms = 0"
  proof -
    have wrap: "unat (ms + 9) = (unat ms + 9) mod 2 ^ 32" by (simp add: unat_word_ariths)
    have "unat (ms + 9) < 10"
    proof (cases "unat ms = 0")
      case True
      with wrap show ?thesis by simp
    next
      case False
      have "unat ms < 2 ^ 32" using unsigned_less [of ms] by simp
      then obtain j where j: "unat ms + 9 = 2 ^ 32 + j" "j < 9"
        using assms(3) False le_Suc_ex [of "2 ^ 32" "unat ms + 9"] by auto
      then show ?thesis using wrap by simp
    qed
    then have "unat ((ms + 9) div 10) = 0" by (simp add: unat_div_distrib)
    then have "(ms + 9) div 10 = 0" by (simp only: unat_eq_0)
    then show ?thesis by (simp add: sleep_ticks_of_def OS_TICKS_MS_def)
  qed
  with sys_sleep_rep [OF assms(1,2,4)] have r: "sched_rep T s' rs ss" "head_runs s' rs" "sw"
    "idle_task s' = idle_task s"
    by simp_all
  have "c \<notin> set rs \<union> set ss" "c \<noteq> idle_task s"
    using assms(1) sched_rep_distinct [OF assms(1)] by (auto simp: sched_rep_def)
  with r show ?thesis by (auto simp: head_runs_def split: list.splits)
qed

theorem sys_sleep_zero_loses_task_witness:
  "sched_rep demo_tasks (fst (sys_sleep 0 demo_sched)) [0x3000] [0x4000]
   \<and> curr_task (fst (sys_sleep 0 demo_sched)) \<noteq> 0x2000"
  using sys_sleep_zero_loses_task [OF demo_sched_rep demo_head_runs, of 0
      "fst (sys_sleep 0 demo_sched)" "snd (sys_sleep 0 demo_sched)"] by simp

end
