(* ===== verification/Ipc.thy ===== *)
theory Ipc
  imports Sched Klib
begin

text \<open>
  Mutexes (\<^verbatim>\<open>src/source/kernel/ipc/mutex.c\<close>) and counting semaphores
  (\<^verbatim>\<open>src/source/kernel/ipc/sem.c\<close>) on top of the scheduler. A mutex or semaphore is a
  record that its operations return updated; the nodes of its wait list are the wait nodes of the
  task control blocks, in the shared node store. The boolean result tells whether the processor
  was given to another task, as for \<open>task_dispatch\<close>.
\<close>

subsection \<open>Mutexes\<close>

definition MUTEX_NAME_SIZE :: nat where "MUTEX_NAME_SIZE = 64"

record mutex_t =
  mx_name :: "u8 list"
  mx_owner :: addr
  mx_locked_count :: u32
  mx_wait_list :: list_t

text \<open>
  The name is an array inside the mutex, which lies at \<open>mutex_at\<close>: \<^verbatim>\<open>kstrcpy\<close> works on
  the memory in which the bytes of the array are at that address.
\<close>

definition mutex_init :: "addr \<Rightarrow> addr \<Rightarrow> mutex_t \<Rightarrow> bytes \<Rightarrow> mutex_t option" where
  "mutex_init mutex_at name mutex m =
     map_option (\<lambda>m1. mutex\<lparr>mx_name := load_bytes m1 mutex_at MUTEX_NAME_SIZE, mx_locked_count := 0,
         mx_owner := 0, mx_wait_list := list_init\<rparr>)
       (kstrcpy mutex_at name (store_bytes mutex_at (mx_name mutex) m))"

definition mutex_acquire :: "mutex_t \<Rightarrow> 's sched_scheme \<Rightarrow> mutex_t \<times> 's sched_scheme \<times> bool" where
  "mutex_acquire mutex s =
     (let (state, s1) = irq_enter_protection s;
          curr = task_current s1
      in if mx_locked_count mutex = 0 then
           (mutex\<lparr>mx_locked_count := 1, mx_owner := curr\<rparr>, irq_leave_protection state s1, False)
         else if mx_owner mutex = curr then
           (mutex\<lparr>mx_locked_count := mx_locked_count mutex + 1\<rparr>, irq_leave_protection state s1, False)
         else
           let s2 = task_set_blocked curr s1;
               (l, h) = list_insert_back (mx_wait_list mutex) (wait_node curr) (nodes s2)
           in (mutex\<lparr>mx_wait_list := l\<rparr>, after_dispatch state (task_dispatch (s2\<lparr>nodes := h\<rparr>))))"

definition mutex_release :: "mutex_t \<Rightarrow> 's sched_scheme \<Rightarrow> mutex_t \<times> 's sched_scheme \<times> bool" where
  "mutex_release mutex s =
     (let (state, s1) = irq_enter_protection s;
          curr = task_current s1
      in if mx_owner mutex = curr then
           let m1 = mutex\<lparr>mx_locked_count := mx_locked_count mutex - 1\<rparr>
           in if mx_locked_count m1 = 0 then
                let m2 = m1\<lparr>mx_owner := 0\<rparr>
                in if list_size (mx_wait_list m2) \<noteq> 0 then
                     let (node, l, h) = list_remove_front (mx_wait_list m2) (nodes s1);
                         task = list_node_parent node 60;
                         s2 = task_set_ready task (s1\<lparr>nodes := h\<rparr>)
                     in (m2\<lparr>mx_wait_list := l, mx_owner := task, mx_locked_count := 1\<rparr>,
                         after_dispatch state (task_dispatch s2))
                   else (m2, irq_leave_protection state s1, False)
              else (m1, irq_leave_protection state s1, False)
         else (mutex, irq_leave_protection state s1, False))"

subsection \<open>Semaphores\<close>

record sem_t =
  sem_cnt :: u32
  sem_wait_list :: list_t

definition sem_init :: "u32 \<Rightarrow> sem_t" where
  "sem_init init_count = \<lparr>sem_cnt = init_count, sem_wait_list = list_init\<rparr>"

definition sem_wait :: "sem_t \<Rightarrow> 's sched_scheme \<Rightarrow> sem_t \<times> 's sched_scheme \<times> bool" where
  "sem_wait sem s =
     (let (state, s1) = irq_enter_protection s
      in if 0 < sint (sem_cnt sem) then
           (sem\<lparr>sem_cnt := sem_cnt sem - 1\<rparr>, irq_leave_protection state s1, False)
         else
           let curr = task_current s1;
               s2 = task_set_blocked curr s1;
               (l, h) = list_insert_back (sem_wait_list sem) (wait_node curr) (nodes s2)
           in (sem\<lparr>sem_wait_list := l\<rparr>, after_dispatch state (task_dispatch (s2\<lparr>nodes := h\<rparr>))))"

definition sem_notify :: "sem_t \<Rightarrow> 's sched_scheme \<Rightarrow> sem_t \<times> 's sched_scheme \<times> bool" where
  "sem_notify sem s =
     (let (state, s1) = irq_enter_protection s
      in if list_size (sem_wait_list sem) \<noteq> 0 then
           let (node, l, h) = list_remove_front (sem_wait_list sem) (nodes s1);
               task = list_node_parent node 60;
               s2 = task_set_ready task (s1\<lparr>nodes := h\<rparr>)
           in (sem\<lparr>sem_wait_list := l\<rparr>, after_dispatch state (task_dispatch s2))
         else (sem\<lparr>sem_cnt := sem_cnt sem + 1\<rparr>, irq_leave_protection state s1, False))"

definition sem_count :: "sem_t \<Rightarrow> 's sched_scheme \<Rightarrow> u32 \<times> 's sched_scheme" where
  "sem_count sem s =
     (let (state, s1) = irq_enter_protection s;
          count = sem_cnt sem
      in (count, irq_leave_protection state s1))"

subsection \<open>Tasks waiting in a list\<close>

text \<open>
  \<open>wait_rep T s rs ss q l\<close>: besides the ready tasks \<open>rs\<close> and the sleepers \<open>ss\<close>, the
  tasks \<open>q\<close> wait in the list \<open>l\<close> through their wait nodes; the idle task never waits.
\<close>

definition wait_rep ::
    "addr set \<Rightarrow> 's sched_scheme \<Rightarrow> addr list \<Rightarrow> addr list \<Rightarrow> addr list \<Rightarrow> list_t \<Rightarrow> bool" where
  "wait_rep T s rs ss q l \<longleftrightarrow> sched_rep T s rs ss \<and> head_runs s rs
     \<and> dlist (nodes s) l (map wait_node q) \<and> set q \<subseteq> T \<and> set q \<inter> (set rs \<union> set ss) = {}
     \<and> idle_task s \<notin> set q"

lemma wait_node_eq [simp]: "wait_node t = wait_node t' \<longleftrightarrow> t = t'"
  by (simp add: wait_node_def)

lemma wait_node_parent: "wait_node t \<noteq> 0 \<Longrightarrow> list_node_parent (wait_node t) 60 = t"
  by (simp add: list_node_parent_def wait_node_def)

lemma wait_node_in_map [simp]: "wait_node t \<in> wait_node ` S \<longleftrightarrow> t \<in> S"
  by auto

lemma distinct_map_wait_node [simp]: "distinct (map wait_node xs) = distinct xs"
  by (simp add: distinct_map inj_on_def)

lemma wait_list_frame:
  assumes "task_layout T" "set q \<subseteq> T" "dlist (nodes s) l (map wait_node q)" "run_frame T s s'"
  shows "dlist (nodes s') l (map wait_node q)"
proof (rule kl.rep_frame [OF assms(3)])
  fix a assume "a \<in> set (map wait_node q)"
  then have "a \<notin> run_node ` T" using assms(1,2) by (fastforce simp: task_layout_def)
  then show "nodes s' a = nodes s a" using assms(4) by (simp add: run_frame_def)
qed

text \<open>The run lists do not notice changes of wait nodes.\<close>

lemma sched_rep_wait_frame:
  assumes "sched_rep T s rs ss" and "\<And>a. a \<notin> wait_node ` T \<Longrightarrow> h a = nodes s a"
  shows "sched_rep T (s\<lparr>nodes := h\<rparr>) rs ss"
proof -
  have "h (run_node t) = nodes s (run_node t)" if "t \<in> T" for t
    using assms(1) that by (intro assms(2)) (fastforce simp: sched_rep_def task_layout_def)
  then have "dlist h (ready_list s) (map run_node rs)" "dlist h (sleep_list s) (map run_node ss)"
    using assms(1) by (auto simp: sched_rep_def subset_eq intro!: kl.rep_frame [of "nodes s"])
  with assms(1) show ?thesis by (simp add: sched_rep_def)
qed

lemma wait_rep_distinct: "wait_rep T s rs ss q l \<Longrightarrow> distinct (rs @ ss @ q)"
  using sched_rep_distinct [of T s rs ss] kl.rep_distinct [of "nodes s" l "map wait_node q"]
  by (auto simp: wait_rep_def sched_rep_def)

lemma insert_wait_node:
  assumes r: "sched_rep T s rs ss" and w: "dlist (nodes s) l (map wait_node q)" "set q \<subseteq> T"
    and c: "c \<in> T" "c \<notin> set q" and ins: "list_insert_back l (wait_node c) (nodes s) = (l', h)"
  shows "dlist h l' (map wait_node (q @ [c]))" and "sched_rep T (s\<lparr>nodes := h\<rparr>) rs ss"
    and "\<And>a. a \<notin> wait_node ` (insert c (set q)) \<Longrightarrow> h a = nodes s a"
proof -
  have lay: "task_layout T" using r by (simp add: sched_rep_def)
  have "distinct q" using kl.rep_distinct [OF w(1)] by simp
  then have pre: "wait_node c \<notin> set (map wait_node q)" "wait_node c \<noteq> 0"
    "Suc (length (map wait_node q)) < 2 ^ 31"
    using lay c w(2) task_layout_length [OF lay, of q] by (auto simp: task_layout_def)
  show "dlist h l' (map wait_node (q @ [c]))" using kl.ins_rep [OF w(1) pre ins] by simp
  show fr: "\<And>a. a \<notin> wait_node ` (insert c (set q)) \<Longrightarrow> h a = nodes s a"
    using kl.ins_frame [OF w(1) pre ins] by auto
  show "sched_rep T (s\<lparr>nodes := h\<rparr>) rs ss"
    using fr c(1) w(2) by (intro sched_rep_wait_frame [OF r]) auto
qed

lemma remove_wait_node:
  assumes r: "sched_rep T s rs ss" and w: "dlist (nodes s) l (map wait_node (t # q))" "set (t # q) \<subseteq> T"
    and del: "list_remove_front l (nodes s) = (n, l', h)"
  shows "list_node_parent n 60 = t" and "dlist h l' (map wait_node q)"
    and "sched_rep T (s\<lparr>nodes := h\<rparr>) rs ss"
    and "\<And>a. a \<notin> wait_node ` set (t # q) \<Longrightarrow> h a = nodes s a"
proof -
  have "wait_node t \<noteq> 0" using r w(2) by (auto simp: sched_rep_def task_layout_def)
  moreover have w': "dlist (nodes s) l (wait_node t # map wait_node q)" using w(1) by simp
  note d = list_remove_front_dlist [OF w' del]
  ultimately show "list_node_parent n 60 = t" "dlist h l' (map wait_node q)"
    using d wait_node_parent by auto
  show fr: "\<And>a. a \<notin> wait_node ` set (t # q) \<Longrightarrow> h a = nodes s a" using d(4) by auto
  show "sched_rep T (s\<lparr>nodes := h\<rparr>) rs ss"
    using fr w(2) by (intro sched_rep_wait_frame [OF r]) blast
qed

text \<open>The running task goes to sleep in a wait list: the next ready task runs.\<close>

lemma park_rep:
  assumes w: "wait_rep T s (c # rs) ss q l"
    and ins: "list_insert_back l (wait_node c) (nodes (task_set_blocked c (cli s))) = (l', h)"
    and d: "after_dispatch st (task_dispatch ((task_set_blocked c (cli s))\<lparr>nodes := h\<rparr>)) = (s', sw)"
  shows "wait_rep T s' rs ss (q @ [c]) l'" and "sw" and "task_list s' = task_list s"
    and "idle_task s' = idle_task s"
    and "\<And>a. a \<notin> run_node ` T \<Longrightarrow> a \<notin> wait_node ` insert c (set q) \<Longrightarrow> nodes s' a = nodes s a"
proof -
  let ?s2 = "task_set_blocked c (cli s)"
  have r: "sched_rep T (cli s) (c # rs) ss" and lay: "task_layout T" and c: "c \<in> T" "c \<notin> set q"
    using w by (auto simp: wait_rep_def sched_rep_def)
  note dist = wait_rep_distinct [OF w]
  have b: "sched_rep T ?s2 rs ss" "run_frame T (cli s) ?s2"
    using task_set_blocked_rep [OF r, of c] by auto
  have q: "dlist (nodes ?s2) l (map wait_node q)" "set q \<subseteq> T"
    using wait_list_frame [OF lay _ _ b(2)] w by (auto simp: wait_rep_def)
  note i = insert_wait_node [OF b(1) q c ins]
  note dr = after_dispatch_rep [OF i(2) d]
  have "\<not> head_runs (?s2\<lparr>nodes := h\<rparr>) rs"
    using w dist by (auto simp: wait_rep_def head_runs_def sched_rep_def split: list.splits)
  then show "sw" using dr(6) by simp
  show "wait_rep T s' rs ss (q @ [c]) l'"
    using dr(1,2,3,5) i(1) w dist by (auto simp: wait_rep_def sched_rep_def)
  show "task_list s' = task_list s" "idle_task s' = idle_task s" using dr(4,5) by simp_all
  fix a assume "a \<notin> run_node ` T" "a \<notin> wait_node ` insert c (set q)"
  then show "nodes s' a = nodes s a" using dr(3) i(3) b(2) by (simp add: run_frame_def)
qed

text \<open>The first waiter becomes ready; the running task goes on, unless it was the idle task.\<close>

lemma unpark_rep:
  assumes w: "wait_rep T s rs ss (t # q) l"
    and del: "list_remove_front l (nodes s) = (n, l', h)"
    and d: "after_dispatch st (task_dispatch
        (task_set_ready (list_node_parent n 60) ((cli s)\<lparr>nodes := h\<rparr>))) = (s', sw)"
  shows "list_node_parent n 60 = t" and "wait_rep T s' (rs @ [t]) ss q l'" and "sw \<longleftrightarrow> rs = []"
    and "task_list s' = task_list s" and "idle_task s' = idle_task s"
    and "rs \<noteq> [] \<Longrightarrow> curr_task s' = curr_task s \<and> eflags s' = st"
    and "\<And>a. a \<notin> run_node ` T \<Longrightarrow> a \<notin> wait_node ` set (t # q) \<Longrightarrow> nodes s' a = nodes s a"
proof -
  have r: "sched_rep T (cli s) rs ss" and lay: "task_layout T" and
    q: "dlist (nodes (cli s)) l (map wait_node (t # q))" "set (t # q) \<subseteq> T"
    using w by (auto simp: wait_rep_def sched_rep_def)
  have del': "list_remove_front l (nodes (cli s)) = (n, l', h)" using del by simp
  note dist = wait_rep_distinct [OF w]
  note i = remove_wait_node [OF r q del']
  show p: "list_node_parent n 60 = t" by (rule i(1))
  let ?s2 = "(cli s)\<lparr>nodes := h\<rparr>"
  have t: "t \<in> T" "t \<noteq> idle_task ?s2" "t \<notin> set rs \<union> set ss"
    using w dist by (auto simp: wait_rep_def)
  note b = task_set_ready_rep [OF i(3) t]
  have d': "after_dispatch st (task_dispatch (task_set_ready t ?s2)) = (s', sw)" using d p by simp
  note dr = after_dispatch_rep [OF b(1) d']
  have "dlist (nodes ?s2) l' (map wait_node q)" using i(2) by simp
  then have l': "dlist (nodes (task_set_ready t ?s2)) l' (map wait_node q)"
    using wait_list_frame [OF lay _ _ b(2)] q(2) by simp
  have hr: "head_runs (task_set_ready t ?s2) (rs @ [t]) \<longleftrightarrow> rs \<noteq> []"
    using w t(2) by (auto simp: wait_rep_def head_runs_def split: list.splits)
  then show "sw \<longleftrightarrow> rs = []" using dr(6) by simp
  show "wait_rep T s' (rs @ [t]) ss q l'"
    using dr(1,2,3,5) l' w dist by (auto simp: wait_rep_def sched_rep_def)
  show "task_list s' = task_list s" "idle_task s' = idle_task s" using dr(4,5) by simp_all
  show "curr_task s' = curr_task s \<and> eflags s' = st" if "rs \<noteq> []"
    using that dr(6,7) hr by simp
  fix a assume "a \<notin> run_node ` T" "a \<notin> wait_node ` set (t # q)"
  then show "nodes s' a = nodes s a"
    using dr(3) b(2) i(4) by (simp add: run_frame_def)
qed

subsection \<open>What a mutex promises\<close>

text \<open>
  The abstract mutex: free, or held by a task a number of times with the waiting tasks in order.
\<close>

datatype amutex = Free | Held addr nat "addr list"

primrec waiters :: "amutex \<Rightarrow> addr list" where
  "waiters Free = []"
| "waiters (Held t n q) = q"

fun a_acquire :: "addr \<Rightarrow> amutex \<Rightarrow> amutex" where
  "a_acquire c Free = Held c 1 []"
| "a_acquire c (Held t n q) = (if t = c then Held t (Suc n) q else Held t n (q @ [c]))"

fun a_release :: "addr \<Rightarrow> amutex \<Rightarrow> amutex" where
  "a_release c Free = Free"
| "a_release c (Held t n q) =
     (if t \<noteq> c then Held t n q
      else if n \<noteq> 1 then Held t (n - 1) q
      else case q of [] \<Rightarrow> Free | u # q' \<Rightarrow> Held u 1 q')"

definition mutex_abs :: "mutex_t \<Rightarrow> addr list \<Rightarrow> amutex" where
  "mutex_abs m q = (if mx_locked_count m = 0 then Free else Held (mx_owner m) (unat (mx_locked_count m)) q)"

text \<open>
  \<open>mutex_rep T s rs ss m a\<close>: the mutex \<open>m\<close> stands for \<open>a\<close>. Its holder is alive: it is
  ready or asleep, so it can go on to release the mutex.
\<close>

definition mutex_rep ::
    "addr set \<Rightarrow> 's sched_scheme \<Rightarrow> addr list \<Rightarrow> addr list \<Rightarrow> mutex_t \<Rightarrow> amutex \<Rightarrow> bool" where
  "mutex_rep T s rs ss m a \<longleftrightarrow> wait_rep T s rs ss (waiters a) (mx_wait_list m)
     \<and> (case a of Free \<Rightarrow> mx_locked_count m = 0 \<and> mx_owner m = 0
        | Held t n q \<Rightarrow> mx_locked_count m = of_nat n \<and> 0 < n \<and> n < 2 ^ 31 \<and> mx_owner m = t
            \<and> t \<in> set rs \<union> set ss)"

text \<open>The same with a holder that may also be one of the tasks \<open>G\<close>, which have left all the lists.\<close>

definition mutex_left ::
    "addr set \<Rightarrow> addr set \<Rightarrow> 's sched_scheme \<Rightarrow> addr list \<Rightarrow> addr list \<Rightarrow> mutex_t \<Rightarrow> amutex \<Rightarrow> bool" where
  "mutex_left G T s rs ss m a \<longleftrightarrow> wait_rep T s rs ss (waiters a) (mx_wait_list m)
     \<and> (case a of Free \<Rightarrow> mx_locked_count m = 0 \<and> mx_owner m = 0
        | Held t n q \<Rightarrow> mx_locked_count m = of_nat n \<and> 0 < n \<and> n < 2 ^ 31 \<and> mx_owner m = t
            \<and> t \<in> set rs \<union> set ss \<union> G)"

lemma mutex_rep_left: "mutex_rep T s rs ss m a = mutex_left {} T s rs ss m a"
  by (cases a) (simp_all add: mutex_rep_def mutex_left_def)

lemma mutex_left_mono: "mutex_left G T s rs ss m a \<Longrightarrow> G \<subseteq> G' \<Longrightarrow> mutex_left G' T s rs ss m a"
  by (auto simp: mutex_left_def split: amutex.splits)

text \<open>An acquisition blocks exactly when another task holds the mutex.\<close>

definition contended :: "addr \<Rightarrow> amutex \<Rightarrow> bool" where
  "contended c a \<longleftrightarrow> (case a of Free \<Rightarrow> False | Held t n q \<Rightarrow> t \<noteq> c)"

lemma of_nat_u32_eq_0: "n < 2 ^ 32 \<Longrightarrow> (of_nat n :: u32) = 0 \<longleftrightarrow> n = 0"
  by (simp flip: unat_eq_0 add: unat_of_nat_u32 del: of_nat_eq_0_iff)

lemma mutex_left_count:
  assumes "mutex_left G T s rs ss m (Held t n q)"
  shows "mx_locked_count m \<noteq> 0" and "mx_locked_count m - 1 = 0 \<longleftrightarrow> n = 1"
proof -
  have n: "mx_locked_count m = of_nat n" "0 < n" "n < 2 ^ 31" using assms by (auto simp: mutex_left_def)
  then show "mx_locked_count m \<noteq> 0" using of_nat_u32_eq_0 [of n] by simp
  have "mx_locked_count m - 1 = of_nat (n - 1)" using n(1,2) by (simp add: of_nat_diff)
  then show "mx_locked_count m - 1 = 0 \<longleftrightarrow> n = 1" using of_nat_u32_eq_0 [of "n - 1"] n by auto
qed

lemma mutex_acquire_left:
  assumes m: "mutex_left G T s (c # rs) ss m a" and acq: "mutex_acquire m s = (m', s', sw)"
    and room: "\<And>n q. a = Held c n q \<Longrightarrow> Suc n < 2 ^ 31"
  shows "mutex_left G T s' (if contended c a then rs else c # rs) ss m' (a_acquire c a)"
    and "sw \<longleftrightarrow> contended c a" and "\<not> contended c a \<Longrightarrow> s' = s"
    and "idle_task s' = idle_task s"
proof -
  have w: "wait_rep T s (c # rs) ss (waiters a) (mx_wait_list m)"
    and c: "curr_task s = c" using m by (auto simp: mutex_left_def wait_rep_def head_runs_def)
  have restored: "irq_leave_protection (eflags s) (cli s) = s" using irq_section_id [of s] by (simp add: irq_enter_eq)
  have "mutex_left G T s' (if contended c a then rs else c # rs) ss m' (a_acquire c a)
    \<and> (sw \<longleftrightarrow> contended c a) \<and> (\<not> contended c a \<longrightarrow> s' = s) \<and> idle_task s' = idle_task s"
  proof (cases a)
    case Free
    then have "mx_locked_count m = 0" using m by (simp add: mutex_left_def)
    then have "m' = m\<lparr>mx_locked_count := 1, mx_owner := c\<rparr>" "s' = s" "\<not> sw"
      using acq restored c by (auto simp: mutex_acquire_def irq_enter_eq task_current_def)
    with Free w show ?thesis by (simp add: mutex_left_def contended_def)
  next
    case (Held t n q)
    note cnt = mutex_left_count(1) [OF m [unfolded Held]]
    have t: "mx_owner m = t" "mx_locked_count m = of_nat n" "0 < n" "n < 2 ^ 31" "t \<in> set (c # rs) \<union> set ss \<union> G"
      using m Held by (auto simp: mutex_left_def)
    show ?thesis
    proof (cases "t = c")
      case True
      then have "m' = m\<lparr>mx_locked_count := mx_locked_count m + 1\<rparr>" "s' = s" "\<not> sw"
        using acq restored c cnt t by (auto simp: mutex_acquire_def irq_enter_eq task_current_def)
      with Held True w t room [of n q] show ?thesis by (simp add: mutex_left_def contended_def ac_simps)
    next
      case False
      obtain l h where ins: "list_insert_back (mx_wait_list m) (wait_node c)
          (nodes (task_set_blocked c (cli s))) = (l, h)" by fastforce
      then have res: "m' = m\<lparr>mx_wait_list := l\<rparr>"
        "after_dispatch (eflags s) (task_dispatch ((task_set_blocked c (cli s))\<lparr>nodes := h\<rparr>)) = (s', sw)"
        using acq c cnt t False by (auto simp: mutex_acquire_def irq_enter_eq task_current_def Let_def)
      note p = park_rep [OF w ins res(2)]
      have "t \<in> set rs \<union> set ss \<union> G" using t(5) False by auto
      then show ?thesis using p(1,2,4) Held t False res(1) by (simp add: mutex_left_def contended_def)
    qed
  qed
  then show "mutex_left G T s' (if contended c a then rs else c # rs) ss m' (a_acquire c a)"
    "sw \<longleftrightarrow> contended c a" "\<not> contended c a \<Longrightarrow> s' = s" "idle_task s' = idle_task s"
    by auto
qed

text \<open>The task that a release wakes.\<close>

definition woken :: "addr \<Rightarrow> amutex \<Rightarrow> addr list" where
  "woken c a = (case a of Held t n (u # q) \<Rightarrow> if t = c \<and> n = 1 then [u] else [] | _ \<Rightarrow> [])"

lemma mutex_release_left:
  assumes m: "mutex_left G T s (c # rs) ss m a" and rel: "mutex_release m s = (m', s', sw)"
  shows "mutex_left G T s' (c # rs @ woken c a) ss m' (a_release c a)"
    and "\<not> sw" and "curr_task s' = c" and "eflags s' = eflags s" and "idle_task s' = idle_task s"
proof -
  have w: "wait_rep T s (c # rs) ss (waiters a) (mx_wait_list m)"
    and c: "curr_task s = c" "c \<in> T" "c \<noteq> 0"
    using m by (auto simp: mutex_left_def wait_rep_def head_runs_def sched_rep_def task_layout_def)
  have restored: "irq_leave_protection (eflags s) (cli s) = s" using irq_section_id [of s] by (simp add: irq_enter_eq)
  have size: "list_size (mx_wait_list m) = 0 \<longleftrightarrow> waiters a = []"
    using w dlist_empty_iff [of "nodes s" "mx_wait_list m" "map wait_node (waiters a)"]
    by (simp add: wait_rep_def list_is_empty_def list_size_def)
  have "mutex_left G T s' (c # rs @ woken c a) ss m' (a_release c a)
    \<and> \<not> sw \<and> curr_task s' = c \<and> eflags s' = eflags s \<and> idle_task s' = idle_task s"
  proof (cases "\<exists>n q. a = Held c n q")
    case False
    then have no: "mx_owner m \<noteq> c" "a_release c a = a" "woken c a = []"
      using m c(3) by (auto simp: mutex_left_def woken_def split: amutex.splits list.splits)
    then have "m' = m" "s' = s" "\<not> sw"
      using rel restored c by (auto simp: mutex_release_def irq_enter_eq task_current_def)
    with no m c show ?thesis by simp
  next
    case True
    then obtain n q where a: "a = Held c n q" by blast
    note cnt = mutex_left_count(2) [OF m [unfolded a]]
    have t: "mx_owner m = c" "mx_locked_count m = of_nat n" "0 < n" "n < 2 ^ 31"
      using m a by (auto simp: mutex_left_def)
    show ?thesis
    proof (cases "n = 1")
      case False
      then have "m' = m\<lparr>mx_locked_count := mx_locked_count m - 1\<rparr>" "s' = s" "\<not> sw"
        using rel restored c t cnt by (auto simp: mutex_release_def irq_enter_eq task_current_def)
      moreover have "mx_locked_count m - 1 = of_nat (n - 1)" using t by (simp add: of_nat_diff)
      ultimately show ?thesis using False a w t c
        by (auto simp: mutex_left_def woken_def split: list.splits)
    next
      case one: True
      show ?thesis
      proof (cases q)
        case Nil
        then have "m' = m\<lparr>mx_locked_count := 0, mx_owner := 0\<rparr>" "s' = s" "\<not> sw"
          using rel restored c t one size a by (auto simp: mutex_release_def irq_enter_eq task_current_def)
        with Nil one a w c show ?thesis by (simp add: mutex_left_def woken_def)
      next
        case (Cons u q')
        obtain nd l h where del: "list_remove_front (mx_wait_list m) (nodes s) = (nd, l, h)"
          by (metis prod_cases3)
        have wq: "wait_rep T s (c # rs) ss (u # q') (mx_wait_list m)" using w a Cons by simp
        have res: "m' = m\<lparr>mx_wait_list := l, mx_owner := list_node_parent nd 60, mx_locked_count := 1\<rparr>"
          "after_dispatch (eflags s) (task_dispatch
             (task_set_ready (list_node_parent nd 60) ((cli s)\<lparr>nodes := h\<rparr>))) = (s', sw)"
          using rel c t one size a Cons del
          by (auto simp: mutex_release_def irq_enter_eq task_current_def Let_def)
        note p = unpark_rep [OF wq del res(2)]
        then show ?thesis using a Cons one res(1) c
          by (simp add: mutex_left_def woken_def)
      qed
    qed
  qed
  then show "mutex_left G T s' (c # rs @ woken c a) ss m' (a_release c a)"
    "\<not> sw" "curr_task s' = c" "eflags s' = eflags s" "idle_task s' = idle_task s" by auto
qed

text \<open>Without tasks that have left.\<close>

lemmas mutex_acquire_rep = mutex_acquire_left [where G = "{}", folded mutex_rep_left]
  and mutex_release_rep = mutex_release_left [where G = "{}", folded mutex_rep_left]

subsection \<open>What a semaphore promises\<close>

text \<open>\<open>sem_rep T s rs ss sem n q\<close>: \<open>n\<close> signals are stored and the tasks \<open>q\<close> wait, never both.\<close>

definition sem_rep ::
    "addr set \<Rightarrow> 's sched_scheme \<Rightarrow> addr list \<Rightarrow> addr list \<Rightarrow> sem_t \<Rightarrow> nat \<Rightarrow> addr list \<Rightarrow> bool" where
  "sem_rep T s rs ss sem n q \<longleftrightarrow> wait_rep T s rs ss q (sem_wait_list sem)
     \<and> sem_cnt sem = of_nat n \<and> n < 2 ^ 31 \<and> (n = 0 \<or> q = [])"

lemma sint_of_nat_u32: "n < 2 ^ 31 \<Longrightarrow> sint (of_nat n :: u32) = int n"
  by (simp add: signed_of_nat signed_take_bit_int_eq_self_iff)

lemma sem_wait_rep:
  assumes r: "sem_rep T s (c # rs) ss sem n q" and w: "sem_wait sem s = (sem', s', sw)"
  shows "if 0 < n then sem_rep T s (c # rs) ss sem' (n - 1) q \<and> s' = s \<and> \<not> sw
    else sem_rep T s' rs ss sem' 0 (q @ [c]) \<and> sw"
proof -
  have wr: "wait_rep T s (c # rs) ss q (sem_wait_list sem)" and n: "sem_cnt sem = of_nat n" "n < 2 ^ 31"
    "n = 0 \<or> q = []" and c: "curr_task s = c"
    using r by (auto simp: sem_rep_def wait_rep_def head_runs_def)
  have pos: "0 < sint (sem_cnt sem) \<longleftrightarrow> 0 < n" using n sint_of_nat_u32 [of n] by simp
  show ?thesis
  proof (cases "0 < n")
    case True
    then have "sem' = sem\<lparr>sem_cnt := sem_cnt sem - 1\<rparr>" "s' = s" "\<not> sw"
      using w pos irq_section_id [of s] by (auto simp: sem_wait_def irq_enter_eq)
    moreover have "sem_cnt sem - 1 = of_nat (n - 1)" using n(1) True by (simp add: of_nat_diff)
    ultimately show ?thesis using True wr n by (auto simp: sem_rep_def)
  next
    case False
    obtain l h where ins: "list_insert_back (sem_wait_list sem) (wait_node c)
        (nodes (task_set_blocked c (cli s))) = (l, h)" by fastforce
    then have res: "sem' = sem\<lparr>sem_wait_list := l\<rparr>"
      "after_dispatch (eflags s) (task_dispatch ((task_set_blocked c (cli s))\<lparr>nodes := h\<rparr>)) = (s', sw)"
      using w c pos False by (auto simp: sem_wait_def irq_enter_eq task_current_def Let_def)
    with park_rep [OF wr ins res(2)] False n show ?thesis by (simp add: sem_rep_def)
  qed
qed

lemma sem_notify_rep:
  assumes r: "sem_rep T s rs ss sem n q" and w: "sem_notify sem s = (sem', s', sw)"
    and room: "Suc n < 2 ^ 31"
  shows "case q of [] \<Rightarrow> sem_rep T s rs ss sem' (Suc n) [] \<and> s' = s \<and> \<not> sw
    | t # q' \<Rightarrow> sem_rep T s' (rs @ [t]) ss sem' n q' \<and> (sw \<longleftrightarrow> rs = [])"
proof -
  have wr: "wait_rep T s rs ss q (sem_wait_list sem)" and n: "sem_cnt sem = of_nat n" "n < 2 ^ 31"
    "n = 0 \<or> q = []"
    using r by (auto simp: sem_rep_def)
  have size: "list_size (sem_wait_list sem) = 0 \<longleftrightarrow> q = []"
    using wr dlist_empty_iff [of "nodes s" "sem_wait_list sem" "map wait_node q"]
    by (simp add: wait_rep_def list_is_empty_def list_size_def)
  show ?thesis
  proof (cases q)
    case Nil
    then have "sem' = sem\<lparr>sem_cnt := sem_cnt sem + 1\<rparr>" "s' = s" "\<not> sw"
      using w size irq_section_id [of s] by (auto simp: sem_notify_def irq_enter_eq)
    then show ?thesis using Nil wr n room by (simp add: sem_rep_def ac_simps)
  next
    case (Cons t q')
    obtain nd l h where del: "list_remove_front (sem_wait_list sem) (nodes s) = (nd, l, h)"
      by (metis prod_cases3)
    then have res: "sem' = sem\<lparr>sem_wait_list := l\<rparr>"
      "after_dispatch (eflags s) (task_dispatch
         (task_set_ready (list_node_parent nd 60) ((cli s)\<lparr>nodes := h\<rparr>))) = (s', sw)"
      using w size Cons by (auto simp: sem_notify_def irq_enter_eq Let_def)
    with unpark_rep [OF wr [unfolded Cons] del res(2)] n Cons show ?thesis by (simp add: sem_rep_def)
  qed
qed

subsection \<open>Runs with a mutex\<close>

text \<open>
  The transitions of tasks that share a mutex: the running task acquires it (not beyond the range
  of the counter), releases it, yields, sleeps for any time or exits; the clock ticks; a
  preempted task finishes its tick. The third component collects the tasks that have left: those that have exited,
  and those that have slept for zero ticks, which \<^verbatim>\<open>sys_sleep\<close> puts nowhere.
\<close>

inductive mutex_step :: "'s sched_scheme \<times> mutex_t \<times> addr set \<Rightarrow> 's sched_scheme \<times> mutex_t \<times> addr set \<Rightarrow> bool" where
  ms_acquire: "curr_task s \<noteq> idle_task s \<Longrightarrow> unat (mx_locked_count m) < 2 ^ 31 - 1 \<Longrightarrow>
    mutex_acquire m s = (m', s', sw) \<Longrightarrow> mutex_step (s, m, G) (s', m', G)"
| ms_release: "curr_task s \<noteq> idle_task s \<Longrightarrow> mutex_release m s = (m', s', sw) \<Longrightarrow>
    mutex_step (s, m, G) (s', m', G)"
| ms_yield: "sys_sched_yield s = (s', sw) \<Longrightarrow> mutex_step (s, m, G) (s', m, G)"
| ms_sleep: "curr_task s \<noteq> idle_task s \<Longrightarrow> sys_sleep ms s = (s', sw) \<Longrightarrow>
    mutex_step (s, m, G) (s', m, if sleep_ticks_of ms = 0 then insert (curr_task s) G else G)"
| ms_exit: "curr_task s \<noteq> idle_task s \<Longrightarrow> sys_exit v s = (s', sw) \<Longrightarrow>
    mutex_step (s, m, G) (s', m, insert (curr_task s) G)"
| ms_tick: "task_time_tick s = Some (s', sw) \<Longrightarrow> mutex_step (s, m, G) (s', m, G)"
| ms_tick_rest: "tick_rest s = Some (s', sw) \<Longrightarrow> mutex_step (s, m, G) (s', m, G)"

inductive_cases mutex_stepE: "mutex_step (s, m, G) p"

text \<open>
  The invariant: the mutex stands for an abstract mutex, and of the tasks \<open>L\<close> exactly those that have not left are
  ready, sleeping or waiting, each in one place only.
\<close>

definition mutex_inv :: "addr set \<Rightarrow> addr set \<Rightarrow> 's sched_scheme \<Rightarrow> mutex_t \<Rightarrow> addr set \<Rightarrow> bool" where
  "mutex_inv T L s m G \<longleftrightarrow> G \<subseteq> L \<and> (\<exists>rs ss a. mutex_left G T s rs ss m a \<and> set (rs @ ss @ waiters a) = L - G)"

lemma wait_rep_sched_step:
  assumes "wait_rep T s rs ss q l" and "sched_rep T s' rs' ss'" "head_runs s' rs'" "run_frame T s s'"
    and "idle_task s' = idle_task s" and "set rs' \<union> set ss' \<subseteq> set rs \<union> set ss"
  shows "wait_rep T s' rs' ss' q l"
proof -
  have "task_layout T" using assms(1) by (simp add: wait_rep_def sched_rep_def)
  then have "dlist (nodes s') l (map wait_node q)"
    using assms(1,4) wait_list_frame by (auto simp: wait_rep_def)
  with assms show ?thesis by (auto simp: wait_rep_def)
qed

text \<open>In a step of the scheduler the tasks \<open>E\<close> may leave the lists.\<close>

lemma mutex_left_sched_step:
  assumes "mutex_left G T s rs ss m a" and "sched_rep T s' rs' ss'" "head_runs s' rs'" "run_frame T s s'"
    and "idle_task s' = idle_task s" and "set rs' \<union> set ss' = set rs \<union> set ss - E"
  shows "mutex_left (G \<union> E) T s' rs' ss' m a"
  using assms wait_rep_sched_step [of T s rs ss "waiters a" "mx_wait_list m" s' rs' ss']
  by (auto simp: mutex_left_def split: amutex.splits)

text \<open>On the abstract mutex a step acquires or releases for a task that has not left, or does nothing.\<close>

definition amutex_step :: "addr set \<Rightarrow> amutex \<Rightarrow> amutex \<Rightarrow> bool" where
  "amutex_step C a a' \<longleftrightarrow> a' = a \<or> (\<exists>c \<in> C. a' = a_acquire c a \<or> a' = a_release c a)"

lemma mutex_step_abs:
  assumes "mutex_step (s, m, G) (s', m', G')"
    and r: "mutex_left G T s rs ss m a" and L: "set (rs @ ss @ waiters a) = L - G" and GL: "G \<subseteq> L"
  shows "G \<subseteq> G' \<and> G' \<subseteq> L \<and> (\<exists>rs' ss' a'. mutex_left G' T s' rs' ss' m' a'
    \<and> set (rs' @ ss' @ waiters a') = L - G' \<and> amutex_step (L - G) a a')"
proof -
  have sr: "sched_rep T s rs ss" and hr: "head_runs s rs" and wr: "wait_rep T s rs ss (waiters a) (mx_wait_list m)"
    using r by (auto simp: mutex_left_def wait_rep_def)
  let ?goal = "\<lambda>s' m' G'. G \<subseteq> G' \<and> G' \<subseteq> L \<and> (\<exists>rs' ss' a'. mutex_left G' T s' rs' ss' m' a'
    \<and> set (rs' @ ss' @ waiters a') = L - G' \<and> amutex_step (L - G) a a')"
  have leave: "?goal s2 m (G \<union> E)" if "sched_rep T s2 rs2 ss2" "head_runs s2 rs2" "run_frame T s s2"
      "idle_task s2 = idle_task s" "set rs2 \<union> set ss2 = set rs \<union> set ss - E" "E \<subseteq> set rs" for s2 rs2 ss2 E
  proof -
    have "set (waiters a) \<inter> set rs = {}" using wr by (auto simp: wait_rep_def)
    then have "set (rs2 @ ss2 @ waiters a) = L - (G \<union> E)" using L that(5,6) by auto
    moreover have "G \<union> E \<subseteq> L" using L GL that(6) by auto
    moreover have "amutex_step (L - G) a a" by (simp add: amutex_step_def)
    ultimately show ?thesis using mutex_left_sched_step [OF r that(1-5)] by blast
  qed
  have sched: "?goal s2 m G" if "sched_rep T s2 rs2 ss2" "head_runs s2 rs2" "run_frame T s s2"
      "idle_task s2 = idle_task s" "set rs2 \<union> set ss2 = set rs \<union> set ss" for s2 rs2 ss2
    using leave [OF that(1-4), of "{}"] that(5) by simp
  have cons: "\<exists>us. rs = curr_task s # us" if "curr_task s \<noteq> idle_task s"
    using that hr by (auto simp: head_runs_def split: list.splits)
  from assms(1) show ?thesis
  proof cases
    case (ms_acquire sw)
    let ?c = "curr_task s"
    obtain us where rs: "rs = ?c # us" using cons ms_acquire by blast
    have room: "Suc n < 2 ^ 31" if "a = Held ?c n q" for n q
      using r that ms_acquire(3) unat_of_nat_u32 [of n] by (auto simp: mutex_left_def)
    have p: "mutex_left G T s' (if contended ?c a then us else ?c # us) ss m' (a_acquire ?c a)"
      using r rs ms_acquire(4) room by (intro mutex_acquire_left(1)) auto
    have "set ((if contended ?c a then us else ?c # us) @ ss @ waiters (a_acquire ?c a)) = L - G"
      using L rs by (cases a) (auto simp: contended_def)
    moreover have "amutex_step (L - G) a (a_acquire ?c a)" using L rs by (auto simp: amutex_step_def)
    ultimately show ?thesis using p GL unfolding ms_acquire(1) by blast
  next
    case (ms_release sw)
    let ?c = "curr_task s"
    obtain us where rs: "rs = ?c # us" using cons ms_release by blast
    note p = mutex_release_left [OF r [unfolded rs] ms_release(3)]
    have "set (woken ?c a) \<union> set (waiters (a_release ?c a)) = set (waiters a)"
      by (cases a) (auto simp: woken_def split: list.splits)
    then have "set ((?c # us @ woken ?c a) @ ss @ waiters (a_release ?c a)) = L - G"
      using L unfolding rs by auto
    moreover have "amutex_step (L - G) a (a_release ?c a)" using L rs by (auto simp: amutex_step_def)
    ultimately show ?thesis using p(1) GL unfolding ms_release(1) by blast
  next
    case (ms_yield sw)
    show ?thesis
      using sys_sched_yield_rep [OF sr hr ms_yield(3)] ms_yield(1,2) sched [of s' "rotate1 rs" ss] by simp
  next
    case (ms_sleep ms sw)
    obtain us where rs: "rs = curr_task s # us" using cons ms_sleep by blast
    note p = sys_sleep_rep [OF sr [unfolded rs] hr [unfolded rs] ms_sleep(4)]
    have ne: "curr_task s \<notin> set us" "curr_task s \<notin> set ss" using sr sched_rep_distinct [OF sr] rs by (auto simp: sched_rep_def)
    show ?thesis
    proof (cases "sleep_ticks_of ms = 0")
      case True
      have "set us \<union> set ss = set rs \<union> set ss - {curr_task s}" using rs ne by auto
      with p(1,2,3,5) True show ?thesis unfolding ms_sleep(1,2) using leave [of s' us ss "{curr_task s}"] rs by simp
    next
      case False
      have "set us \<union> set (ss @ [curr_task s]) = set rs \<union> set ss" using rs by auto
      with p(1,2,3,5) False show ?thesis unfolding ms_sleep(1,2) using sched [of s' us "ss @ [curr_task s]"] by simp
    qed
  next
    case (ms_exit v sw)
    obtain us where rs: "rs = curr_task s # us" using cons ms_exit by blast
    note p = sys_exit_rep [OF sr [unfolded rs] hr [unfolded rs] ms_exit(4)]
    have "curr_task s \<notin> set us" "curr_task s \<notin> set ss" using sr sched_rep_distinct [OF sr] rs by (auto simp: sched_rep_def)
    then have "set us \<union> set ss = set rs \<union> set ss - {curr_task s}" using rs by auto
    with p(1,2,3,6) show ?thesis unfolding ms_exit(1,2) using leave [of s' us ss "{curr_task s}"] rs by simp
  next
    case (ms_tick sw)
    then have t: "tick_result T s rs ss s'" using task_time_tick_rep [OF sr hr] by auto
    show ?thesis
    proof (cases "t_slice_ticks (tasks s (curr_task s)) = 1 \<and> 1 < length rs")
      case True
      with t ms_tick show ?thesis using sched [of s' "rotate1 rs" ss] by (auto simp: tick_result_def)
    next
      case False
      have "set (rs @ filter (due s) ss) \<union> set (filter (\<lambda>t. \<not> due s t) ss) = set rs \<union> set ss" by auto
      with t False ms_tick(1,2) show ?thesis
        using sched [of s' "rs @ filter (due s) ss" "filter (\<lambda>t. \<not> due s t) ss"]
        by (simp only: tick_result_def if_False)
    qed
  next
    case (ms_tick_rest sw)
    have "set (rs @ filter (due s) ss) \<union> set (filter (\<lambda>t. \<not> due s t) ss) = set rs \<union> set ss" by auto
    with ms_tick_rest show ?thesis
      using tick_rest_rep [OF sr] sched [of s' "rs @ filter (due s) ss" "filter (\<lambda>t. \<not> due s t) ss"] by auto
  qed
qed

lemma mutex_step_inv:
  assumes "mutex_step (s, m, G) (s', m', G')" and "mutex_inv T L s m G"
  shows "mutex_inv T L s' m' G'"
  using mutex_step_abs [OF assms(1)] assms(2) unfolding mutex_inv_def by metis

text \<open>
  A holder that has left keeps the mutex for good, and whoever waits goes on waiting: \<open>mutex_stuck\<close> stays true, with
  the same holder and the same count, and the waiters only become more.
\<close>

definition mutex_stuck :: "addr set \<Rightarrow> addr set \<Rightarrow> 's sched_scheme \<Rightarrow> mutex_t \<Rightarrow> addr set \<Rightarrow> addr \<Rightarrow> nat \<Rightarrow> addr list \<Rightarrow> bool" where
  "mutex_stuck T L s m G u n q \<longleftrightarrow> u \<in> G \<and> G \<subseteq> L
     \<and> (\<exists>rs ss. mutex_left G T s rs ss m (Held u n q) \<and> set (rs @ ss @ q) = L - G)"

lemma mutex_step_stuck:
  assumes "mutex_step (s, m, G) (s', m', G')" and "mutex_stuck T L s m G u n q"
  shows "\<exists>q'. mutex_stuck T L s' m' G' u n (q @ q')"
proof -
  obtain rs ss where r: "mutex_left G T s rs ss m (Held u n q)" "set (rs @ ss @ q) = L - G" and G: "u \<in> G" "G \<subseteq> L"
    using assms(2) by (auto simp: mutex_stuck_def)
  have w: "set (rs @ ss @ waiters (Held u n q)) = L - G" using r(2) by simp
  obtain rs' ss' a' where a: "G \<subseteq> G'" "G' \<subseteq> L" "mutex_left G' T s' rs' ss' m' a'" "set (rs' @ ss' @ waiters a') = L - G'"
    "amutex_step (L - G) (Held u n q) a'"
    using mutex_step_abs [OF assms(1) r(1) w G(2)] by blast
  have "\<exists>q'. a' = Held u n (q @ q')" using a(5) G(1) by (auto simp: amutex_step_def)
  then obtain q' where q': "a' = Held u n (q @ q')" by blast
  have "mutex_stuck T L s' m' G' u n (q @ q')"
    unfolding mutex_stuck_def by (intro conjI exI [of _ rs'] exI [of _ ss']) (use a(1-4) G(1) q' in auto)
  then show ?thesis by blast
qed

lemma mutex_stuck_forever:
  assumes "mutex_step\<^sup>*\<^sup>* (s, m, G) p" and "mutex_stuck T L s m G u n q"
  shows "\<exists>q'. mutex_stuck T L (fst p) (fst (snd p)) (snd (snd p)) u n (q @ q')"
  using assms
proof (induction rule: rtranclp_induct)
  case base
  then show ?case by (intro exI [of _ "[]"]) simp
next
  case (step p p')
  obtain s1 m1 G1 s2 m2 G2 where p: "p = (s1, m1, G1)" "p' = (s2, m2, G2)" by (metis prod_cases3)
  obtain q' where "mutex_stuck T L s1 m1 G1 u n (q @ q')" using step.IH [OF step.prems] p by auto
  from mutex_step_stuck [OF step.hyps(2) [unfolded p] this] show ?case unfolding p by auto
qed

lemma mutex_run_inv:
  assumes "mutex_step\<^sup>*\<^sup>* p p'" and "mutex_inv T L (fst p) (fst (snd p)) (snd (snd p))"
  shows "mutex_inv T L (fst p') (fst (snd p')) (snd (snd p'))"
  using assms by (induction rule: rtranclp_induct) (auto intro: mutex_step_inv)

subsection \<open>Mutexes as locks\<close>

text \<open>
  The interface that code protected by a lock relies on when nobody competes for it: taking a free
  lock and giving it back do not give away the processor and leave the rest of the state alone.
\<close>

locale lock =
  fixes acquire :: "'m \<Rightarrow> 's \<Rightarrow> 'm \<times> 's \<times> bool"
    and release :: "'m \<Rightarrow> 's \<Rightarrow> 'm \<times> 's \<times> bool"
    and free :: "'m \<Rightarrow> bool"
    and held_by :: "'m \<Rightarrow> 't \<Rightarrow> bool"
    and self :: "'s \<Rightarrow> 't"
  assumes acquire_free: "free m \<Longrightarrow> acquire m s = (m', s', sw) \<Longrightarrow> \<not> sw \<and> s' = s \<and> held_by m' (self s)"
    and release_held: "held_by m (self s) \<Longrightarrow> release m s = (m', s', sw) \<Longrightarrow> \<not> sw \<and> s' = s \<and> free m'"
begin

text \<open>A whole section: its effect is that of its body, and the lock is free again.\<close>

lemma locked_section:
  assumes "free m" and "acquire m s = (m1, s1, sw1)" and "self s2 = self s"
    and "release m1 s2 = (m2, s3, sw2)"
  shows "\<not> sw1" and "s1 = s" and "\<not> sw2" and "s3 = s2" and "free m2"
  using acquire_free [OF assms(1,2)] release_held [of m1 s2, OF _ assms(4)] assms(3) by auto

end

definition mutex_free :: "mutex_t \<Rightarrow> bool" where
  "mutex_free m \<longleftrightarrow> mx_locked_count m = 0 \<and> list_size (mx_wait_list m) = 0"

definition mutex_held_by :: "mutex_t \<Rightarrow> addr \<Rightarrow> bool" where
  "mutex_held_by m t \<longleftrightarrow> mx_locked_count m = 1 \<and> mx_owner m = t \<and> list_size (mx_wait_list m) = 0"

lemma cli_leave [simp]: "irq_leave_protection (eflags s) (cli s) = s"
  using irq_section_id [of s] by (simp add: irq_enter_eq)

interpretation mtx: lock mutex_acquire mutex_release mutex_free mutex_held_by curr_task
proof (unfold_locales, goal_cases)
  case (1 m s m' s' sw)
  then show ?case
    by (auto simp: mutex_free_def mutex_held_by_def mutex_acquire_def irq_enter_eq task_current_def)
next
  case (2 m s m' s' sw)
  then show ?case
    by (auto simp: mutex_free_def mutex_held_by_def mutex_release_def irq_enter_eq task_current_def Let_def)
qed

subsection \<open>A concrete mutex and semaphore\<close>

text \<open>In the concrete scheduler state, a mutex that the second ready task holds, and an empty
  semaphore.\<close>

definition demo_mutex :: mutex_t where
  "demo_mutex = \<lparr>mx_name = replicate MUTEX_NAME_SIZE 0, mx_owner = 0x3000, mx_locked_count = 1,
     mx_wait_list = list_init\<rparr>"

lemma demo_wait_rep: "wait_rep demo_tasks demo_sched [0x2000, 0x3000] [0x4000] [] list_init"
  using demo_sched_rep demo_head_runs dlist_init by (simp add: wait_rep_def)

lemma demo_mutex_rep:
  "mutex_rep demo_tasks demo_sched [0x2000, 0x3000] [0x4000] demo_mutex (Held 0x3000 1 [])"
  using demo_wait_rep by (simp add: mutex_rep_def demo_mutex_def)

lemma demo_mutex_own_rep:
  "mutex_rep demo_tasks demo_sched [0x2000, 0x3000] [0x4000] (demo_mutex\<lparr>mx_owner := 0x2000\<rparr>) (Held 0x2000 1 [])"
  using demo_wait_rep by (simp add: mutex_rep_def demo_mutex_def)

lemma demo_sem_rep:
  "sem_rep demo_tasks demo_sched [0x2000, 0x3000] [0x4000] (sem_init 0) 0 []"
  using demo_wait_rep by (simp add: sem_rep_def sem_init_def)

subsection \<open>Main properties\<close>

text \<open>C25: \<^verbatim>\<open>mutex_acquire\<close> implements the abstract acquisition. A free mutex becomes the
  caller's, the holder counts one level more, and otherwise the caller leaves the ready list, is the
  last waiter, and the processor goes to the next ready task.\<close>

theorem mutex_acquire_refines:
  assumes "mutex_rep T s (c # rs) ss m a" and "mutex_acquire m s = (m', s', sw)"
    and "\<forall>n q. a = Held c n q \<longrightarrow> Suc n < 2 ^ 31"
  shows "mutex_rep T s' (if contended c a then rs else c # rs) ss m' (a_acquire c a)
    \<and> (sw \<longleftrightarrow> contended c a) \<and> (\<not> contended c a \<longrightarrow> s' = s)"
  using mutex_acquire_rep [OF assms(1,2)] assms(3) by blast

theorem mutex_acquire_refines_witness:
  "mutex_rep demo_tasks (fst (snd (mutex_acquire demo_mutex demo_sched))) [0x3000] [0x4000]
     (fst (mutex_acquire demo_mutex demo_sched)) (Held 0x3000 1 [0x2000])"
  using mutex_acquire_refines [OF demo_mutex_rep, of "fst (mutex_acquire demo_mutex demo_sched)"
      "fst (snd (mutex_acquire demo_mutex demo_sched))" "snd (snd (mutex_acquire demo_mutex demo_sched))"]
  by (simp add: contended_def)

text \<open>C11: \<^verbatim>\<open>mutex_release\<close> implements the abstract release. It has no effect for a task that is
  not the holder; the holder's last release hands the mutex to the first waiter, which becomes ready,
  so no other task can take it in between; the releasing task keeps the processor.\<close>

theorem mutex_release_refines:
  assumes "mutex_rep T s (c # rs) ss m a" and "mutex_release m s = (m', s', sw)"
  shows "mutex_rep T s' (c # rs @ woken c a) ss m' (a_release c a)
    \<and> \<not> sw \<and> curr_task s' = c \<and> eflags s' = eflags s"
  using mutex_release_rep [OF assms] by blast

theorem mutex_release_refines_witness:
  "mutex_rep demo_tasks (fst (snd (mutex_release (demo_mutex\<lparr>mx_owner := 0x2000\<rparr>) demo_sched)))
     [0x2000, 0x3000] [0x4000] (fst (mutex_release (demo_mutex\<lparr>mx_owner := 0x2000\<rparr>) demo_sched)) Free"
  using mutex_release_refines [OF demo_mutex_own_rep,
      of "fst (mutex_release (demo_mutex\<lparr>mx_owner := 0x2000\<rparr>) demo_sched)"
      "fst (snd (mutex_release (demo_mutex\<lparr>mx_owner := 0x2000\<rparr>) demo_sched))"
      "snd (snd (mutex_release (demo_mutex\<lparr>mx_owner := 0x2000\<rparr>) demo_sched))"]
  by (simp add: woken_def)

text \<open>C26: Runs of tasks that share a mutex, which they acquire (below the limit of the counter) and release while
  they yield, sleep for any time, exit and are interrupted by the clock. No task gets lost but those that exit or sleep
  for zero ticks: the others are at every moment exactly the ready, the sleeping and the waiting ones, each in one
  place. Nobody waits for a free mutex, and the holder of a locked one is a ready or sleeping task, or one of those that
  have left without releasing it.\<close>

theorem mutex_run_safe:
  assumes "mutex_step\<^sup>*\<^sup>* (s, m, {}) (s', m', G)" and "mutex_inv T L s m {}"
  shows "\<exists>rs ss q. wait_rep T s' rs ss q (mx_wait_list m') \<and> distinct (rs @ ss @ q)
    \<and> G \<subseteq> L \<and> set (rs @ ss @ q) = L - G \<and> (mx_locked_count m' = 0 \<longrightarrow> q = [])
    \<and> (mx_locked_count m' \<noteq> 0 \<longrightarrow> mx_owner m' \<in> set rs \<union> set ss \<union> G)"
proof -
  have "mutex_inv T L s' m' G" using mutex_run_inv [OF assms(1), of T L] assms(2) by simp
  then obtain rs ss a where r: "mutex_left G T s' rs ss m' a" and L: "set (rs @ ss @ waiters a) = L - G" "G \<subseteq> L"
    by (auto simp: mutex_inv_def)
  then have w: "wait_rep T s' rs ss (waiters a) (mx_wait_list m')" by (simp add: mutex_left_def)
  have "mx_locked_count m' = 0 \<longrightarrow> waiters a = []" "mx_locked_count m' \<noteq> 0 \<longrightarrow> mx_owner m' \<in> set rs \<union> set ss \<union> G"
    using r mutex_left_count(1) [of G T s' rs ss m'] by (cases a; auto simp: mutex_left_def)+
  with w L wait_rep_distinct [OF w] show ?thesis by blast
qed

theorem mutex_run_safe_witness:
  "\<exists>rs ss q. wait_rep demo_tasks (fst (snd (mutex_acquire demo_mutex demo_sched))) rs ss q
     (mx_wait_list (fst (mutex_acquire demo_mutex demo_sched))) \<and> set (rs @ ss @ q) = {0x2000, 0x3000, 0x4000}"
proof -
  obtain m' s' sw where a: "mutex_acquire demo_mutex demo_sched = (m', s', sw)" by (metis prod_cases3)
  have "curr_task demo_sched \<noteq> idle_task demo_sched"
    using demo_head_runs demo_sched_rep by (auto simp: head_runs_def sched_rep_def)
  then have "mutex_step (demo_sched, demo_mutex, {}) (s', m', {})"
    using a by (intro ms_acquire) (simp_all add: demo_mutex_def)
  then have "mutex_step\<^sup>*\<^sup>* (demo_sched, demo_mutex, {}) (s', m', {})" by blast
  moreover have "mutex_inv demo_tasks {0x2000, 0x3000, 0x4000} demo_sched demo_mutex {}"
    unfolding mutex_inv_def by (intro exI conjI, simp, rule demo_mutex_rep [unfolded mutex_rep_left]) auto
  ultimately show ?thesis unfolding a fst_conv snd_conv using mutex_run_safe [of demo_sched demo_mutex s' m' "{}"] by fastforce
qed

text \<open>C33: A semaphore counts: with \<open>n\<close> stored signals and \<open>q\<close> waiting tasks, \<^verbatim>\<open>sem_wait\<close>
  takes a signal at once if there is one and otherwise makes the caller the last waiter, and
  \<^verbatim>\<open>sem_notify\<close> wakes the first waiter if there is one and otherwise stores a signal. Signals
  and waiters never exist together.\<close>

theorem semaphore_counts:
  assumes "sem_rep T s (c # rs) ss sem n q" and "Suc n < 2 ^ 31"
    and "sem_wait sem s = (sem1, s1, sw1)" and "sem_notify sem s = (sem2, s2, sw2)"
  shows "(if 0 < n then sem_rep T s (c # rs) ss sem1 (n - 1) q \<and> s1 = s \<and> \<not> sw1
          else sem_rep T s1 rs ss sem1 0 (q @ [c]) \<and> sw1)
    \<and> (case q of [] \<Rightarrow> sem_rep T s (c # rs) ss sem2 (Suc n) [] \<and> s2 = s \<and> \<not> sw2
       | t # q' \<Rightarrow> sem_rep T s2 (c # rs @ [t]) ss sem2 n q' \<and> \<not> sw2)"
  using sem_wait_rep [OF assms(1,3)] sem_notify_rep [OF assms(1,4,2)] by (auto split: list.splits)

theorem semaphore_counts_witness:
  "sem_rep demo_tasks (fst (snd (sem_wait (sem_init 0) demo_sched))) [0x3000] [0x4000]
     (fst (sem_wait (sem_init 0) demo_sched)) 0 [0x2000]"
  using semaphore_counts [OF demo_sem_rep, of "fst (sem_wait (sem_init 0) demo_sched)"
      "fst (snd (sem_wait (sem_init 0) demo_sched))" "snd (snd (sem_wait (sem_init 0) demo_sched))"
      "fst (sem_notify (sem_init 0) demo_sched)" "fst (snd (sem_notify (sem_init 0) demo_sched))"
      "snd (snd (sem_notify (sem_init 0) demo_sched))"]
  by simp

end
