(* ===== verification/Cpu.thy ===== *)
theory Cpu
  imports Ipc
begin

text \<open>
  The global descriptor table of \<^verbatim>\<open>src/source/kernel/cpu/cpu.c\<close>: segment descriptors, gate
  descriptors, and the allocation of table entries under a mutex. The table is a list of
  \<open>GDT_TABLE_SIZE\<close> segment descriptors; a gate descriptor written to an entry is seen through
  the fields of a segment descriptor at the same bytes. A selector outside the table is a fault.
\<close>

subsection \<open>Descriptors\<close>

record segment_desc_t =
  sd_limit15_0 :: u16
  sd_base15_0 :: u16
  sd_base23_16 :: u8
  sd_attr :: u16
  sd_base31_24 :: u8

record gate_desc_t =
  gd_offset15_0 :: u16
  gd_selector :: u16
  gd_attr :: u16
  gd_offset31_16 :: u16

definition GDT_TABLE_SIZE :: nat where "GDT_TABLE_SIZE = 256"
definition KERNEL_SELECTOR_CS :: u32 where "KERNEL_SELECTOR_CS = 8"
definition KERNEL_SELECTOR_DS :: u32 where "KERNEL_SELECTOR_DS = 16"
definition SELECTOR_SYSCALL :: u32 where "SELECTOR_SYSCALL = 24"
definition SYSCALL_PARAM_COUNT :: u16 where "SYSCALL_PARAM_COUNT = 5"

definition SEG_G :: u16 where "SEG_G = push_bit 15 1"
definition SEG_D :: u16 where "SEG_D = push_bit 14 1"
definition SEG_P_PRESENT :: u16 where "SEG_P_PRESENT = push_bit 7 1"
definition SEG_DPL0 :: u16 where "SEG_DPL0 = 0"
definition SEG_DPL3 :: u16 where "SEG_DPL3 = push_bit 5 3"
definition SEG_S_NORMAL :: u16 where "SEG_S_NORMAL = push_bit 4 1"
definition SEG_TYPE_CODE :: u16 where "SEG_TYPE_CODE = push_bit 3 1"
definition SEG_TYPE_DATA :: u16 where "SEG_TYPE_DATA = 0"
definition SEG_TYPE_TSS :: u16 where "SEG_TYPE_TSS = 9"
definition SEG_TYPE_RW :: u16 where "SEG_TYPE_RW = push_bit 1 1"
definition SEG_RPL3 :: u32 where "SEG_RPL3 = 3"
definition GATE_P_PRESENT :: u16 where "GATE_P_PRESENT = push_bit 15 1"
definition GATE_DPL0 :: u16 where "GATE_DPL0 = 0"
definition GATE_DPL3 :: u16 where "GATE_DPL3 = push_bit 13 3"
definition GATE_TYPE_INT :: u16 where "GATE_TYPE_INT = push_bit 8 0xE"
definition GATE_TYPE_SYSCALL :: u16 where "GATE_TYPE_SYSCALL = push_bit 8 0xC"

lemmas seg_flags [kernel_defs] =
  SEG_G_def SEG_D_def SEG_P_PRESENT_def SEG_DPL0_def SEG_DPL3_def SEG_S_NORMAL_def
  SEG_TYPE_CODE_def SEG_TYPE_DATA_def SEG_TYPE_TSS_def SEG_TYPE_RW_def GATE_P_PRESENT_def
  GATE_DPL0_def GATE_DPL3_def GATE_TYPE_INT_def GATE_TYPE_SYSCALL_def SYSCALL_PARAM_COUNT_def

text \<open>The descriptor that \<^verbatim>\<open>segment_desc_set\<close> and \<^verbatim>\<open>gate_desc_set\<close> write.\<close>

definition make_segment_desc :: "u32 \<Rightarrow> u32 \<Rightarrow> u16 \<Rightarrow> segment_desc_t" where
  "make_segment_desc base limit attr =
     (let (attr, limit) = (if 0xfffff < limit then (attr OR SEG_G, limit div 0x1000) else (attr, limit))
      in \<lparr>sd_limit15_0 = ucast (limit AND 0xffff), sd_base15_0 = ucast (base AND 0xffff),
          sd_base23_16 = ucast (drop_bit 16 base AND 0xff),
          sd_attr = attr OR ucast (push_bit 8 (drop_bit 16 limit AND 0xf)),
          sd_base31_24 = ucast (drop_bit 24 base AND 0xff)\<rparr>)"

definition gate_desc_set :: "u16 \<Rightarrow> u32 \<Rightarrow> u16 \<Rightarrow> gate_desc_t" where
  "gate_desc_set selector offset attr =
     \<lparr>gd_offset15_0 = ucast (offset AND 0xffff), gd_selector = selector, gd_attr = attr,
      gd_offset31_16 = ucast (drop_bit 16 offset AND 0xffff)\<rparr>"

text \<open>The eight bytes of a gate descriptor, read as a segment descriptor (both are packed).\<close>

definition gate_as_segment :: "gate_desc_t \<Rightarrow> segment_desc_t" where
  "gate_as_segment g =
     \<lparr>sd_limit15_0 = gd_offset15_0 g, sd_base15_0 = gd_selector g,
      sd_base23_16 = ucast (gd_attr g),
      sd_attr = drop_bit 8 (gd_attr g) OR push_bit 8 (gd_offset31_16 g),
      sd_base31_24 = ucast (drop_bit 8 (gd_offset31_16 g))\<rparr>"

subsection \<open>The table\<close>

record gdt_state = sched +
  gdt_table :: "segment_desc_t list"
  gdt_mutex :: mutex_t

type_synonym ('s, 'a) gdt_res = "('s gdt_state_scheme, 'a) kres"

definition segment_desc_set :: "u32 \<Rightarrow> u32 \<Rightarrow> u32 \<Rightarrow> u16 \<Rightarrow> 's gdt_state_scheme \<Rightarrow> ('s, unit) gdt_res" where
  "segment_desc_set selector base limit attr s =
     (case arr_set (gdt_table s) (uint (selector div 8)) (make_segment_desc base limit attr) of
        None \<Rightarrow> Inl (Fault s)
      | Some tab \<Rightarrow> Inr ((), s\<lparr>gdt_table := tab\<rparr>))"

text \<open>The loop of \<^verbatim>\<open>init_gdt\<close> that clears the entries from \<open>i\<close> on.\<close>

function clear_gdt :: "nat \<Rightarrow> 's gdt_state_scheme \<Rightarrow> ('s, unit) gdt_res" where
  "clear_gdt i s =
     (if i < GDT_TABLE_SIZE
      then bindR (segment_desc_set (of_nat i * 8) 0 0 0 s) (\<lambda>_. clear_gdt (Suc i))
      else Inr ((), s))"
  by pat_completeness auto
termination by (relation "measure (\<lambda>(i, s). GDT_TABLE_SIZE - i)") auto

declare clear_gdt.simps [simp del]

text \<open>
  \<open>gdt_at\<close> is the address of the table, \<open>syscall_entry\<close> the one of the assembly routine
  \<^verbatim>\<open>exception_handler_syscall\<close>.
\<close>

definition init_gdt :: "addr \<Rightarrow> addr \<Rightarrow> 's gdt_state_scheme \<Rightarrow> ('s, unit) gdt_res" where
  "init_gdt gdt_at syscall_entry s =
     bindR (clear_gdt 0 s) (\<lambda>_ s1.
     bindR (segment_desc_set KERNEL_SELECTOR_DS 0 0xffffffff
       (SEG_P_PRESENT OR SEG_DPL0 OR SEG_S_NORMAL OR SEG_TYPE_DATA OR SEG_TYPE_RW OR SEG_D) s1) (\<lambda>_ s2.
     bindR (segment_desc_set KERNEL_SELECTOR_CS 0 0xffffffff
       (SEG_P_PRESENT OR SEG_DPL0 OR SEG_S_NORMAL OR SEG_TYPE_CODE OR SEG_TYPE_RW OR SEG_D) s2) (\<lambda>_ s3.
     case arr_set (gdt_table s3) (uint (drop_bit 3 SELECTOR_SYSCALL))
       (gate_as_segment (gate_desc_set (ucast KERNEL_SELECTOR_CS) syscall_entry
          (GATE_P_PRESENT OR GATE_DPL3 OR GATE_TYPE_SYSCALL OR SYSCALL_PARAM_COUNT))) of
       None \<Rightarrow> Inl (Fault s3)
     | Some tab \<Rightarrow> Inr ((), lgdt gdt_at (of_nat (8 * GDT_TABLE_SIZE)) (s3\<lparr>gdt_table := tab\<rparr>)))))"

text \<open>\<open>mutex_at\<close> and \<open>name\<close> are the addresses of the mutex and of the name \<^verbatim>\<open>"cpu: gdt"\<close>.\<close>

definition cpu_init :: "addr \<Rightarrow> addr \<Rightarrow> addr \<Rightarrow> addr \<Rightarrow> 's gdt_state_scheme \<Rightarrow> ('s, unit) gdt_res" where
  "cpu_init mutex_at name gdt_at syscall_entry s =
     (case mutex_init mutex_at name (gdt_mutex s) (mem s) of
        None \<Rightarrow> Inl (Fault s)
      | Some mx \<Rightarrow> init_gdt gdt_at syscall_entry (s\<lparr>gdt_mutex := mx\<rparr>))"

definition gdt_lock :: "'s gdt_state_scheme \<Rightarrow> ('s, unit) gdt_res" where
  "gdt_lock s = (let (mx, s1, sw) = mutex_acquire (gdt_mutex s) s; s2 = s1\<lparr>gdt_mutex := mx\<rparr>
     in if sw then Inl (Suspended s2) else Inr ((), s2))"

definition gdt_unlock :: "'s gdt_state_scheme \<Rightarrow> ('s, unit) gdt_res" where
  "gdt_unlock s = (let (mx, s1, sw) = mutex_release (gdt_mutex s) s; s2 = s1\<lparr>gdt_mutex := mx\<rparr>
     in if sw then Inl (Suspended s2) else Inr ((), s2))"

text \<open>The search loop: the index of the first entry from \<open>i\<close> on whose attributes are zero.\<close>

function gdt_find_free :: "nat \<Rightarrow> segment_desc_t list \<Rightarrow> nat option" where
  "gdt_find_free i tab =
     (if i < GDT_TABLE_SIZE then (if sd_attr (tab ! i) = 0 then Some i else gdt_find_free (Suc i) tab)
      else None)"
  by pat_completeness auto
termination by (relation "measure (\<lambda>(i, tab). GDT_TABLE_SIZE - i)") auto

declare gdt_find_free.simps [simp del]

definition gdt_alloc_desc :: "'s gdt_state_scheme \<Rightarrow> ('s, u32) gdt_res" where
  "gdt_alloc_desc s =
     bindR (gdt_lock s) (\<lambda>_ s1.
     case gdt_find_free 1 (gdt_table s1) of
       Some i \<Rightarrow> bindR (gdt_unlock s1) (\<lambda>_ s2. Inr (of_nat i * 8, s2))
     | None \<Rightarrow> bindR (gdt_unlock s1) (\<lambda>_ s2. Inr (-1, s2)))"

definition gdt_free_sel :: "u32 \<Rightarrow> 's gdt_state_scheme \<Rightarrow> ('s, unit) gdt_res" where
  "gdt_free_sel sel s =
     bindR (gdt_lock s) (\<lambda>_ s1.
     case arr_get (gdt_table s1) (uint (sel div 8)) of
       None \<Rightarrow> Inl (Fault s1)
     | Some d \<Rightarrow>
         (case arr_set (gdt_table s1) (uint (sel div 8)) (d\<lparr>sd_attr := 0\<rparr>) of
            None \<Rightarrow> Inl (Fault s1)
          | Some tab \<Rightarrow> gdt_unlock (s1\<lparr>gdt_table := tab\<rparr>)))"

subsection \<open>What the processor reads from a descriptor\<close>

text \<open>Base address, 20-bit limit, granularity and access attributes of a segment descriptor;
  target and attributes of a gate in the same eight bytes.\<close>

definition seg_base :: "segment_desc_t \<Rightarrow> u32" where
  "seg_base d = ucast (sd_base15_0 d) OR push_bit 16 (ucast (sd_base23_16 d)) OR push_bit 24 (ucast (sd_base31_24 d))"

definition seg_limit :: "segment_desc_t \<Rightarrow> u32" where
  "seg_limit d = ucast (sd_limit15_0 d) OR push_bit 16 (ucast (drop_bit 8 (sd_attr d)) AND 0xf)"

definition seg_access :: "segment_desc_t \<Rightarrow> u16" where
  "seg_access d = sd_attr d AND 0xf0ff"

definition segment_as_gate :: "segment_desc_t \<Rightarrow> gate_desc_t" where
  "segment_as_gate d =
     \<lparr>gd_offset15_0 = sd_limit15_0 d, gd_selector = sd_base15_0 d,
      gd_attr = ucast (sd_base23_16 d) OR push_bit 8 (sd_attr d),
      gd_offset31_16 = (drop_bit 8 (sd_attr d) AND 0xff) OR push_bit 8 (ucast (sd_base31_24 d))\<rparr>"

definition gate_target :: "gate_desc_t \<Rightarrow> u32" where
  "gate_target g = ucast (gd_offset15_0 g) OR push_bit 16 (ucast (gd_offset31_16 g))"

lemma bit_mask_lits:
  "(0xff :: u32) = mask 8" "(0xffff :: u32) = mask 16" "(0xf :: u32) = mask 4" "(0xfffff :: u32) = mask 20"
  by (simp_all add: mask_eq_exp_minus_1)

lemma seg_base_make: "seg_base (make_segment_desc base limit attr) = base"
proof (rule bit_eqI)
  fix n :: nat
  assume "possible_bit TYPE(u32) n"
  then have "n < 32" by simp
  then consider "n < 16" | "16 \<le> n" "n < 24" | "24 \<le> n" by linarith
  then show "bit (seg_base (make_segment_desc base limit attr)) n = bit base n"
    using \<open>n < 32\<close>
    by cases (auto simp: seg_base_def make_segment_desc_def Let_def bit_mask_lits bit_simps)
qed

lemma high_bits_zero:
  fixes w :: u32
  assumes "unat w < 2 ^ k" and "k \<le> n"
  shows "\<not> bit w n"
proof -
  have "unat w div 2 ^ n = 0"
    using assms power_increasing [of k n "2 :: nat"] by (simp add: order.strict_trans2)
  then have "\<not> bit (unat w) n" by (simp add: bit_nat_def)
  then show ?thesis by (simp add: bit_unsigned_iff)
qed

lemma bit_SEG_G: "bit SEG_G n \<longleftrightarrow> n = 15"
  unfolding SEG_G_def bit_push_bit_iff bit_1_iff by auto

lemma seg_limit_make:
  assumes "attr AND 0xf00 = 0"
  shows "seg_limit (make_segment_desc base limit attr) =
    (if 0xfffff < limit then limit div 0x1000 else limit)"
proof (rule bit_eqI)
  let ?l = "if 0xfffff < limit then limit div 0x1000 else limit"
  fix n :: nat
  assume "possible_bit TYPE(u32) n"
  then have "n < 32" by simp
  have "unat ?l < 2 ^ 20"
  proof -
    have "unat limit < 2 ^ 32" using unsigned_less [of limit] by simp
    then show ?thesis by (auto simp: unat_div_distrib word_less_nat_alt)
  qed
  then have hi: "\<not> bit ?l n" if "20 \<le> n" using that by (rule high_bits_zero)
  have masked: "bit (attr AND 0xf00) k = (bit attr k \<and> 8 \<le> k \<and> k < 12)" if "k < 16" for k
  proof -
    have f: "(0xf00 :: u16) = push_bit 8 (mask 4)" by (simp add: mask_eq_exp_minus_1)
    show ?thesis unfolding f using that by (auto simp: bit_simps)
  qed
  have low: "\<not> bit attr k" if "8 \<le> k" "k < 12" for k
    using that assms masked [of k] by auto
  consider "n < 16" | "16 \<le> n" "n < 20" | "20 \<le> n" by linarith
  then show "bit (seg_limit (make_segment_desc base limit attr)) n = bit ?l n"
    using \<open>n < 32\<close> hi low [of "n - 8"]
    by cases (auto simp: seg_limit_def make_segment_desc_def Let_def bit_mask_lits bit_simps bit_SEG_G)
qed

lemma seg_access_make:
  assumes "attr AND 0xf00 = 0"
  shows "seg_access (make_segment_desc base limit attr) = attr OR (if 0xfffff < limit then SEG_G else 0)"
proof (rule bit_eqI)
  fix n :: nat
  assume "possible_bit TYPE(u16) n"
  then have "n < 16" by simp
  have m: "(0xf00 :: u16) = push_bit 8 (mask 4)" "(0xf0ff :: u16) = NOT (push_bit 8 (mask 4))"
    by (simp_all add: mask_eq_exp_minus_1)
  have "\<not> bit (attr AND push_bit 8 (mask 4)) n" using assms by (simp add: m(1))
  then have low: "8 \<le> n \<Longrightarrow> n < 12 \<Longrightarrow> \<not> bit attr n" using \<open>n < 16\<close> by (auto simp: bit_simps)
  show "bit (seg_access (make_segment_desc base limit attr)) n
      = bit (attr OR (if 0xfffff < limit then SEG_G else 0)) n"
    using \<open>n < 16\<close> low unfolding seg_access_def m(2)
    by (cases "8 \<le> n"; cases "n < 12") (auto simp: make_segment_desc_def Let_def bit_mask_lits bit_simps bit_SEG_G)
qed

lemma u16_mask: "(0xff :: u16) = mask 8"
  by (simp add: mask_eq_exp_minus_1)

lemma gate_round_trip: "segment_as_gate (gate_as_segment g) = g"
proof -
  have "(ucast (ucast a :: u8) :: u16) OR push_bit 8 (drop_bit 8 a OR push_bit 8 b) = a" for a b :: u16
    by (rule bit_eqI) (case_tac "n < 8"; auto simp: bit_simps)
  moreover have "drop_bit 8 (drop_bit 8 a OR push_bit 8 b) AND 0xff OR
      push_bit 8 (ucast (ucast (drop_bit 8 b) :: u8)) = b" for a b :: u16
    unfolding u16_mask by (rule bit_eqI) (case_tac "n < 8"; auto simp: bit_simps)
  ultimately show ?thesis
    by (cases g) (simp add: segment_as_gate_def gate_as_segment_def)
qed

lemma gate_target_set: "gate_target (gate_desc_set sel off attr) = off"
  by (rule bit_eqI) (auto simp: gate_target_def gate_desc_set_def bit_mask_lits bit_simps)

subsection \<open>Allocation of table entries\<close>

definition gdt_ready :: "'s gdt_state_scheme \<Rightarrow> bool" where
  "gdt_ready s \<longleftrightarrow> length (gdt_table s) = GDT_TABLE_SIZE \<and> mutex_free (gdt_mutex s)"

lemma gdt_find_free_Some:
  "gdt_find_free i tab = Some j \<Longrightarrow>
   i \<le> j \<and> j < GDT_TABLE_SIZE \<and> sd_attr (tab ! j) = 0 \<and> (\<forall>k. i \<le> k \<and> k < j \<longrightarrow> sd_attr (tab ! k) \<noteq> 0)"
proof (induction i tab rule: gdt_find_free.induct)
  case (1 i tab)
  show ?case
  proof (cases "sd_attr (tab ! i) = 0")
    case True
    with "1.prems" show ?thesis by (subst (asm) gdt_find_free.simps) (auto split: if_splits)
  next
    case False
    have i: "i < GDT_TABLE_SIZE" and r: "gdt_find_free (Suc i) tab = Some j"
      using "1.prems" False by (subst (asm) gdt_find_free.simps, simp split: if_splits)+
    have "sd_attr (tab ! k) \<noteq> 0" if "i \<le> k" "k < j" for k
      using "1.IH" [OF i False r] that False by (cases "k = i") auto
    with "1.IH" [OF i False r] show ?thesis by auto
  qed
qed

lemma gdt_find_free_None:
  "gdt_find_free i tab = None \<longleftrightarrow> (\<forall>k. i \<le> k \<and> k < GDT_TABLE_SIZE \<longrightarrow> sd_attr (tab ! k) \<noteq> 0)"
proof (induction i tab rule: gdt_find_free.induct)
  case (1 i tab)
  have split: "(\<forall>k. i \<le> k \<and> k < n \<longrightarrow> P k) \<longleftrightarrow> P i \<and> (\<forall>k. Suc i \<le> k \<and> k < n \<longrightarrow> P k)" if "i < n" for P n
    using that by (metis Suc_leD Suc_le_eq le_neq_implies_less order_refl)
  show ?case
    using 1 split [of GDT_TABLE_SIZE "\<lambda>k. sd_attr (tab ! k) \<noteq> 0"]
    by (subst gdt_find_free.simps) (auto simp: not_less)
qed

text \<open>The mutex of the table: outside a section it is free, and taking it changes nothing else.\<close>

lemma gdt_lock_free:
  assumes "mutex_free (gdt_mutex s)"
  obtains mx where "gdt_lock s = Inr ((), s\<lparr>gdt_mutex := mx\<rparr>)" "mutex_held_by mx (curr_task s)"
  using mtx.acquire_free [OF assms, of s]
  by (cases "mutex_acquire (gdt_mutex s) s") (auto simp: gdt_lock_def)

lemma gdt_unlock_held:
  assumes "mutex_held_by (gdt_mutex s) (curr_task s)"
  obtains mx where "gdt_unlock s = Inr ((), s\<lparr>gdt_mutex := mx\<rparr>)" "mutex_free mx"
  using mtx.release_held [OF assms]
  by (cases "mutex_release (gdt_mutex s) s") (auto simp: gdt_unlock_def)

lemma gdt_alloc_desc_eq:
  assumes "gdt_ready s"
  obtains mx where "mutex_free mx"
    "gdt_alloc_desc s = Inr (case gdt_find_free 1 (gdt_table s) of None \<Rightarrow> -1 | Some i \<Rightarrow> of_nat i * 8,
       s\<lparr>gdt_mutex := mx\<rparr>)"
proof -
  obtain mx where l: "gdt_lock s = Inr ((), s\<lparr>gdt_mutex := mx\<rparr>)" "mutex_held_by mx (curr_task s)"
    using assms gdt_lock_free by (auto simp: gdt_ready_def)
  obtain mx2 where u: "gdt_unlock (s\<lparr>gdt_mutex := mx\<rparr>) = Inr ((), s\<lparr>gdt_mutex := mx2\<rparr>)" "mutex_free mx2"
    using gdt_unlock_held [of "s\<lparr>gdt_mutex := mx\<rparr>"] l(2) by auto
  show thesis
    by (rule that [of mx2]) (use l u in \<open>auto simp: gdt_alloc_desc_def split: option.splits\<close>)
qed

lemma uint_sel_index: "uint (sel div 8 :: u32) = int (unat sel div 8)"
  by (simp add: uint_div zdiv_int)

lemma gdt_free_sel_eq:
  assumes "gdt_ready s" and "unat sel < 8 * GDT_TABLE_SIZE"
  obtains mx where "mutex_free mx"
    "gdt_free_sel sel s = Inr ((), s\<lparr>gdt_mutex := mx,
       gdt_table := (gdt_table s)[unat sel div 8 := (gdt_table s ! (unat sel div 8))\<lparr>sd_attr := 0\<rparr>]\<rparr>)"
proof -
  let ?i = "unat sel div 8"
  have i: "uint (sel div 8) = int ?i" "?i < length (gdt_table s)"
    using assms by (simp_all add: gdt_ready_def uint_sel_index)
  obtain mx where l: "gdt_lock s = Inr ((), s\<lparr>gdt_mutex := mx\<rparr>)" "mutex_held_by mx (curr_task s)"
    using assms gdt_lock_free by (auto simp: gdt_ready_def)
  let ?s1 = "s\<lparr>gdt_mutex := mx, gdt_table := (gdt_table s)[?i := (gdt_table s ! ?i)\<lparr>sd_attr := 0\<rparr>]\<rparr>"
  obtain mx2 where u: "gdt_unlock ?s1 = Inr ((), ?s1\<lparr>gdt_mutex := mx2\<rparr>)" "mutex_free mx2"
    using gdt_unlock_held [of ?s1] l(2) by auto
  show thesis
    by (rule that [of mx2]) (use l u i in \<open>auto simp: gdt_free_sel_def\<close>)
qed

lemma segment_desc_set_eq:
  assumes "length (gdt_table s) = GDT_TABLE_SIZE" and "unat sel < 8 * GDT_TABLE_SIZE"
  shows "segment_desc_set sel base limit attr s =
    Inr ((), s\<lparr>gdt_table := (gdt_table s)[unat sel div 8 := make_segment_desc base limit attr]\<rparr>)"
proof -
  have "unat sel div 8 < length (gdt_table s)" using assms by simp
  then show ?thesis unfolding segment_desc_set_def uint_sel_index by simp
qed

subsection \<open>The initial table\<close>

lemma clear_gdt_eq:
  assumes "length (gdt_table s) = GDT_TABLE_SIZE" and "i \<le> GDT_TABLE_SIZE"
  shows "clear_gdt i s = Inr ((), s\<lparr>gdt_table := take i (gdt_table s) @
     replicate (GDT_TABLE_SIZE - i) (make_segment_desc 0 0 0)\<rparr>)"
  using assms
proof (induction "GDT_TABLE_SIZE - i" arbitrary: i s)
  case 0
  then show ?case by (subst clear_gdt.simps) simp
next
  case (Suc n)
  show ?case
  proof -
    let ?s = "s\<lparr>gdt_table := (gdt_table s)[i := make_segment_desc 0 0 0]\<rparr>"
    have True: "i < GDT_TABLE_SIZE" using Suc.hyps(2) by simp
    have u: "unat (of_nat i * 8 :: u32) = i * 8"
      using True by (simp add: GDT_TABLE_SIZE_def unat_word_ariths unat_of_nat)
    have "segment_desc_set (of_nat i * 8) 0 0 0 s = Inr ((), ?s)"
      using segment_desc_set_eq [OF Suc.prems(1), of "of_nat i * 8" 0 0 0] True unfolding u by simp
    moreover have "clear_gdt (Suc i) ?s = Inr ((), ?s\<lparr>gdt_table := take (Suc i) (gdt_table ?s) @
       replicate (GDT_TABLE_SIZE - Suc i) (make_segment_desc 0 0 0)\<rparr>)"
      using Suc.prems Suc.hyps(2) True by (intro Suc.hyps(1)) auto
    moreover have "take (Suc i) ((gdt_table s)[i := d]) = take i (gdt_table s) @ [d]" for d
      using Suc.prems(1) True by (simp add: take_Suc_conv_app_nth)
    moreover have "replicate (GDT_TABLE_SIZE - i) d = d # replicate (GDT_TABLE_SIZE - Suc i) d" for d :: segment_desc_t
      using True by (simp add: Suc_diff_Suc flip: replicate_Suc)
    ultimately show ?thesis using True by (subst clear_gdt.simps) simp
  qed
qed

definition initial_gdt :: "addr \<Rightarrow> segment_desc_t list" where
  "initial_gdt syscall_entry =
     (replicate GDT_TABLE_SIZE (make_segment_desc 0 0 0))
       [2 := make_segment_desc 0 0xffffffff (SEG_P_PRESENT OR SEG_DPL0 OR SEG_S_NORMAL OR SEG_TYPE_DATA OR SEG_TYPE_RW OR SEG_D),
        1 := make_segment_desc 0 0xffffffff (SEG_P_PRESENT OR SEG_DPL0 OR SEG_S_NORMAL OR SEG_TYPE_CODE OR SEG_TYPE_RW OR SEG_D),
        3 := gate_as_segment (gate_desc_set (ucast KERNEL_SELECTOR_CS) syscall_entry
          (GATE_P_PRESENT OR GATE_DPL3 OR GATE_TYPE_SYSCALL OR SYSCALL_PARAM_COUNT))]"

lemma init_gdt_eq:
  assumes "length (gdt_table s) = GDT_TABLE_SIZE"
  shows "init_gdt g e s = Inr ((), lgdt g 2048 (s\<lparr>gdt_table := initial_gdt e\<rparr>))"
proof -
  have c: "clear_gdt 0 s = Inr ((), s\<lparr>gdt_table := replicate GDT_TABLE_SIZE (make_segment_desc 0 0 0)\<rparr>)"
    using clear_gdt_eq [OF assms, of 0] by simp
  show ?thesis
    by (simp add: init_gdt_def c segment_desc_set_eq KERNEL_SELECTOR_DS_def SELECTOR_SYSCALL_def
        initial_gdt_def GDT_TABLE_SIZE_def drop_bit_eq_div KERNEL_SELECTOR_CS_def)
qed

subsection \<open>A concrete table\<close>

definition mutex_zero :: mutex_t where
  "mutex_zero = \<lparr>mx_name = replicate MUTEX_NAME_SIZE 0, mx_owner = 0, mx_locked_count = 0,
     mx_wait_list = list_init\<rparr>"

lemma mutex_zero_free [simp]: "mutex_free mutex_zero"
  by (simp add: mutex_free_def mutex_zero_def list_size_def list_init_def)

definition demo_gdt :: gdt_state where
  "demo_gdt = sched.extend demo_sched (gdt_state.fields (initial_gdt 0x10000) mutex_zero)"

lemma demo_gdt_fields [simp]:
  "gdt_table demo_gdt = initial_gdt 0x10000" "gdt_mutex demo_gdt = mutex_zero"
  by (simp_all add: demo_gdt_def sched.defs gdt_state.defs)

lemma initial_gdt_length [simp]: "length (initial_gdt e) = GDT_TABLE_SIZE"
  by (simp add: initial_gdt_def)

lemma demo_gdt_ready: "gdt_ready demo_gdt"
  by (simp add: gdt_ready_def)

lemma make_zero_attr: "sd_attr (make_segment_desc 0 0 0) = 0"
  by (simp add: make_segment_desc_def)

lemma initial_gdt_used:
  "k < GDT_TABLE_SIZE \<Longrightarrow> sd_attr (initial_gdt e ! k) = 0 \<longleftrightarrow> k = 0 \<or> 3 < k"
proof -
  assume k: "k < GDT_TABLE_SIZE"
  have "bit (sd_attr (make_segment_desc 0 0xffffffff a)) 15" for a
    by (simp add: make_segment_desc_def bit_or_iff bit_SEG_G)
  then have "sd_attr (make_segment_desc 0 0xffffffff a) \<noteq> 0" for a
    by (metis bit_0_eq bot_apply bot_bool_def)
  moreover have "sd_attr (gate_as_segment (gate_desc_set c e
      (GATE_P_PRESENT OR GATE_DPL3 OR GATE_TYPE_SYSCALL OR SYSCALL_PARAM_COUNT))) \<noteq> 0" for c
  proof -
    have "bit (sd_attr (gate_as_segment (gate_desc_set c e
      (GATE_P_PRESENT OR GATE_DPL3 OR GATE_TYPE_SYSCALL OR SYSCALL_PARAM_COUNT)))) 7"
      by (simp add: gate_as_segment_def gate_desc_set_def seg_flags bit_or_iff)
    then show ?thesis by (metis bit_0_eq bot_apply bot_bool_def)
  qed
  ultimately show ?thesis
    using k make_zero_attr unfolding initial_gdt_def by (auto simp: nth_list_update GDT_TABLE_SIZE_def)
qed

subsection \<open>Main properties\<close>

text \<open>A segment descriptor reads back as it was written: \<^verbatim>\<open>segment_desc_set\<close> stores the
  base address and the access attributes, and a limit that is exact up to \<open>0xfffff\<close> and in units of
  4 KiB, with the granularity bit set, above.\<close>

theorem segment_desc_round_trip:
  assumes "length (gdt_table s) = GDT_TABLE_SIZE" and "unat sel < 8 * GDT_TABLE_SIZE" and "attr AND 0xf00 = 0"
  shows "\<exists>d s'. segment_desc_set sel base limit attr s = Inr ((), s')
    \<and> gdt_table s' = (gdt_table s)[unat sel div 8 := d]
    \<and> seg_base d = base \<and> seg_limit d = (if 0xfffff < limit then limit div 0x1000 else limit)
    \<and> seg_access d = attr OR (if 0xfffff < limit then SEG_G else 0)"
  using segment_desc_set_eq [OF assms(1,2)] seg_base_make seg_limit_make [OF assms(3)] seg_access_make [OF assms(3)]
  by auto

theorem segment_desc_round_trip_witness:
  "\<exists>d s'. segment_desc_set 40 0x12345678 104 0x89 demo_gdt = Inr ((), s') \<and> gdt_table s' ! 5 = d
     \<and> seg_base d = 0x12345678 \<and> seg_limit d = 104"
proof -
  have "length (gdt_table demo_gdt) = GDT_TABLE_SIZE" "unat (40 :: u32) < 8 * GDT_TABLE_SIZE" "(0x89 :: u16) AND 0xf00 = 0"
    by (simp_all add: GDT_TABLE_SIZE_def)
  from segment_desc_round_trip [OF this, of "0x12345678" 104] show ?thesis
    by (auto simp: GDT_TABLE_SIZE_def)
qed

text \<open>\<^verbatim>\<open>gdt_alloc_desc\<close> with its mutex free returns the selector of the first entry, from
  entry 1 on, whose attributes are zero, or -1 if there is none. It does not change the table: two
  calls with no write in between return the same selector.\<close>

theorem gdt_alloc_desc_first_free:
  assumes "gdt_ready s"
  shows "\<exists>sel s'. gdt_alloc_desc s = Inr (sel, s') \<and> gdt_ready s' \<and> gdt_table s' = gdt_table s
    \<and> (\<exists>s''. gdt_alloc_desc s' = Inr (sel, s''))
    \<and> (if \<forall>k. 1 \<le> k \<and> k < GDT_TABLE_SIZE \<longrightarrow> sd_attr (gdt_table s ! k) \<noteq> 0 then sel = -1
       else \<exists>i. 1 \<le> i \<and> i < GDT_TABLE_SIZE \<and> sel = of_nat i * 8 \<and> sd_attr (gdt_table s ! i) = 0
         \<and> (\<forall>k. 1 \<le> k \<and> k < i \<longrightarrow> sd_attr (gdt_table s ! k) \<noteq> 0))"
proof -
  let ?r = "case gdt_find_free 1 (gdt_table s) of None \<Rightarrow> -1 | Some i \<Rightarrow> of_nat i * 8"
  obtain mx where mx: "mutex_free mx" "gdt_alloc_desc s = Inr (?r, s\<lparr>gdt_mutex := mx\<rparr>)"
    using gdt_alloc_desc_eq [OF assms] by blast
  have rdy: "gdt_ready (s\<lparr>gdt_mutex := mx\<rparr>)" using assms mx(1) by (simp add: gdt_ready_def)
  obtain mx2 where mx2: "gdt_alloc_desc (s\<lparr>gdt_mutex := mx\<rparr>) = Inr (?r, s\<lparr>gdt_mutex := mx2\<rparr>)"
    using gdt_alloc_desc_eq [OF rdy] by auto
  show ?thesis
  proof (cases "gdt_find_free 1 (gdt_table s)")
    case None
    with mx mx2 rdy show ?thesis using gdt_find_free_None [of 1 "gdt_table s"] by auto
  next
    case (Some i)
    with mx mx2 rdy show ?thesis
      using gdt_find_free_Some [OF Some] gdt_find_free_None [of 1 "gdt_table s"] by auto
  qed
qed

theorem gdt_alloc_desc_first_free_witness:
  "\<exists>sel s'. gdt_alloc_desc demo_gdt = Inr (sel, s') \<and> gdt_ready s' \<and> sel \<noteq> -1"
proof -
  have some: "\<not> (\<forall>k. 1 \<le> k \<and> k < GDT_TABLE_SIZE \<longrightarrow> sd_attr (gdt_table demo_gdt ! k) \<noteq> 0)"
    using initial_gdt_used [of 4] by (auto simp: GDT_TABLE_SIZE_def intro!: exI [of _ 4])
  obtain sel s' i where "gdt_alloc_desc demo_gdt = Inr (sel, s')" "gdt_ready s'"
    "i < GDT_TABLE_SIZE" "sel = of_nat i * 8"
    using gdt_alloc_desc_first_free [OF demo_gdt_ready] unfolding if_not_P [OF some] by blast
  moreover have "(of_nat i * 8 :: u32) \<noteq> -1"
  proof -
    have "unat (of_nat i * 8 :: u32) = i * 8"
      using \<open>i < GDT_TABLE_SIZE\<close> by (simp add: GDT_TABLE_SIZE_def unat_word_ariths unat_of_nat)
    moreover have "unat (-1 :: u32) = 2 ^ 32 - 1"
      by (simp add: unsigned_minus_1_eq_mask mask_eq_exp_minus_1)
    ultimately show ?thesis using \<open>i < GDT_TABLE_SIZE\<close> by (auto simp: GDT_TABLE_SIZE_def)
  qed
  ultimately show ?thesis by blast
qed

text \<open>The initial table. \<^verbatim>\<open>init_gdt\<close> leaves the kernel code and data segments over the whole
  address space and the system call gate with the given entry point, privilege 3 and five parameters;
  the GDT register describes the whole table;
  so the first selector that is allocated is the one of entry 4, never one of the three.\<close>

theorem init_gdt_table:
  assumes "length (gdt_table s) = GDT_TABLE_SIZE" and "mutex_free (gdt_mutex s)"
  shows "\<exists>s'. init_gdt g e s = Inr ((), s') \<and> gdtr s' = make_table_reg g 2048
    \<and> (\<forall>k \<in> {1, 2}. seg_base (gdt_table s' ! k) = 0 \<and> seg_limit (gdt_table s' ! k) = 0xfffff
        \<and> bit (seg_access (gdt_table s' ! k)) 15)
    \<and> segment_as_gate (gdt_table s' ! 3) = \<lparr>gd_offset15_0 = ucast e, gd_selector = 8, gd_attr = 0xec05,
        gd_offset31_16 = ucast (drop_bit 16 e)\<rparr>
    \<and> (\<exists>s''. gdt_alloc_desc s' = Inr (32, s''))"
proof -
  let ?s = "lgdt g 2048 (s\<lparr>gdt_table := initial_gdt e\<rparr>)"
  have "gdt_ready ?s" using assms by (simp add: gdt_ready_def lgdt_def)
  then obtain mx where a: "gdt_alloc_desc ?s =
      Inr (case gdt_find_free 1 (gdt_table ?s) of None \<Rightarrow> -1 | Some i \<Rightarrow> of_nat i * 8, ?s\<lparr>gdt_mutex := mx\<rparr>)"
    by (rule gdt_alloc_desc_eq)
  have "gdt_find_free 1 (initial_gdt e) = Some 4"
  proof -
    have "gdt_find_free 1 (initial_gdt e) \<noteq> None"
      using initial_gdt_used [of 4 e] unfolding gdt_find_free_None
      by (auto simp: GDT_TABLE_SIZE_def intro!: exI [of _ 4])
    then obtain j where j: "gdt_find_free 1 (initial_gdt e) = Some j" by blast
    note f = gdt_find_free_Some [OF j]
    have "j = 0 \<or> 3 < j" using f initial_gdt_used [of j e] by simp
    moreover have "\<not> 4 < j" using f initial_gdt_used [of 4 e] by (auto simp: GDT_TABLE_SIZE_def)
    ultimately have "j = 4" using f by auto
    with j show ?thesis by simp
  qed
  with a have alloc: "gdt_alloc_desc ?s = Inr (32, ?s\<lparr>gdt_mutex := mx\<rparr>)" by (simp add: lgdt_def)
  have seg: "seg_base d = 0 \<and> seg_limit d = 0xfffff \<and> bit (seg_access d) 15"
    if "d = make_segment_desc 0 0xffffffff at" "at AND 0xf00 = 0" for d at
    using that by (simp add: seg_base_make seg_limit_make seg_access_make bit_or_iff bit_SEG_G)
  have gate: "segment_as_gate (initial_gdt e ! 3) = gate_desc_set 8 e 0xec05"
    by (simp add: initial_gdt_def GDT_TABLE_SIZE_def gate_round_trip KERNEL_SELECTOR_CS_def seg_flags)
  have "initial_gdt e ! 1 = make_segment_desc 0 0xffffffff 0x409a"
    "initial_gdt e ! 2 = make_segment_desc 0 0xffffffff 0x4092"
    by (simp_all add: initial_gdt_def GDT_TABLE_SIZE_def seg_flags)
  then have "\<forall>k \<in> {1, 2}. seg_base (initial_gdt e ! k) = 0 \<and> seg_limit (initial_gdt e ! k) = 0xfffff
      \<and> bit (seg_access (initial_gdt e ! k)) 15"
    using seg [of _ "0x409a"] seg [of _ "0x4092"] by simp
  moreover have "gate_desc_set 8 e 0xec05 = \<lparr>gd_offset15_0 = ucast e, gd_selector = 8, gd_attr = 0xec05,
      gd_offset31_16 = ucast (drop_bit 16 e)\<rparr>"
    unfolding gate_desc_set_def bit_mask_lits by (auto intro!: bit_eqI simp: bit_simps)
  ultimately show ?thesis using init_gdt_eq [OF assms(1)] alloc gate by (simp add: lgdt_def)
qed

theorem init_gdt_table_witness: "\<exists>s'. init_gdt 0x18000 0x10000 demo_gdt = Inr ((), s')"
  using init_gdt_table [of demo_gdt "0x18000" "0x10000"] by auto

end
