(* ===== verification/Memory.thy ===== *)
theory Memory
  imports Bitmap Cpu
begin

text \<open>
  Memory management, \<^verbatim>\<open>src/source/kernel/core/memory.c\<close> with \<^verbatim>\<open>mmu.h\<close>: the allocator of
  physical pages, two-level page tables in main memory, and the creation, copying and destruction
  of user address spaces.

  \<^item> The kernel accesses physical memory below \<open>MEMORY_TASK_BASE\<close> under the same virtual address,
    so a kernel pointer below it is an index of \<open>mem\<close>; a user address is translated through the page
    directory in CR3 (\<open>translate\<close>), and a page that is not present is a fault.
  \<^item> The byte array of the allocator's bitmap is an object of its own.
  \<^item> \<^verbatim>\<open>memory_create_map\<close> ends without a \<^verbatim>\<open>return\<close> when it succeeds, so what its caller
    sees is indeterminate: the state field \<open>undef_ret\<close> is that value.
  \<^item> Diagnostic output (\<^verbatim>\<open>log_printf\<close>) is left out.
\<close>

subsection \<open>Constants and data\<close>

definition MEM_EXT_START :: u32 where "MEM_EXT_START = 0x100000"
definition MEM_PAGE_SIZE :: u32 where "MEM_PAGE_SIZE = 4096"
definition MEM_EBDA_START :: u32 where "MEM_EBDA_START = 0x80000"
definition MEMORY_TASK_BASE :: u32 where "MEMORY_TASK_BASE = 0x80000000"
definition MEM_EXT_END :: u32 where "MEM_EXT_END = 127 * 1024 * 1024"
definition MEM_TASK_STACK_TOP :: u32 where "MEM_TASK_STACK_TOP = 0xE0000000"
definition MEM_TASK_STACK_SIZE :: u32 where "MEM_TASK_STACK_SIZE = MEM_PAGE_SIZE * 500"
definition MEM_TASK_ARG_SIZE :: u32 where "MEM_TASK_ARG_SIZE = MEM_PAGE_SIZE * 16"
definition PDE_CNT :: nat where "PDE_CNT = 1024"
definition PTE_CNT :: nat where "PTE_CNT = 1024"

definition PTE_P :: u32 where "PTE_P = 1"
definition PTE_W :: u32 where "PTE_W = 2"
definition PTE_U :: u32 where "PTE_U = 4"
definition PDE_P :: u32 where "PDE_P = 1"

lemmas mem_consts [kernel_defs] =
  MEM_EXT_START_def MEM_PAGE_SIZE_def MEM_EBDA_START_def MEMORY_TASK_BASE_def PDE_CNT_def PTE_CNT_def
  PTE_P_def PTE_W_def PTE_U_def PDE_P_def

record addr_alloc_t =
  aa_mutex :: mutex_t
  aa_bitmap :: bitmap_t
  aa_start :: u32
  aa_size :: u32
  aa_page_size :: u32

record memory_map_t =
  mm_vstart :: addr
  mm_vend :: addr
  mm_pstart :: addr
  mm_perm :: u32

record ram_region = rr_start :: u32 rr_size :: u32

record boot_info_t =
  ram_region_cfg :: "ram_region list"
  ram_region_count :: int

text \<open>The addresses that the linker script defines.\<close>

record kernel_symbols =
  kernel_base :: addr
  s_text :: addr
  e_text :: addr
  s_data :: addr
  mem_free_start :: addr

record kmem = gdt_state +
  paddr_alloc :: addr_alloc_t
  kernel_page_dir :: addr
  undef_ret :: u32

type_synonym ('s, 'a) mres = "('s kmem_scheme, 'a) kres"

subsection \<open>Page table entries\<close>

definition pde_index :: "u32 \<Rightarrow> u32" where "pde_index vaddr = drop_bit 22 vaddr"
definition pte_index :: "u32 \<Rightarrow> u32" where "pte_index vaddr = drop_bit 12 vaddr AND 0x3FF"

text \<open>
  The entries as the bit fields of \<^verbatim>\<open>mmu.h\<close>, from the lowest bit on. The kernel writes an entry through the
  word of the union and reads single fields.
\<close>

record pde_t =
  pde_present :: "1 word"
  pde_write_disable :: "1 word"
  pde_user_mode_acc :: "1 word"
  pde_write_through :: "1 word"
  pde_cache_disable :: "1 word"
  pde_accessed :: "1 word"
  pde_unused6 :: "1 word"
  pde_ps :: "1 word"
  pde_unused11_8 :: "4 word"
  pde_phy_pt_addr :: "20 word"

record pte_t =
  pte_present :: "1 word"
  pte_write_disable :: "1 word"
  pte_user_mode_acc :: "1 word"
  pte_write_through :: "1 word"
  pte_cache_disable :: "1 word"
  pte_accessed :: "1 word"
  pte_dirty :: "1 word"
  pte_pat :: "1 word"
  pte_global :: "1 word"
  pte_unused11_9 :: "3 word"
  pte_phy_page_addr :: "20 word"

definition pde_fields :: "u32 \<Rightarrow> pde_t" where
  "pde_fields v = \<lparr>pde_present = ucast v, pde_write_disable = ucast (drop_bit 1 v), pde_user_mode_acc = ucast (drop_bit 2 v),
     pde_write_through = ucast (drop_bit 3 v), pde_cache_disable = ucast (drop_bit 4 v), pde_accessed = ucast (drop_bit 5 v),
     pde_unused6 = ucast (drop_bit 6 v), pde_ps = ucast (drop_bit 7 v), pde_unused11_8 = ucast (drop_bit 8 v),
     pde_phy_pt_addr = ucast (drop_bit 12 v)\<rparr>"

definition pte_fields :: "u32 \<Rightarrow> pte_t" where
  "pte_fields v = \<lparr>pte_present = ucast v, pte_write_disable = ucast (drop_bit 1 v), pte_user_mode_acc = ucast (drop_bit 2 v),
     pte_write_through = ucast (drop_bit 3 v), pte_cache_disable = ucast (drop_bit 4 v), pte_accessed = ucast (drop_bit 5 v),
     pte_dirty = ucast (drop_bit 6 v), pte_pat = ucast (drop_bit 7 v), pte_global = ucast (drop_bit 8 v),
     pte_unused11_9 = ucast (drop_bit 9 v), pte_phy_page_addr = ucast (drop_bit 12 v)\<rparr>"

text \<open>The fields \<^verbatim>\<open>present\<close> and the frame address of an entry (the same bits in both kinds).\<close>

definition present :: "u32 \<Rightarrow> bool" where "present v \<longleftrightarrow> bit v 0"
definition pde_paddr :: "u32 \<Rightarrow> u32" where "pde_paddr v = push_bit 12 (drop_bit 12 v)"
definition pte_paddr :: "u32 \<Rightarrow> u32" where "pte_paddr v = push_bit 12 (drop_bit 12 v)"
definition get_pte_perm :: "u32 \<Rightarrow> u32" where "get_pte_perm v = v AND 0x3ff"

definition mmu_set_page_dir :: "u32 \<Rightarrow> 'm machine_scheme \<Rightarrow> 'm machine_scheme" where
  "mmu_set_page_dir paddr s = write_cr3 paddr s"

text \<open>The present bit and the frame address of an entry are these fields.\<close>

lemma present_field: "(ucast (v :: u32) :: 1 word) \<noteq> 0 \<longleftrightarrow> present v"
proof -
  have "(ucast v :: 1 word) = 0 \<longleftrightarrow> (\<forall>n < 1. \<not> bit (ucast v :: 1 word) n)"
    using bit_word_eqI [of "ucast v :: 1 word" 0] by auto
  then show ?thesis by (simp add: present_def bit_simps)
qed

lemma entry_fields:
  "pde_present (pde_fields v) \<noteq> 0 \<longleftrightarrow> present v" "pte_present (pte_fields v) \<noteq> 0 \<longleftrightarrow> present v"
  "pde_paddr v = push_bit 12 (ucast (pde_phy_pt_addr (pde_fields v)))"
  "pte_paddr v = push_bit 12 (ucast (pte_phy_page_addr (pte_fields v)))"
  by (simp_all add: pde_fields_def pte_fields_def present_field)
    (auto simp: pde_paddr_def pte_paddr_def bit_simps intro!: bit_word_eqI)

text \<open>The translation the processor makes: the page table entry of an address, and the physical address.\<close>

definition pt_entry :: "bytes \<Rightarrow> addr \<Rightarrow> addr \<Rightarrow> u32 option" where
  "pt_entry m dir va =
     (let pde = load32 m (dir + pde_index va * 4)
      in if present pde then
           let pte = load32 m (pde_paddr pde + pte_index va * 4)
           in if present pte then Some pte else None
         else None)"

definition translate :: "bytes \<Rightarrow> addr \<Rightarrow> addr \<Rightarrow> addr option" where
  "translate m dir va = map_option (\<lambda>pte. pte_paddr pte + (va AND (MEM_PAGE_SIZE - 1))) (pt_entry m dir va)"

definition vload :: "'m machine_scheme \<Rightarrow> addr \<Rightarrow> u8 option" where
  "vload s a = (if a < MEMORY_TASK_BASE then Some (mem s a)
     else map_option (mem s) (translate (mem s) (cr3_reg s) a))"

subsection \<open>The allocator of physical pages\<close>

definition addr_alloc_init ::
    "addr \<Rightarrow> addr \<Rightarrow> u8 list \<Rightarrow> u32 \<Rightarrow> u32 \<Rightarrow> u32 \<Rightarrow> addr_alloc_t \<Rightarrow> bytes \<Rightarrow> addr_alloc_t option" where
  "addr_alloc_init mutex_at name buf start sz page_size alloc m =
     Option.bind (mutex_init mutex_at name (aa_mutex alloc) m) (\<lambda>mx.
     map_option (\<lambda>bm. alloc\<lparr>aa_mutex := mx, aa_start := start, aa_size := sz,
         aa_page_size := page_size, aa_bitmap := bm\<rparr>)
       (bitmap_init buf (uint (sz div page_size)) 0))"

definition upd_alloc :: "(addr_alloc_t \<Rightarrow> addr_alloc_t) \<Rightarrow> 's kmem_scheme \<Rightarrow> 's kmem_scheme" where
  "upd_alloc f s = s\<lparr>paddr_alloc := f (paddr_alloc s)\<rparr>"

definition paddr_lock :: "'s kmem_scheme \<Rightarrow> ('s, unit) mres" where
  "paddr_lock s = (let (mx, s1, sw) = mutex_acquire (aa_mutex (paddr_alloc s)) s;
       s2 = upd_alloc (aa_mutex_update (\<lambda>_. mx)) s1
     in if sw then Inl (Suspended s2) else Inr ((), s2))"

definition paddr_unlock :: "'s kmem_scheme \<Rightarrow> ('s, unit) mres" where
  "paddr_unlock s = (let (mx, s1, sw) = mutex_release (aa_mutex (paddr_alloc s)) s;
       s2 = upd_alloc (aa_mutex_update (\<lambda>_. mx)) s1
     in if sw then Inl (Suspended s2) else Inr ((), s2))"

definition addr_alloc_page :: "int \<Rightarrow> 's kmem_scheme \<Rightarrow> ('s, u32) mres" where
  "addr_alloc_page page_count s =
     bindR (paddr_lock s) (\<lambda>_ s1.
     case bitmap_alloc_nbits (aa_bitmap (paddr_alloc s1)) 0 page_count of
       None \<Rightarrow> Inl (Fault s1)
     | Some (page_index, bm) \<Rightarrow>
         let s2 = upd_alloc (aa_bitmap_update (\<lambda>_. bm)) s1;
             addr = (if 0 \<le> page_index
               then aa_start (paddr_alloc s2) + of_int page_index * aa_page_size (paddr_alloc s2) else 0)
         in bindR (paddr_unlock s2) (\<lambda>_ s3. Inr (addr, s3)))"

definition addr_free_page :: "addr \<Rightarrow> int \<Rightarrow> 's kmem_scheme \<Rightarrow> ('s, unit) mres" where
  "addr_free_page addr page_count s =
     bindR (paddr_lock s) (\<lambda>_ s1.
     let pg_index = (addr - aa_start (paddr_alloc s1)) div aa_page_size (paddr_alloc s1)
     in case bitmap_set_bit (aa_bitmap (paddr_alloc s1)) (sint pg_index) page_count 0 of
          None \<Rightarrow> Inl (Fault s1)
        | Some bm \<Rightarrow> paddr_unlock (upd_alloc (aa_bitmap_update (\<lambda>_. bm)) s1))"

text \<open>The sum over the first \<open>n\<close> regions, which wraps; reading behind the array is a fault.\<close>

fun total_mem_sum :: "nat \<Rightarrow> ram_region list \<Rightarrow> u32 \<Rightarrow> u32 option" where
  "total_mem_sum 0 rs mem_size = Some mem_size"
| "total_mem_sum (Suc n) [] mem_size = None"
| "total_mem_sum (Suc n) (r # rs) mem_size = total_mem_sum n rs (mem_size + rr_size r)"

definition total_mem_size :: "boot_info_t \<Rightarrow> u32 option" where
  "total_mem_size boot_info = total_mem_sum (nat (ram_region_count boot_info)) (ram_region_cfg boot_info) 0"

definition memory_alloc_page :: "'s kmem_scheme \<Rightarrow> ('s, u32) mres" where
  "memory_alloc_page s = addr_alloc_page 1 s"

definition kalloc :: "'s kmem_scheme \<Rightarrow> ('s, u32) mres" where
  "kalloc s = addr_alloc_page 1 s"

definition kfree :: "addr \<Rightarrow> 's kmem_scheme \<Rightarrow> ('s, unit) mres" where
  "kfree addr s = addr_free_page addr 1 s"

subsection \<open>Mappings\<close>

definition store_word :: "addr \<Rightarrow> u32 \<Rightarrow> 'm machine_scheme \<Rightarrow> 'm machine_scheme" where
  "store_word a v s = s\<lparr>mem := store32 a v (mem s)\<rparr>"

definition find_pte :: "addr \<Rightarrow> u32 \<Rightarrow> int \<Rightarrow> 's kmem_scheme \<Rightarrow> ('s, addr) mres" where
  "find_pte page_dir vaddr alloc s =
     (let pde_at = page_dir + pde_index vaddr * 4; pde = load32 (mem s) pde_at
      in if present pde then Inr (pde_paddr pde + pte_index vaddr * 4, s)
         else if alloc = 0 then Inr (0, s)
         else bindR (addr_alloc_page 1 s) (\<lambda>pg_paddr s1.
           if pg_paddr = 0 then Inr (0, s1)
           else let s2 = store_word pde_at (pg_paddr OR PDE_P OR PTE_W OR PTE_U) s1;
                    s3 = s2\<lparr>mem := kmemset pg_paddr 0 MEM_PAGE_SIZE (mem s2)\<rparr>
                in Inr (pg_paddr + pte_index vaddr * 4, s3)))"

primrec create_map_loop :: "nat \<Rightarrow> addr \<Rightarrow> u32 \<Rightarrow> u32 \<Rightarrow> u32 \<Rightarrow> 's kmem_scheme \<Rightarrow> ('s, u32) mres" where
  "create_map_loop 0 page_dir vaddr paddr perm s = Inr (undef_ret s, s)"
| "create_map_loop (Suc n) page_dir vaddr paddr perm s =
     bindR (find_pte page_dir vaddr 1 s) (\<lambda>pte s1.
     if pte = 0 then Inr (-1, s1)
     else if present (load32 (mem s1) pte) then Inl (Panic s1)
     else create_map_loop n page_dir (vaddr + MEM_PAGE_SIZE) (paddr + MEM_PAGE_SIZE) perm
            (store_word pte (paddr OR perm OR PTE_P) s1))"

definition memory_create_map :: "addr \<Rightarrow> u32 \<Rightarrow> u32 \<Rightarrow> int \<Rightarrow> u32 \<Rightarrow> 's kmem_scheme \<Rightarrow> ('s, u32) mres" where
  "memory_create_map page_dir vaddr paddr count perm s =
     create_map_loop (nat count) page_dir vaddr paddr perm s"

definition kernel_map :: "kernel_symbols \<Rightarrow> memory_map_t list" where
  "kernel_map k =
     [\<lparr>mm_vstart = kernel_base k, mm_vend = s_text k, mm_pstart = kernel_base k, mm_perm = PTE_W\<rparr>,
      \<lparr>mm_vstart = s_text k, mm_vend = e_text k, mm_pstart = s_text k, mm_perm = 0\<rparr>,
      \<lparr>mm_vstart = s_data k, mm_vend = MEM_EBDA_START - 1, mm_pstart = s_data k, mm_perm = PTE_W\<rparr>,
      \<lparr>mm_vstart = MEM_EXT_START, mm_vend = MEM_EXT_END, mm_pstart = MEM_EXT_START, mm_perm = PTE_W\<rparr>]"

primrec map_kernel_ranges :: "memory_map_t list \<Rightarrow> 's kmem_scheme \<Rightarrow> ('s, unit) mres" where
  "map_kernel_ranges [] s = Inr ((), s)"
| "map_kernel_ranges (mp # mps) s =
     (let vstart = down2 (mm_vstart mp) MEM_PAGE_SIZE;
          vend = up2 (mm_vend mp) MEM_PAGE_SIZE;
          paddr = down2 (mm_pstart mp) MEM_PAGE_SIZE;
          page_count = sint (vend - vstart) sdiv sint MEM_PAGE_SIZE
      in bindR (memory_create_map (kernel_page_dir s) vstart paddr page_count (mm_perm mp) s)
           (\<lambda>_. map_kernel_ranges mps))"

definition create_kernel_table :: "kernel_symbols \<Rightarrow> 's kmem_scheme \<Rightarrow> ('s, unit) mres" where
  "create_kernel_table k s =
     map_kernel_ranges (kernel_map k) (s\<lparr>mem := kmemset (kernel_page_dir s) 0 4096 (mem s)\<rparr>)"

text \<open>
  \<open>mutex_at\<close> and \<open>name\<close> are the addresses of the allocator (its mutex is its first field) and
  of the mutex name.
\<close>

definition memory_init :: "addr \<Rightarrow> addr \<Rightarrow> kernel_symbols \<Rightarrow> boot_info_t \<Rightarrow> 's kmem_scheme \<Rightarrow> ('s, unit) mres" where
  "memory_init mutex_at name k boot_info s =
     (case total_mem_size boot_info of None \<Rightarrow> Inl (Fault s) | Some mem_size \<Rightarrow>
      let mem_free = mem_free_start k;
          mem_up1MB_free = down2 (mem_size - MEM_EXT_START) MEM_PAGE_SIZE;
          bytes = bitmap_byte_count (uint (mem_up1MB_free div MEM_PAGE_SIZE))
      in case addr_alloc_init mutex_at name (load_bytes (mem s) mem_free (nat bytes)) MEM_EXT_START
                mem_up1MB_free MEM_PAGE_SIZE (paddr_alloc s) (mem s) of
           None \<Rightarrow> Inl (Fault s)
         | Some alloc \<Rightarrow>
             let s1 = s\<lparr>paddr_alloc := alloc\<rparr>
             in if mem_free + of_int bytes < MEM_EBDA_START
                then bindR (create_kernel_table k s1) (\<lambda>_ s2. Inr ((), mmu_set_page_dir (kernel_page_dir s2) s2))
                else Inl (Panic s1))"

subsection \<open>User address spaces\<close>

primrec copy_kernel_pdes :: "nat \<Rightarrow> nat \<Rightarrow> addr \<Rightarrow> addr \<Rightarrow> bytes \<Rightarrow> bytes" where
  "copy_kernel_pdes 0 i page_dir kernel_dir m = m"
| "copy_kernel_pdes (Suc n) i page_dir kernel_dir m =
     copy_kernel_pdes n (Suc i) page_dir kernel_dir
       (store32 (page_dir + of_nat i * 4) (load32 m (kernel_dir + of_nat i * 4)) m)"

definition memory_create_uvm :: "'s kmem_scheme \<Rightarrow> ('s, u32) mres" where
  "memory_create_uvm s =
     bindR (addr_alloc_page 1 s) (\<lambda>page_dir s1.
     if page_dir = 0 then Inr (0, s1)
     else let m1 = kmemset page_dir 0 MEM_PAGE_SIZE (mem s1);
              user_pde_start = unat (pde_index MEMORY_TASK_BASE);
              m2 = copy_kernel_pdes user_pde_start 0 page_dir (kernel_page_dir s1) m1
          in Inr (page_dir, s1\<lparr>mem := m2\<rparr>))"

primrec alloc_for_page_dir_loop ::
    "nat \<Rightarrow> int \<Rightarrow> addr \<Rightarrow> u32 \<Rightarrow> u32 \<Rightarrow> u32 \<Rightarrow> 's kmem_scheme \<Rightarrow> ('s, u32) mres" where
  "alloc_for_page_dir_loop 0 i page_dir vaddr curr_vaddr perm s = Inr (0, s)"
| "alloc_for_page_dir_loop (Suc n) i page_dir vaddr curr_vaddr perm s =
     bindR (addr_alloc_page 1 s) (\<lambda>paddr s1.
     if paddr = 0 then Inr (0, s1)
     else bindR (memory_create_map page_dir curr_vaddr paddr 1 perm s1) (\<lambda>err s2.
       if sint err < 0 then bindR (addr_free_page vaddr i s2) (\<lambda>_ s3. Inr (0, s3))
       else alloc_for_page_dir_loop n (i + 1) page_dir vaddr (curr_vaddr + MEM_PAGE_SIZE) perm s2))"

definition memory_alloc_for_page_dir :: "addr \<Rightarrow> u32 \<Rightarrow> u32 \<Rightarrow> u32 \<Rightarrow> 's kmem_scheme \<Rightarrow> ('s, u32) mres" where
  "memory_alloc_for_page_dir page_dir vaddr sz perm s =
     (let page_count = up2 sz MEM_PAGE_SIZE div MEM_PAGE_SIZE
      in alloc_for_page_dir_loop (unat page_count) 0 page_dir vaddr vaddr perm s)"

definition memory_alloc_page_for :: "u32 \<Rightarrow> u32 \<Rightarrow> u32 \<Rightarrow> 's kmem_scheme \<Rightarrow> ('s, u32) mres" where
  "memory_alloc_page_for vaddr sz perm s =
     memory_alloc_for_page_dir (tss_cr3 (t_tss (tasks s (task_current s)))) vaddr sz perm s"

definition curr_page_dir :: "'s kmem_scheme \<Rightarrow> addr" where
  "curr_page_dir s = tss_cr3 (t_tss (tasks s (task_current s)))"

text \<open>
  The assertion for a user address is \<^verbatim>\<open>pte == 0 && pte->present\<close>: it fails if there is an
  entry and otherwise reads through the null pointer.
\<close>

definition memory_free_page :: "u32 \<Rightarrow> 's kmem_scheme \<Rightarrow> ('s, unit) mres" where
  "memory_free_page vaddr s =
     (if vaddr < MEMORY_TASK_BASE then addr_free_page vaddr 1 s
      else bindR (find_pte (curr_page_dir s) vaddr 0 s) (\<lambda>pte s1.
        if pte = 0 then Inl (Fault s1) else Inl (Panic s1)))"

text \<open>The inner loop of \<^verbatim>\<open>memory_destroy_uvm\<close> over \<open>n\<close> page table entries from \<open>pte\<close> on.\<close>

primrec destroy_table :: "nat \<Rightarrow> addr \<Rightarrow> 's kmem_scheme \<Rightarrow> ('s, unit) mres" where
  "destroy_table 0 pte s = Inr ((), s)"
| "destroy_table (Suc n) pte s =
     (if \<not> present (load32 (mem s) pte) then destroy_table n (pte + 4) s
      else bindR (kfree (pte_paddr (load32 (mem s) pte)) s) (\<lambda>_. destroy_table n (pte + 4)))"

primrec destroy_dir :: "nat \<Rightarrow> addr \<Rightarrow> 's kmem_scheme \<Rightarrow> ('s, unit) mres" where
  "destroy_dir 0 pde s = Inr ((), s)"
| "destroy_dir (Suc n) pde s =
     (if \<not> present (load32 (mem s) pde) then destroy_dir n (pde + 4) s
      else bindR (destroy_table PTE_CNT (pde_paddr (load32 (mem s) pde)) s) (\<lambda>_ s1.
        bindR (kfree (pde_paddr (load32 (mem s1) pde)) s1) (\<lambda>_. destroy_dir n (pde + 4))))"

definition memory_destroy_uvm :: "addr \<Rightarrow> 's kmem_scheme \<Rightarrow> ('s, unit) mres" where
  "memory_destroy_uvm page_dir s =
     (let user_pde_start = unat (pde_index page_dir);
          pde = page_dir + pde_index page_dir * 4
      in if page_dir = 0 then Inl (Panic s)
         else bindR (destroy_dir (PDE_CNT - user_pde_start) pde s) (\<lambda>_. kfree page_dir))"

text \<open>
  \<^verbatim>\<open>kmemcpy\<close> to a physical page from a virtual address of the current address space.
\<close>

primrec vmemcpy_loop :: "nat \<Rightarrow> addr \<Rightarrow> addr \<Rightarrow> 's kmem_scheme \<Rightarrow> ('s, unit) mres" where
  "vmemcpy_loop 0 d a s = Inr ((), s)"
| "vmemcpy_loop (Suc n) d a s =
     (case vload s a of None \<Rightarrow> Inl (Fault s)
      | Some b \<Rightarrow> vmemcpy_loop n (d + 1) (a + 1) (s\<lparr>mem := (mem s)(d := b)\<rparr>))"

definition kmemcpy_virt :: "addr \<Rightarrow> addr \<Rightarrow> u32 \<Rightarrow> 's kmem_scheme \<Rightarrow> ('s, unit) mres" where
  "kmemcpy_virt dest src sz s =
     (if dest = 0 \<or> src = 0 \<or> sz = 0 then Inr ((), s) else vmemcpy_loop (unat sz) dest src s)"

text \<open>
  The two loops of \<^verbatim>\<open>memory_copy_uvm\<close> and \<^verbatim>\<open>memory_copy_uvm2\<close>, over the page tables and
  over the entries of one; the result tells whether they got through (\<open>False\<close>: go to the failure
  label). \<open>i\<close> and \<open>j\<close> are the indices in the directory and in the table.
\<close>

primrec copy_table :: "nat \<Rightarrow> u32 \<Rightarrow> u32 \<Rightarrow> addr \<Rightarrow> addr \<Rightarrow> 's kmem_scheme \<Rightarrow> ('s, bool) mres" where
  "copy_table 0 i j pte to s = Inr (True, s)"
| "copy_table (Suc n) i j pte to s =
     (if \<not> present (load32 (mem s) pte) then copy_table n i (j + 1) (pte + 4) to s
      else bindR (addr_alloc_page 1 s) (\<lambda>page s1.
        if page = 0 then Inr (False, s1)
        else let vaddr = push_bit 22 i OR push_bit 12 j
             in bindR (memory_create_map to vaddr page 1 (get_pte_perm (load32 (mem s1) pte)) s1) (\<lambda>err s2.
                  if sint err < 0 then Inr (False, s2)
                  else bindR (kmemcpy_virt page vaddr MEM_PAGE_SIZE s2) (\<lambda>_.
                    copy_table n i (j + 1) (pte + 4) to))))"

primrec copy_dir :: "nat \<Rightarrow> u32 \<Rightarrow> addr \<Rightarrow> addr \<Rightarrow> 's kmem_scheme \<Rightarrow> ('s, bool) mres" where
  "copy_dir 0 i pde to s = Inr (True, s)"
| "copy_dir (Suc n) i pde to s =
     (if \<not> present (load32 (mem s) pde) then copy_dir n (i + 1) (pde + 4) to s
      else bindR (copy_table PTE_CNT i 0 (pde_paddr (load32 (mem s) pde)) to s) (\<lambda>ok s1.
        if ok then copy_dir n (i + 1) (pde + 4) to s1 else Inr (False, s1)))"

definition copy_user_pages :: "addr \<Rightarrow> addr \<Rightarrow> 's kmem_scheme \<Rightarrow> ('s, bool) mres" where
  "copy_user_pages from to s =
     (let user_pde_start = pde_index MEMORY_TASK_BASE
      in copy_dir (PDE_CNT - unat user_pde_start) user_pde_start (from + user_pde_start * 4) to s)"

definition memory_copy_uvm :: "addr \<Rightarrow> 's kmem_scheme \<Rightarrow> ('s, u32) mres" where
  "memory_copy_uvm page_dir s =
     bindR (memory_create_uvm s) (\<lambda>to_page_dir s1.
     if to_page_dir = 0 then Inr (-1, s1)
     else bindR (copy_user_pages page_dir to_page_dir s1) (\<lambda>ok s2.
       if ok then Inr (to_page_dir, s2)
       else bindR (memory_destroy_uvm to_page_dir s2) (\<lambda>_ s3. Inr (-1, s3))))"

definition memory_copy_uvm2 :: "addr \<Rightarrow> addr \<Rightarrow> 's kmem_scheme \<Rightarrow> ('s, u32) mres" where
  "memory_copy_uvm2 from to s =
     (if to = 0 then Inr (-1, s)
      else bindR (copy_user_pages from to s) (\<lambda>ok s2.
        if ok then Inr (to, s2)
        else bindR (memory_destroy_uvm to s2) (\<lambda>_ s3. Inr (-1, s3))))"

definition memory_get_paddr :: "addr \<Rightarrow> u32 \<Rightarrow> 's kmem_scheme \<Rightarrow> ('s, u32) mres" where
  "memory_get_paddr page_dir vaddr s =
     bindR (find_pte page_dir vaddr 0 s) (\<lambda>pte s1.
     if pte = 0 then Inr (0, s1)
     else Inr (pte_paddr (load32 (mem s1) pte) + (vaddr AND (MEM_PAGE_SIZE - 1)), s1))"

definition page_chunk :: "u32 \<Rightarrow> u32 \<Rightarrow> u32" where
  "page_chunk to_paddr sz =
     (let curr_size = MEM_PAGE_SIZE - (to_paddr AND (MEM_PAGE_SIZE - 1))
      in if sz < curr_size then sz else curr_size)"

lemma page_chunk_le: "page_chunk p sz \<le> sz" and page_chunk_pos: "sz \<noteq> 0 \<Longrightarrow> page_chunk p sz \<noteq> 0"
proof -
  have lit: "(4095 :: u32) = mask 12" by (simp add: mask_eq_exp_minus_1)
  have "p AND 4095 = take_bit 12 p" unfolding lit by (simp only: take_bit_eq_mask)
  then have "unat (p AND 4095) < 4096"
    using take_bit_nat_less_exp [of 12 "unat p"] by (simp add: unsigned_take_bit_eq)
  then have "(4096 :: u32) - (p AND 4095) \<noteq> 0"
    by auto
  then show "page_chunk p sz \<le> sz" "sz \<noteq> 0 \<Longrightarrow> page_chunk p sz \<noteq> 0"
    by (auto simp: page_chunk_def MEM_PAGE_SIZE_def Let_def not_less)
qed

function memory_copy_uvm_data :: "u32 \<Rightarrow> addr \<Rightarrow> u32 \<Rightarrow> u32 \<Rightarrow> 's kmem_scheme \<Rightarrow> ('s, u32) mres" where
  "memory_copy_uvm_data to page_dir from sz s =
     (if sz = 0 then Inr (0, s)
      else case memory_get_paddr page_dir to s of
          Inl e \<Rightarrow> Inl e
        | Inr (to_paddr, s1) \<Rightarrow>
            if to_paddr = 0 then Inr (-1, s1)
            else let curr_size = page_chunk to_paddr sz
                 in case kmemcpy_virt to_paddr from curr_size s1 of
                      Inl e \<Rightarrow> Inl e
                    | Inr (_, s2) \<Rightarrow>
                        memory_copy_uvm_data (to + curr_size) page_dir (from + curr_size) (sz - curr_size) s2)"
  by pat_completeness auto

termination
proof (relation "measure (\<lambda>(to, dir, from, sz, s). unat sz)", simp, goal_cases)
  case (1 t dir f sz s x p s1 c x2 u s2)
  then have "c \<le> sz" "c \<noteq> 0" using page_chunk_le page_chunk_pos by auto
  then have "unat (sz - c) < unat sz"
    by (simp add: unat_sub word_le_nat_alt) (metis diff_less unat_gt_0 le_zero_eq word_gt_0 not_gr_zero)
  then show ?case by simp
qed

declare memory_copy_uvm_data.simps [simp del]

subsection \<open>Pages and words\<close>

definition page_aligned :: "addr \<Rightarrow> bool" where
  "page_aligned p \<longleftrightarrow> 4096 dvd unat p"

text \<open>The page of an address, as a number.\<close>

definition page_no :: "addr \<Rightarrow> nat" where
  "page_no a = unat a div 4096"

lemma unat_u32_bound: "unat (a :: u32) < 2 ^ 32"
  using unsigned_less [of a] by simp

lemma page_aligned_bound:
  assumes "page_aligned p" "n < 4096"
  shows "unat p + n < 2 ^ 32"
proof -
  obtain k where k: "unat p = 4096 * k" using assms(1) by (auto simp: page_aligned_def elim: dvdE)
  then have "k < 2 ^ 20" using unat_u32_bound [of p] by simp
  then show ?thesis using assms(2) k by simp
qed

lemma page_no_eq: "page_aligned p \<Longrightarrow> page_aligned q \<Longrightarrow> page_no p = page_no q \<longleftrightarrow> p = q"
  by (auto simp: page_aligned_def page_no_def word_unat_eq_iff elim!: dvdE)

lemma page_no_offset: "page_aligned p \<Longrightarrow> n < 4096 \<Longrightarrow> page_no (p + of_nat n) = page_no p"
  using page_aligned_bound [of p n] unat_add_lt [of p n]
  by (auto simp: page_no_def page_aligned_def elim!: dvdE)

lemma page_region: "page_aligned p \<Longrightarrow> x \<in> region p 4096 \<longleftrightarrow> page_no x = page_no p"
proof
  assume p: "page_aligned p" and "page_no x = page_no p"
  then have "unat x = unat p + unat x mod 4096"
    by (auto simp: page_no_def page_aligned_def elim!: dvdE)
  from arg_cong [OF this, of "of_nat :: nat \<Rightarrow> u32"]
  have "x = p + of_nat (unat x mod 4096)" by simp
  then show "x \<in> region p 4096" by (metis in_regionI mod_less_divisor zero_less_numeral)
qed (auto simp: region_def page_no_offset)

text \<open>The words of a page.\<close>

definition page_word :: "addr \<Rightarrow> nat \<Rightarrow> addr" where
  "page_word p i = p + of_nat i * 4"

lemma unat_page_word: "page_aligned p \<Longrightarrow> i < 1024 \<Longrightarrow> unat (page_word p i) = unat p + 4 * i"
  using unat_add_lt [of p "4 * i"] page_aligned_bound [of p "4 * i"] by (simp add: page_word_def mult.commute)

lemma page_word_aligned [simp]: "page_aligned p \<Longrightarrow> i < 1024 \<Longrightarrow> word_aligned (page_word p i)"
  by (auto simp: word_aligned_mod unat_page_word page_aligned_def elim!: dvdE)

lemma page_no_page_word: "page_aligned p \<Longrightarrow> i < 1024 \<Longrightarrow> page_no (page_word p i) = page_no p"
  by (auto simp: page_no_def unat_page_word page_aligned_def elim!: dvdE)

lemma page_word_eq:
  assumes "page_aligned p" "page_aligned q" "i < 1024" "j < 1024"
  shows "page_word p i = page_word q j \<longleftrightarrow> p = q \<and> i = j"
proof
  assume eq: "page_word p i = page_word q j"
  then have "p = q" using page_no_page_word assms page_no_eq by metis
  moreover have "unat (page_word p i) = unat (page_word q j)" using eq by simp
  ultimately show "p = q \<and> i = j" using unat_page_word assms by simp
qed simp

lemma page_word_region: "page_aligned p \<Longrightarrow> i < 1024 \<Longrightarrow> x \<in> region (page_word p i) 4 \<Longrightarrow> page_no x = page_no p"
proof -
  assume a: "page_aligned p" "i < 1024" "x \<in> region (page_word p i) 4"
  then obtain k where k: "k < 4" "x = page_word p i + of_nat k" by (auto simp: region_def)
  then have "x = p + of_nat (4 * i + k)" by (simp add: page_word_def algebra_simps)
  then show ?thesis using page_no_offset [OF a(1), of "4 * i + k"] a(2) k(1) by simp
qed

lemma store_page_word_other:
  "page_aligned p \<Longrightarrow> i < 1024 \<Longrightarrow> page_no x \<noteq> page_no p \<Longrightarrow> store32 (page_word p i) v m x = m x"
  using page_word_region [of p i x] by (intro store32_other) auto

lemma load_page_word_cong:
  "page_aligned p \<Longrightarrow> i < 1024 \<Longrightarrow> (\<And>x. page_no x = page_no p \<Longrightarrow> m x = m' x) \<Longrightarrow>
   load32 m (page_word p i) = load32 m' (page_word p i)"
  using page_word_region [of p i] by (intro load32_cong) auto

text \<open>A cleared page.\<close>

definition clear_page :: "addr \<Rightarrow> bytes \<Rightarrow> bytes" where
  "clear_page p m = kmemset p 0 MEM_PAGE_SIZE m"

lemma clear_page_eq:
  assumes "page_aligned p" "p \<noteq> 0"
  shows "clear_page p m x = (if page_no x = page_no p then 0 else m x)"
proof -
  have n: "unat (4096 :: u32) = 4096" by simp
  have e: "clear_page p m = store_bytes p (replicate 4096 0) m"
    using assms(2) by (simp add: clear_page_def kmemset_def kmemset_loop_eq MEM_PAGE_SIZE_def)
  show ?thesis
  proof (cases "page_no x = page_no p")
    case True
    then obtain i where "i < 4096" "x = p + of_nat i"
      using page_region [OF assms(1), of x] by (auto simp: region_def)
    then show ?thesis using True store_bytes_nth [of i "replicate 4096 0" p m] by (simp add: e)
  next
    case False
    then show ?thesis using page_region [OF assms(1), of x] store_bytes_other [of x p "replicate 4096 0" m]
      by (simp add: e)
  qed
qed

lemma load_clear_page:
  assumes "page_aligned p" "p \<noteq> 0" "page_aligned q" "i < 1024"
  shows "load32 (clear_page p m) (page_word q i) = (if p = q then 0 else load32 m (page_word q i))"
proof (cases "p = q")
  case True
  have "load32 (clear_page p m) (page_word q i) = load32 (\<lambda>_. 0) (page_word q i)"
    using assms True by (intro load_page_word_cong) (simp_all add: clear_page_eq)
  with True show ?thesis by (simp add: load32_def)
next
  case False
  then have "page_no p \<noteq> page_no q" using assms page_no_eq by blast
  then show ?thesis using False assms load_page_word_cong [of q i "clear_page p m" m]
    by (auto simp: clear_page_eq)
qed

subsection \<open>Indices and frame addresses\<close>

lemma unat_pde_index: "unat (pde_index va) = page_no va div 1024"
proof -
  have "unat (drop_bit 22 va) = unat va div 2 ^ 22" by (simp add: drop_bit_eq_div unat_div_distrib)
  then show ?thesis by (simp add: pde_index_def page_no_def div_mult2_eq [symmetric])
qed

lemma unat_pte_index: "unat (pte_index va) = page_no va mod 1024"
proof -
  have lit: "(0x3ff :: u32) = mask 10" by (simp add: mask_eq_exp_minus_1)
  have "pte_index va = take_bit 10 (drop_bit 12 va)"
    unfolding pte_index_def lit by (simp only: take_bit_eq_mask)
  then have "unat (pte_index va) = take_bit 10 (unat (drop_bit 12 va))"
    by (simp add: unsigned_take_bit_eq)
  also have "unat (drop_bit 12 va) = page_no va"
    by (simp add: drop_bit_eq_div unat_div_distrib page_no_def)
  finally show ?thesis by (simp add: take_bit_eq_mod)
qed

lemma page_no_bound: "page_no va < 2 ^ 20"
  using unat_u32_bound [of va] by (simp add: page_no_def)

lemma pde_index_word: "dir + pde_index va * 4 = page_word dir (page_no va div 1024)"
  by (simp add: page_word_def flip: unat_pde_index)

lemma pte_index_word: "t + pte_index va * 4 = page_word t (page_no va mod 1024)"
  by (simp add: page_word_def flip: unat_pte_index)

lemma pde_no_lt: "page_no va div 1024 < 1024"
  using page_no_bound [of va] by simp

lemma frame_aligned [simp]: "page_aligned (push_bit 12 (drop_bit 12 v))"
proof -
  have "push_bit 12 (drop_bit 12 v) = (v div 4096) * 4096"
    by (simp add: push_bit_eq_mult drop_bit_eq_div)
  moreover have "unat ((v div 4096) * 4096 :: u32) = (unat v div 4096) * 4096"
  proof -
    have "unat v div 4096 * 4096 < 2 ^ 32" using unat_u32_bound [of v] by linarith
    then show ?thesis by (simp add: unat_word_ariths unat_div_distrib)
  qed
  ultimately show ?thesis by (simp add: page_aligned_def)
qed

lemma paddr_aligned [simp]: "page_aligned (pde_paddr v)" "page_aligned (pte_paddr v)"
  by (simp_all add: pde_paddr_def pte_paddr_def)

subsection \<open>The page allocator as a pool of frames\<close>

text \<open>
  The frames of an allocator, those that are available, and its well-formedness: the frames are
  4 KiB pages above address 0 and below the user space, and the mutex is free.
\<close>

definition frame :: "addr_alloc_t \<Rightarrow> nat \<Rightarrow> addr" where
  "frame al k = aa_start al + of_nat k * 4096"

definition frames :: "addr_alloc_t \<Rightarrow> addr set" where
  "frames al = frame al ` {k. int k < bit_count (aa_bitmap al)}"

definition avail :: "addr_alloc_t \<Rightarrow> addr set" where
  "avail al = frame al ` {k. int k < bit_count (aa_bitmap al) \<and> \<not> bm_bit (aa_bitmap al) k}"

definition alloc_wf :: "addr_alloc_t \<Rightarrow> bool" where
  "alloc_wf al \<longleftrightarrow> bitmap_wf (aa_bitmap al) \<and> aa_page_size al = 4096 \<and> page_aligned (aa_start al)
     \<and> aa_start al \<noteq> 0 \<and> unat (aa_start al) + 4096 * nat (bit_count (aa_bitmap al)) \<le> 2 ^ 31
     \<and> mutex_free (aa_mutex al)"

lemma unat_frame:
  assumes "alloc_wf al" "int k < bit_count (aa_bitmap al)"
  shows "unat (frame al k) = unat (aa_start al) + 4096 * k"
proof -
  have "unat (aa_start al) + 4096 * k < 2 ^ 32"
    using assms zless_nat_eq_int_zless [of k "bit_count (aa_bitmap al)"] by (simp add: alloc_wf_def)
  then show ?thesis using unat_add_lt [of "aa_start al" "4096 * k"] by (simp add: frame_def mult.commute)
qed

lemma frame_inj:
  assumes "alloc_wf al" "int k < bit_count (aa_bitmap al)" "int j < bit_count (aa_bitmap al)"
  shows "frame al k = frame al j \<longleftrightarrow> k = j"
proof
  assume "frame al k = frame al j"
  then have "unat (aa_start al) + 4096 * k = unat (aa_start al) + 4096 * j"
    using unat_frame [OF assms(1,2)] unat_frame [OF assms(1,3)] by metis
  then show "k = j" by simp
qed simp

lemma avail_frames: "avail al \<subseteq> frames al"
  by (auto simp: avail_def frames_def)

lemma frames_valid:
  assumes "alloc_wf al" "p \<in> frames al"
  shows "page_aligned p" and "p \<noteq> 0" and "p < MEMORY_TASK_BASE"
proof -
  obtain k where k: "int k < bit_count (aa_bitmap al)" "p = frame al k" using assms(2) by (auto simp: frames_def)
  note u = unat_frame [OF assms(1) k(1)]
  have s: "page_aligned (aa_start al)" "aa_start al \<noteq> 0"
    "unat (aa_start al) + 4096 * nat (bit_count (aa_bitmap al)) \<le> 2 ^ 31"
    using assms(1) by (auto simp: alloc_wf_def)
  show "page_aligned p" using u k(2) s(1) by (simp add: page_aligned_def)
  have "0 < unat (aa_start al)" using s(2) by (simp add: unat_gt_0)
  then have "unat p \<noteq> 0" using u k(2) by simp
  then show "p \<noteq> 0" by auto
  have "unat p < 2 ^ 31" using u k s(3) zless_nat_eq_int_zless [of k "bit_count (aa_bitmap al)"] by simp
  then show "p < MEMORY_TASK_BASE" by (simp add: MEMORY_TASK_BASE_def word_less_nat_alt)
qed

lemma paddr_lock_free:
  assumes "mutex_free (aa_mutex (paddr_alloc s))"
  obtains mx where "paddr_lock s = Inr ((), upd_alloc (aa_mutex_update (\<lambda>_. mx)) s)"
    "mutex_held_by mx (curr_task s)"
  using mtx.acquire_free [OF assms, of s]
  by (cases "mutex_acquire (aa_mutex (paddr_alloc s)) s") (auto simp: paddr_lock_def)

lemma paddr_unlock_held:
  assumes "mutex_held_by (aa_mutex (paddr_alloc s)) (curr_task s)"
  obtains mx where "paddr_unlock s = Inr ((), upd_alloc (aa_mutex_update (\<lambda>_. mx)) s)" "mutex_free mx"
  using mtx.release_held [OF assms]
  by (cases "mutex_release (aa_mutex (paddr_alloc s)) s") (auto simp: paddr_unlock_def)

text \<open>A bitmap with one bit changed is an allocator with one frame taken or given back.\<close>

lemma alloc_wf_write:
  fixes v :: bool
  assumes "alloc_wf al" "int k < bit_count (aa_bitmap al)" "mutex_free mx"
  defines "al' \<equiv> al\<lparr>aa_mutex := mx, aa_bitmap := bm_write (aa_bitmap al) k v\<rparr>"
  shows "alloc_wf al'" and "frames al' = frames al"
    and "avail al' = (if v then avail al - {frame al k} else insert (frame al k) (avail al))"
proof -
  have fr: "frame al' = frame al" by (simp add: frame_def al'_def fun_eq_iff)
  have wf: "bitmap_wf (aa_bitmap al)" using assms(1) by (simp add: alloc_wf_def)
  then have "k div 8 < length (bits (aa_bitmap al))" using assms(2) by (auto simp: bitmap_wf_def)
  then have b: "bm_bit (aa_bitmap al') j = (if j = k then v else bm_bit (aa_bitmap al) j)" for j
    by (simp add: al'_def bm_bit_bm_write)
  show "alloc_wf al'" using assms(1,3) by (simp add: alloc_wf_def al'_def)
  show "frames al' = frames al" unfolding frames_def fr by (simp add: al'_def)
  have c: "bit_count (aa_bitmap al') = bit_count (aa_bitmap al)" by (simp add: al'_def)
  have inj: "frame al j = frame al k \<longleftrightarrow> j = k" if "int j < bit_count (aa_bitmap al)" for j
    using frame_inj [OF assms(1) that assms(2)] .
  show "avail al' = (if v then avail al - {frame al k} else insert (frame al k) (avail al))"
    unfolding avail_def fr b c using inj assms(2) by (auto simp: image_iff)
qed

lemma addr_alloc_page_full:
  assumes "alloc_wf (paddr_alloc s)" "avail (paddr_alloc s) = {}"
  obtains al where "addr_alloc_page 1 s = Inr (0, s\<lparr>paddr_alloc := al\<rparr>)" "alloc_wf al"
    "frames al = frames (paddr_alloc s)" "avail al = {}"
proof -
  let ?al = "paddr_alloc s"
  have wf: "bitmap_wf (aa_bitmap ?al)" "mutex_free (aa_mutex ?al)" using assms(1) by (auto simp: alloc_wf_def)
  obtain mx where l: "paddr_lock s = Inr ((), upd_alloc (aa_mutex_update (\<lambda>_. mx)) s)"
    "mutex_held_by mx (curr_task s)" using paddr_lock_free [OF wf(2)] by blast
  let ?s1 = "upd_alloc (aa_mutex_update (\<lambda>_. mx)) s"
  have full: "bitmap_alloc_nbits (aa_bitmap (paddr_alloc ?s1)) 0 1 = Some (-1, aa_bitmap ?al)"
    using bitmap_alloc_one_full [OF wf(1)] assms(2) by (auto simp: avail_def upd_alloc_def)
  have s1: "upd_alloc (aa_bitmap_update (\<lambda>_. aa_bitmap ?al)) ?s1 = ?s1" by (simp add: upd_alloc_def)
  obtain mx2 where u: "paddr_unlock ?s1 = Inr ((), upd_alloc (aa_mutex_update (\<lambda>_. mx2)) ?s1)" "mutex_free mx2"
    using paddr_unlock_held [of ?s1] l(2) by (auto simp: upd_alloc_def)
  let ?al' = "?al\<lparr>aa_mutex := mx2\<rparr>"
  have fr: "frame ?al' = frame ?al" by (simp add: frame_def fun_eq_iff)
  show thesis
  proof (rule that [of ?al'])
    show "addr_alloc_page 1 s = Inr (0, s\<lparr>paddr_alloc := ?al'\<rparr>)"
      using l(1) u(1) full s1 by (simp add: addr_alloc_page_def Let_def) (simp add: upd_alloc_def)
    show "alloc_wf ?al'" using assms(1) u(2) by (simp add: alloc_wf_def)
    show "frames ?al' = frames ?al" "avail ?al' = {}" using assms(2) by (simp_all add: frames_def avail_def fr)
  qed
qed

lemma addr_alloc_page_some:
  assumes "alloc_wf (paddr_alloc s)" "avail (paddr_alloc s) \<noteq> {}"
  obtains p al where "addr_alloc_page 1 s = Inr (p, s\<lparr>paddr_alloc := al\<rparr>)" "p \<in> avail (paddr_alloc s)"
    "alloc_wf al" "frames al = frames (paddr_alloc s)" "avail al = avail (paddr_alloc s) - {p}"
proof -
  let ?al = "paddr_alloc s"
  have wf: "bitmap_wf (aa_bitmap ?al)" "mutex_free (aa_mutex ?al)" "aa_page_size ?al = 4096"
    using assms(1) by (auto simp: alloc_wf_def)
  obtain k where k: "first_free (aa_bitmap ?al) k"
    using assms(2) first_free_exists by (auto simp: avail_def)
  then have kb: "int k < bit_count (aa_bitmap ?al)" "\<not> bm_bit (aa_bitmap ?al) k" by (auto simp: first_free_def)
  obtain mx where l: "paddr_lock s = Inr ((), upd_alloc (aa_mutex_update (\<lambda>_. mx)) s)"
    "mutex_held_by mx (curr_task s)" using paddr_lock_free [OF wf(2)] by blast
  let ?s1 = "upd_alloc (aa_mutex_update (\<lambda>_. mx)) s"
  let ?bm = "bm_write (aa_bitmap ?al) k True"
  have got: "bitmap_alloc_nbits (aa_bitmap (paddr_alloc ?s1)) 0 1 = Some (int k, ?bm)"
    using bitmap_alloc_one_free [OF wf(1) k] by (simp add: upd_alloc_def)
  let ?s2 = "upd_alloc (aa_bitmap_update (\<lambda>_. ?bm)) ?s1"
  obtain mx2 where u: "paddr_unlock ?s2 = Inr ((), upd_alloc (aa_mutex_update (\<lambda>_. mx2)) ?s2)" "mutex_free mx2"
    using paddr_unlock_held [of ?s2] l(2) by (auto simp: upd_alloc_def)
  let ?al' = "?al\<lparr>aa_mutex := mx2, aa_bitmap := ?bm\<rparr>"
  note w = alloc_wf_write [OF assms(1) kb(1) u(2), of True]
  show thesis
  proof (rule that [of "frame ?al k" ?al'])
    show "addr_alloc_page 1 s = Inr (frame ?al k, s\<lparr>paddr_alloc := ?al'\<rparr>)"
      using l(1) u(1) got wf(3)
      by (simp add: addr_alloc_page_def Let_def) (simp add: upd_alloc_def frame_def)
    show "frame ?al k \<in> avail ?al" using kb by (auto simp: avail_def)
  qed (use w in auto)
qed

lemma addr_free_page_frame:
  assumes "alloc_wf (paddr_alloc s)" "p \<in> frames (paddr_alloc s)"
  obtains al where "addr_free_page p 1 s = Inr ((), s\<lparr>paddr_alloc := al\<rparr>)" "alloc_wf al"
    "frames al = frames (paddr_alloc s)" "avail al = insert p (avail (paddr_alloc s))"
proof -
  let ?al = "paddr_alloc s"
  have wf: "bitmap_wf (aa_bitmap ?al)" "mutex_free (aa_mutex ?al)" "aa_page_size ?al = 4096"
    "unat (aa_start ?al) + 4096 * nat (bit_count (aa_bitmap ?al)) \<le> 2 ^ 31"
    using assms(1) by (auto simp: alloc_wf_def)
  obtain k where k: "int k < bit_count (aa_bitmap ?al)" "p = frame ?al k" using assms(2) by (auto simp: frames_def)
  have idx: "sint ((p - aa_start ?al) div aa_page_size ?al) = int k"
  proof -
    have "k < 2 ^ 19" using k(1) wf(4) zless_nat_eq_int_zless [of k "bit_count (aa_bitmap (paddr_alloc s))"] by simp
    then have "unat (of_nat k * 4096 :: u32) = k * 4096" by (simp add: unat_word_ariths unat_of_nat)
    then have "unat ((of_nat k * 4096 :: u32) div 4096) = k" by (simp add: unat_div_distrib)
    from arg_cong [OF this, of "of_nat :: nat \<Rightarrow> u32"]
    have "(of_nat k * 4096 :: u32) div 4096 = of_nat k" by simp
    then show ?thesis using \<open>k < 2 ^ 19\<close> sint_of_nat_u32 [of k] by (simp add: k(2) frame_def wf(3))
  qed
  obtain mx where l: "paddr_lock s = Inr ((), upd_alloc (aa_mutex_update (\<lambda>_. mx)) s)"
    "mutex_held_by mx (curr_task s)" using paddr_lock_free [OF wf(2)] by blast
  let ?s1 = "upd_alloc (aa_mutex_update (\<lambda>_. mx)) s"
  let ?bm = "bm_write (aa_bitmap ?al) k False"
  let ?s2 = "upd_alloc (aa_bitmap_update (\<lambda>_. ?bm)) ?s1"
  obtain mx2 where u: "paddr_unlock ?s2 = Inr ((), upd_alloc (aa_mutex_update (\<lambda>_. mx2)) ?s2)" "mutex_free mx2"
    using paddr_unlock_held [of ?s2] l(2) by (auto simp: upd_alloc_def)
  have set: "bitmap_set_bit (aa_bitmap ?al) (int k) 1 0 = Some ?bm"
    using bitmap_set_one [OF wf(1) k(1), of 0] by simp
  let ?al' = "?al\<lparr>aa_mutex := mx2, aa_bitmap := ?bm\<rparr>"
  note w = alloc_wf_write [OF assms(1) k(1) u(2), of False]
  have "addr_free_page p 1 s = Inr ((), s\<lparr>paddr_alloc := ?al'\<rparr>)"
    using l(1) u(1) set idx by (simp add: addr_free_page_def Let_def) (simp add: upd_alloc_def)
  with w k(2) show thesis by (intro that [of ?al']) auto
qed

text \<open>
  The interface of a pool of pages: \<open>own\<close> are all its pages, \<open>avl\<close> those to be had; an
  allocation takes one of them or reports \<open>nul\<close> when there is none; a release gives one back; the
  rest of the state (\<open>rest\<close>) stays.
\<close>

locale page_pool =
  fixes ok :: "'s \<Rightarrow> bool"
    and own :: "'s \<Rightarrow> 'p set"
    and avl :: "'s \<Rightarrow> 'p set"
    and alloc :: "'s \<Rightarrow> ('s, 'p) kres"
    and release :: "'p \<Rightarrow> 's \<Rightarrow> ('s, unit) kres"
    and nul :: 'p
    and rest :: "'s \<Rightarrow> 'r"
  assumes avl_own: "ok s \<Longrightarrow> avl s \<subseteq> own s"
    and nul_own: "ok s \<Longrightarrow> nul \<notin> own s"
    and alloc_none: "ok s \<Longrightarrow> avl s = {} \<Longrightarrow>
      \<exists>s'. alloc s = Inr (nul, s') \<and> ok s' \<and> own s' = own s \<and> avl s' = {} \<and> rest s' = rest s"
    and alloc_some: "ok s \<Longrightarrow> avl s \<noteq> {} \<Longrightarrow>
      \<exists>p s'. alloc s = Inr (p, s') \<and> p \<in> avl s \<and> ok s' \<and> own s' = own s \<and> avl s' = avl s - {p}
        \<and> rest s' = rest s"
    and release_own: "ok s \<Longrightarrow> p \<in> own s \<Longrightarrow>
      \<exists>s'. release p s = Inr ((), s') \<and> ok s' \<and> own s' = own s \<and> avl s' = insert p (avl s)
        \<and> rest s' = rest s"
begin

lemma alloc_total:
  assumes "ok s"
  obtains p s' where "alloc s = Inr (p, s')" "ok s'" "own s' = own s" "rest s' = rest s"
    "p = nul \<longleftrightarrow> avl s = {}" "p \<noteq> nul \<Longrightarrow> p \<in> avl s" "avl s' = avl s - {p}"
proof (cases "avl s = {}")
  case True
  with alloc_none [OF assms] that show thesis by blast
next
  case False
  then obtain p s' where "alloc s = Inr (p, s')" "p \<in> avl s" "ok s'" "own s' = own s" "avl s' = avl s - {p}"
    "rest s' = rest s"
    using alloc_some [OF assms] by blast
  moreover have "p \<noteq> nul" using calculation avl_own [OF assms] nul_own [OF assms] by blast
  ultimately show thesis using that False by blast
qed

text \<open>A page is not handed out again before it is released, and releasing it undoes the allocation.\<close>

lemma alloc_alloc_distinct:
  assumes "ok s" and "alloc s = Inr (p, s1)" and "alloc s1 = Inr (q, s2)" and "q \<noteq> nul"
  shows "p \<noteq> q"
proof -
  have "ok s1" "avl s1 = avl s - {p}" using alloc_total [OF assms(1)] assms(2) by auto
  moreover have "q \<in> avl s1" using alloc_total [OF \<open>ok s1\<close>] assms(3,4) by (metis Inr_inject prod.inject)
  ultimately show ?thesis by auto
qed

lemma alloc_release:
  assumes "ok s" and "alloc s = Inr (p, s1)" and "p \<noteq> nul"
  shows "\<exists>s2. release p s1 = Inr ((), s2) \<and> ok s2 \<and> own s2 = own s \<and> avl s2 = avl s \<and> rest s2 = rest s"
proof -
  have s1: "ok s1" "own s1 = own s" "rest s1 = rest s" "p \<in> avl s" "avl s1 = avl s - {p}"
    using alloc_total [OF assms(1)] assms(2,3) by (metis Inr_inject prod.inject)+
  then have "p \<in> own s1" using avl_own [OF assms(1)] by auto
  from release_own [OF s1(1) this] s1 show ?thesis by (auto simp: insert_absorb)
qed

end

definition alloc_rest :: "'s kmem_scheme \<Rightarrow> 's kmem_scheme" where
  "alloc_rest s = s\<lparr>paddr_alloc := \<lparr>aa_mutex = mutex_zero, aa_bitmap = \<lparr>bit_count = 0, bits = []\<rparr>,
     aa_start = 0, aa_size = 0, aa_page_size = 0\<rparr>\<rparr>"

interpretation pool: page_pool
  "\<lambda>s. alloc_wf (paddr_alloc s)" "\<lambda>s. frames (paddr_alloc s)" "\<lambda>s. avail (paddr_alloc s)"
  "addr_alloc_page 1" "\<lambda>p. addr_free_page p 1" 0 alloc_rest
proof (unfold_locales, goal_cases)
  case (1 s)
  show ?case by (rule avail_frames)
next
  case (2 s)
  then show ?case using frames_valid(2) by blast
next
  case (3 s)
  then show ?case by (rule addr_alloc_page_full) (auto simp: alloc_rest_def)
next
  case (4 s)
  then show ?case by (rule addr_alloc_page_some) (auto simp: alloc_rest_def)
next
  case (5 s p)
  then show ?case by (rule addr_free_page_frame) (auto simp: alloc_rest_def)
qed

lemma alloc_rest_eq: "alloc_rest s' = alloc_rest s \<Longrightarrow> s' = s\<lparr>paddr_alloc := paddr_alloc s'\<rparr>"
proof -
  assume a: "alloc_rest s' = alloc_rest s"
  have "s' = (alloc_rest s')\<lparr>paddr_alloc := paddr_alloc s'\<rparr>" by (simp add: alloc_rest_def)
  also have "\<dots> = (alloc_rest s)\<lparr>paddr_alloc := paddr_alloc s'\<rparr>" using a by simp
  also have "\<dots> = s\<lparr>paddr_alloc := paddr_alloc s'\<rparr>" by (simp add: alloc_rest_def)
  finally show ?thesis .
qed

subsection \<open>Page directories\<close>

text \<open>
  Entry \<open>i\<close> of a directory and the page table it points to. A directory is well-formed with
  respect to an allocator if it and its page tables are different pages, none of them available.
\<close>

definition pde_at :: "bytes \<Rightarrow> addr \<Rightarrow> nat \<Rightarrow> u32" where
  "pde_at m dir i = load32 m (page_word dir i)"

definition pt_at :: "bytes \<Rightarrow> addr \<Rightarrow> nat \<Rightarrow> addr" where
  "pt_at m dir i = pde_paddr (pde_at m dir i)"

definition has_pt :: "bytes \<Rightarrow> addr \<Rightarrow> nat \<Rightarrow> bool" where
  "has_pt m dir i \<longleftrightarrow> i < 1024 \<and> present (pde_at m dir i)"

definition dir_wf :: "bytes \<Rightarrow> addr \<Rightarrow> addr_alloc_t \<Rightarrow> bool" where
  "dir_wf m dir al \<longleftrightarrow> page_aligned dir \<and> dir \<notin> avail al
     \<and> (\<forall>i. has_pt m dir i \<longrightarrow> pt_at m dir i \<noteq> dir \<and> pt_at m dir i \<noteq> 0 \<and> pt_at m dir i \<notin> avail al)
     \<and> (\<forall>i j. has_pt m dir i \<longrightarrow> has_pt m dir j \<longrightarrow> pt_at m dir i = pt_at m dir j \<longrightarrow> i = j)"

text \<open>The page table entry of a page number, whether present or not.\<close>

definition entry :: "bytes \<Rightarrow> addr \<Rightarrow> nat \<Rightarrow> u32 option" where
  "entry m dir n = (if has_pt m dir (n div 1024)
     then let v = load32 m (page_word (pt_at m dir (n div 1024)) (n mod 1024)) in if present v then Some v else None
     else None)"

lemma pt_entry_eq: "pt_entry m dir va = entry m dir (page_no va)"
  using pde_no_lt [of va]
  by (simp add: pt_entry_def entry_def pde_index_word pte_index_word has_pt_def pde_at_def pt_at_def Let_def)

lemma pt_at_aligned [simp]: "page_aligned (pt_at m dir i)"
  by (simp add: pt_at_def)

text \<open>The pages a directory occupies; a memory change elsewhere does not change the mapping.\<close>

definition dir_pages :: "bytes \<Rightarrow> addr \<Rightarrow> nat set" where
  "dir_pages m dir = insert (page_no dir) {page_no (pt_at m dir i) | i. has_pt m dir i}"

lemma pde_at_cong:
  "page_aligned dir \<Longrightarrow> i < 1024 \<Longrightarrow> (\<And>x. page_no x = page_no dir \<Longrightarrow> m' x = m x) \<Longrightarrow> pde_at m' dir i = pde_at m dir i"
  unfolding pde_at_def using load_page_word_cong [of dir i m' m] by blast

lemma dir_cong:
  assumes "page_aligned dir" and "\<And>x. page_no x \<in> dir_pages m dir \<Longrightarrow> m' x = m x"
  shows "has_pt m' dir i = has_pt m dir i" and "i < 1024 \<Longrightarrow> pt_at m' dir i = pt_at m dir i"
    and "entry m' dir n = entry m dir n"
proof -
  have p: "pde_at m' dir i = pde_at m dir i" if "i < 1024" for i
  proof (rule pde_at_cong [OF assms(1) that])
    fix x assume "page_no x = page_no dir"
    then show "m' x = m x" by (intro assms(2)) (simp add: dir_pages_def)
  qed
  then show h: "has_pt m' dir i = has_pt m dir i" for i by (auto simp: has_pt_def)
  show t: "i < 1024 \<Longrightarrow> pt_at m' dir i = pt_at m dir i" for i using p by (simp add: pt_at_def)
  have "load32 m' (page_word (pt_at m dir (n div 1024)) (n mod 1024)) =
      load32 m (page_word (pt_at m dir (n div 1024)) (n mod 1024))" if has: "has_pt m dir (n div 1024)"
  proof (rule load_page_word_cong)
    fix x assume "page_no x = page_no (pt_at m dir (n div 1024))"
    then show "m' x = m x" using has by (intro assms(2)) (auto simp: dir_pages_def)
  qed simp_all
  then show "entry m' dir n = entry m dir n"
    using h t by (auto simp: entry_def has_pt_def)
qed

lemma dir_wf_cong:
  assumes "dir_wf m dir al" and "\<And>x. page_no x \<in> dir_pages m dir \<Longrightarrow> m' x = m x" and "avail al' \<subseteq> avail al"
  shows "dir_wf m' dir al'"
proof -
  have a: "page_aligned dir" using assms(1) by (simp add: dir_wf_def)
  note c = dir_cong(1,2) [OF a, of m m', OF assms(2)]
  have "pt_at m' dir i = pt_at m dir i" if "has_pt m dir i" for i using c(2) that by (simp add: has_pt_def)
  with c(1) assms(1,3) show ?thesis unfolding dir_wf_def by (metis subsetD)
qed

text \<open>Writing a page table entry.\<close>

lemma store_entry:
  fixes v :: u32
  assumes wf: "dir_wf m dir al" and has: "has_pt m dir (n div 1024)"
  defines "m' \<equiv> store32 (page_word (pt_at m dir (n div 1024)) (n mod 1024)) v m"
  shows "dir_wf m' dir al" and "has_pt m' dir i = has_pt m dir i"
    and "has_pt m dir i \<Longrightarrow> pt_at m' dir i = pt_at m dir i"
    and "entry m' dir k = (if k = n then (if present v then Some v else None) else entry m dir k)"
    and "page_no x \<notin> dir_pages m dir \<Longrightarrow> m' x = m x"
proof -
  let ?t = "pt_at m dir (n div 1024)"
  have a: "page_aligned dir" "?t \<noteq> dir" using wf has by (auto simp: dir_wf_def)
  have other: "m' x = m x" if "page_no x \<noteq> page_no ?t" for x
    unfolding m'_def using that by (intro store_page_word_other) auto
  have p: "pde_at m' dir i = pde_at m dir i" if "i < 1024" for i
    using a that other page_no_eq [of ?t dir] by (intro pde_at_cong) auto
  then show h: "has_pt m' dir i = has_pt m dir i" for i by (auto simp: has_pt_def)
  show t: "has_pt m dir i \<Longrightarrow> pt_at m' dir i = pt_at m dir i" for i
    using p by (simp add: pt_at_def has_pt_def)
  show "dir_wf m' dir al" using wf h t unfolding dir_wf_def by metis
  show "page_no x \<notin> dir_pages m dir \<Longrightarrow> m' x = m x" for x
    using has by (intro other) (auto simp: dir_pages_def)
  have ld: "load32 m' (page_word (pt_at m dir (k div 1024)) (k mod 1024)) =
      (if k = n then v else load32 m (page_word (pt_at m dir (k div 1024)) (k mod 1024)))"
    if "has_pt m dir (k div 1024)"
  proof -
    have "page_word ?t (n mod 1024) = page_word (pt_at m dir (k div 1024)) (k mod 1024) \<longleftrightarrow> n = k"
      using wf has that page_word_eq [of ?t "pt_at m dir (k div 1024)" "n mod 1024" "k mod 1024"]
      by (auto simp: dir_wf_def) (metis div_mult_mod_eq)
    then show ?thesis unfolding m'_def by (subst load32_store32_if) auto
  qed
  show "entry m' dir k = (if k = n then (if present v then Some v else None) else entry m dir k)"
  proof (cases "has_pt m dir (k div 1024)")
    case True
    then show ?thesis using ld h t by (simp add: entry_def Let_def)
  next
    case False
    then show ?thesis using h has by (auto simp: entry_def)
  qed
qed

text \<open>Adding an empty page table.\<close>

lemma add_table:
  assumes wf: "dir_wf m dir al" and i: "i < 1024" "\<not> has_pt m dir i"
    and p: "page_aligned p" "p \<noteq> 0" "p \<in> avail al" and al': "avail al' = avail al - {p}"
    and v: "present v" "pde_paddr v = p"
  defines "m' \<equiv> clear_page p (store32 (page_word dir i) v m)"
  shows "dir_wf m' dir al'" and "has_pt m' dir j \<longleftrightarrow> j = i \<or> has_pt m dir j"
    and "pt_at m' dir i = p" and "has_pt m dir j \<Longrightarrow> pt_at m' dir j = pt_at m dir j"
    and "entry m' dir n = entry m dir n" and "page_no x \<notin> insert (page_no p) (dir_pages m dir) \<Longrightarrow> m' x = m x"
    and "k < 1024 \<Longrightarrow> load32 m' (page_word p k) = 0"
proof -
  have a: "page_aligned dir" "p \<noteq> dir" using wf p(3) by (auto simp: dir_wf_def)
  have tb: "p \<noteq> pt_at m dir j" if "has_pt m dir j" for j using wf p(3) that by (auto simp: dir_wf_def)
  have pd: "pde_at m' dir j = (if j = i then v else pde_at m dir j)" if "j < 1024" for j
    using that a p i(1) page_word_eq [of dir dir i j] unfolding m'_def pde_at_def
    by (simp add: load_clear_page load32_store32_if)
  then show h: "has_pt m' dir j \<longleftrightarrow> j = i \<or> has_pt m dir j" for j using i(1) v(1) by (auto simp: has_pt_def)
  show ti: "pt_at m' dir i = p" using pd i(1) v(2) by (simp add: pt_at_def)
  show t: "has_pt m dir j \<Longrightarrow> pt_at m' dir j = pt_at m dir j" for j
    using pd i(2) by (auto simp: pt_at_def has_pt_def)
  show "dir_wf m' dir al'"
    using wf a h ti t tb p(2) al' unfolding dir_wf_def by (metis DiffE singletonI)
  show zero: "k < 1024 \<Longrightarrow> load32 m' (page_word p k) = 0" for k
    using p by (simp add: m'_def load_clear_page)
  show "page_no x \<notin> insert (page_no p) (dir_pages m dir) \<Longrightarrow> m' x = m x" for x
    using p a i(1) by (auto simp: m'_def clear_page_eq dir_pages_def store_page_word_other)
  have "load32 m' (page_word (pt_at m dir (n div 1024)) (n mod 1024)) =
      load32 m (page_word (pt_at m dir (n div 1024)) (n mod 1024))" if "has_pt m dir (n div 1024)"
  proof -
    have "pt_at m dir (n div 1024) \<noteq> dir" using wf that by (auto simp: dir_wf_def)
    then show ?thesis using tb [OF that] p a i(1) page_word_eq [of dir "pt_at m dir (n div 1024)" i "n mod 1024"]
      unfolding m'_def by (simp add: load_clear_page load32_store32_if)
  qed
  then show "entry m' dir n = entry m dir n"
    using h t ti zero [of "n mod 1024"] i(2) by (auto simp: entry_def Let_def present_def)
qed

lemma paddr_of_or:
  assumes "page_aligned p" "unat f < 4096"
  shows "pde_paddr (p OR f) = p" and "pte_paddr (p OR f) = p"
proof -
  have "take_bit 12 p = 0"
  proof -
    have "take_bit 12 (unat p) = 0" using assms(1) by (simp add: take_bit_eq_mod page_aligned_def)
    then have "unat (take_bit 12 p) = 0" by (simp add: unsigned_take_bit_eq)
    then show ?thesis by (simp only: unat_eq_0)
  qed
  then have low: "\<not> bit p n" if "n < 12" for n
    using that by (metis bit_0_eq bit_take_bit_iff bot_apply bot_bool_def)
  have "unat f < 2 ^ 12" using assms(2) by simp
  then have high: "\<not> bit f n" if "12 \<le> n" for n using that by (rule high_bits_zero)
  show "pde_paddr (p OR f) = p"
  proof (rule bit_eqI)
    fix n :: nat
    assume "possible_bit TYPE(u32) n"
    then show "bit (pde_paddr (p OR f)) n = bit p n"
      using low [of n] high [of n] by (cases "n < 12") (auto simp: pde_paddr_def bit_simps)
  qed
  then show "pte_paddr (p OR f) = p" by (simp add: pde_paddr_def pte_paddr_def)
qed

lemma present_or: "present (v OR PTE_P)"
  by (simp add: present_def PTE_P_def bit_or_iff)

subsection \<open>States of one address space\<close>

text \<open>
  \<open>vm_ok dir s\<close>: allocator and directory are well-formed. \<open>grows dir s s'\<close>: between the two
  states only memory and allocator changed, frames were only taken, and memory was only written in
  the pages of the directory and in the taken frames; the directory may have got taken frames as
  page tables.
\<close>

definition vm_ok :: "addr \<Rightarrow> 's kmem_scheme \<Rightarrow> bool" where
  "vm_ok dir s \<longleftrightarrow> alloc_wf (paddr_alloc s) \<and> dir_wf (mem s) dir (paddr_alloc s)"

definition taken :: "'s kmem_scheme \<Rightarrow> 's kmem_scheme \<Rightarrow> addr set" where
  "taken s s' = avail (paddr_alloc s) - avail (paddr_alloc s')"

definition grows :: "addr \<Rightarrow> 's kmem_scheme \<Rightarrow> 's kmem_scheme \<Rightarrow> bool" where
  "grows dir s s' \<longleftrightarrow> s' = s\<lparr>mem := mem s', paddr_alloc := paddr_alloc s'\<rparr>
     \<and> frames (paddr_alloc s') = frames (paddr_alloc s) \<and> avail (paddr_alloc s') \<subseteq> avail (paddr_alloc s)
     \<and> (\<forall>x. page_no x \<notin> dir_pages (mem s) dir \<union> page_no ` taken s s' \<longrightarrow> mem s' x = mem s x)
     \<and> dir_pages (mem s') dir \<subseteq> dir_pages (mem s) dir \<union> page_no ` taken s s'"

lemma grows_refl [simp]: "grows dir s s"
  by (simp add: grows_def)

lemma grows_undef: "grows dir s s' \<Longrightarrow> undef_ret s' = undef_ret s"
proof -
  assume "grows dir s s'"
  then have "s' = s\<lparr>mem := mem s', paddr_alloc := paddr_alloc s'\<rparr>" by (simp add: grows_def)
  from arg_cong [OF this, of undef_ret] show ?thesis by simp
qed

lemma grows_trans:
  assumes "grows dir s s1" "grows dir s1 s2"
  shows "grows dir s s2"
proof -
  have t: "taken s s1 \<subseteq> taken s s2" "taken s1 s2 \<subseteq> taken s s2"
    using assms by (auto simp: grows_def taken_def)
  have e1: "s1 = s\<lparr>mem := mem s1, paddr_alloc := paddr_alloc s1\<rparr>"
    and e2: "s2 = s1\<lparr>mem := mem s2, paddr_alloc := paddr_alloc s2\<rparr>"
    using assms by (auto simp: grows_def)
  have "s2 = s\<lparr>mem := mem s2, paddr_alloc := paddr_alloc s2\<rparr>"
    by (subst e2, subst e1) simp
  moreover have "mem s2 x = mem s x" if "page_no x \<notin> dir_pages (mem s) dir \<union> page_no ` taken s s2" for x
  proof -
    have "page_no x \<notin> dir_pages (mem s) dir \<union> page_no ` taken s s1" using that t(1) by auto
    moreover have "page_no x \<notin> dir_pages (mem s1) dir \<union> page_no ` taken s1 s2"
      using that t assms(1) unfolding grows_def by blast
    ultimately show ?thesis using assms by (simp add: grows_def)
  qed
  moreover have "dir_pages (mem s2) dir \<subseteq> dir_pages (mem s) dir \<union> page_no ` taken s s2"
    using assms t unfolding grows_def by blast
  moreover have "frames (paddr_alloc s2) = frames (paddr_alloc s)"
    "avail (paddr_alloc s2) \<subseteq> avail (paddr_alloc s)"
    using assms unfolding grows_def by auto
  ultimately show ?thesis unfolding grows_def by blast
qed

lemma page_word_nonzero: "page_aligned t \<Longrightarrow> t \<noteq> 0 \<Longrightarrow> i < 1024 \<Longrightarrow> page_word t i \<noteq> 0"
  using unat_page_word [of t i] unat_gt_0 [of t] by auto

lemma find_pte_has:
  assumes "has_pt (mem s) dir (page_no va div 1024)"
  shows "find_pte dir va al s =
    Inr (page_word (pt_at (mem s) dir (page_no va div 1024)) (page_no va mod 1024), s)"
  using assms by (simp add: find_pte_def pde_index_word pte_index_word has_pt_def pde_at_def pt_at_def Let_def)

lemma find_pte_lookup:
  "find_pte dir va 0 s = Inr (if has_pt (mem s) dir (page_no va div 1024)
     then page_word (pt_at (mem s) dir (page_no va div 1024)) (page_no va mod 1024) else 0, s)"
  using pde_no_lt [of va]
  by (simp add: find_pte_def pde_index_word pte_index_word has_pt_def pde_at_def pt_at_def Let_def)

lemma find_pte_alloc:
  assumes "vm_ok dir s"
  shows "\<exists>pte s'. find_pte dir va 1 s = Inr (pte, s') \<and> grows dir s s' \<and> vm_ok dir s'
    \<and> (\<forall>n. entry (mem s') dir n = entry (mem s) dir n)
    \<and> (if pte = 0 then avail (paddr_alloc s') = {}
       else has_pt (mem s') dir (page_no va div 1024)
         \<and> pte = page_word (pt_at (mem s') dir (page_no va div 1024)) (page_no va mod 1024))"
proof -
  let ?i = "page_no va div 1024"
  have aw: "alloc_wf (paddr_alloc s)" and dw: "dir_wf (mem s) dir (paddr_alloc s)"
    using assms by (auto simp: vm_ok_def)
  show ?thesis
  proof (cases "has_pt (mem s) dir ?i")
    case True
    then have "pt_at (mem s) dir ?i \<noteq> 0" using dw by (auto simp: dir_wf_def)
    then show ?thesis using True find_pte_has [OF True] assms page_word_nonzero by auto
  next
    case False
    obtain p s1 where a: "addr_alloc_page 1 s = Inr (p, s1)" "alloc_wf (paddr_alloc s1)"
      "frames (paddr_alloc s1) = frames (paddr_alloc s)" "alloc_rest s1 = alloc_rest s"
      "p = 0 \<longleftrightarrow> avail (paddr_alloc s) = {}" "p \<noteq> 0 \<Longrightarrow> p \<in> avail (paddr_alloc s)"
      "avail (paddr_alloc s1) = avail (paddr_alloc s) - {p}"
      using pool.alloc_total [OF aw] by metis
    note s1 = alloc_rest_eq [OF a(4)]
    have m1: "mem s1 = mem s" using arg_cong [OF s1, of mem] by simp
    have np: "\<not> present (load32 (mem s) (page_word dir ?i))"
      using False pde_no_lt [of va] by (simp add: has_pt_def pde_at_def)
    show ?thesis
    proof (cases "p = 0")
      case True
      then have "find_pte dir va 1 s = Inr (0, s1)"
        using a(1) np by (simp add: find_pte_def pde_index_word Let_def)
      moreover have "grows dir s s1"
        using s1 a m1 True by (simp add: grows_def taken_def)
      moreover have "vm_ok dir s1" using a(2,7) dw m1 True by (simp add: vm_ok_def dir_wf_def)
      ultimately show ?thesis using a(5,7) True m1 by auto
    next
      case p: False
      let ?v = "p OR PDE_P OR PTE_W OR PTE_U"
      let ?m = "clear_page p (store32 (page_word dir ?i) ?v (mem s))"
      let ?s = "s1\<lparr>mem := ?m\<rparr>"
      have pv: "page_aligned p" using frames_valid(1) [OF aw] a(6) p avail_frames by blast
      have f: "find_pte dir va 1 s = Inr (page_word p (page_no va mod 1024), ?s)"
        using a(1) np p m1
        by (simp add: find_pte_def pde_index_word pte_index_word Let_def store_word_def clear_page_def)
      have v: "present ?v" "pde_paddr ?v = p"
        using paddr_of_or(1) [OF pv, of 7] by (simp_all add: present_def mem_consts bit_or_iff or.assoc)
      note t = add_table [OF dw pde_no_lt [of va] False pv p a(6) [OF p] a(7) v]
      have "taken s ?s = {p}" using a(6) [OF p] a(7) by (auto simp: taken_def)
      moreover have "?s = s\<lparr>mem := ?m, paddr_alloc := paddr_alloc s1\<rparr>" by (subst s1) simp
      moreover have "dir_pages ?m dir \<subseteq> insert (page_no p) (dir_pages (mem s) dir)"
        using t(2,3,4) by (auto simp: dir_pages_def)
      ultimately have g: "grows dir s ?s"
        using a(3,7) t(6) by (auto simp: grows_def)
      have "vm_ok dir ?s" using a(2) t(1) by (simp add: vm_ok_def)
      then show ?thesis using f g t(2,3,5) page_word_nonzero [OF pv p, of "page_no va mod 1024"]
        by (intro exI [of _ "page_word p (page_no va mod 1024)"] exI [of _ ?s]) simp
    qed
  qed
qed

lemma page_no_next: "Suc (page_no va) < 2 ^ 20 \<Longrightarrow> page_no (va + MEM_PAGE_SIZE) = Suc (page_no va)"
proof -
  assume a: "Suc (page_no va) < 2 ^ 20"
  have "unat va < 4096 * (page_no va + 1)" by (simp add: page_no_def)
  then have "unat va + 4096 < 2 ^ 32" using a by simp
  then have "unat (va + of_nat 4096) = unat va + 4096" by (rule unat_add_lt)
  then show ?thesis by (simp add: page_no_def MEM_PAGE_SIZE_def)
qed

text \<open>One round of the mapping loop writes one entry.\<close>

lemma store_pte_grows:
  fixes v :: u32
  assumes "vm_ok dir s" "has_pt (mem s) dir (n div 1024)"
  defines "s' \<equiv> store_word (page_word (pt_at (mem s) dir (n div 1024)) (n mod 1024)) (v OR PTE_P) s"
  shows "grows dir s s'" and "vm_ok dir s'"
    and "entry (mem s') dir k = (if k = n then Some (v OR PTE_P) else entry (mem s) dir k)"
proof -
  have dw: "dir_wf (mem s) dir (paddr_alloc s)" using assms(1) by (simp add: vm_ok_def)
  note t = store_entry [OF dw assms(2), where v = "v OR PTE_P"]
  have "dir_pages (mem s') dir \<subseteq> dir_pages (mem s) dir"
    using t(2,3) by (auto simp: dir_pages_def s'_def store_word_def)
  then show "grows dir s s'" using t(5) by (auto simp: grows_def taken_def s'_def store_word_def)
  show "vm_ok dir s'" using assms(1) t(1) by (simp add: vm_ok_def s'_def store_word_def)
  show "entry (mem s') dir k = (if k = n then Some (v OR PTE_P) else entry (mem s) dir k)"
    using t(4) present_or by (simp add: s'_def store_word_def)
qed

text \<open>The entries after mapping \<open>k\<close> pages from page number \<open>n\<close> on.\<close>

definition mapped :: "nat \<Rightarrow> nat \<Rightarrow> u32 \<Rightarrow> u32 \<Rightarrow> (nat \<Rightarrow> u32 option) \<Rightarrow> nat \<Rightarrow> u32 option" where
  "mapped n k paddr perm e j =
     (if n \<le> j \<and> j < n + k then Some ((paddr + of_nat (j - n) * MEM_PAGE_SIZE) OR perm OR PTE_P) else e j)"

lemma mapped_0 [simp]: "mapped n 0 paddr perm e = e"
  by (auto simp: mapped_def fun_eq_iff)

lemma mapped_Suc:
  "mapped (Suc n) k (paddr + MEM_PAGE_SIZE) perm (e(n \<mapsto> (paddr OR perm OR PTE_P))) = mapped n (Suc k) paddr perm e"
proof
  fix j
  consider "j = n" | "j < n" | i where "j = Suc (n + i)" by (metis add_Suc less_imp_Suc_add linorder_neqE_nat)
  then show "mapped (Suc n) k (paddr + MEM_PAGE_SIZE) perm (e(n \<mapsto> (paddr OR perm OR PTE_P))) j
      = mapped n (Suc k) paddr perm e j"
    by cases (auto simp: mapped_def algebra_simps)
qed

lemma create_map_loop_effect:
  assumes "vm_ok dir s" and "page_no va + n \<le> 2 ^ 20"
    and "\<And>k. k < n \<Longrightarrow> entry (mem s) dir (page_no va + k) = None"
  shows "\<exists>r s' k. create_map_loop n dir va paddr perm s = Inr (r, s') \<and> grows dir s s' \<and> vm_ok dir s'
    \<and> k \<le> n \<and> (if k = n then r = undef_ret s else r = -1 \<and> avail (paddr_alloc s') = {})
    \<and> entry (mem s') dir = mapped (page_no va) k paddr perm (entry (mem s) dir)"
  using assms
proof (induction n arbitrary: va paddr s)
  case 0
  then show ?case by simp
next
  case (Suc n)
  let ?n = "page_no va"
  obtain pte s1 where f: "find_pte dir va 1 s = Inr (pte, s1)" "grows dir s s1" "vm_ok dir s1"
    "entry (mem s1) dir = entry (mem s) dir"
    "if pte = 0 then avail (paddr_alloc s1) = {} else has_pt (mem s1) dir (?n div 1024)
       \<and> pte = page_word (pt_at (mem s1) dir (?n div 1024)) (?n mod 1024)"
    using find_pte_alloc [OF Suc.prems(1), of va] by (auto simp: fun_eq_iff)
  show ?case
  proof (cases "pte = 0")
    case True
    then show ?thesis using f by (intro exI [of _ "-1"] exI [of _ s1] exI [of _ 0]) simp
  next
    case False
    then have pte: "has_pt (mem s1) dir (?n div 1024)"
      "pte = page_word (pt_at (mem s1) dir (?n div 1024)) (?n mod 1024)"
      using f(5) by auto
    have "entry (mem s1) dir ?n = None" using f(4) Suc.prems(3) [of 0] by simp
    then have np: "\<not> present (load32 (mem s1) pte)" using pte by (auto simp: entry_def Let_def split: if_splits)
    let ?s2 = "store_word pte (paddr OR perm OR PTE_P) s1"
    have g: "grows dir s1 ?s2" "vm_ok dir ?s2"
      and e: "entry (mem ?s2) dir = (entry (mem s) dir)(?n \<mapsto> (paddr OR perm OR PTE_P))"
      using store_pte_grows [OF f(3) pte(1), of "paddr OR perm"] pte(2) f(4)
      by (auto simp: or.assoc fun_eq_iff)
    have u: "undef_ret ?s2 = undef_ret s" using grows_undef [OF g(1)] grows_undef [OF f(2)] by simp
    have g': "grows dir s ?s2" using f(2) g(1) by (rule grows_trans)
    have step: "create_map_loop (Suc n) dir va paddr perm s =
        create_map_loop n dir (va + MEM_PAGE_SIZE) (paddr + MEM_PAGE_SIZE) perm ?s2"
      using f(1) False np by simp
    show ?thesis
    proof (cases "n = 0")
      case True
      then have "create_map_loop (Suc n) dir va paddr perm s = Inr (undef_ret s, ?s2)" using step u by simp
      moreover have "entry (mem ?s2) dir = mapped ?n (Suc 0) paddr perm (entry (mem s) dir)"
        unfolding e using mapped_Suc [of ?n 0 paddr perm "entry (mem s) dir"] by simp
      ultimately show ?thesis using True g' g(2) by (intro exI [of _ "undef_ret s"] exI [of _ ?s2] exI [of _ 1]) simp
    next
      case False
      then have nx: "page_no (va + MEM_PAGE_SIZE) = Suc ?n"
        using Suc.prems(2) by (intro page_no_next) simp
      have "\<exists>r s' k. create_map_loop n dir (va + MEM_PAGE_SIZE) (paddr + MEM_PAGE_SIZE) perm ?s2 = Inr (r, s')
        \<and> grows dir ?s2 s' \<and> vm_ok dir s' \<and> k \<le> n
        \<and> (if k = n then r = undef_ret ?s2 else r = -1 \<and> avail (paddr_alloc s') = {})
        \<and> entry (mem s') dir = mapped (page_no (va + MEM_PAGE_SIZE)) k (paddr + MEM_PAGE_SIZE) perm (entry (mem ?s2) dir)"
      proof (rule Suc.IH [OF g(2)])
        show "page_no (va + MEM_PAGE_SIZE) + n \<le> 2 ^ 20" using nx Suc.prems(2) by simp
        fix k assume "k < n"
        then show "entry (mem ?s2) dir (page_no (va + MEM_PAGE_SIZE) + k) = None"
          unfolding e nx using Suc.prems(3) [of "Suc k"] by simp
      qed
      then obtain r s' k where r: "create_map_loop n dir (va + MEM_PAGE_SIZE) (paddr + MEM_PAGE_SIZE) perm ?s2 = Inr (r, s')"
        "grows dir ?s2 s'" "vm_ok dir s'" "k \<le> n" "if k = n then r = undef_ret ?s2 else r = -1 \<and> avail (paddr_alloc s') = {}"
        "entry (mem s') dir = mapped (Suc ?n) k (paddr + MEM_PAGE_SIZE) perm ((entry (mem s) dir)(?n \<mapsto> (paddr OR perm OR PTE_P)))"
        unfolding e nx by blast
      have "grows dir s s'" using g' r(2) by (rule grows_trans)
      with r u step mapped_Suc show ?thesis
        by (intro exI [of _ r] exI [of _ s'] exI [of _ "Suc k"]) simp
    qed
  qed
qed

subsection \<open>Allocating user memory\<close>

text \<open>Freeing an address behind the frames of the allocator changes nothing; user addresses are such.\<close>

lemma addr_free_page_same:
  assumes "alloc_wf (paddr_alloc s)"
    and "bitmap_set_bit (aa_bitmap (paddr_alloc s)) (sint ((p - aa_start (paddr_alloc s)) div 4096)) n 0
      = Some (aa_bitmap (paddr_alloc s))"
  obtains al where "addr_free_page p n s = Inr ((), s\<lparr>paddr_alloc := al\<rparr>)" "alloc_wf al"
    "frames al = frames (paddr_alloc s)" "avail al = avail (paddr_alloc s)"
proof -
  let ?al = "paddr_alloc s"
  have wf: "mutex_free (aa_mutex ?al)" "aa_page_size ?al = 4096" using assms(1) by (auto simp: alloc_wf_def)
  obtain mx where l: "paddr_lock s = Inr ((), upd_alloc (aa_mutex_update (\<lambda>_. mx)) s)"
    "mutex_held_by mx (curr_task s)" using paddr_lock_free [OF wf(1)] by blast
  let ?s1 = "upd_alloc (aa_mutex_update (\<lambda>_. mx)) s"
  have s1: "upd_alloc (aa_bitmap_update (\<lambda>_. aa_bitmap ?al)) ?s1 = ?s1" by (simp add: upd_alloc_def)
  obtain mx2 where u: "paddr_unlock ?s1 = Inr ((), upd_alloc (aa_mutex_update (\<lambda>_. mx2)) ?s1)" "mutex_free mx2"
    using paddr_unlock_held [of ?s1] l(2) by (auto simp: upd_alloc_def)
  let ?al' = "?al\<lparr>aa_mutex := mx2\<rparr>"
  have fr: "frame ?al' = frame ?al" by (simp add: frame_def fun_eq_iff)
  have set1: "bitmap_set_bit (aa_bitmap (paddr_alloc ?s1))
      (sint ((p - aa_start (paddr_alloc ?s1)) div aa_page_size (paddr_alloc ?s1))) n 0 = Some (aa_bitmap ?al)"
    using assms(2) wf(2) by (simp add: upd_alloc_def)
  have r: "addr_free_page p n s = Inr ((), s\<lparr>paddr_alloc := ?al'\<rparr>)"
    using l(1) u(1) set1 s1 by (simp add: addr_free_page_def Let_def) (simp add: upd_alloc_def)
  show thesis
    by (rule that [of ?al', OF r]) (use assms(1) u(2) in \<open>simp_all add: alloc_wf_def frames_def avail_def fr\<close>)
qed

lemma bitmap_set_bit_behind: "bit_count bm \<le> i \<Longrightarrow> bitmap_set_bit bm i n v = Some bm"
  by (subst bitmap_set_bit_def, subst bitmap_set_bit_loop.simps) simp

lemma addr_free_page_user:
  assumes "alloc_wf (paddr_alloc s)" "MEMORY_TASK_BASE \<le> va"
  obtains al where "addr_free_page va n s = Inr ((), s\<lparr>paddr_alloc := al\<rparr>)" "alloc_wf al"
    "frames al = frames (paddr_alloc s)" "avail al = avail (paddr_alloc s)"
proof -
  let ?al = "paddr_alloc s"
  have wf: "unat (aa_start ?al) + 4096 * nat (bit_count (aa_bitmap ?al)) \<le> 2 ^ 31"
    using assms(1) by (auto simp: alloc_wf_def)
  let ?i = "(va - aa_start ?al) div 4096"
  have va: "2 ^ 31 \<le> unat va" using assms(2) by (simp add: MEMORY_TASK_BASE_def word_le_nat_alt)
  have "aa_start ?al \<le> va" using va wf by (simp add: word_le_nat_alt)
  then have "unat (va - aa_start ?al) = unat va - unat (aa_start ?al)" by (simp add: unat_sub word_le_nat_alt)
  then have ui: "unat ?i = (unat va - unat (aa_start ?al)) div 4096" by (simp add: unat_div_distrib)
  have "unat va < 2 ^ 32" by (rule unat_u32_bound)
  then have "unat ?i < 2 ^ 31" unfolding ui by (intro less_mult_imp_div_less) simp
  then have si: "sint ?i = int (unat ?i)" using sint_of_nat_u32 [of "unat ?i"] by simp
  have "nat (bit_count (aa_bitmap ?al)) \<le> unat ?i" unfolding ui using va wf by simp
  then have "bit_count (aa_bitmap ?al) \<le> sint ?i" unfolding si by linarith
  from addr_free_page_same [OF assms(1) bitmap_set_bit_behind [OF this]] that show thesis by blast
qed

lemma alloc_page_grows:
  assumes "vm_ok dir s"
  obtains p s1 where "addr_alloc_page 1 s = Inr (p, s1)" "grows dir s s1" "vm_ok dir s1" "mem s1 = mem s"
    "p = 0 \<longleftrightarrow> avail (paddr_alloc s) = {}" "p \<noteq> 0 \<Longrightarrow> p \<in> avail (paddr_alloc s)"
    "avail (paddr_alloc s1) = avail (paddr_alloc s) - {p}"
proof -
  have aw: "alloc_wf (paddr_alloc s)" and dw: "dir_wf (mem s) dir (paddr_alloc s)"
    using assms by (auto simp: vm_ok_def)
  obtain p s1 where a: "addr_alloc_page 1 s = Inr (p, s1)" "alloc_wf (paddr_alloc s1)"
    "frames (paddr_alloc s1) = frames (paddr_alloc s)" "alloc_rest s1 = alloc_rest s"
    "p = 0 \<longleftrightarrow> avail (paddr_alloc s) = {}" "p \<noteq> 0 \<Longrightarrow> p \<in> avail (paddr_alloc s)"
    "avail (paddr_alloc s1) = avail (paddr_alloc s) - {p}"
    using pool.alloc_total [OF aw] by metis
  note s1 = alloc_rest_eq [OF a(4)]
  have m1: "mem s1 = mem s" using arg_cong [OF s1, of mem] by simp
  have "s1 = s\<lparr>mem := mem s1, paddr_alloc := paddr_alloc s1\<rparr>" by (subst s1) (simp add: m1)
  then have "grows dir s s1" using a(3,7) m1 unfolding grows_def by auto
  moreover have "vm_ok dir s1" using a(2,7) dw m1 by (simp add: vm_ok_def dir_wf_def)
  ultimately show thesis using that a m1 by blast
qed

text \<open>
  \<open>placed f n k perm e\<close>: the entries after \<open>k\<close> pages from page number \<open>n\<close> on were mapped to
  the frames \<open>f 0, f 1, \<dots>\<close>.
\<close>

definition placed :: "(nat \<Rightarrow> addr) \<Rightarrow> nat \<Rightarrow> nat \<Rightarrow> u32 \<Rightarrow> (nat \<Rightarrow> u32 option) \<Rightarrow> nat \<Rightarrow> u32 option" where
  "placed f n k perm e j = (if n \<le> j \<and> j < n + k then Some (f (j - n) OR perm OR PTE_P) else e j)"

lemma placed_0 [simp]: "placed f n 0 perm e = e"
  by (auto simp: placed_def fun_eq_iff)

lemma placed_Suc:
  "placed f (Suc n) k perm (e(n \<mapsto> (p OR perm OR PTE_P))) = placed (case_nat p f) n (Suc k) perm e"
proof
  fix j
  consider "j = n" | "j < n" | i where "j = Suc (n + i)" by (metis add_Suc less_imp_Suc_add linorder_neqE_nat)
  then show "placed f (Suc n) k perm (e(n \<mapsto> (p OR perm OR PTE_P))) j = placed (case_nat p f) n (Suc k) perm e j"
    by cases (auto simp: placed_def)
qed

lemma mapped_1: "mapped n (Suc 0) p perm e = e(n \<mapsto> (p OR perm OR PTE_P))"
  by (auto simp: mapped_def fun_eq_iff)

text \<open>The fresh frames of the pages, all different and taken from the allocator.\<close>

definition fresh_frames :: "(nat \<Rightarrow> addr) \<Rightarrow> nat \<Rightarrow> 's kmem_scheme \<Rightarrow> 's kmem_scheme \<Rightarrow> bool" where
  "fresh_frames f k s s' \<longleftrightarrow> inj_on f {..<k} \<and> f ` {..<k} \<subseteq> taken s s'"

lemma fresh_frames_Suc:
  assumes "fresh_frames f k s2 s'" "p \<in> avail (paddr_alloc s)" "p \<notin> avail (paddr_alloc s2)"
    "avail (paddr_alloc s2) \<subseteq> avail (paddr_alloc s)" "avail (paddr_alloc s') \<subseteq> avail (paddr_alloc s2)"
  shows "fresh_frames (case_nat p f) (Suc k) s s'"
proof -
  have im: "case_nat p f ` {..<Suc k} = insert p (f ` {..<k})"
    by (simp add: lessThan_Suc_eq_insert_0 image_image)
  have "p \<notin> f ` {..<k}" using assms(1,3) by (auto simp: fresh_frames_def taken_def)
  then have "inj_on (case_nat p f) {..<Suc k}"
    using assms(1) by (auto simp: fresh_frames_def inj_on_def split: nat.splits)
  then show ?thesis using assms im by (auto simp: fresh_frames_def taken_def)
qed

lemma alloc_for_page_dir_loop_effect:
  assumes "vm_ok dir s" and "0 \<le> sint (undef_ret s)" and "MEMORY_TASK_BASE \<le> vaddr"
    and "page_no va + n \<le> 2 ^ 20" and "\<And>k. k < n \<Longrightarrow> entry (mem s) dir (page_no va + k) = None"
  shows "\<exists>s' k f. alloc_for_page_dir_loop n i dir vaddr va perm s = Inr (0, s') \<and> vm_ok dir s'
    \<and> grows dir s s' \<and> k \<le> n \<and> (k < n \<longrightarrow> avail (paddr_alloc s') = {})
    \<and> fresh_frames f k s s' \<and> entry (mem s') dir = placed f (page_no va) k perm (entry (mem s) dir)"
  using assms
proof (induction n arbitrary: va i s)
  case 0
  then show ?case by (auto simp: fresh_frames_def)
next
  case (Suc n)
  let ?n = "page_no va"
  obtain p s1 where a: "addr_alloc_page 1 s = Inr (p, s1)" "grows dir s s1" "vm_ok dir s1" "mem s1 = mem s"
    "p = 0 \<longleftrightarrow> avail (paddr_alloc s) = {}" "p \<noteq> 0 \<Longrightarrow> p \<in> avail (paddr_alloc s)"
    "avail (paddr_alloc s1) = avail (paddr_alloc s) - {p}"
    using alloc_page_grows [OF Suc.prems(1)] by metis
  show ?case
  proof (cases "p = 0")
    case True
    then show ?thesis using a
      by (intro exI [of _ s1] exI [of _ 0] exI [of _ "\<lambda>_. 0"]) (simp add: fresh_frames_def)
  next
    case p: False
    have "page_no va + Suc 0 \<le> 2 ^ 20" using Suc.prems(4) by simp
    moreover have "entry (mem s1) dir (page_no va + k) = None" if "k < Suc 0" for k
      using Suc.prems(5) [of k] that a(4) by simp
    ultimately obtain r s2 k where c: "create_map_loop (Suc 0) dir va p perm s1 = Inr (r, s2)" "grows dir s1 s2"
      "vm_ok dir s2" "k \<le> Suc 0" "if k = Suc 0 then r = undef_ret s1 else r = -1 \<and> avail (paddr_alloc s2) = {}"
      "entry (mem s2) dir = mapped ?n k p perm (entry (mem s1) dir)"
      using create_map_loop_effect [OF a(3), of va "Suc 0" p perm] by metis
    have cm: "memory_create_map dir va p 1 perm s1 = Inr (r, s2)" using c(1) by (simp add: memory_create_map_def)
    have u: "undef_ret s1 = undef_ret s" "undef_ret s2 = undef_ret s"
      using grows_undef [OF a(2)] grows_undef [OF c(2)] by simp_all
    have g: "grows dir s s2" using a(2) c(2) by (rule grows_trans)
    show ?thesis
    proof (cases "k = Suc 0")
      case False
      then have k0: "k = 0" and r: "r = -1" "avail (paddr_alloc s2) = {}" using c(4,5) by auto
      have aw: "alloc_wf (paddr_alloc s2)" using c(3) by (simp add: vm_ok_def)
      obtain al where f: "addr_free_page vaddr i s2 = Inr ((), s2\<lparr>paddr_alloc := al\<rparr>)" "alloc_wf al"
        "frames al = frames (paddr_alloc s2)" "avail al = avail (paddr_alloc s2)"
        by (rule addr_free_page_user [OF aw Suc.prems(3)])
      let ?s = "s2\<lparr>paddr_alloc := al\<rparr>"
      have "grows dir s2 ?s" using f by (simp add: grows_def taken_def)
      then have "grows dir s ?s" using g grows_trans by blast
      moreover have "vm_ok dir ?s" using c(3) f by (simp add: vm_ok_def dir_wf_def)
      moreover have "alloc_for_page_dir_loop (Suc n) i dir vaddr va perm s = Inr (0, ?s)"
        using a(1) p cm r(1) f(1) by simp
      ultimately show ?thesis using r(2) f(4) c(6) k0 a(4)
        by (intro exI [of _ ?s] exI [of _ 0] exI [of _ "\<lambda>_. 0"]) (simp add: fresh_frames_def)
    next
      case True
      then have r: "r = undef_ret s" using c(5) u by simp
      have e: "entry (mem s2) dir = (entry (mem s) dir)(?n \<mapsto> (p OR perm OR PTE_P))"
        using c(6) True a(4) mapped_1 by simp
      have av: "avail (paddr_alloc s2) \<subseteq> avail (paddr_alloc s) - {p}"
        using c(2) a(7) by (auto simp: grows_def)
      have step: "alloc_for_page_dir_loop (Suc n) i dir vaddr va perm s =
          alloc_for_page_dir_loop n (i + 1) dir vaddr (va + MEM_PAGE_SIZE) perm s2"
        using a(1) p cm r Suc.prems(2) by simp
      have "\<exists>s' k f. alloc_for_page_dir_loop n (i + 1) dir vaddr (va + MEM_PAGE_SIZE) perm s2 = Inr (0, s')
        \<and> vm_ok dir s' \<and> grows dir s2 s' \<and> k \<le> n \<and> (k < n \<longrightarrow> avail (paddr_alloc s') = {})
        \<and> fresh_frames f k s2 s' \<and> entry (mem s') dir = placed f (Suc ?n) k perm (entry (mem s2) dir)"
      proof (cases "n = 0")
        case True
        then show ?thesis using c(3) by (auto simp: fresh_frames_def)
      next
        case False
        then have nx: "page_no (va + MEM_PAGE_SIZE) = Suc ?n"
          using Suc.prems(4) by (intro page_no_next) simp
        show ?thesis
        proof (rule Suc.IH [OF c(3) _ Suc.prems(3), of "va + MEM_PAGE_SIZE", unfolded nx])
          show "0 \<le> sint (undef_ret s2)" using u Suc.prems(2) by simp
          show "Suc ?n + n \<le> 2 ^ 20" using Suc.prems(4) by simp
          show "entry (mem s2) dir (Suc ?n + k) = None" if "k < n" for k
            unfolding e using Suc.prems(5) [of "Suc k"] that by simp
        qed
      qed
      then obtain s' k f where ih: "alloc_for_page_dir_loop n (i + 1) dir vaddr (va + MEM_PAGE_SIZE) perm s2 = Inr (0, s')"
        "vm_ok dir s'" "grows dir s2 s'" "k \<le> n" "k < n \<longrightarrow> avail (paddr_alloc s') = {}" "fresh_frames f k s2 s'"
        "entry (mem s') dir = placed f (Suc ?n) k perm (entry (mem s2) dir)" by blast
      have "fresh_frames (case_nat p f) (Suc k) s s'"
        using fresh_frames_Suc [OF ih(6), of p s] a(6) [OF p] av ih(3) by (auto simp: grows_def)
      moreover have "grows dir s s'" using g ih(3) by (rule grows_trans)
      ultimately show ?thesis using ih step placed_Suc unfolding e
        by (intro exI [of _ s'] exI [of _ "Suc k"] exI [of _ "case_nat p f"]) simp
    qed
  qed
qed

end
