(* ===== verification/Loader.thy ===== *)
theory Loader
  imports Disk Elf Memory
begin

text \<open>
  The second stage boot loader. \<^verbatim>\<open>src/source/loader/loader_16.c\<close> asks the BIOS for the memory
  map and enters protected mode; \<^verbatim>\<open>src/source/loader/loader_32.c\<close> reads the kernel image from
  disk, moves its segments to their place, switches paging on and jumps to the kernel.

  \<^item> \<open>bios\<close> is the interrupt \<^verbatim>\<open>0x15\<close> with function \<^verbatim>\<open>0xE820\<close>: from the continuation value and
    the old contents of the entry buffer to the signature, the number of bytes, the new continuation
    value and the new contents. Messages on the screen are left out.
  \<^item> The copying loops read the header fields from memory in each round, as the code does: the
    image may overwrite them.
  \<^item> A jump out of the loader is the end of its run (\<open>Jump\<close>), an endless loop is \<open>Dead\<close>.
\<close>

subsection \<open>The memory map\<close>

definition BOOT_RAM_REGION_MAX :: nat where "BOOT_RAM_REGION_MAX = 10"

record SMAP_entry_t =
  BaseL :: u32
  BaseH :: u32
  LengthL :: u32
  LengthH :: u32
  Type :: u32
  ACPI :: u32

type_synonym bios_map = "u32 \<Rightarrow> SMAP_entry_t \<Rightarrow> u32 \<times> u32 \<times> u32 \<times> SMAP_entry_t"

text \<open>The loop with \<open>n\<close> rounds left; a region outside the array is a fault (\<open>None\<close>).\<close>

primrec detect_loop :: "bios_map \<Rightarrow> nat \<Rightarrow> u32 \<Rightarrow> SMAP_entry_t \<Rightarrow> boot_info_t \<Rightarrow> boot_info_t option" where
  "detect_loop bios 0 contID smap info = Some info"
| "detect_loop bios (Suc n) contID smap info =
     (let (signature, bytes, contID, smap) = bios contID smap
      in if signature \<noteq> 0x534D4150 then Some info
         else if 20 < bytes \<and> ACPI smap AND 1 = 0 then detect_loop bios n contID smap info
         else Option.bind
           (if Type smap = 1 then
              map_option (\<lambda>cfg. info\<lparr>ram_region_cfg := cfg, ram_region_count := ram_region_count info + 1\<rparr>)
                (arr_set (ram_region_cfg info) (ram_region_count info)
                   \<lparr>rr_start = BaseL smap, rr_size = LengthL smap\<rparr>)
            else Some info)
           (\<lambda>info. if contID = 0 then Some info else detect_loop bios n contID smap info))"

definition detect_memory :: "bios_map \<Rightarrow> SMAP_entry_t \<Rightarrow> boot_info_t \<Rightarrow> boot_info_t option" where
  "detect_memory bios smap_entry boot_info =
     detect_loop bios BOOT_RAM_REGION_MAX 0 smap_entry (boot_info\<lparr>ram_region_count := 0\<rparr>)"

subsection \<open>Protected mode\<close>

definition loader_gdt :: "(u16 \<times> u16 \<times> u16 \<times> u16) list" where
  "loader_gdt = [(0, 0, 0, 0), (0xffff, 0x0000, 0x9a00, 0x00cf), (0xffff, 0x0000, 0x9200, 0x00cf)]"

text \<open>\<open>gdt_at\<close> is the address of the table; the selector of the far jump is the result.\<close>

definition enter_protected_mode :: "device \<Rightarrow> addr \<Rightarrow> 'm machine_scheme \<Rightarrow> u16 \<times> 'm machine_scheme" where
  "enter_protected_mode dev gdt_at s =
     (let s = cli s;
          (v, s) = inb dev 0x92 s;
          s = outb 0x92 (v OR 0x02) s;
          s = lgdt gdt_at (of_nat (8 * length loader_gdt)) s;
          cr0 = read_cr0 s;
          s = write_cr0 (cr0 OR push_bit 0 1) s
      in (8, s))"

subsection \<open>Loading the kernel\<close>

definition SYS_KERNEL_LOAD_ADDR :: addr where "SYS_KERNEL_LOAD_ADDR = 1024 * 1024"

definition loader_read_disk :: "device \<Rightarrow> u32 \<Rightarrow> u32 \<Rightarrow> addr \<Rightarrow> 'm machine_scheme \<Rightarrow> 'm machine_scheme option" where
  "loader_read_disk = read_disk"

function copy_segment :: "nat \<Rightarrow> addr \<Rightarrow> addr \<Rightarrow> addr \<Rightarrow> bytes \<Rightarrow> bytes" where
  "copy_segment j p_hdr dest src m =
     (if j < unat (p_filesz (read_phdr m p_hdr))
      then copy_segment (Suc j) p_hdr (dest + 1) (src + 1) (m(dest := m src)) else m)"
  by pat_completeness auto
termination
proof (relation "measure (\<lambda>(j, p_hdr, dest, src, m). 2 ^ 32 - j)", simp, goal_cases)
  case (1 j p_hdr dest src m)
  then show ?case using unat_u32_bound [of "p_filesz (read_phdr m p_hdr)"] by simp
qed

function zero_segment :: "nat \<Rightarrow> addr \<Rightarrow> addr \<Rightarrow> bytes \<Rightarrow> bytes" where
  "zero_segment j p_hdr dest m =
     (if j < unat (p_memsz (read_phdr m p_hdr) - p_filesz (read_phdr m p_hdr))
      then zero_segment (Suc j) p_hdr (dest + 1) (m(dest := 0)) else m)"
  by pat_completeness auto
termination
proof (relation "measure (\<lambda>(j, p_hdr, dest, m). 2 ^ 32 - j)", simp, goal_cases)
  case (1 j p_hdr dest m)
  then show ?case
    using unat_u32_bound [of "p_memsz (read_phdr m p_hdr) - p_filesz (read_phdr m p_hdr)"] by simp
qed

declare copy_segment.simps [simp del] zero_segment.simps [simp del]

definition load_segment :: "addr \<Rightarrow> addr \<Rightarrow> bytes \<Rightarrow> bytes" where
  "load_segment file_buffer p_hdr m =
     (let src = file_buffer + p_offset (read_phdr m p_hdr);
          dest = p_paddr (read_phdr m p_hdr);
          m1 = copy_segment 0 p_hdr dest src m;
          dest = p_paddr (read_phdr m1 p_hdr) + p_filesz (read_phdr m1 p_hdr)
      in zero_segment 0 p_hdr dest m1)"

function load_segments :: "nat \<Rightarrow> addr \<Rightarrow> bytes \<Rightarrow> bytes" where
  "load_segments i file_buffer m =
     (if i < unat (e_phnum (read_ehdr m file_buffer)) then
        let p_hdr = file_buffer + e_phoff (read_ehdr m file_buffer) + of_nat i * 32
        in if p_type (read_phdr m p_hdr) \<noteq> PT_LOAD then load_segments (Suc i) file_buffer m
           else load_segments (Suc i) file_buffer (load_segment file_buffer p_hdr m)
      else m)"
  by pat_completeness auto
termination
proof (relation "measure (\<lambda>(i, file_buffer, m). 2 ^ 16 - i)", simp, goal_cases)
  case (1 i f m p)
  then show ?case using unsigned_less [of "e_phnum (read_ehdr m f)", where 'a = nat] by simp
next
  case (2 i f m p)
  then show ?case using unsigned_less [of "e_phnum (read_ehdr m f)", where 'a = nat] by simp
qed

declare load_segments.simps [simp del]

definition reload_elf_file :: "addr \<Rightarrow> bytes \<Rightarrow> u32 \<times> bytes" where
  "reload_elf_file file_buffer m =
     (if \<not> elf_ident_ok (e_ident (read_ehdr m file_buffer)) then (0, m)
      else let m1 = load_segments 0 file_buffer m in (e_entry (read_ehdr m1 file_buffer), m1))"

definition PDE_PS :: u32 where "PDE_PS = push_bit 7 1"
definition CR4_PSE :: u32 where "CR4_PSE = push_bit 4 1"
definition CR0_PG :: u32 where "CR0_PG = push_bit 31 1"

text \<open>The static table: one entry for the first 4 MiB.\<close>

definition boot_page_dir :: "u32 list" where
  "boot_page_dir = (PDE_P OR PDE_PS OR PTE_W) # replicate 1023 0"

definition enable_page_mode :: "addr \<Rightarrow> 'm machine_scheme \<Rightarrow> 'm machine_scheme" where
  "enable_page_mode page_dir s =
     (let cr4 = read_cr4 s;
          s = write_cr4 (cr4 OR CR4_PSE) s;
          s = write_cr3 page_dir s
      in write_cr0 (read_cr0 s OR CR0_PG) s)"

datatype 's boot_end = Dead 's | Jump addr addr 's

definition load_kernel :: "device \<Rightarrow> addr \<Rightarrow> addr \<Rightarrow> 'm machine_scheme \<Rightarrow> 'm machine_scheme boot_end option" where
  "load_kernel dev page_dir boot_info s =
     Option.bind (loader_read_disk dev 100 500 SYS_KERNEL_LOAD_ADDR s) (\<lambda>s1.
     let (kernel_entry_address, m) = reload_elf_file SYS_KERNEL_LOAD_ADDR (mem s1);
         s2 = s1\<lparr>mem := m\<rparr>
     in if kernel_entry_address = 0 then Some (Dead s2)
        else Some (Jump kernel_entry_address boot_info (enable_page_mode page_dir s2)))"

subsection \<open>The memory map\<close>

text \<open>A usable region as the BIOS reported it.\<close>

definition reported :: "bios_map \<Rightarrow> ram_region \<Rightarrow> bool" where
  "reported bios r \<longleftrightarrow> (\<exists>c e. case bios c e of (signature, bytes, c', e') \<Rightarrow>
     signature = 0x534D4150 \<and> \<not> (20 < bytes \<and> ACPI e' AND 1 = 0) \<and> Type e' = 1
     \<and> r = \<lparr>rr_start = BaseL e', rr_size = LengthL e'\<rparr>)"

definition regions_ok :: "bios_map \<Rightarrow> boot_info_t \<Rightarrow> bool" where
  "regions_ok bios info \<longleftrightarrow> length (ram_region_cfg info) = BOOT_RAM_REGION_MAX \<and> 0 \<le> ram_region_count info
     \<and> (\<forall>i < nat (ram_region_count info). reported bios (ram_region_cfg info ! i))"

lemma regions_ok_add:
  assumes "regions_ok bios info" "ram_region_count info < 10" "reported bios r"
  shows "regions_ok bios (info\<lparr>ram_region_cfg := (ram_region_cfg info)[nat (ram_region_count info) := r],
    ram_region_count := ram_region_count info + 1\<rparr>)"
  using assms by (auto simp: regions_ok_def BOOT_RAM_REGION_MAX_def nth_list_update nat_add_distrib less_Suc_eq)

lemma detect_loop_ok:
  assumes "regions_ok bios info" "ram_region_count info + int n \<le> 10"
  shows "\<exists>info'. detect_loop bios n c e info = Some info' \<and> regions_ok bios info' \<and> ram_region_count info' \<le> 10"
  using assms
proof (induction n arbitrary: c e info)
  case (Suc n)
  obtain sg b c' e' where bios: "bios c e = (sg, b, c', e')" by (cases "bios c e")
  show ?case
  proof (cases "sg = 0x534D4150 \<and> \<not> (20 < b \<and> ACPI e' AND 1 = 0) \<and> Type e' = 1")
    case True
    let ?r = "\<lparr>rr_start = BaseL e', rr_size = LengthL e'\<rparr>"
    let ?i = "info\<lparr>ram_region_cfg := (ram_region_cfg info)[nat (ram_region_count info) := ?r],
      ram_region_count := ram_region_count info + 1\<rparr>"
    have "reported bios ?r" using True bios by (auto simp: reported_def intro!: exI [of _ c] exI [of _ e])
    then have "regions_ok bios ?i" using Suc.prems by (intro regions_ok_add) auto
    moreover have "arr_set (ram_region_cfg info) (ram_region_count info) ?r =
        Some ((ram_region_cfg info)[nat (ram_region_count info) := ?r])"
      using Suc.prems by (auto simp: regions_ok_def BOOT_RAM_REGION_MAX_def)
    ultimately show ?thesis using Suc.IH [of ?i c' e'] Suc.prems True bios by auto
  next
    case False
    have "ram_region_count info + int n \<le> 10" using Suc.prems(2) by simp
    note ih = Suc.IH [OF Suc.prems(1) this]
    show ?thesis using False ih [of c' e'] Suc.prems bios by (auto split: if_splits)
  qed
qed auto

text \<open>C35: The memory map. Whatever the BIOS answers, \<^verbatim>\<open>detect_memory\<close> ends after at most ten
  rounds, never writes outside the array of regions, and reports at most ten regions, each of which
  the BIOS delivered as usable memory.\<close>

theorem detect_memory_bounds:
  assumes "length (ram_region_cfg boot_info) = BOOT_RAM_REGION_MAX"
  shows "\<exists>info. detect_memory bios smap_entry boot_info = Some info
    \<and> length (ram_region_cfg info) = BOOT_RAM_REGION_MAX
    \<and> 0 \<le> ram_region_count info \<and> ram_region_count info \<le> int BOOT_RAM_REGION_MAX
    \<and> (\<forall>i < nat (ram_region_count info). reported bios (ram_region_cfg info ! i))"
  using detect_loop_ok [of bios "boot_info\<lparr>ram_region_count := 0\<rparr>" 10 0 smap_entry] assms
  by (auto simp: detect_memory_def regions_ok_def BOOT_RAM_REGION_MAX_def)

definition demo_bios :: bios_map where
  "demo_bios c e = (0x534D4150, 20, if c = 0 then 1 else 0,
     \<lparr>BaseL = c * 0x100000, BaseH = 0, LengthL = 0x9fc00, LengthH = 0, Type = 1, ACPI = 0\<rparr>)"

theorem detect_memory_bounds_witness:
  "\<exists>info. detect_memory demo_bios \<lparr>BaseL = 0, BaseH = 0, LengthL = 0, LengthH = 0, Type = 0, ACPI = 0\<rparr>
       \<lparr>ram_region_cfg = replicate 10 \<lparr>rr_start = 0, rr_size = 0\<rparr>, ram_region_count = 0\<rparr> = Some info
     \<and> ram_region_count info \<le> 10"
  using detect_memory_bounds [of "\<lparr>ram_region_cfg = replicate 10 \<lparr>rr_start = 0, rr_size = 0\<rparr>, ram_region_count = 0\<rparr>" demo_bios]
  by (auto simp: BOOT_RAM_REGION_MAX_def)

subsection \<open>Protected mode\<close>

lemma enter_protected_mode_effect:
  "\<exists>v. enter_protected_mode dev g s = (8, s\<lparr>eflags := eflags s AND NOT EFLAGS_IF, io_log := io_log s @ [PortInB 0x92, PortOut 0x92 (v OR 2)],
     gdtr := make_table_reg g 24, cr0_reg := cr0_reg s OR 1\<rparr>)"
  by (auto simp: enter_protected_mode_def cli_def inb_def outb_def lgdt_def read_cr0_def write_cr0_def loader_gdt_def Let_def)

subsection \<open>Segments\<close>

lemma copy_segment_eq:
  assumes "region dest n \<inter> region ph 32 = {}" "unat (p_filesz (read_phdr m ph)) = j + n"
  shows "copy_segment j ph dest src m = kmemcpy_loop n dest src m"
  using assms
proof (induction n arbitrary: j dest src m)
  case 0
  then show ?case by (subst copy_segment.simps) simp
next
  case (Suc n)
  then have d: "dest \<notin> region ph 32" "region (dest + 1) n \<inter> region ph 32 = {}" by (auto simp: region_Suc)
  have "read_phdr (m(dest := m src)) ph = read_phdr m ph" using d(1) by (intro read_phdr_cong) auto
  then show ?case using Suc.IH [OF d(2), of "m(dest := m src)" "Suc j" "src + 1"] Suc.prems(2)
    by (subst copy_segment.simps) (simp del: fun_upd_apply)
qed

lemma zero_segment_eq:
  assumes "region dest n \<inter> region ph 32 = {}" "unat (p_memsz (read_phdr m ph) - p_filesz (read_phdr m ph)) = j + n"
  shows "zero_segment j ph dest m = store_bytes dest (replicate n 0) m"
  using assms
proof (induction n arbitrary: j dest m)
  case 0
  then show ?case by (subst zero_segment.simps) simp
next
  case (Suc n)
  then have d: "dest \<notin> region ph 32" "region (dest + 1) n \<inter> region ph 32 = {}" by (auto simp: region_Suc)
  have "read_phdr (m(dest := 0)) ph = read_phdr m ph" using d(1) by (intro read_phdr_cong) auto
  then show ?case using Suc.IH [OF d(2), of "m(dest := 0)" "Suc j"] Suc.prems(2)
    by (subst zero_segment.simps) (simp del: fun_upd_apply)
qed

text \<open>The bytes of a segment in memory: those of the file, then zeros.\<close>

definition segment_bytes :: "bytes \<Rightarrow> addr \<Rightarrow> Elf32_Phdr \<Rightarrow> u8 list" where
  "segment_bytes m fb ph = load_bytes m (fb + p_offset ph) (unat (p_filesz ph))
     @ replicate (unat (p_memsz ph) - unat (p_filesz ph)) 0"

lemma load_segment_eq:
  fixes ph :: addr and m :: bytes
  defines "h \<equiv> read_phdr m ph"
  assumes "p_filesz h \<le> p_memsz h" "region (p_paddr h) (unat (p_memsz h)) \<inter> region ph 32 = {}"
    "region (p_paddr h) (unat (p_memsz h)) \<inter> region (fb + p_offset h) (unat (p_filesz h)) = {}"
  shows "load_segment fb ph m = store_bytes (p_paddr h) (segment_bytes m fb h) m"
proof -
  have le: "unat (p_filesz h) \<le> unat (p_memsz h)" using assms(2) by (simp add: word_le_nat_alt)
  then have sub: "region (p_paddr h) (unat (p_filesz h)) \<subseteq> region (p_paddr h) (unat (p_memsz h))"
    "region (p_paddr h + p_filesz h) (unat (p_memsz h) - unat (p_filesz h)) \<subseteq> region (p_paddr h) (unat (p_memsz h))"
    using region_mono region_sub [of "unat (p_filesz h)" "unat (p_memsz h) - unat (p_filesz h)" "unat (p_memsz h)" "p_paddr h"]
    by auto
  let ?bs = "load_bytes m (fb + p_offset h) (unat (p_filesz h))"
  let ?m1 = "store_bytes (p_paddr h) ?bs m"
  have "region (p_paddr h) (unat (p_filesz h)) \<inter> region ph 32 = {}" using sub(1) assms(3) by blast
  moreover have "region (p_paddr h) (unat (p_filesz h)) \<inter> region (fb + p_offset h) (unat (p_filesz h)) = {}"
    using sub(1) assms(4) by blast
  ultimately have c: "copy_segment 0 ph (p_paddr h) (fb + p_offset h) m = ?m1"
    by (simp add: copy_segment_eq kmemcpy_loop_eq h_def)
  have "?m1 x = m x" if "x \<in> region ph 32" for x
    using that sub(1) assms(3) by (intro store_bytes_other) auto
  then have h1: "read_phdr ?m1 ph = h" unfolding h_def by (intro read_phdr_cong) auto
  have "unat (p_memsz h - p_filesz h) = unat (p_memsz h) - unat (p_filesz h)"
    using assms(2) by (simp add: unat_sub word_le_nat_alt)
  then have "zero_segment 0 ph (p_paddr h + p_filesz h) ?m1 =
      store_bytes (p_paddr h + p_filesz h) (replicate (unat (p_memsz h) - unat (p_filesz h)) 0) ?m1"
    using sub(2) assms(3) h1 by (intro zero_segment_eq) auto
  then show ?thesis
    using c h1 by (simp add: load_segment_def Let_def segment_bytes_def store_bytes_append flip: h_def)
qed

text \<open>
  What the loader reads of a file at \<open>fb\<close>: the header, the program headers and the contents of
  the loadable segments. A file is \<open>loadable\<close> if none of the places its segments go to overlaps
  with that, and no segment is longer in the file than in memory.
\<close>

definition phdr_at :: "bytes \<Rightarrow> addr \<Rightarrow> nat \<Rightarrow> addr" where
  "phdr_at m fb i = fb + e_phoff (read_ehdr m fb) + of_nat i * 32"

definition phdr :: "bytes \<Rightarrow> addr \<Rightarrow> nat \<Rightarrow> Elf32_Phdr" where
  "phdr m fb i = read_phdr m (phdr_at m fb i)"

definition load_index :: "bytes \<Rightarrow> addr \<Rightarrow> nat set" where
  "load_index m fb = {i. i < unat (e_phnum (read_ehdr m fb)) \<and> p_type (phdr m fb i) = PT_LOAD}"

definition file_parts :: "bytes \<Rightarrow> addr \<Rightarrow> addr set" where
  "file_parts m fb = region fb 52
     \<union> (\<Union>i < unat (e_phnum (read_ehdr m fb)). region (phdr_at m fb i) 32)
     \<union> (\<Union>i \<in> load_index m fb. region (fb + p_offset (phdr m fb i)) (unat (p_filesz (phdr m fb i))))"

definition loadable :: "bytes \<Rightarrow> addr \<Rightarrow> bool" where
  "loadable m fb \<longleftrightarrow> (\<forall>i \<in> load_index m fb. p_filesz (phdr m fb i) \<le> p_memsz (phdr m fb i)
     \<and> region (p_paddr (phdr m fb i)) (unat (p_memsz (phdr m fb i))) \<inter> file_parts m fb = {})"

text \<open>The reference: the segments of the file in their place, one after the other.\<close>

fun place_segments :: "bytes \<Rightarrow> addr \<Rightarrow> nat list \<Rightarrow> bytes \<Rightarrow> bytes" where
  "place_segments m fb [] m' = m'"
| "place_segments m fb (i # is) m' = place_segments m fb is
     (if p_type (phdr m fb i) = PT_LOAD then store_bytes (p_paddr (phdr m fb i)) (segment_bytes m fb (phdr m fb i)) m' else m')"

lemma segment_bytes_length: "p_filesz ph \<le> p_memsz ph \<Longrightarrow> length (segment_bytes m fb ph) = unat (p_memsz ph)"
  by (simp add: segment_bytes_def word_le_nat_alt)

lemma load_segments_eq:
  assumes "loadable m fb" "i + n = unat (e_phnum (read_ehdr m fb))" "\<And>x. x \<in> file_parts m fb \<Longrightarrow> m' x = m x"
  shows "load_segments i fb m' = place_segments m fb [i..<i + n] m'
    \<and> (\<forall>x \<in> file_parts m fb. load_segments i fb m' x = m x)"
  using assms(2,3)
proof (induction n arbitrary: i m')
  case 0
  have "read_ehdr m' fb = read_ehdr m fb" using 0(2) by (intro read_ehdr_cong) (auto simp: file_parts_def)
  then show ?case using 0 by (subst (1 2) load_segments.simps) simp
next
  case (Suc n)
  let ?a = "phdr_at m fb i" and ?h = "phdr m fb i"
  have eh: "read_ehdr m' fb = read_ehdr m fb" using Suc.prems(2) by (intro read_ehdr_cong) (auto simp: file_parts_def)
  have lt: "i < unat (e_phnum (read_ehdr m fb))" using Suc.prems(1) by simp
  have ph: "read_phdr m' ?a = ?h"
    unfolding phdr_def using Suc.prems(2) lt by (intro read_phdr_cong) (auto simp: file_parts_def)
  have cons: "[i..<i + Suc n] = i # [Suc i..<Suc i + n]" by (simp add: upt_conv_Cons)
  show ?case
  proof (cases "p_type ?h = PT_LOAD")
    case False
    then have "load_segments i fb m' = load_segments (Suc i) fb m'"
      using lt eh ph by (subst load_segments.simps) (simp add: phdr_at_def Let_def)
    then show ?thesis using Suc.IH [of "Suc i" m'] Suc.prems False unfolding cons by (auto simp del: upt_Suc)
  next
    case True
    then have i: "i \<in> load_index m fb" using lt by (simp add: load_index_def)
    then have sz: "p_filesz ?h \<le> p_memsz ?h"
      and dj: "region (p_paddr ?h) (unat (p_memsz ?h)) \<inter> file_parts m fb = {}"
      using assms(1) by (auto simp: loadable_def)
    have src: "region (fb + p_offset ?h) (unat (p_filesz ?h)) \<subseteq> file_parts m fb"
      and hdr: "region ?a 32 \<subseteq> file_parts m fb" using i lt by (auto simp: file_parts_def)
    have "load_bytes m' (fb + p_offset ?h) (unat (p_filesz ?h)) = load_bytes m (fb + p_offset ?h) (unat (p_filesz ?h))"
      using src Suc.prems(2) by (intro load_bytes_cong) auto
    then have sb: "segment_bytes m' fb ?h = segment_bytes m fb ?h" by (simp add: segment_bytes_def)
    let ?m = "store_bytes (p_paddr ?h) (segment_bytes m fb ?h) m'"
    have ls: "load_segment fb ?a m' = ?m"
      using load_segment_eq [of m' ?a fb] sz dj src hdr unfolding ph sb by blast
    have step: "load_segments i fb m' = load_segments (Suc i) fb ?m"
      using lt eh ph True ls by (subst load_segments.simps) (simp add: phdr_at_def Let_def)
    have "?m x = m x" if "x \<in> file_parts m fb" for x
      using that dj Suc.prems(2) segment_bytes_length [OF sz] by (subst store_bytes_other) auto
    then show ?thesis using Suc.IH [of "Suc i" ?m] Suc.prems(1) True unfolding cons step by (auto simp del: upt_Suc)
  qed
qed

lemma reload_elf_file_eq:
  assumes "loadable m fb"
  shows "reload_elf_file fb m =
    (if elf_ident_ok (e_ident (read_ehdr m fb))
     then (e_entry (read_ehdr m fb), place_segments m fb [0..<unat (e_phnum (read_ehdr m fb))] m)
     else (0, m))"
proof -
  let ?m = "load_segments 0 fb m"
  have l: "?m = place_segments m fb [0..<unat (e_phnum (read_ehdr m fb))] m" "\<forall>x \<in> file_parts m fb. ?m x = m x"
    using load_segments_eq [OF assms, of 0 "unat (e_phnum (read_ehdr m fb))" m] by auto
  have "read_ehdr ?m fb = read_ehdr m fb" using l(2) by (intro read_ehdr_cong) (auto simp: file_parts_def)
  then show ?thesis using l(1) by (simp add: reload_elf_file_def Let_def)
qed

text \<open>C20: Loading an executable. For a file with the ELF signature whose segments do not overlap
  with what is read of the file, \<^verbatim>\<open>reload_elf_file\<close> returns the entry point and memory is
  changed exactly by placing each loadable segment: its bytes of the file, then zeros up to its
  size in memory. Without the signature it returns 0 and changes nothing.\<close>

theorem reload_elf_file_places:
  assumes "loadable m fb"
  shows "reload_elf_file fb m =
    (if elf_ident_ok (e_ident (read_ehdr m fb))
     then (e_entry (read_ehdr m fb), place_segments m fb [0..<unat (e_phnum (read_ehdr m fb))] m)
     else (0, m))"
  by (rule reload_elf_file_eq [OF assms])

text \<open>C22: Starting the kernel. On a drive that behaves like \<open>ata\<close>, \<^verbatim>\<open>load_kernel\<close> reads the
  image of 500 sectors from sector 100; if it is a loadable file with an entry point, control goes to
  that entry with the address of the boot information, the segments in their place and paging
  switched on over the boot page directory; if it has no ELF signature, the loader stops for good.\<close>

theorem load_kernel_boots:
  assumes "ata_ok disk dev"
    and "m = store_bytes SYS_KERNEL_LOAD_ADDR (disk_bytes disk (SECTOR_SIZE * 100) (SECTOR_SIZE * 500)) (mem s)"
    and "loadable m SYS_KERNEL_LOAD_ADDR" and "e_entry (read_ehdr m SYS_KERNEL_LOAD_ADDR) \<noteq> 0"
  shows "\<exists>es. load_kernel dev dir info s =
    (if elf_ident_ok (e_ident (read_ehdr m SYS_KERNEL_LOAD_ADDR))
     then Some (Jump (e_entry (read_ehdr m SYS_KERNEL_LOAD_ADDR)) info
       (s\<lparr>io_log := es, cr4_reg := cr4_reg s OR 0x10, cr3_reg := dir, cr0_reg := cr0_reg s OR 0x80000000,
          mem := place_segments m SYS_KERNEL_LOAD_ADDR [0..<unat (e_phnum (read_ehdr m SYS_KERNEL_LOAD_ADDR))] m\<rparr>))
     else Some (Dead (s\<lparr>io_log := es, mem := m\<rparr>)))"
proof -
  obtain es where r: "read_disk dev 100 500 SYS_KERNEL_LOAD_ADDR s = Some (s\<lparr>io_log := es, mem := m\<rparr>)"
    using read_disk_effect [OF assms(1), of 500 100 SYS_KERNEL_LOAD_ADDR s] assms(2) by auto
  show ?thesis using reload_elf_file_eq [OF assms(3)] assms(4) r
    by (intro exI [of _ es])
      (simp add: load_kernel_def loader_read_disk_def enable_page_mode_def read_cr4_def write_cr4_def write_cr3_def
        read_cr0_def write_cr0_def CR4_PSE_def CR0_PG_def Let_def)
qed

subsection \<open>A concrete file\<close>

text \<open>An ELF file with one segment: two bytes of the file and two zero bytes go to \<open>0x10000\<close>.\<close>

definition demo_elf :: bytes where
  "demo_elf = (\<lambda>_. 0)(0x100000 := 0x7F, 0x100001 := 69, 0x100002 := 76, 0x100003 := 70, 0x10001A := 1,
     0x10001C := 52, 0x10002A := 32, 0x10002C := 1, 0x100034 := 1, 0x100038 := 84, 0x100042 := 1, 0x100044 := 2,
     0x100048 := 4, 0x100054 := 0xAA, 0x100055 := 0xBB)"

definition holds_demo_elf :: "bytes \<Rightarrow> bool" where
  "holds_demo_elf m \<longleftrightarrow> (\<forall>x \<in> region 0x100000 86. m x = demo_elf x)"

lemma demo_elf_headers:
  assumes "holds_demo_elf m"
  shows "read_ehdr m 0x100000 = \<lparr>e_ident = [0x7F, 69, 76, 70, 0, 0, 0, 0, 0, 0, 0, 0, 0, 0, 0, 0], e_type = 0,
      e_machine = 0, e_version = 0, e_entry = 0x10000, e_phoff = 52, e_shoff = 0, e_flags = 0, e_ehsize = 0,
      e_phentsize = 32, e_phnum = 1, e_shentsize = 0, e_shnum = 0, e_shstrndx = 0\<rparr>"
    and "read_phdr m 0x100034 = \<lparr>p_type = 1, p_offset = 84, p_vaddr = 0, p_paddr = 0x10000, p_filesz = 2,
      p_memsz = 4, p_flags = 0, p_align = 0\<rparr>"
    and "load_bytes m 0x100054 2 = [0xAA, 0xBB]"
proof -
  have s: "m x = demo_elf x" if "x \<in> region 0x100000 52" for x
    using assms that region_mono [of 52 86] unfolding holds_demo_elf_def by auto
  have p: "m x = demo_elf x" if "x \<in> region 0x100034 32" for x
    using assms that region_sub [of 52 32 86 "0x100000"] unfolding holds_demo_elf_def by auto
  have l: "m x = demo_elf x" if "x \<in> region 0x100054 2" for x
    using assms that region_sub [of 84 2 86 "0x100000"] unfolding holds_demo_elf_def by auto
  have "read_ehdr demo_elf 0x100000 = \<lparr>e_ident = [0x7F, 69, 76, 70, 0, 0, 0, 0, 0, 0, 0, 0, 0, 0, 0, 0], e_type = 0,
      e_machine = 0, e_version = 0, e_entry = 0x10000, e_phoff = 52, e_shoff = 0, e_flags = 0, e_ehsize = 0,
      e_phentsize = 32, e_phnum = 1, e_shentsize = 0, e_shnum = 0, e_shstrndx = 0\<rparr>"
    by (simp add: read_ehdr_def load_bytes_def EI_NIDENT_def upt_rec load16_def load32_def demo_elf_def)
  then show "read_ehdr m 0x100000 = \<lparr>e_ident = [0x7F, 69, 76, 70, 0, 0, 0, 0, 0, 0, 0, 0, 0, 0, 0, 0], e_type = 0,
      e_machine = 0, e_version = 0, e_entry = 0x10000, e_phoff = 52, e_shoff = 0, e_flags = 0, e_ehsize = 0,
      e_phentsize = 32, e_phnum = 1, e_shentsize = 0, e_shnum = 0, e_shstrndx = 0\<rparr>"
    using read_ehdr_cong [OF s] by simp
  have "read_phdr demo_elf 0x100034 = \<lparr>p_type = 1, p_offset = 84, p_vaddr = 0, p_paddr = 0x10000, p_filesz = 2,
      p_memsz = 4, p_flags = 0, p_align = 0\<rparr>"
    by (simp add: read_phdr_def load32_def demo_elf_def)
  then show "read_phdr m 0x100034 = \<lparr>p_type = 1, p_offset = 84, p_vaddr = 0, p_paddr = 0x10000, p_filesz = 2,
      p_memsz = 4, p_flags = 0, p_align = 0\<rparr>" using read_phdr_cong [OF p] by simp
  have "load_bytes demo_elf 0x100054 2 = [0xAA, 0xBB]" by (simp add: load_bytes_def upt_rec demo_elf_def)
  then show "load_bytes m 0x100054 2 = [0xAA, 0xBB]" using load_bytes_cong [OF l] by simp
qed

lemma demo_elf_loadable:
  assumes "holds_demo_elf m"
  shows "loadable m 0x100000"
proof -
  note h = demo_elf_headers [OF assms]
  have a: "phdr_at m 0x100000 0 = 0x100034" and p: "phdr m 0x100000 0 = read_phdr m 0x100034"
    by (simp_all add: phdr_at_def phdr_def h(1))
  have i: "load_index m 0x100000 = {0}" by (auto simp: load_index_def h(1,2) p PT_LOAD_def)
  have "{..<Suc 0} = {0}" by auto
  then have "file_parts m 0x100000 = region 0x100000 52 \<union> region 0x100034 32 \<union> region 0x100054 2"
    unfolding file_parts_def i by (simp add: h(1,2) a p)
  moreover have "region 0x10000 4 \<inter> region 0x100000 52 = {}" "region 0x10000 4 \<inter> region 0x100034 32 = {}"
    "region 0x10000 4 \<inter> region 0x100054 2 = {}" by (intro region_disjoint; simp)+
  ultimately show ?thesis unfolding loadable_def i by (simp add: h(2) p Int_Un_distrib)
qed

theorem reload_elf_file_places_witness:
  "reload_elf_file 0x100000 demo_elf = (0x10000, store_bytes 0x10000 [0xAA, 0xBB, 0, 0] demo_elf)"
proof -
  have d: "holds_demo_elf demo_elf" by (simp add: holds_demo_elf_def)
  note h = demo_elf_headers [OF d]
  have "phdr demo_elf 0x100000 0 = read_phdr demo_elf 0x100034" by (simp add: phdr_at_def phdr_def h(1))
  moreover have "replicate 2 (0 :: u8) = [0, 0]" by (simp add: numeral_2_eq_2)
  ultimately show ?thesis using reload_elf_file_places [OF demo_elf_loadable [OF d]] h(3)
    by (simp add: h(1,2) elf_ident_ok_def ELF_MAGIC_def PT_LOAD_def segment_bytes_def)
qed

definition boot_disk :: "nat \<Rightarrow> u8" where
  "boot_disk i = demo_elf (0x100000 + of_nat (i - 51200))"

definition boot_drive :: device where
  "boot_drive h p = (if p = 0x1f0 then disk_word boot_disk (word_pos (ata h)) else 0x08)"

definition boot_machine :: machine where
  "boot_machine = \<lparr>eflags = 2, cr0_reg = 1, cr2_reg = 0, cr3_reg = 0, cr4_reg = 0, tr_reg = 0,
     gdtr = make_table_reg 0 0, idtr = make_table_reg 0 0, io_log = [], mem = \<lambda>_. 0\<rparr>"

theorem load_kernel_boots_witness:
  "\<exists>s. load_kernel boot_drive 0x7000 0x6000 boot_machine = Some (Jump 0x10000 0x6000 s)
    \<and> cr3_reg s = 0x7000 \<and> cr0_reg s = 0x80000001"
proof -
  let ?bs = "disk_bytes boot_disk (SECTOR_SIZE * 100) (SECTOR_SIZE * 500)"
  define m where "m = store_bytes SYS_KERNEL_LOAD_ADDR ?bs (mem boot_machine)"
  have k: "SYS_KERNEL_LOAD_ADDR = 0x100000" by (simp add: SYS_KERNEL_LOAD_ADDR_def)
  have "m (0x100000 + of_nat i) = demo_elf (0x100000 + of_nat i)" if "i < 86" for i
  proof -
    have "i < length ?bs" "length ?bs \<le> 2 ^ 32" using that by (simp_all add: disk_bytes_def SECTOR_SIZE_def)
    from store_bytes_nth [OF this, of "0x100000" "mem boot_machine"] show ?thesis
      unfolding k m_def using that by (simp add: disk_bytes_def SECTOR_SIZE_def boot_disk_def)
  qed
  then have d: "holds_demo_elf m" by (auto simp: holds_demo_elf_def region_def)
  note h = demo_elf_headers [OF d]
  have "ata_ok boot_disk boot_drive" by (simp add: ata_ok_def boot_drive_def)
  moreover have "e_entry (read_ehdr m SYS_KERNEL_LOAD_ADDR) \<noteq> 0" "elf_ident_ok (e_ident (read_ehdr m SYS_KERNEL_LOAD_ADDR))"
    unfolding k by (simp_all add: h(1) elf_ident_ok_def ELF_MAGIC_def)
  moreover have "loadable m SYS_KERNEL_LOAD_ADDR" using demo_elf_loadable [OF d] unfolding k .
  ultimately obtain es where "load_kernel boot_drive 0x7000 0x6000 boot_machine = Some (Jump (e_entry (read_ehdr m SYS_KERNEL_LOAD_ADDR)) 0x6000
       (boot_machine\<lparr>io_log := es, cr4_reg := cr4_reg boot_machine OR 0x10, cr3_reg := 0x7000,
          cr0_reg := cr0_reg boot_machine OR 0x80000000,
          mem := place_segments m SYS_KERNEL_LOAD_ADDR [0..<unat (e_phnum (read_ehdr m SYS_KERNEL_LOAD_ADDR))] m\<rparr>))"
    using load_kernel_boots [OF _ m_def, of boot_drive "0x7000" "0x6000"] by auto
  then show ?thesis unfolding k h(1) by (auto simp: boot_machine_def)
qed

end
