(* ===== verification/Uvm.thy ===== *)
theory Uvm
  imports Memory
begin

text \<open>
  User address spaces: what \<^verbatim>\<open>memory_create_uvm\<close>, \<^verbatim>\<open>memory_get_paddr\<close>,
  \<^verbatim>\<open>memory_copy_uvm_data\<close>, \<^verbatim>\<open>memory_free_page\<close> and \<^verbatim>\<open>memory_destroy_uvm\<close> do,
  and the main properties of memory management, on a concrete state as well.
\<close>

subsection \<open>A new address space\<close>

lemma copy_kernel_pdes_effects:
  assumes "page_aligned p" "page_aligned K" "p \<noteq> K" "i + n \<le> 1024"
  shows "(\<forall>j < 1024. pde_at (copy_kernel_pdes n i p K m) p j =
      (if i \<le> j \<and> j < i + n then pde_at m K j else pde_at m p j))
    \<and> (\<forall>x. page_no x \<noteq> page_no p \<longrightarrow> copy_kernel_pdes n i p K m x = m x)"
  using assms(4)
proof (induction n arbitrary: i m)
  case (Suc n)
  let ?m = "store32 (p + of_nat i * 4) (load32 m (K + of_nat i * 4)) m"
  have w: "?m = store32 (page_word p i) (pde_at m K i) m" by (simp add: page_word_def pde_at_def)
  have o: "?m x = m x" if "page_no x \<noteq> page_no p" for x
    unfolding w using that assms(1) Suc.prems by (simp add: store_page_word_other)
  have K: "pde_at ?m K j = pde_at m K j" if "j < 1024" for j
    using that assms(1,2,3) page_no_eq [of K p] o by (intro pde_at_cong) auto
  have P: "pde_at ?m p j = (if j = i then pde_at m K i else pde_at m p j)" if "j < 1024" for j
    unfolding w using that assms(1) Suc.prems page_word_eq [of p p i j]
    by (simp add: pde_at_def load32_store32_if)
  have "Suc i + n \<le> 1024" using Suc.prems by simp
  from Suc.IH [OF this, of ?m] K P o show ?case by (auto simp: le_eq_less_or_eq)
qed auto

lemmas copy_kernel_pdes_effect = copy_kernel_pdes_effects [THEN conjunct1, rule_format]
  copy_kernel_pdes_effects [THEN conjunct2, rule_format]

lemma user_pde_start: "unat (pde_index MEMORY_TASK_BASE) = 512"
  unfolding unat_pde_index by (simp add: page_no_def MEMORY_TASK_BASE_def)

lemma memory_create_uvm_effect:
  assumes aw: "alloc_wf (paddr_alloc s)" and kd: "dir_wf (mem s) (kernel_page_dir s) (paddr_alloc s)"
  shows "\<exists>dir s'. memory_create_uvm s = Inr (dir, s') \<and> alloc_wf (paddr_alloc s')
    \<and> (dir = 0 \<longleftrightarrow> avail (paddr_alloc s) = {}) \<and> (dir = 0 \<longrightarrow> mem s' = mem s)
    \<and> avail (paddr_alloc s') = avail (paddr_alloc s) - {dir}
    \<and> s' = s\<lparr>mem := mem s', paddr_alloc := paddr_alloc s'\<rparr>
    \<and> (dir \<noteq> 0 \<longrightarrow> dir \<in> avail (paddr_alloc s) \<and> dir_wf (mem s') dir (paddr_alloc s')
        \<and> (\<forall>n. entry (mem s') dir n = (if n < 2 ^ 19 then entry (mem s) (kernel_page_dir s) n else None))
        \<and> (\<forall>x. page_no x \<noteq> page_no dir \<longrightarrow> mem s' x = mem s x)
        \<and> (\<forall>j. has_pt (mem s') dir j \<longrightarrow> j < 512)
        \<and> dir_pages (mem s') dir \<subseteq> insert (page_no dir) (dir_pages (mem s) (kernel_page_dir s)))"
proof -
  let ?K = "kernel_page_dir s"
  obtain p s1 where a: "addr_alloc_page 1 s = Inr (p, s1)" "alloc_wf (paddr_alloc s1)"
    "alloc_rest s1 = alloc_rest s"
    "p = 0 \<longleftrightarrow> avail (paddr_alloc s) = {}" "p \<noteq> 0 \<Longrightarrow> p \<in> avail (paddr_alloc s)"
    "avail (paddr_alloc s1) = avail (paddr_alloc s) - {p}"
    using pool.alloc_total [OF aw] by metis
  note s1 = alloc_rest_eq [OF a(3)]
  have m1: "mem s1 = mem s" "kernel_page_dir s1 = ?K"
    using arg_cong [OF s1, of mem] arg_cong [OF s1, of kernel_page_dir] by simp_all
  have s1': "s1 = s\<lparr>mem := mem s, paddr_alloc := paddr_alloc s1\<rparr>" by (subst s1) simp
  show ?thesis
  proof (cases "p = 0")
    case True
    then have "memory_create_uvm s = Inr (0, s1)" using a(1) by (simp add: memory_create_uvm_def)
    with True a m1 s1' show ?thesis by (intro exI [of _ 0] exI [of _ s1]) simp
  next
    case p: False
    have pa: "page_aligned p" using frames_valid(1) [OF aw] a(5) p avail_frames by blast
    have K: "page_aligned ?K" "p \<noteq> ?K" using kd a(5) [OF p] by (auto simp: dir_wf_def)
    have tb: "p \<noteq> pt_at (mem s) ?K j" if "has_pt (mem s) ?K j" for j
      using kd a(5) [OF p] that by (auto simp: dir_wf_def)
    let ?c = "clear_page p (mem s)"
    let ?m = "copy_kernel_pdes 512 0 p ?K ?c"
    let ?s = "s1\<lparr>mem := ?m\<rparr>"
    have r: "memory_create_uvm s = Inr (p, ?s)"
      using a(1) p m1 by (simp add: memory_create_uvm_def user_pde_start clear_page_def Let_def)
    have other: "?m x = mem s x" if "page_no x \<noteq> page_no p" for x
      using that copy_kernel_pdes_effect(2) [OF pa K(1,2), of 0 512 x ?c] pa p by (simp add: clear_page_eq)
    have "pde_at ?c ?K j = pde_at (mem s) ?K j" "pde_at ?c p j = 0" if "j < 1024" for j
      using that pa p K by (simp_all add: pde_at_def load_clear_page)
    then have pd: "pde_at ?m p j = (if j < 512 then pde_at (mem s) ?K j else 0)" if "j < 1024" for j
      using that copy_kernel_pdes_effect(1) [OF pa K(1,2), of 0 512 j ?c] by simp
    have h: "has_pt ?m p j \<longleftrightarrow> j < 512 \<and> has_pt (mem s) ?K j" for j
      using pd by (cases "j < 512") (auto simp: has_pt_def present_def)
    have t: "pt_at ?m p j = pt_at (mem s) ?K j" if "j < 512" for j using pd that by (simp add: pt_at_def)
    have "dir_wf ?m p (paddr_alloc s1)"
      unfolding dir_wf_def
    proof (intro conjI allI impI)
      show "page_aligned p" "p \<notin> avail (paddr_alloc s1)" using pa a(6) by auto
    next
      fix i assume "has_pt ?m p i"
      then show "pt_at ?m p i \<noteq> p" "pt_at ?m p i \<noteq> 0" "pt_at ?m p i \<notin> avail (paddr_alloc s1)"
        using h t tb [of i] kd a(6) by (auto simp: dir_wf_def)
    next
      fix i j assume "has_pt ?m p i" "has_pt ?m p j" "pt_at ?m p i = pt_at ?m p j"
      then show "i = j" using h t kd by (auto simp: dir_wf_def)
    qed
    moreover have "entry ?m p n = (if n < 2 ^ 19 then entry (mem s) ?K n else None)" for n
    proof (cases "has_pt ?m p (n div 1024)")
      case True
      then have n: "n div 1024 < 512" "has_pt (mem s) ?K (n div 1024)" using h by auto
      have "load32 ?m (page_word (pt_at (mem s) ?K (n div 1024)) (n mod 1024)) =
          load32 (mem s) (page_word (pt_at (mem s) ?K (n div 1024)) (n mod 1024))"
        using other tb [OF n(2)] page_no_eq [OF _ pa] by (intro load_page_word_cong) auto
      then show ?thesis using True n t by (auto simp: entry_def Let_def)
    next
      case False
      then have "n < 2 ^ 19 \<Longrightarrow> \<not> has_pt (mem s) ?K (n div 1024)" using h by auto
      with False show ?thesis by (auto simp: entry_def)
    qed
    moreover have "dir_pages ?m p \<subseteq> insert (page_no p) (dir_pages (mem s) ?K)" using h t by (auto simp: dir_pages_def)
    moreover have "?s = s\<lparr>mem := mem ?s, paddr_alloc := paddr_alloc ?s\<rparr>" by (subst s1') simp
    ultimately show ?thesis using r p a other h by (intro exI [of _ p] exI [of _ ?s]) simp
  qed
qed

lemma memory_create_uvm_frames:
  assumes "memory_create_uvm s = Inr (D, s1)" "alloc_wf (paddr_alloc s)"
  shows "frames (paddr_alloc s1) = frames (paddr_alloc s)"
proof -
  obtain p s2 where a: "addr_alloc_page 1 s = Inr (p, s2)" "frames (paddr_alloc s2) = frames (paddr_alloc s)"
    using pool.alloc_total [OF assms(2)] by metis
  have "\<exists>m. memory_create_uvm s = Inr (p, s2\<lparr>mem := m\<rparr>)"
  proof (cases "p = 0")
    case True
    then show ?thesis using a(1) by (intro exI [of _ "mem s2"]) (simp add: memory_create_uvm_def)
  next
    case False
    then show ?thesis by (simp only: memory_create_uvm_def a(1) bindR_Inr Let_def if_False) blast
  qed
  then obtain m where "s1 = s2\<lparr>mem := m\<rparr>" using assms(1) by auto
  then show ?thesis using a(2) by simp
qed

subsection \<open>Looking up addresses\<close>

lemma memory_get_paddr_eq:
  assumes "dir_wf (mem s) dir (paddr_alloc s)"
  shows "memory_get_paddr dir va s = Inr (if has_pt (mem s) dir (page_no va div 1024)
    then pte_paddr (load32 (mem s) (page_word (pt_at (mem s) dir (page_no va div 1024)) (page_no va mod 1024)))
         + (va AND (MEM_PAGE_SIZE - 1))
    else 0, s)"
proof -
  have "page_word (pt_at (mem s) dir (page_no va div 1024)) (page_no va mod 1024) \<noteq> 0"
    if "has_pt (mem s) dir (page_no va div 1024)"
    using assms that by (intro page_word_nonzero) (auto simp: dir_wf_def)
  then show ?thesis by (simp add: memory_get_paddr_def find_pte_lookup)
qed

lemma translate_eq:
  "translate m dir va = map_option (\<lambda>pte. pte_paddr pte + (va AND (MEM_PAGE_SIZE - 1))) (entry m dir (page_no va))"
  by (simp add: translate_def pt_entry_eq)

lemma memory_get_paddr_mapped:
  assumes "dir_wf (mem s) dir (paddr_alloc s)" "translate (mem s) dir va = Some pa"
  shows "memory_get_paddr dir va s = Inr (pa, s)"
  using assms memory_get_paddr_eq [OF assms(1), of va]
  by (auto simp: translate_eq entry_def Let_def split: if_splits)

subsection \<open>Releasing address spaces\<close>

lemma addr_free_page_out:
  assumes "alloc_wf (paddr_alloc s)" "page_aligned p" "p \<notin> frames (paddr_alloc s)"
  obtains al where "addr_free_page p n s = Inr ((), s\<lparr>paddr_alloc := al\<rparr>)" "alloc_wf al"
    "frames al = frames (paddr_alloc s)" "avail al = avail (paddr_alloc s)"
proof -
  let ?al = "paddr_alloc s"
  have wf: "bitmap_wf (aa_bitmap ?al)" "mutex_free (aa_mutex ?al)" "aa_page_size ?al = 4096"
    "page_aligned (aa_start ?al)" "unat (aa_start ?al) + 4096 * nat (bit_count (aa_bitmap ?al)) \<le> 2 ^ 31"
    using assms(1) by (auto simp: alloc_wf_def)
  let ?i = "(p - aa_start ?al) div 4096"
  have "unat (p - aa_start ?al) < 2 ^ 32" by (rule unat_u32_bound)
  then have "unat ?i < 2 ^ 31" unfolding unat_div_distrib by simp
  then have si: "sint ?i = int (unat ?i)" using sint_of_nat_u32 [of "unat ?i"] by simp
  have "nat (bit_count (aa_bitmap ?al)) \<le> unat ?i"
  proof (rule ccontr)
    assume "\<not> nat (bit_count (aa_bitmap ?al)) \<le> unat ?i"
    then have lt: "unat ?i < nat (bit_count (aa_bitmap ?al))" by simp
    define d where "d = unat (p - aa_start ?al)"
    have di: "unat ?i = d div 4096" by (simp add: unat_div_distrib d_def)
    have "d < 4096 * nat (bit_count (aa_bitmap ?al))" using lt unfolding di by simp
    then have "unat (aa_start ?al) + d < 2 ^ 32" using wf(5) by simp
    then have up: "unat (aa_start ?al + of_nat d) = unat (aa_start ?al) + d" by (rule unat_add_lt)
    have "aa_start ?al + of_nat d = p" by (simp add: d_def)
    then have "4096 dvd d" using up assms(2) wf(4) by (simp add: page_aligned_def) (metis dvd_add_right_iff)
    then have "p = frame ?al (d div 4096)"
      using \<open>aa_start ?al + of_nat d = p\<close> by (auto simp: frame_def mult.commute elim!: dvdE)
    moreover have "int (d div 4096) < bit_count (aa_bitmap ?al)" using lt unfolding di by linarith
    ultimately show False using assms(3) by (auto simp: frames_def)
  qed
  then have "bit_count (aa_bitmap ?al) \<le> sint ?i" unfolding si by linarith
  from addr_free_page_same [OF assms(1) bitmap_set_bit_behind [OF this]] that show thesis by blast
qed

text \<open>\<open>frees s s' F\<close>: only the allocator changed, and the frames among \<open>F\<close> became available.\<close>

definition frees :: "'s kmem_scheme \<Rightarrow> 's kmem_scheme \<Rightarrow> addr set \<Rightarrow> bool" where
  "frees s s' F \<longleftrightarrow> s' = s\<lparr>paddr_alloc := paddr_alloc s'\<rparr> \<and> alloc_wf (paddr_alloc s')
     \<and> frames (paddr_alloc s') = frames (paddr_alloc s)
     \<and> avail (paddr_alloc s') = avail (paddr_alloc s) \<union> (F \<inter> frames (paddr_alloc s))"

lemma frees_refl: "alloc_wf (paddr_alloc s) \<Longrightarrow> frees s s {}"
  by (simp add: frees_def)

lemma frees_mem: "frees s s' F \<Longrightarrow> mem s' = mem s"
proof -
  assume "frees s s' F"
  then have "s' = s\<lparr>paddr_alloc := paddr_alloc s'\<rparr>" by (simp add: frees_def)
  from arg_cong [OF this, of mem] show ?thesis by simp
qed

lemma frees_trans:
  assumes "frees s s1 F" "frees s1 s2 G"
  shows "frees s s2 (F \<union> G)"
proof -
  have "s2 = s\<lparr>paddr_alloc := paddr_alloc s2\<rparr>"
  proof -
    have e1: "s1 = s\<lparr>paddr_alloc := paddr_alloc s1\<rparr>" and e2: "s2 = s1\<lparr>paddr_alloc := paddr_alloc s2\<rparr>"
      using assms by (auto simp: frees_def)
    show ?thesis by (subst e2, subst e1) simp
  qed
  then show ?thesis using assms unfolding frees_def by blast
qed

lemma kfree_frees:
  assumes "alloc_wf (paddr_alloc s)" "page_aligned p"
  shows "\<exists>s'. kfree p s = Inr ((), s') \<and> frees s s' {p}"
proof (cases "p \<in> frames (paddr_alloc s)")
  case True
  from addr_free_page_frame [OF assms(1) True] obtain al where
    "addr_free_page p 1 s = Inr ((), s\<lparr>paddr_alloc := al\<rparr>)" "alloc_wf al"
    "frames al = frames (paddr_alloc s)" "avail al = insert p (avail (paddr_alloc s))" by blast
  with True show ?thesis by (auto simp: kfree_def frees_def)
next
  case False
  from addr_free_page_out [OF assms False, of 1] obtain al where
    "addr_free_page p 1 s = Inr ((), s\<lparr>paddr_alloc := al\<rparr>)" "alloc_wf al"
    "frames al = frames (paddr_alloc s)" "avail al = avail (paddr_alloc s)" by blast
  with False show ?thesis by (auto simp: kfree_def frees_def)
qed

text \<open>The frames that the entries of a table, and the tables of a directory, point to.\<close>

definition table_frames :: "bytes \<Rightarrow> addr \<Rightarrow> nat \<Rightarrow> addr set" where
  "table_frames m a n = {pte_paddr (load32 m (a + of_nat k * 4)) | k. k < n \<and> present (load32 m (a + of_nat k * 4))}"

definition pde_frames :: "bytes \<Rightarrow> addr \<Rightarrow> addr set" where
  "pde_frames m a = insert (pde_paddr (load32 m a)) (table_frames m (pde_paddr (load32 m a)) 1024)"

definition dir_frames :: "bytes \<Rightarrow> addr \<Rightarrow> nat \<Rightarrow> addr set" where
  "dir_frames m a n = \<Union> {pde_frames m (a + of_nat k * 4) | k. k < n \<and> present (load32 m (a + of_nat k * 4))}"

lemma collect_Suc: "{f k | k. k < Suc n \<and> P k} = (if P 0 then {f 0} else {}) \<union> {f (Suc k) | k. k < n \<and> P (Suc k)}"
  by (auto simp: less_Suc_eq_0_disj)

lemma step4: "a + of_nat (Suc k) * 4 = (a + 4) + of_nat k * (4 :: u32)"
  by (simp add: algebra_simps)

lemma table_frames_Suc:
  "table_frames m a (Suc n) = (if present (load32 m a) then {pte_paddr (load32 m a)} else {}) \<union> table_frames m (a + 4) n"
  unfolding table_frames_def collect_Suc step4 by simp

lemma dir_frames_Suc:
  "dir_frames m a (Suc n) = (if present (load32 m a) then pde_frames m a else {}) \<union> dir_frames m (a + 4) n"
  unfolding dir_frames_def collect_Suc step4 by simp

lemma destroy_table_frees:
  assumes "alloc_wf (paddr_alloc s)"
  shows "\<exists>s'. destroy_table n pte s = Inr ((), s') \<and> frees s s' (table_frames (mem s) pte n)"
  using assms
proof (induction n arbitrary: pte s)
  case 0
  then show ?case using frees_refl by (auto simp: table_frames_def)
next
  case (Suc n)
  show ?case
  proof (cases "present (load32 (mem s) pte)")
    case False
    with Suc.IH [OF Suc.prems, of "pte + 4"] show ?thesis by (simp add: table_frames_Suc)
  next
    case True
    obtain s1 where k: "kfree (pte_paddr (load32 (mem s) pte)) s = Inr ((), s1)"
      "frees s s1 {pte_paddr (load32 (mem s) pte)}" using kfree_frees [OF Suc.prems paddr_aligned(2)] by blast
    have "alloc_wf (paddr_alloc s1)" using k(2) by (simp add: frees_def)
    from Suc.IH [OF this, of "pte + 4"] obtain s2 where
      "destroy_table n (pte + 4) s1 = Inr ((), s2)" "frees s1 s2 (table_frames (mem s) (pte + 4) n)"
      unfolding frees_mem [OF k(2)] by blast
    with True k frees_trans [OF k(2)] show ?thesis by (simp add: table_frames_Suc)
  qed
qed

lemma destroy_dir_frees:
  assumes "alloc_wf (paddr_alloc s)"
  shows "\<exists>s'. destroy_dir n pde s = Inr ((), s') \<and> frees s s' (dir_frames (mem s) pde n)"
  using assms
proof (induction n arbitrary: pde s)
  case 0
  then show ?case using frees_refl by (auto simp: dir_frames_def)
next
  case (Suc n)
  let ?t = "pde_paddr (load32 (mem s) pde)"
  show ?case
  proof (cases "present (load32 (mem s) pde)")
    case False
    with Suc.IH [OF Suc.prems, of "pde + 4"] show ?thesis by (simp add: dir_frames_Suc)
  next
    case True
    obtain s1 where t: "destroy_table PTE_CNT ?t s = Inr ((), s1)" "frees s s1 (table_frames (mem s) ?t PTE_CNT)"
      using destroy_table_frees [OF Suc.prems] by blast
    then have w1: "alloc_wf (paddr_alloc s1)" by (simp add: frees_def)
    obtain s2 where k: "kfree ?t s1 = Inr ((), s2)" "frees s1 s2 {?t}" using kfree_frees [OF w1 paddr_aligned(1)] by blast
    then have "alloc_wf (paddr_alloc s2)" by (simp add: frees_def)
    from Suc.IH [OF this, of "pde + 4"] obtain s3 where d:
      "destroy_dir n (pde + 4) s2 = Inr ((), s3)" "frees s2 s3 (dir_frames (mem s) (pde + 4) n)"
      unfolding frees_mem [OF k(2)] frees_mem [OF t(2)] by blast
    have "frees s s3 (dir_frames (mem s) pde (Suc n))"
      using frees_trans [OF frees_trans [OF t(2) k(2)] d(2)] True
      by (simp add: dir_frames_Suc pde_frames_def PTE_CNT_def)
    with True t k d frees_mem [OF t(2)] show ?thesis by simp
  qed
qed

lemma memory_destroy_uvm_frees:
  assumes "alloc_wf (paddr_alloc s)" "page_aligned dir" "dir \<noteq> 0"
  shows "\<exists>s'. memory_destroy_uvm dir s = Inr ((), s')
    \<and> frees s s' (insert dir (dir_frames (mem s) (page_word dir (page_no dir div 1024)) (1024 - page_no dir div 1024)))"
proof -
  let ?a = "page_word dir (page_no dir div 1024)" and ?n = "1024 - page_no dir div 1024"
  obtain s1 where d: "destroy_dir ?n ?a s = Inr ((), s1)" "frees s s1 (dir_frames (mem s) ?a ?n)"
    using destroy_dir_frees [OF assms(1)] by blast
  then have "alloc_wf (paddr_alloc s1)" by (simp add: frees_def)
  then obtain s2 where k: "kfree dir s1 = Inr ((), s2)" "frees s1 s2 {dir}" using kfree_frees assms(2) by blast
  have "memory_destroy_uvm dir s = Inr ((), s2)"
    using d(1) k(1) assms(3) by (simp add: memory_destroy_uvm_def pde_index_word unat_pde_index PDE_CNT_def Let_def)
  moreover have "frees s s2 (insert dir (dir_frames (mem s) ?a ?n))"
    using frees_trans [OF d(2) k(2)] by simp
  ultimately show ?thesis by blast
qed

lemma mapped_in_dir_frames:
  assumes "entry m dir n = Some v" "i \<le> n div 1024"
  shows "pte_paddr v \<in> dir_frames m (page_word dir i) (1024 - i)"
    and "pt_at m dir (n div 1024) \<in> dir_frames m (page_word dir i) (1024 - i)"
proof -
  have h: "n div 1024 < 1024" "present (pde_at m dir (n div 1024))"
    and v: "v = load32 m (page_word (pt_at m dir (n div 1024)) (n mod 1024))" "present v"
    using assms(1) by (auto simp: entry_def has_pt_def Let_def split: if_splits)
  let ?k = "n div 1024 - i"
  have w: "page_word dir i + of_nat ?k * 4 = page_word dir (n div 1024)"
    using assms(2) by (simp add: page_word_def of_nat_diff algebra_simps)
  have "n mod 1024 < 1024" by simp
  then have "pte_paddr v \<in> table_frames m (pt_at m dir (n div 1024)) 1024"
    using v unfolding table_frames_def page_word_def by blast
  then have "pte_paddr v \<in> pde_frames m (page_word dir (n div 1024))"
    "pt_at m dir (n div 1024) \<in> pde_frames m (page_word dir (n div 1024))"
    by (simp_all add: pde_frames_def pt_at_def pde_at_def)
  moreover have "pde_frames m (page_word dir (n div 1024)) \<subseteq> dir_frames m (page_word dir i) (1024 - i)"
  proof -
    have "?k < 1024 - i" using h(1) assms(2) by simp
    moreover have "present (load32 m (page_word dir i + of_nat ?k * 4))" using h(2) unfolding w pde_at_def .
    ultimately have "pde_frames m (page_word dir i + of_nat ?k * 4) \<in>
        {pde_frames m (page_word dir i + of_nat k * 4) | k. k < 1024 - i \<and> present (load32 m (page_word dir i + of_nat k * 4))}"
      by blast
    then show ?thesis unfolding dir_frames_def w by (rule Union_upper)
  qed
  ultimately show "pte_paddr v \<in> dir_frames m (page_word dir i) (1024 - i)"
    "pt_at m dir (n div 1024) \<in> dir_frames m (page_word dir i) (1024 - i)" by blast+
qed

subsection \<open>Copying between address spaces\<close>

text \<open>
  \<open>dst\<close> gives the physical address of each target byte. The pages a read of a virtual address
  depends on must not be written by the copy.
\<close>

definition read_pages :: "'m machine_scheme \<Rightarrow> addr \<Rightarrow> nat set" where
  "read_pages s a = (if a < MEMORY_TASK_BASE then {page_no a}
     else dir_pages (mem s) (cr3_reg s) \<union> {page_no p | p. translate (mem s) (cr3_reg s) a = Some p})"

lemma vload_cong:
  assumes "page_aligned (cr3_reg s)" and "\<And>x. page_no x \<in> read_pages s a \<Longrightarrow> m' x = mem s x"
  shows "vload (s\<lparr>mem := m'\<rparr>) a = vload s a" and "read_pages (s\<lparr>mem := m'\<rparr>) a = read_pages s a"
proof -
  have tr: "translate m' (cr3_reg s) a = translate (mem s) (cr3_reg s) a" if "\<not> a < MEMORY_TASK_BASE"
    unfolding translate_eq using dir_cong(3) [OF assms(1), of "mem s" m'] assms(2) that by (simp add: read_pages_def)
  show "vload (s\<lparr>mem := m'\<rparr>) a = vload s a"
  proof (cases "a < MEMORY_TASK_BASE")
    case True
    then show ?thesis using assms(2) [of a] by (simp add: vload_def read_pages_def)
  next
    case False
    then have "m' p = mem s p" if "translate (mem s) (cr3_reg s) a = Some p" for p
      using that by (intro assms(2)) (auto simp: read_pages_def)
    then show ?thesis using tr [OF False] False
      by (cases "translate (mem s) (cr3_reg s) a") (auto simp: vload_def)
  qed
  have "dir_pages m' (cr3_reg s) = dir_pages (mem s) (cr3_reg s)" if "\<not> a < MEMORY_TASK_BASE"
  proof -
    have "m' x = mem s x" if "page_no x \<in> dir_pages (mem s) (cr3_reg s)" for x
      using assms(2) [of x] that \<open>\<not> a < MEMORY_TASK_BASE\<close> by (simp add: read_pages_def)
    note c = dir_cong(1,2) [OF assms(1), of "mem s" m', OF this]
    have "pt_at m' (cr3_reg s) i = pt_at (mem s) (cr3_reg s) i" if "has_pt (mem s) (cr3_reg s) i" for i
      using c(2) that by (simp add: has_pt_def)
    then show ?thesis unfolding dir_pages_def using c(1) by (metis (no_types, lifting))
  qed
  then show "read_pages (s\<lparr>mem := m'\<rparr>) a = read_pages s a" using tr by (auto simp: read_pages_def)
qed

lemma vmemcpy_loop_effect:
  assumes "page_aligned (cr3_reg s)" and "n \<le> 2 ^ 32"
    and "\<And>i. i < n \<Longrightarrow> vload s (a + of_nat i) = Some (b i)"
    and "\<And>i j. i < n \<Longrightarrow> j < n \<Longrightarrow> page_no (d + of_nat j) \<notin> read_pages s (a + of_nat i)"
  shows "vmemcpy_loop n d a s = Inr ((), s\<lparr>mem := store_bytes d (map b [0..<n]) (mem s)\<rparr>)"
  using assms
proof (induction n arbitrary: d a s b)
  case (Suc n)
  let ?s = "s\<lparr>mem := (mem s)(d := b 0)\<rparr>"
  have st: "vload ?s (a + of_nat i) = vload s (a + of_nat i)" "read_pages ?s (a + of_nat i) = read_pages s (a + of_nat i)"
    if "i < Suc n" for i
  proof -
    have "page_no d \<notin> read_pages s (a + of_nat i)" using Suc.prems(4) [of i 0] that by simp
    then have "((mem s)(d := b 0)) x = mem s x" if "page_no x \<in> read_pages s (a + of_nat i)" for x
      using that by auto
    from vload_cong [OF Suc.prems(1) this]
    show "vload ?s (a + of_nat i) = vload s (a + of_nat i)"
      "read_pages ?s (a + of_nat i) = read_pages s (a + of_nat i)" by (simp_all del: fun_upd_apply)
  qed
  have sh: "a + 1 + of_nat i = a + of_nat (Suc i)" "d + 1 + of_nat i = d + of_nat (Suc i)" for i
    by (simp_all add: ac_simps)
  have "vmemcpy_loop n (d + 1) (a + 1) ?s =
      Inr ((), ?s\<lparr>mem := store_bytes (d + 1) (map (\<lambda>i. b (Suc i)) [0..<n]) (mem ?s)\<rparr>)"
  proof (rule Suc.IH)
    show "vload ?s (a + 1 + of_nat i) = Some (b (Suc i))" if "i < n" for i
      unfolding sh using st(1) [of "Suc i"] Suc.prems(3) [of "Suc i"] that by (simp del: of_nat_Suc)
    show "page_no (d + 1 + of_nat j) \<notin> read_pages ?s (a + 1 + of_nat i)" if "i < n" "j < n" for i j
      unfolding sh using st(2) [of "Suc i"] Suc.prems(4) [of "Suc i" "Suc j"] that by (simp del: of_nat_Suc)
  qed (use Suc.prems in auto)
  moreover have "vload s a = Some (b 0)" using Suc.prems(3) [of 0] by simp
  moreover have "map b [0..<Suc n] = b 0 # map (\<lambda>i. b (Suc i)) [0..<n]"
    by (simp add: upt_conv_Cons del: upt_Suc) (simp add: map_Suc_upt [symmetric] del: map_Suc_upt upt_Suc)
  ultimately show ?case by simp
qed simp

definition page_off :: "addr \<Rightarrow> nat" where
  "page_off a = unat a mod 4096"

lemma page_off_and: "a AND (MEM_PAGE_SIZE - 1) = of_nat (page_off a)"
proof -
  have lit: "(4095 :: u32) = mask 12" by (simp add: mask_eq_exp_minus_1)
  have "a AND 4095 = take_bit 12 a" unfolding lit by (simp only: take_bit_eq_mask)
  then have "unat (a AND 4095) = page_off a" by (simp add: unat_mod_distrib take_bit_eq_mod page_off_def)
  from arg_cong [OF this, of "of_nat :: nat \<Rightarrow> u32"] show ?thesis by (simp add: MEM_PAGE_SIZE_def)
qed

lemma page_off_add:
  assumes "page_off a + i < 4096"
  shows "page_off (a + of_nat i) = page_off a + i" and "page_no (a + of_nat i) = page_no a"
proof -
  have u: "unat a = 4096 * page_no a + page_off a" by (simp add: page_no_def page_off_def)
  then have "unat a + i < 2 ^ 32" using assms page_no_bound [of a] by simp
  then have e: "unat (a + of_nat i) = 4096 * page_no a + (page_off a + i)" using u unat_add_lt [of a i] by simp
  show "page_off (a + of_nat i) = page_off a + i" "page_no (a + of_nat i) = page_no a"
    unfolding page_off_def [of "a + of_nat i"] page_no_def [of "a + of_nat i"] e using assms by simp_all
qed

lemma translate_same_page:
  assumes "translate m dir a = Some p" "page_off a + i < 4096"
  shows "translate m dir (a + of_nat i) = Some (p + of_nat i)"
  using assms(1) page_off_add [OF assms(2)] by (auto simp: translate_eq page_off_and)

lemma translate_off:
  assumes "translate m dir a = Some p"
  shows "page_off p = page_off a"
proof -
  obtain v where p: "p = pte_paddr v + of_nat (page_off a)" using assms by (auto simp: translate_eq page_off_and)
  have "page_off (pte_paddr v) = 0" using paddr_aligned(2) [of v] by (simp add: page_off_def page_aligned_def)
  moreover have "page_off a < 4096" by (simp add: page_off_def)
  ultimately show ?thesis using page_off_add(1) [of "pte_paddr v" "page_off a"] p by simp
qed

lemma unat_page_chunk: "unat (page_chunk p sz) = min (unat sz) (4096 - page_off p)"
proof -
  have off: "page_off p < 4096" by (simp add: page_off_def)
  have "unat (4096 - of_nat (page_off p) :: u32) = 4096 - page_off p"
    using off by (simp add: unat_sub word_le_nat_alt unat_of_nat)
  then show ?thesis using page_off_and [of p]
    by (auto simp: page_chunk_def MEM_PAGE_SIZE_def Let_def word_less_nat_alt min_def)
qed

text \<open>A copy may be made: every target byte has its own physical address outside the page tables,
  every source byte can be read, and no page that the reads depend on is written.\<close>

definition can_copy :: "addr \<Rightarrow> addr \<Rightarrow> addr \<Rightarrow> nat \<Rightarrow> (nat \<Rightarrow> addr) \<Rightarrow> (nat \<Rightarrow> u8) \<Rightarrow> 's kmem_scheme \<Rightarrow> bool" where
  "can_copy to dir from n dst b s \<longleftrightarrow> dir_wf (mem s) dir (paddr_alloc s) \<and> page_aligned (cr3_reg s)
     \<and> from \<noteq> 0 \<and> unat from + n \<le> 2 ^ 32 \<and> inj_on dst {..<n}
     \<and> (\<forall>i < n. translate (mem s) dir (to + of_nat i) = Some (dst i) \<and> dst i \<noteq> 0
         \<and> page_no (dst i) \<notin> dir_pages (mem s) dir \<and> vload s (from + of_nat i) = Some (b i)
         \<and> (\<forall>j < n. page_no (dst j) \<notin> read_pages s (from + of_nat i)))"

lemma can_copy_step:
  assumes cc: "can_copy to dir from n dst b s" and c: "c \<le> n" "c < n \<or> n = c"
    and m': "\<And>x. x \<notin> dst ` {..<c} \<Longrightarrow> m' x = mem s x" and nz: "c < n \<Longrightarrow> from + of_nat c \<noteq> 0"
  shows "c < n \<Longrightarrow> can_copy (to + of_nat c) dir (from + of_nat c) (n - c) (\<lambda>i. dst (c + i)) (\<lambda>i. b (c + i)) (s\<lparr>mem := m'\<rparr>)"
proof -
  assume lt: "c < n"
  have dw: "dir_wf (mem s) dir (paddr_alloc s)" and al: "page_aligned dir" "page_aligned (cr3_reg s)"
    using cc by (auto simp: can_copy_def dir_wf_def)
  have D: "m' x = mem s x" if "page_no x \<in> dir_pages (mem s) dir" for x
    using that cc c by (intro m') (auto simp: can_copy_def)
  have R: "m' x = mem s x" if "page_no x \<in> read_pages s (from + of_nat i)" "i < n" for x i
  proof (rule m', rule notI)
    assume "x \<in> dst ` {..<c}"
    then obtain j where "j < c" "x = dst j" by blast
    then show False using that cc c(1) unfolding can_copy_def by (meson order.strict_trans2)
  qed
  have dw': "dir_wf m' dir (paddr_alloc s)" using dir_wf_cong [OF dw D] by simp
  have tr: "translate m' dir a = translate (mem s) dir a" for a
    unfolding translate_eq using dir_cong(3) [OF al(1), of "mem s" m', OF D] by simp
  have dp: "dir_pages m' dir = dir_pages (mem s) dir"
  proof -
    note k = dir_cong(1,2) [OF al(1), of "mem s" m', OF D]
    have "pt_at m' dir i = pt_at (mem s) dir i" if "has_pt (mem s) dir i" for i using k(2) that by (simp add: has_pt_def)
    then show ?thesis unfolding dir_pages_def using k(1) by (metis (no_types, lifting))
  qed
  have rd: "vload (s\<lparr>mem := m'\<rparr>) (from + of_nat i) = vload s (from + of_nat i)"
    "read_pages (s\<lparr>mem := m'\<rparr>) (from + of_nat i) = read_pages s (from + of_nat i)" if "i < n" for i
    using vload_cong [OF al(2) R [OF _ that]] by auto
  have sh: "a + of_nat c + of_nat i = a + of_nat (c + i)" for a :: u32 and i by (simp add: ac_simps)
  have "unat from + c < 2 ^ 32" using cc lt by (simp add: can_copy_def)
  then have uf: "unat (from + of_nat c) = unat from + c" by (rule unat_add_lt)
  have "inj_on (\<lambda>i. dst (c + i)) {..<n - c}"
  proof (rule inj_onI)
    fix x y assume "x \<in> {..<n - c}" "y \<in> {..<n - c}" "dst (c + x) = dst (c + y)"
    moreover have "inj_on dst {..<n}" using cc by (simp add: can_copy_def)
    ultimately show "x = y" using inj_onD [of dst "{..<n}" "c + x" "c + y"] by simp
  qed
  moreover have "i < n - c \<Longrightarrow> c + i < n" for i by simp
  ultimately show ?thesis using cc dw' nz [OF lt] lt rd unfolding can_copy_def sh
    by (simp add: tr dp uf al del: of_nat_add)
qed

lemma memory_copy_uvm_data_effect:
  assumes "can_copy to dir from (unat sz) dst b s"
  shows "\<exists>m'. memory_copy_uvm_data to dir from sz s = Inr (0, s\<lparr>mem := m'\<rparr>)
    \<and> (\<forall>i < unat sz. m' (dst i) = b i) \<and> (\<forall>x. x \<notin> dst ` {..<unat sz} \<longrightarrow> m' x = mem s x)"
  using assms
proof (induction "unat sz" arbitrary: to "from" sz dst b s rule: less_induct)
  case less
  show ?case
  proof (cases "sz = 0")
    case True
    then show ?thesis by (subst memory_copy_uvm_data.simps) (auto intro: exI [of _ "mem s"])
  next
    case False
    then have pos: "0 < unat sz" by (simp add: unat_gt_0)
    let ?c = "page_chunk (dst 0) sz" and ?n = "unat sz"
    define c where "c = unat ?c"
    have cc: "dir_wf (mem s) dir (paddr_alloc s)" "page_aligned (cr3_reg s)" "from \<noteq> 0" "unat from + ?n \<le> 2 ^ 32"
      "inj_on dst {..<?n}" "translate (mem s) dir to = Some (dst 0)" "dst 0 \<noteq> 0"
      using less.prems pos unfolding can_copy_def by (auto dest!: spec [of _ "0 :: nat"])
    have c1: "c \<le> ?n" "0 < c" "page_off to + c \<le> 4096"
      using pos translate_off [OF cc(6)] unfolding c_def unat_page_chunk by (auto simp: page_off_def)
    have d: "dst i = dst 0 + of_nat i" if "i < c" for i
    proof -
      have "translate (mem s) dir (to + of_nat i) = Some (dst 0 + of_nat i)"
        using that c1(3) by (intro translate_same_page [OF cc(6)]) simp
      moreover have "translate (mem s) dir (to + of_nat i) = Some (dst i)"
        using less.prems that c1(1) by (simp add: can_copy_def)
      ultimately show ?thesis by simp
    qed
    let ?m = "store_bytes (dst 0) (map b [0..<c]) (mem s)"
    have "vmemcpy_loop c (dst 0) from s = Inr ((), s\<lparr>mem := ?m\<rparr>)"
    proof (rule vmemcpy_loop_effect [OF cc(2)])
      show "c \<le> 2 ^ 32" unfolding c_def using unat_u32_bound [of ?c] by simp
      show "vload s (from + of_nat i) = Some (b i)" if "i < c" for i
        using less.prems that c1(1) by (simp add: can_copy_def)
      show "page_no (dst 0 + of_nat j) \<notin> read_pages s (from + of_nat i)" if "i < c" "j < c" for i j
        using less.prems that c1(1) d [OF that(2)] unfolding can_copy_def by (metis order.strict_trans2)
    qed
    then have cp: "kmemcpy_virt (dst 0) from ?c s = Inr ((), s\<lparr>mem := ?m\<rparr>)"
      using cc(3,7) c1(2) by (auto simp: kmemcpy_virt_def c_def)
    have wr: "?m (dst i) = b i" if "i < c" for i
      using that store_bytes_nth [of i "map b [0..<c]" "dst 0" "mem s"] d [OF that] c1(1) unat_u32_bound [of sz] by simp
    have fr: "?m x = mem s x" if nx: "x \<notin> dst ` {..<c}" for x
    proof -
      have "x \<notin> region (dst 0) c"
      proof
        assume "x \<in> region (dst 0) c"
        then obtain i where i: "i < c" "x = dst 0 + of_nat i" by (auto simp: region_def)
        then have "x = dst i" using d [OF i(1)] by simp
        then show False using nx i(1) by blast
      qed
      then show ?thesis by (simp add: store_bytes_other)
    qed
    have step: "memory_copy_uvm_data to dir from sz s =
        memory_copy_uvm_data (to + ?c) dir (from + ?c) (sz - ?c) (s\<lparr>mem := ?m\<rparr>)"
      using False memory_get_paddr_mapped [OF cc(1,6)] cc(7) cp
      by (subst memory_copy_uvm_data.simps) (simp add: Let_def)
    have us: "unat (sz - ?c) = ?n - c" using page_chunk_le [of "dst 0" sz] by (simp add: unat_sub c_def word_le_nat_alt)
    show ?thesis
    proof (cases "c < ?n")
      case False
      then have e: "c = ?n" using c1(1) by simp
      then have "sz - ?c = 0" using us by (metis diff_self_eq_0 unat_eq_0)
      then have "memory_copy_uvm_data to dir from sz s = Inr (0, s\<lparr>mem := ?m\<rparr>)"
        unfolding step by (subst memory_copy_uvm_data.simps) simp
      then show ?thesis using wr fr e by auto
    next
      case True
      have "unat from + c < 2 ^ 32" using cc(4) True by simp
      then have "unat (from + of_nat c) \<noteq> 0" using unat_add_lt [of "from" c] c1(2) by simp
      then have "from + of_nat c \<noteq> 0" by auto
      from can_copy_step [OF less.prems c1(1) _ fr this True] True
      have nx: "can_copy (to + ?c) dir (from + ?c) (unat (sz - ?c)) (\<lambda>i. dst (c + i)) (\<lambda>i. b (c + i)) (s\<lparr>mem := ?m\<rparr>)"
        unfolding us by (simp add: c_def)
      have "unat (sz - ?c) < unat sz" using us c1(2) pos by simp
      from less.hyps [OF this nx] obtain m' where ih:
        "memory_copy_uvm_data (to + ?c) dir (from + ?c) (sz - ?c) (s\<lparr>mem := ?m\<rparr>) = Inr (0, s\<lparr>mem := m'\<rparr>)"
        "\<And>i. i < ?n - c \<Longrightarrow> m' (dst (c + i)) = b (c + i)"
        "\<And>x. x \<notin> (\<lambda>i. dst (c + i)) ` {..<?n - c} \<Longrightarrow> m' x = ?m x"
        unfolding us by auto
      have "m' (dst i) = b i" if "i < ?n" for i
      proof (cases "i < c")
        case True
        have "dst i \<notin> (\<lambda>i. dst (c + i)) ` {..<?n - c}"
        proof
          assume "dst i \<in> (\<lambda>i. dst (c + i)) ` {..<?n - c}"
          then obtain k where k: "k < ?n - c" "dst i = dst (c + k)" by blast
          then have "i = c + k" using inj_onD [OF cc(5) k(2)] that by simp
          then show False using True by simp
        qed
        then show ?thesis using ih(3) wr [OF True] by simp
      next
        case False
        then show ?thesis using ih(2) [of "i - c"] that by simp
      qed
      moreover have "m' x = mem s x" if "x \<notin> dst ` {..<?n}" for x
      proof -
        have "x \<notin> (\<lambda>i. dst (c + i)) ` {..<?n - c}" "x \<notin> dst ` {..<c}" using that c1(1) by auto
        then show ?thesis using ih(3) fr by simp
      qed
      ultimately show ?thesis using step ih(1) by auto
    qed
  qed
qed

subsection \<open>A concrete memory\<close>

text \<open>Sixteen free frames from 1 MiB on, a cleared memory, and an empty page directory at \<open>0x10000\<close>.\<close>

definition demo_alloc :: addr_alloc_t where
  "demo_alloc = \<lparr>aa_mutex = mutex_zero, aa_bitmap = \<lparr>bit_count = 16, bits = [0, 0]\<rparr>,
     aa_start = 0x100000, aa_size = 0x10000, aa_page_size = 4096\<rparr>"

definition demo_kmem :: kmem where
  "demo_kmem = gdt_state.extend demo_gdt (kmem.fields demo_alloc 0x10000 0)"

lemma demo_kmem_fields [simp]:
  "mem demo_kmem = (\<lambda>_. 0)" "paddr_alloc demo_kmem = demo_alloc" "kernel_page_dir demo_kmem = 0x10000"
  "undef_ret demo_kmem = 0" "cr3_reg demo_kmem = 0" "curr_task demo_kmem = 0x2000"
proof -
  have d: "mem demo_sched = (\<lambda>_. 0) \<and> cr3_reg demo_sched = 0 \<and> curr_task demo_sched = 0x2000"
    by (simp add: demo_sched_def demo_base_def task_set_sleep_def task_set_ready_def upd_task_def Let_def
        split: prod.splits)
  then show "mem demo_kmem = (\<lambda>_. 0)" "cr3_reg demo_kmem = 0" "curr_task demo_kmem = 0x2000"
    by (simp_all add: demo_kmem_def demo_gdt_def gdt_state.defs kmem.defs sched.defs)
  show "paddr_alloc demo_kmem = demo_alloc" "kernel_page_dir demo_kmem = 0x10000" "undef_ret demo_kmem = 0"
    by (simp_all add: demo_kmem_def gdt_state.defs kmem.defs)
qed

lemma demo_alloc_wf: "alloc_wf demo_alloc"
  by (simp add: alloc_wf_def demo_alloc_def bitmap_wf_def page_aligned_def)

lemma demo_bits: "\<not> bm_bit \<lparr>bit_count = 16, bits = [0, 0]\<rparr> k" if "k < 16"
proof -
  have "k div 8 = 0 \<or> k div 8 = 1" using that by auto
  then show ?thesis by (auto simp: bm_bit_def)
qed

lemma demo_frame: "frame demo_alloc k = 0x100000 + of_nat k * 4096"
  by (simp add: frame_def demo_alloc_def)

lemma demo_bit_count [simp]: "bit_count (aa_bitmap demo_alloc) = 16"
  by (simp add: demo_alloc_def)

lemma demo_frames: "frames demo_alloc = {0x100000 + of_nat k * 4096 | k. k < 16}"
proof -
  have "int k < 16 \<longleftrightarrow> k < 16" for k by auto
  then show ?thesis by (auto simp: frames_def demo_frame image_iff)
qed

lemma demo_avail: "avail demo_alloc = frames demo_alloc"
  using demo_bits by (auto simp: avail_def frames_def demo_alloc_def)

lemma demo_frame_page: "p \<in> frames demo_alloc \<Longrightarrow> 256 \<le> page_no p \<and> page_no p < 272"
proof -
  assume "p \<in> frames demo_alloc"
  then obtain k where k: "k < 16" "p = 0x100000 + of_nat (k * 4096)" by (auto simp: demo_frames)
  then have "unat p = 0x100000 + k * 4096" using unat_add_lt [of "0x100000" "k * 4096"] by simp
  then have "page_no p = 256 + k" by (simp add: page_no_def)
  then show ?thesis using k(1) by simp
qed

lemma load32_zero [simp]: "load32 (\<lambda>_. 0) a = 0"
  by (simp add: load32_def)

lemma demo_no_pt [simp]: "has_pt (\<lambda>_. 0) dir i = False"
  by (simp add: has_pt_def pde_at_def present_def)

lemma demo_vm_ok: "vm_ok 0x10000 demo_kmem"
proof -
  have "page_no 0x10000 = 16" by (simp add: page_no_def)
  then have "0x10000 \<notin> frames demo_alloc" using demo_frame_page [of "0x10000"] by auto
  then show ?thesis
    using demo_alloc_wf demo_avail by (simp add: vm_ok_def dir_wf_def page_aligned_def)
qed

lemma demo_entry [simp]: "entry (\<lambda>_. 0) dir n = None"
  by (simp add: entry_def)

subsection \<open>Main properties\<close>

text \<open>C28: The page allocator. \<^verbatim>\<open>memory_alloc_page\<close> returns 0 exactly if no frame is available;
  otherwise it takes an available frame, which is page aligned and below the user space, and
  \<^verbatim>\<open>memory_free_page\<close> of that frame makes exactly the same frames available again.\<close>

theorem page_alloc_free_round_trip:
  assumes "alloc_wf (paddr_alloc s)"
  shows "\<exists>p s'. memory_alloc_page s = Inr (p, s') \<and> alloc_wf (paddr_alloc s') \<and> mem s' = mem s
    \<and> (p = 0 \<longleftrightarrow> avail (paddr_alloc s) = {}) \<and> avail (paddr_alloc s') = avail (paddr_alloc s) - {p}
    \<and> (p \<noteq> 0 \<longrightarrow> p \<in> avail (paddr_alloc s) \<and> page_aligned p \<and> p < MEMORY_TASK_BASE
        \<and> (\<exists>s2. memory_free_page p s' = Inr ((), s2) \<and> avail (paddr_alloc s2) = avail (paddr_alloc s)))"
proof -
  obtain p s' where a: "addr_alloc_page 1 s = Inr (p, s')" "alloc_wf (paddr_alloc s')"
    "alloc_rest s' = alloc_rest s" "p = 0 \<longleftrightarrow> avail (paddr_alloc s) = {}"
    "p \<noteq> 0 \<Longrightarrow> p \<in> avail (paddr_alloc s)" "avail (paddr_alloc s') = avail (paddr_alloc s) - {p}"
    using pool.alloc_total [OF assms] by metis
  have "mem s' = mem s" using arg_cong [OF alloc_rest_eq [OF a(3)], of mem] by simp
  moreover have "page_aligned p" "p < MEMORY_TASK_BASE"
    "\<exists>s2. memory_free_page p s' = Inr ((), s2) \<and> avail (paddr_alloc s2) = avail (paddr_alloc s)" if nz: "p \<noteq> 0"
  proof -
    have "p \<in> frames (paddr_alloc s)" using a(5) [OF nz] avail_frames by blast
    then show v: "page_aligned p" "p < MEMORY_TASK_BASE" using frames_valid [OF assms] by auto
    obtain s2 where "addr_free_page p 1 s' = Inr ((), s2)" "avail (paddr_alloc s2) = avail (paddr_alloc s)"
      using pool.alloc_release [OF assms a(1) nz] by blast
    then show "\<exists>s2. memory_free_page p s' = Inr ((), s2) \<and> avail (paddr_alloc s2) = avail (paddr_alloc s)"
      using v by (auto simp: memory_free_page_def)
  qed
  ultimately show ?thesis using a by (auto simp: memory_alloc_page_def)
qed

theorem page_alloc_free_round_trip_witness:
  "\<exists>p s' s2. memory_alloc_page demo_kmem = Inr (p, s') \<and> p \<in> frames demo_alloc
     \<and> memory_free_page p s' = Inr ((), s2) \<and> avail (paddr_alloc s2) = frames demo_alloc"
proof -
  have "avail (paddr_alloc demo_kmem) \<noteq> {}" unfolding demo_kmem_fields demo_avail demo_frames by (auto intro: exI [of _ "0::nat"])
  then show ?thesis using page_alloc_free_round_trip [of demo_kmem] demo_alloc_wf demo_avail by auto
qed

text \<open>C10: \<^verbatim>\<open>memory_create_map\<close> on pages that are not mapped yet, in a well-formed directory. It
  always returns, and it keeps the directory well-formed. Either all \<open>n\<close> pages are mapped to
  consecutive frames with the given permissions, or it returns -1 because the frames ran out, with a
  first part of the pages mapped. The translation of every other page is as before, and memory
  outside the page tables is not written.\<close>

theorem memory_create_map_effect:
  assumes "vm_ok dir s" and "page_no va + n \<le> 2 ^ 20"
    and "\<forall>k < n. entry (mem s) dir (page_no va + k) = None"
  shows "\<exists>r s' k. memory_create_map dir va paddr (int n) perm s = Inr (r, s') \<and> vm_ok dir s' \<and> grows dir s s'
    \<and> k \<le> n \<and> (if k = n then r = undef_ret s else r = -1 \<and> avail (paddr_alloc s') = {})
    \<and> (\<forall>a. pt_entry (mem s') dir a =
        (if page_no va \<le> page_no a \<and> page_no a < page_no va + k
         then Some ((paddr + of_nat (page_no a - page_no va) * MEM_PAGE_SIZE) OR perm OR PTE_P)
         else pt_entry (mem s) dir a))"
proof -
  obtain r s' k where e: "create_map_loop n dir va paddr perm s = Inr (r, s')" "grows dir s s'" "vm_ok dir s'"
    "k \<le> n" "if k = n then r = undef_ret s else r = -1 \<and> avail (paddr_alloc s') = {}"
    "entry (mem s') dir = mapped (page_no va) k paddr perm (entry (mem s) dir)"
    using create_map_loop_effect [OF assms(1,2)] assms(3) by blast
  have "pt_entry (mem s') dir a = (if page_no va \<le> page_no a \<and> page_no a < page_no va + k
         then Some ((paddr + of_nat (page_no a - page_no va) * MEM_PAGE_SIZE) OR perm OR PTE_P)
         else pt_entry (mem s) dir a)" for a
    unfolding pt_entry_eq e(6) mapped_def ..
  moreover have "memory_create_map dir va paddr (int n) perm s = Inr (r, s')"
    using e(1) by (simp add: memory_create_map_def)
  ultimately show ?thesis using e(2-5) by blast
qed

lemma find_pte_nonzero:
  assumes "vm_ok dir s" "avail (paddr_alloc s) \<noteq> {}" "find_pte dir va 1 s = Inr (pte, s')"
  shows "pte \<noteq> 0"
proof (cases "has_pt (mem s) dir (page_no va div 1024)")
  case True
  then have "pt_at (mem s) dir (page_no va div 1024) \<noteq> 0" using assms(1) by (auto simp: vm_ok_def dir_wf_def)
  then show ?thesis using find_pte_has [OF True] assms(3) page_word_nonzero by auto
next
  case False
  obtain p s1 where a: "addr_alloc_page 1 s = Inr (p, s1)" "p \<noteq> 0" "p \<in> avail (paddr_alloc s)"
    using alloc_page_grows [OF assms(1)] assms(2) by metis
  have "page_aligned p" using frames_valid(1) a(3) assms(1) avail_frames unfolding vm_ok_def by blast
  moreover have "pte = page_word p (page_no va mod 1024)"
    using assms(3) a(1,2) False pde_no_lt [of va]
    by (simp add: find_pte_def pde_index_word pte_index_word Let_def has_pt_def pde_at_def)
  ultimately show ?thesis using a(2) page_word_nonzero by simp
qed

text \<open>One page is mapped if a frame is left, whatever the mapping needs.\<close>

lemma create_map_one:
  assumes "vm_ok dir s" "avail (paddr_alloc s) \<noteq> {}" "entry (mem s) dir (page_no va) = None" "undef_ret s \<noteq> -1"
  shows "\<exists>s'. memory_create_map dir va paddr 1 perm s = Inr (undef_ret s, s') \<and> vm_ok dir s' \<and> grows dir s s'
    \<and> entry (mem s') dir = (entry (mem s) dir)(page_no va \<mapsto> (paddr OR perm OR PTE_P))"
proof -
  have "page_no va + Suc 0 \<le> 2 ^ 20" using page_no_bound [of va] by simp
  then obtain r s' k where e: "create_map_loop (Suc 0) dir va paddr perm s = Inr (r, s')" "grows dir s s'" "vm_ok dir s'"
    "k \<le> Suc 0" "if k = Suc 0 then r = undef_ret s else r = -1 \<and> avail (paddr_alloc s') = {}"
    "entry (mem s') dir = mapped (page_no va) k paddr perm (entry (mem s) dir)"
    using create_map_loop_effect [OF assms(1), of va "Suc 0" paddr perm] assms(3) by auto
  obtain pte s1 where f: "find_pte dir va 1 s = Inr (pte, s1)" "grows dir s s1"
    using find_pte_alloc [OF assms(1)] by blast
  have "pte \<noteq> 0" using find_pte_nonzero [OF assms(1,2) f(1)] .
  then have "r = undef_ret s" using e(1) f(1) grows_undef [OF f(2)] by (auto simp: store_word_def split: if_splits)
  then have "k = Suc 0" using e(4,5) assms(4) by (auto split: if_splits)
  then show ?thesis using e mapped_1 by (auto simp: memory_create_map_def)
qed

lemma demo_avail_nonempty: "avail (paddr_alloc demo_kmem) \<noteq> {}"
  unfolding demo_kmem_fields demo_avail demo_frames by (auto intro: exI [of _ "0::nat"])

lemma demo_map:
  "\<exists>s'. memory_create_map 0x10000 va paddr 1 perm demo_kmem = Inr (0, s') \<and> vm_ok 0x10000 s'
    \<and> grows 0x10000 demo_kmem s' \<and> entry (mem s') 0x10000 = [page_no va \<mapsto> (paddr OR perm OR PTE_P)]"
proof -
  have "entry (mem demo_kmem) 0x10000 = (\<lambda>_. None)" by (simp add: fun_eq_iff)
  then show ?thesis using create_map_one [OF demo_vm_ok demo_avail_nonempty, of va paddr perm] by simp
qed

theorem memory_create_map_effect_witness:
  "\<exists>r s'. memory_create_map 0x10000 0x80000000 0x20000 (int 2) 7 demo_kmem = Inr (r, s') \<and> vm_ok 0x10000 s'"
proof -
  have "page_no 0x80000000 + 2 \<le> 2 ^ 20" by (simp add: page_no_def)
  moreover have "\<forall>k < 2. entry (mem demo_kmem) 0x10000 (page_no 0x80000000 + k) = None" by simp
  ultimately show ?thesis using memory_create_map_effect [OF demo_vm_ok] by blast
qed

text \<open>C17: A new address space. \<^verbatim>\<open>memory_create_uvm\<close> returns 0 exactly if no frame is available;
  otherwise the new directory, in a fresh frame, translates the kernel half like the kernel directory
  and maps nothing in the user half, and only that frame was written.\<close>

theorem memory_create_uvm_maps_kernel:
  assumes "alloc_wf (paddr_alloc s)" and "dir_wf (mem s) (kernel_page_dir s) (paddr_alloc s)"
  shows "\<exists>dir s'. memory_create_uvm s = Inr (dir, s') \<and> alloc_wf (paddr_alloc s')
    \<and> (dir = 0 \<longleftrightarrow> avail (paddr_alloc s) = {})
    \<and> (dir \<noteq> 0 \<longrightarrow> dir \<in> avail (paddr_alloc s) \<and> vm_ok dir s'
        \<and> (\<forall>va. pt_entry (mem s') dir va =
             (if va < MEMORY_TASK_BASE then pt_entry (mem s) (kernel_page_dir s) va else None))
        \<and> (\<forall>x. page_no x \<noteq> page_no dir \<longrightarrow> mem s' x = mem s x))"
proof -
  have half: "page_no va < 2 ^ 19 \<longleftrightarrow> va < MEMORY_TASK_BASE" for va
    by (simp add: page_no_def MEMORY_TASK_BASE_def word_less_nat_alt) linarith
  show ?thesis
    using memory_create_uvm_effect [OF assms] unfolding pt_entry_eq vm_ok_def half [symmetric] by blast
qed

theorem memory_create_uvm_maps_kernel_witness:
  "\<exists>dir s'. memory_create_uvm demo_kmem = Inr (dir, s') \<and> dir \<in> avail demo_alloc \<and> vm_ok dir s'"
proof -
  have "avail demo_alloc \<noteq> {}" unfolding demo_kmem_fields demo_avail demo_frames by (auto intro: exI [of _ "0::nat"])
  then show ?thesis
    using memory_create_uvm_maps_kernel [of demo_kmem] demo_vm_ok by (auto simp: vm_ok_def)
qed

lemma and_not_4095: "(x :: u32) AND NOT 4095 = x - (x AND 4095)"
proof -
  have "(x AND NOT 4095) + (x AND 4095) = (x AND NOT 4095) OR (x AND 4095)"
    by (rule disjunctive_add) (simp only: bit_and_iff bit_not_iff, blast)
  also have "\<dots> = x" by (rule bit_eqI) (simp only: bit_or_iff bit_and_iff bit_not_iff, blast)
  finally show ?thesis by (simp only: eq_diff_eq)
qed

lemma unat_down2: "unat (down2 x MEM_PAGE_SIZE) = 4096 * page_no x"
proof -
  have "unat (x AND 4095) = page_off x" using page_off_and [of x]
    by (simp add: MEM_PAGE_SIZE_def unat_of_nat page_off_def)
  moreover have "page_off x \<le> unat x" by (simp add: page_off_def)
  ultimately have "unat (x - (x AND 4095)) = unat x - page_off x" by (simp add: unat_sub word_le_nat_alt)
  also have "\<dots> = 4096 * page_no x" by (simp add: page_off_def page_no_def minus_mod_eq_mult_div)
  finally have "unat (x AND NOT 4095) = 4096 * page_no x" unfolding and_not_4095 .
  moreover have "MEM_PAGE_SIZE - 1 = 4095" by (simp add: MEM_PAGE_SIZE_def)
  ultimately show ?thesis unfolding down2_def by metis
qed

lemma up2_down2: "up2 x MEM_PAGE_SIZE = down2 (x + of_nat 4095) MEM_PAGE_SIZE"
  by (simp add: up2_def down2_def MEM_PAGE_SIZE_def add.commute)

lemma unat_up2:
  assumes "unat x + 4095 < 2 ^ 32"
  shows "unat (up2 x MEM_PAGE_SIZE) = 4096 * ((unat x + 4095) div 4096)"
  unfolding up2_down2 unat_down2 page_no_def unat_add_lt [OF assms] ..

text \<open>Rounding to page boundaries, for sizes that do not wrap: both results are multiples of the page
  size, \<^verbatim>\<open>down2\<close> is the greatest one not above and \<^verbatim>\<open>up2\<close> the least one not below the argument.\<close>

theorem page_rounding_bounds:
  assumes "unat x + 4095 < 2 ^ 32"
  shows "page_aligned (down2 x MEM_PAGE_SIZE) \<and> page_aligned (up2 x MEM_PAGE_SIZE)
    \<and> down2 x MEM_PAGE_SIZE \<le> x \<and> unat x < unat (down2 x MEM_PAGE_SIZE) + 4096
    \<and> x \<le> up2 x MEM_PAGE_SIZE \<and> unat (up2 x MEM_PAGE_SIZE) < unat x + 4096"
proof -
  note u = unat_up2 [OF assms]
  have d: "unat (down2 x MEM_PAGE_SIZE) = 4096 * (unat x div 4096)" unfolding unat_down2 page_no_def ..
  show ?thesis unfolding page_aligned_def word_le_nat_alt u d by (simp, linarith)
qed

text \<open>C18: Memory for a process. For a range of user pages that are not mapped yet
  \<^verbatim>\<open>memory_alloc_for_page_dir\<close> always returns 0 and keeps the directory well-formed. A first part of
  the pages is mapped, each to a frame of its own that was available before; it is all of them unless
  the frames ran out, which the caller cannot see. The translation of the other pages does not change.
  The hypothesis on \<open>undef_ret\<close> is for \<^verbatim>\<open>memory_create_map\<close>, whose indeterminate result must not be negative.\<close>

theorem memory_alloc_for_page_dir_effect:
  assumes "vm_ok dir s" and "0 \<le> sint (undef_ret s)" and "MEMORY_TASK_BASE \<le> vaddr"
    and "unat sz + 4095 < 2 ^ 32" and "n = (unat sz + 4095) div 4096"
    and "page_no vaddr + n \<le> 2 ^ 20" and "\<forall>k < n. entry (mem s) dir (page_no vaddr + k) = None"
  shows "\<exists>s' k f. memory_alloc_for_page_dir dir vaddr sz perm s = Inr (0, s') \<and> vm_ok dir s' \<and> grows dir s s'
    \<and> k \<le> n \<and> (k < n \<longrightarrow> avail (paddr_alloc s') = {})
    \<and> inj_on f {..<k} \<and> f ` {..<k} \<subseteq> taken s s'
    \<and> (\<forall>a. pt_entry (mem s') dir a =
        (if page_no vaddr \<le> page_no a \<and> page_no a < page_no vaddr + k
         then Some (f (page_no a - page_no vaddr) OR perm OR PTE_P) else pt_entry (mem s) dir a))"
proof -
  have "unat (up2 sz MEM_PAGE_SIZE div MEM_PAGE_SIZE) = n"
    unfolding unat_div_distrib unat_up2 [OF assms(4)] assms(5) by (simp add: MEM_PAGE_SIZE_def)
  then have eq: "memory_alloc_for_page_dir dir vaddr sz perm s = alloc_for_page_dir_loop n 0 dir vaddr vaddr perm s"
    by (simp add: memory_alloc_for_page_dir_def)
  obtain s' k f where e: "alloc_for_page_dir_loop n 0 dir vaddr vaddr perm s = Inr (0, s')" "vm_ok dir s'"
    "grows dir s s'" "k \<le> n" "k < n \<longrightarrow> avail (paddr_alloc s') = {}" "fresh_frames f k s s'"
    "entry (mem s') dir = placed f (page_no vaddr) k perm (entry (mem s) dir)"
    using alloc_for_page_dir_loop_effect [OF assms(1-3,6), of 0 perm] assms(7) by blast
  have "pt_entry (mem s') dir a = (if page_no vaddr \<le> page_no a \<and> page_no a < page_no vaddr + k
         then Some (f (page_no a - page_no vaddr) OR perm OR PTE_P) else pt_entry (mem s) dir a)" for a
    unfolding pt_entry_eq e(7) placed_def ..
  then show ?thesis using e(1-6) unfolding eq fresh_frames_def by blast
qed

theorem memory_alloc_for_page_dir_effect_witness:
  "\<exists>s'. memory_alloc_for_page_dir 0x10000 0x80000000 6000 7 demo_kmem = Inr (0, s') \<and> vm_ok 0x10000 s'"
proof -
  have "page_no 0x80000000 = 0x80000" by (simp add: page_no_def)
  moreover have "(2 :: nat) = (unat (6000 :: u32) + 4095) div 4096" "unat (6000 :: u32) + 4095 < 2 ^ 32" by simp_all
  moreover have "\<forall>k < 2. entry (mem demo_kmem) 0x10000 (page_no 0x80000000 + k) = None" by simp
  moreover have "0 \<le> sint (undef_ret demo_kmem)" "MEMORY_TASK_BASE \<le> 0x80000000"
    by (simp_all add: MEMORY_TASK_BASE_def)
  moreover have "page_no 0x80000000 + 2 \<le> 2 ^ 20" by (simp add: page_no_def)
  ultimately show ?thesis
    using memory_alloc_for_page_dir_effect [OF demo_vm_ok, of "0x80000000" 6000 2 7] by blast
qed

text \<open>\<^verbatim>\<open>memory_get_paddr\<close> agrees with the address translation of the processor on every mapped
  address and returns 0 if there is no page table; but if there is a page table whose entry is not
  present, it returns the address that the entry would give instead of 0.\<close>

theorem memory_get_paddr_follows_mmu:
  assumes "dir_wf (mem s) dir (paddr_alloc s)"
  shows "\<exists>p. memory_get_paddr dir va s = Inr (p, s)
    \<and> (case translate (mem s) dir va of
         Some pa \<Rightarrow> p = pa
       | None \<Rightarrow> if present (load32 (mem s) (dir + pde_index va * 4))
           then p = pte_paddr (load32 (mem s) (pde_paddr (load32 (mem s) (dir + pde_index va * 4)) + pte_index va * 4))
                    + (va AND (MEM_PAGE_SIZE - 1))
           else p = 0)"
  using memory_get_paddr_eq [OF assms, of va] pde_no_lt [of va]
  by (auto simp: translate_eq entry_def has_pt_def pde_at_def pt_at_def pde_index_word pte_index_word Let_def)

theorem memory_get_paddr_follows_mmu_witness:
  "\<exists>s'. memory_create_map 0x10000 0x80000000 0x20000 1 7 demo_kmem = Inr (0, s')
    \<and> memory_get_paddr 0x10000 0x80000004 s' = Inr (0x20004, s')"
proof -
  obtain s' where m: "memory_create_map 0x10000 0x80000000 0x20000 1 7 demo_kmem = Inr (0, s')" "vm_ok 0x10000 s'"
    "entry (mem s') 0x10000 = [page_no 0x80000000 \<mapsto> (0x20000 OR 7 OR PTE_P)]" using demo_map by blast
  have "translate (mem s') 0x10000 0x80000004 = Some 0x20004"
    unfolding translate_eq m(3) by (simp add: page_no_def PTE_P_def pte_paddr_def MEM_PAGE_SIZE_def)
  then show ?thesis using memory_get_paddr_follows_mmu [of s' "0x10000" "0x80000004"] m(1,2)
    by (auto simp: vm_ok_def)
qed

text \<open>C19: Copying to another address space. If every target byte is mapped there outside the page
  tables, every source byte is readable, and no written page takes part in the reading, then
  \<^verbatim>\<open>memory_copy_uvm_data\<close> returns 0, the other address space reads the copied bytes at the target
  addresses, and no other byte of memory changes.\<close>

theorem memory_copy_uvm_data_copies:
  assumes "can_copy to dir from (unat sz) dst b s"
  shows "\<exists>m'. memory_copy_uvm_data to dir from sz s = Inr (0, s\<lparr>mem := m'\<rparr>)
    \<and> (\<forall>i < unat sz. translate m' dir (to + of_nat i) = Some (dst i) \<and> m' (dst i) = b i)
    \<and> (\<forall>x. x \<notin> dst ` {..<unat sz} \<longrightarrow> m' x = mem s x)"
proof -
  obtain m' where c: "memory_copy_uvm_data to dir from sz s = Inr (0, s\<lparr>mem := m'\<rparr>)"
    "\<And>i. i < unat sz \<Longrightarrow> m' (dst i) = b i" "\<And>x. x \<notin> dst ` {..<unat sz} \<Longrightarrow> m' x = mem s x"
    using memory_copy_uvm_data_effect [OF assms] by blast
  have "m' x = mem s x" if "page_no x \<in> dir_pages (mem s) dir" for x
    using that assms by (intro c(3)) (auto simp: can_copy_def)
  moreover have "page_aligned dir" using assms by (simp add: can_copy_def dir_wf_def)
  ultimately have "entry m' dir n = entry (mem s) dir n" for n by (intro dir_cong(3))
  then have "translate m' dir (to + of_nat i) = Some (dst i)" if "i < unat sz" for i
    using assms that by (simp add: translate_eq can_copy_def)
  with c show ?thesis by blast
qed

lemma page_no_0x20000: "i < 4096 \<Longrightarrow> page_no (0x20000 + of_nat i) = 32"
  using page_no_offset [of "0x20000" i] by (simp add: page_aligned_def page_no_def)

lemma demo_dir_pages:
  assumes "grows 0x10000 demo_kmem s'" "j \<in> dir_pages (mem s') 0x10000"
  shows "j = 16 \<or> 256 \<le> j"
proof -
  have "dir_pages (mem demo_kmem) 0x10000 = {16}" by (simp add: dir_pages_def page_no_def)
  moreover have "taken demo_kmem s' \<subseteq> frames demo_alloc" by (auto simp: taken_def demo_avail)
  moreover have "dir_pages (mem s') 0x10000 \<subseteq> dir_pages (mem demo_kmem) 0x10000 \<union> page_no ` taken demo_kmem s'"
    using assms(1) by (simp add: grows_def)
  ultimately have "j = 16 \<or> j \<in> page_no ` frames demo_alloc" using assms(2) by blast
  then show ?thesis using demo_frame_page by blast
qed

theorem memory_copy_uvm_data_copies_witness:
  "\<exists>s1 m'. memory_create_map 0x10000 0x80000000 0x20000 1 7 demo_kmem = Inr (0, s1)
    \<and> memory_copy_uvm_data 0x80000000 0x10000 0x5000 100 s1 = Inr (0, s1\<lparr>mem := m'\<rparr>)
    \<and> m' 0x20063 = mem s1 0x5063"
proof -
  obtain s' where m: "memory_create_map 0x10000 0x80000000 0x20000 1 7 demo_kmem = Inr (0, s')" "vm_ok 0x10000 s'"
    "grows 0x10000 demo_kmem s'" "entry (mem s') 0x10000 = [page_no 0x80000000 \<mapsto> (0x20000 OR 7 OR PTE_P)]"
    using demo_map by blast
  have "s' = demo_kmem\<lparr>mem := mem s', paddr_alloc := paddr_alloc s'\<rparr>" using m(3) by (simp add: grows_def)
  from arg_cong [OF this, of cr3_reg] have cr3: "cr3_reg s' = 0" by simp
  have t0: "translate (mem s') 0x10000 0x80000000 = Some 0x20000"
    unfolding translate_eq m(4) by (simp add: PTE_P_def pte_paddr_def MEM_PAGE_SIZE_def)
  have t: "translate (mem s') 0x10000 (0x80000000 + of_nat i) = Some (0x20000 + of_nat i)" if "i < 100" for i
    by (rule translate_same_page [OF t0]) (use that in \<open>simp add: page_off_def\<close>)
  have dp: "page_no (0x20000 + of_nat i) \<notin> dir_pages (mem s') 0x10000" if "i < 100" for i
    using demo_dir_pages [OF m(3), of 32] page_no_0x20000 [of i] that by auto
  have nz: "0x20000 + of_nat i \<noteq> (0 :: addr)" if "i < 100" for i
    using page_no_0x20000 [of i] that by (auto simp: page_no_def)
  have low: "page_no (0x5000 + of_nat i) = 5" "0x5000 + of_nat i < MEMORY_TASK_BASE" if "i < 100" for i
    using page_no_offset [of "0x5000" i] unat_add_lt [of "0x5000" i] that
    by (simp_all add: page_aligned_def page_no_def MEMORY_TASK_BASE_def word_less_nat_alt)
  have v: "vload s' (0x5000 + of_nat i) = Some (mem s' (0x5000 + of_nat i))"
    "page_no (0x20000 + of_nat j) \<notin> read_pages s' (0x5000 + of_nat i)" if "i < 100" "j < 100" for i j
    using low [OF that(1)] page_no_0x20000 [of j] that by (simp_all add: vload_def read_pages_def)
  have inj: "inj_on (\<lambda>i. 0x20000 + of_nat i :: addr) {..<100}"
    by (rule inj_onI) (auto dest!: arg_cong [of _ _ unat] simp: unat_of_nat)
  have "can_copy 0x80000000 0x10000 0x5000 (unat (100 :: u32)) (\<lambda>i. 0x20000 + of_nat i) (\<lambda>i. mem s' (0x5000 + of_nat i)) s'"
    using m(2) cr3 t dp nz v inj by (simp add: can_copy_def vm_ok_def page_aligned_def)
  from memory_copy_uvm_data_copies [OF this] obtain m' where
    "memory_copy_uvm_data 0x80000000 0x10000 0x5000 100 s' = Inr (0, s'\<lparr>mem := m'\<rparr>)"
    "\<forall>i < 100. m' (0x20000 + of_nat i) = mem s' (0x5000 + of_nat i)" by auto
  moreover from this(2) have "m' 0x20063 = mem s' 0x5063" by (auto dest!: spec [of _ "99 :: nat"])
  ultimately show ?thesis using m(1) by blast
qed

text \<open>What \<^verbatim>\<open>memory_destroy_uvm\<close> releases. It returns, changes only the allocator, and releases the
  directory. It starts at the directory entry of the address of the directory itself, not of the user
  half, so every frame that is mapped from there on becomes available, pages of the kernel included.\<close>

theorem memory_destroy_uvm_releases:
  assumes "alloc_wf (paddr_alloc s)" and "page_aligned dir" and "dir \<noteq> 0"
  shows "\<exists>s'. memory_destroy_uvm dir s = Inr ((), s') \<and> s' = s\<lparr>paddr_alloc := paddr_alloc s'\<rparr>
    \<and> alloc_wf (paddr_alloc s') \<and> (dir \<in> frames (paddr_alloc s) \<longrightarrow> dir \<in> avail (paddr_alloc s'))
    \<and> (\<forall>va pte. pt_entry (mem s) dir va = Some pte \<and> pde_index dir \<le> pde_index va
         \<and> pte_paddr pte \<in> frames (paddr_alloc s) \<longrightarrow> pte_paddr pte \<in> avail (paddr_alloc s'))"
proof -
  obtain s' where d: "memory_destroy_uvm dir s = Inr ((), s')"
    "frees s s' (insert dir (dir_frames (mem s) (page_word dir (page_no dir div 1024)) (1024 - page_no dir div 1024)))"
    using memory_destroy_uvm_frees [OF assms] by blast
  have "pte_paddr pte \<in> avail (paddr_alloc s')"
    if "pt_entry (mem s) dir va = Some pte" "pde_index dir \<le> pde_index va" "pte_paddr pte \<in> frames (paddr_alloc s)" for va pte
    using that mapped_in_dir_frames(1) [of "mem s" dir "page_no va" pte "page_no dir div 1024"] d(2)
    by (simp add: pt_entry_eq word_le_nat_alt unat_pde_index frees_def)
  then show ?thesis using d by (simp add: frees_def) blast
qed

theorem memory_destroy_uvm_releases_witness:
  "\<exists>p s1 s2 s3. memory_alloc_page demo_kmem = Inr (p, s1) \<and> p \<notin> avail (paddr_alloc s1)
    \<and> memory_create_map 0x10000 p p 1 PTE_W s1 = Inr (0, s2)
    \<and> memory_destroy_uvm 0x10000 s2 = Inr ((), s3) \<and> p < MEMORY_TASK_BASE \<and> p \<in> avail (paddr_alloc s3)"
proof -
  obtain p s1 where a: "addr_alloc_page 1 demo_kmem = Inr (p, s1)" "grows 0x10000 demo_kmem s1" "vm_ok 0x10000 s1"
    "mem s1 = mem demo_kmem" "p = 0 \<longleftrightarrow> avail (paddr_alloc demo_kmem) = {}"
    "p \<noteq> 0 \<Longrightarrow> p \<in> avail (paddr_alloc demo_kmem)"
    "avail (paddr_alloc s1) = avail (paddr_alloc demo_kmem) - {p}"
    using alloc_page_grows [OF demo_vm_ok] by metis
  have p: "p \<in> frames demo_alloc" using a(5,6) demo_avail_nonempty demo_avail by auto
  have "{0x100000, 0x101000} \<subseteq> frames demo_alloc"
    by (auto simp: demo_frames intro: exI [of _ "0::nat"] exI [of _ "1::nat"])
  moreover have "(0x100000 :: addr) \<noteq> 0x101000" by simp
  ultimately have "avail (paddr_alloc s1) \<noteq> {}" unfolding a(7) demo_kmem_fields demo_avail by blast
  moreover have u: "undef_ret s1 = 0" using grows_undef [OF a(2)] by simp
  ultimately obtain s2 where m: "memory_create_map 0x10000 p p 1 PTE_W s1 = Inr (0, s2)" "vm_ok 0x10000 s2"
    "grows 0x10000 s1 s2" "entry (mem s2) 0x10000 = (entry (mem s1) 0x10000)(page_no p \<mapsto> (p OR PTE_W OR PTE_P))"
    using create_map_one [OF a(3), of p p PTE_W] a(4) by auto
  have v: "page_aligned p" "p < MEMORY_TASK_BASE" using frames_valid [OF demo_alloc_wf p] by auto
  have "pte_paddr (p OR PTE_W OR PTE_P) = p"
    using paddr_of_or(2) [OF v(1), of 3] by (simp add: mem_consts or.assoc)
  moreover have "pde_index 0x10000 \<le> pde_index p" by (simp add: pde_index_def)
  moreover have "frames (paddr_alloc s2) = frames demo_alloc" using a(2) m(3) by (simp add: grows_def)
  moreover have "page_aligned 0x10000" by (simp add: page_aligned_def)
  moreover have "pt_entry (mem s2) 0x10000 p = Some (p OR PTE_W OR PTE_P)" unfolding pt_entry_eq m(4) by simp
  moreover have "alloc_wf (paddr_alloc s2)" using m(2) by (simp add: vm_ok_def)
  moreover have "(0x10000 :: addr) \<noteq> 0" by simp
  ultimately obtain s3 where "memory_destroy_uvm 0x10000 s2 = Inr ((), s3)" "p \<in> avail (paddr_alloc s3)"
    using memory_destroy_uvm_releases [of s2 "0x10000"] p by metis
  then show ?thesis using a(1,7) m(1) v(2) by (auto simp: memory_alloc_page_def)
qed

text \<open>Freeing a page at a user address never returns.\<close>

lemma memory_free_page_user_stops:
  assumes "MEMORY_TASK_BASE \<le> vaddr"
  shows "memory_free_page vaddr s = Inl (Panic s) \<or> memory_free_page vaddr s = Inl (Fault s)"
  using assms by (simp add: memory_free_page_def find_pte_lookup not_less [symmetric])

end
