(* ===== verification/Log.thy ===== *)
theory Log
  imports Uvm Klib
begin

text \<open>
  The serial log, \<^verbatim>\<open>src/source/kernel/tools/log.c\<close>: a message is formatted into a buffer on the
  stack (its address is the parameter \<open>buf\<close>) and sent byte by byte to the first serial port, under
  a mutex. Before each byte the code polls the line status of the port until the transmitter is
  empty. The polling loops may run for ever (\<open>None\<close>); they end if the port does its part
  (\<open>uart_ready\<close>).
\<close>

definition COM1_PORT :: u16 where "COM1_PORT = 0x3f8"

record log_state = kmem +
  log_mutex :: mutex_t

type_synonym ('s, 'a) log_res = "('s log_state_scheme, 'a) kres option"

text \<open>Sequencing of functions that may stop or not return at all.\<close>

definition bindO :: "('s, 'a) kres option \<Rightarrow> ('a \<Rightarrow> 's \<Rightarrow> ('s, 'b) kres option) \<Rightarrow> ('s, 'b) kres option" where
  "bindO m f = Option.bind m (\<lambda>r. case r of Inl e \<Rightarrow> Some (Inl e) | Inr (x, s) \<Rightarrow> f x s)"

lemma bindO_simps [simp]:
  "bindO (Some (Inr (x, s))) f = f x s" "bindO (Some (Inl e)) f = Some (Inl e)" "bindO None f = None"
  by (simp_all add: bindO_def)

definition log_init :: "addr \<Rightarrow> addr \<Rightarrow> 's log_state_scheme \<Rightarrow> 's log_state_scheme option" where
  "log_init mutex_at name s =
     map_option (\<lambda>mx.
       let s = s\<lparr>log_mutex := mx\<rparr>;
           s = outb (COM1_PORT + 1) 0x00 s;
           s = outb (COM1_PORT + 3) 0x80 s;
           s = outb (COM1_PORT + 0) 0x03 s;
           s = outb (COM1_PORT + 1) 0x00 s;
           s = outb (COM1_PORT + 3) 0x03 s;
           s = outb (COM1_PORT + 2) 0xc7 s;
           s = outb (COM1_PORT + 4) 0x0f s
       in s)
     (mutex_init mutex_at name (log_mutex s) (mem s))"

partial_function (option) wait_sent :: "device \<Rightarrow> 'm machine_scheme \<Rightarrow> 'm machine_scheme option" where
  [code]: "wait_sent dev s =
     (let (v, s1) = inb dev (COM1_PORT + 5) s
      in if v AND push_bit 6 1 = 0 then wait_sent dev s1 else Some s1)"

partial_function (option) send_chars :: "device \<Rightarrow> addr \<Rightarrow> 'm machine_scheme \<Rightarrow> 'm machine_scheme option" where
  [code]: "send_chars dev p s =
     (if mem s p \<noteq> 0
      then Option.bind (wait_sent dev s) (\<lambda>s1. send_chars dev (p + 1) (outb COM1_PORT (mem s1 p) s1))
      else Some s)"

definition log_lock :: "'s log_state_scheme \<Rightarrow> ('s log_state_scheme, unit) kres" where
  "log_lock s = (let (mx, s1, sw) = mutex_acquire (log_mutex s) s; s2 = s1\<lparr>log_mutex := mx\<rparr>
     in if sw then Inl (Suspended s2) else Inr ((), s2))"

definition log_unlock :: "'s log_state_scheme \<Rightarrow> ('s log_state_scheme, unit) kres" where
  "log_unlock s = (let (mx, s1, sw) = mutex_release (log_mutex s) s; s2 = s1\<lparr>log_mutex := mx\<rparr>
     in if sw then Inl (Suspended s2) else Inr ((), s2))"

definition log_printf :: "device \<Rightarrow> addr \<Rightarrow> addr \<Rightarrow> u32 list \<Rightarrow> 's log_state_scheme \<Rightarrow> ('s, unit) log_res" where
  "log_printf dev buf fmt args s =
     Option.bind (kvsprintf buf fmt args (kmemset buf 0 128 (mem s))) (\<lambda>m1.
     bindO (Some (log_lock (s\<lparr>mem := m1\<rparr>))) (\<lambda>_ s1.
     Option.bind (send_chars dev buf s1) (\<lambda>s2.
     let s3 = outb COM1_PORT 13 s2; s4 = outb COM1_PORT 10 s3
     in Some (log_unlock s4))))"

subsection \<open>What is sent\<close>

text \<open>The bytes written to a port, in order.\<close>

fun sent_to :: "u16 \<Rightarrow> port_event list \<Rightarrow> u8 list" where
  "sent_to p [] = []"
| "sent_to p (PortOut q d # es) = (if q = p then d # sent_to p es else sent_to p es)"
| "sent_to p (_ # es) = sent_to p es"

lemma sent_to_append [simp]: "sent_to p (es @ fs) = sent_to p es @ sent_to p fs"
  by (induction p es rule: sent_to.induct) auto

lemma sent_to_reads [simp]: "sent_to p (replicate n (PortInB q)) = []"
  by (induction n) auto

text \<open>The transmitter becomes empty when its status is read often enough, whatever happened before.\<close>

definition uart_ready :: "device \<Rightarrow> bool" where
  "uart_ready dev \<longleftrightarrow> (\<forall>h. \<exists>n. bit (dev (h @ replicate n (PortInB (COM1_PORT + 5))) (COM1_PORT + 5)) 6)"

lemma status_bit: "(ucast w :: u8) AND 64 = 0 \<longleftrightarrow> \<not> bit (w :: u16) 6"
  using and_push_bit_one_u8 [of 6 "ucast w"] by (auto simp: bit_ucast_iff)

lemma wait_sent_ready:
  fixes s :: "'m machine_scheme"
  assumes "bit (dev (io_log s @ replicate n (PortInB (COM1_PORT + 5))) (COM1_PORT + 5)) 6"
  shows "\<exists>k. wait_sent dev s = Some (s\<lparr>io_log := io_log s @ replicate k (PortInB (COM1_PORT + 5))\<rparr>)"
  using assms
proof (induction n arbitrary: s)
  case 0
  then have "wait_sent dev s = Some (s\<lparr>io_log := io_log s @ replicate (Suc 0) (PortInB (COM1_PORT + 5))\<rparr>)"
    by (subst wait_sent.simps) (simp add: inb_def status_bit)
  then show ?case by blast
next
  case (Suc n)
  let ?p = "PortInB (COM1_PORT + 5)"
  let ?s = "s\<lparr>io_log := io_log s @ [?p]\<rparr>"
  show ?case
  proof (cases "bit (dev (io_log s) (COM1_PORT + 5)) 6")
    case True
    then have "wait_sent dev s = Some (s\<lparr>io_log := io_log s @ replicate (Suc 0) ?p\<rparr>)"
      by (subst wait_sent.simps) (simp add: inb_def status_bit)
    then show ?thesis by blast
  next
    case False
    then have "wait_sent dev s = wait_sent dev ?s"
      by (subst wait_sent.simps) (simp add: inb_def status_bit)
    moreover have "bit (dev (io_log ?s @ replicate n ?p) (COM1_PORT + 5)) 6" using Suc.prems by simp
    from Suc.IH [OF this] obtain k where "wait_sent dev ?s = Some (?s\<lparr>io_log := io_log ?s @ replicate k ?p\<rparr>)"
      by blast
    ultimately have "wait_sent dev s = Some (s\<lparr>io_log := io_log s @ replicate (Suc k) ?p\<rparr>)" by simp
    then show ?thesis by blast
  qed
qed

lemma send_chars_sends:
  fixes s :: "'m machine_scheme"
  assumes "uart_ready dev" "cstring (mem s) p str"
  shows "\<exists>log. send_chars dev p s = Some (s\<lparr>io_log := log\<rparr>)
    \<and> sent_to COM1_PORT log = sent_to COM1_PORT (io_log s) @ str"
  using assms(2)
proof (induction str arbitrary: p s)
  case Nil
  then have "send_chars dev p s = Some (s\<lparr>io_log := io_log s\<rparr>)"
    by (subst send_chars.simps) (simp add: cstring_Nil)
  then show ?case by force
next
  case (Cons c str)
  then have c: "mem s p = c" "c \<noteq> 0" "cstring (mem s) (p + 1) str" by (simp_all add: cstring_Cons)
  obtain n where "bit (dev (io_log s @ replicate n (PortInB (COM1_PORT + 5))) (COM1_PORT + 5)) 6"
    using assms(1) by (auto simp: uart_ready_def)
  from wait_sent_ready [of dev s, OF this] obtain k where
    w: "wait_sent dev s = Some (s\<lparr>io_log := io_log s @ replicate k (PortInB (COM1_PORT + 5))\<rparr>)" by blast
  let ?s = "outb COM1_PORT c (s\<lparr>io_log := io_log s @ replicate k (PortInB (COM1_PORT + 5))\<rparr>)"
  have step: "send_chars dev p s = send_chars dev (p + 1) ?s"
    by (subst send_chars.simps) (simp add: c w)
  have "cstring (mem ?s) (p + 1) str" using c(3) by (simp add: outb_def)
  from Cons.IH [OF this] obtain log where l: "send_chars dev (p + 1) ?s = Some (?s\<lparr>io_log := log\<rparr>)"
    "sent_to COM1_PORT log = sent_to COM1_PORT (io_log ?s) @ str" by blast
  have "?s\<lparr>io_log := log\<rparr> = s\<lparr>io_log := log\<rparr>" by (simp add: outb_def)
  then show ?case using l by (intro exI [of _ log]) (simp add: step outb_def)
qed

text \<open>Logging. If the formatting gives a string and the serial port becomes ready again and
  again, \<^verbatim>\<open>log_printf\<close> returns, and exactly the string and a line end were sent, in order.\<close>

theorem log_printf_sends:
  assumes "uart_ready dev" and "mutex_free (log_mutex s)"
    and "kvsprintf buf fmt args (kmemset buf 0 128 (mem s)) = Some m1" and "cstring m1 buf str"
  shows "\<exists>s'. log_printf dev buf fmt args s = Some (Inr ((), s')) \<and> mutex_free (log_mutex s') \<and> mem s' = m1
    \<and> sent_to COM1_PORT (io_log s') = sent_to COM1_PORT (io_log s) @ str @ [13, 10]"
proof -
  let ?s = "s\<lparr>mem := m1\<rparr>"
  obtain mx where l: "log_lock ?s = Inr ((), ?s\<lparr>log_mutex := mx\<rparr>)" "mutex_held_by mx (curr_task ?s)"
    using mtx.acquire_free [of "log_mutex s" ?s] assms(2)
    by (cases "mutex_acquire (log_mutex s) ?s") (auto simp: log_lock_def)
  have "cstring (mem (?s\<lparr>log_mutex := mx\<rparr>)) buf str" using assms(4) by simp
  from send_chars_sends [OF assms(1) this] obtain log where
    d: "send_chars dev buf (?s\<lparr>log_mutex := mx\<rparr>) = Some (?s\<lparr>log_mutex := mx, io_log := log\<rparr>)"
    "sent_to COM1_PORT log = sent_to COM1_PORT (io_log s) @ str" by auto
  let ?t = "outb COM1_PORT 10 (outb COM1_PORT 13 (?s\<lparr>log_mutex := mx, io_log := log\<rparr>))"
  have "mutex_held_by (log_mutex ?t) (curr_task ?t)" using l(2) by (simp add: outb_def)
  then obtain mx2 where u: "log_unlock ?t = Inr ((), ?t\<lparr>log_mutex := mx2\<rparr>)" "mutex_free mx2"
    using mtx.release_held [of "log_mutex ?t" ?t]
    by (cases "mutex_release (log_mutex ?t) ?t") (auto simp: log_unlock_def)
  have "log_printf dev buf fmt args s = Some (Inr ((), ?t\<lparr>log_mutex := mx2\<rparr>))"
    using assms(3) l(1) d(1) u(1) by (simp add: log_printf_def)
  moreover have "sent_to COM1_PORT (io_log ?t) = sent_to COM1_PORT (io_log s) @ str @ [13, 10]"
    using d(2) by (simp add: outb_def)
  moreover have "mem ?t = m1" by (simp add: outb_def)
  ultimately show ?thesis using u(2) by simp
qed

subsection \<open>A concrete log\<close>

text \<open>The format \<^verbatim>\<open>"ok"\<close> at \<open>0x3000\<close>.\<close>

definition demo_log :: log_state where
  "demo_log = kmem.extend (demo_kmem\<lparr>mem := (\<lambda>_. 0)(0x3000 := 111, 0x3001 := 107)\<rparr>) (log_state.fields mutex_zero)"

lemma demo_log_fields [simp]:
  "mem demo_log = (\<lambda>_. 0)(0x3000 := 111, 0x3001 := 107)" "log_mutex demo_log = mutex_zero"
  by (simp_all add: demo_log_def kmem.defs log_state.defs)

lemma demo_log_buffer: "kmemset 0x4000 0 128 (mem demo_log) = mem demo_log"
proof -
  have idem: "store_bytes a (replicate n 0) m = m" if "\<forall>x \<in> region a n. m x = 0" for a n and m :: bytes
    using that by (induction n arbitrary: a) (auto simp: region_Suc fun_upd_idem)
  have "0x3000 \<notin> region 0x4000 128" "0x3001 \<notin> region 0x4000 128"
    by (auto simp: region_def dest!: arg_cong [of _ _ unat] simp: unat_of_nat unat_word_ariths)
  then have "\<forall>x \<in> region 0x4000 128. mem demo_log x = 0" by auto
  from idem [OF this] show ?thesis by (simp add: kmemset_def kmemset_loop_eq del: demo_log_fields)
qed

theorem log_printf_sends_witness:
  "\<exists>s'. log_printf (\<lambda>_ _. 0x40) 0x4000 0x3000 [] demo_log = Some (Inr ((), s'))
     \<and> sent_to COM1_PORT (io_log s') = sent_to COM1_PORT (io_log demo_log) @ [111, 107, 13, 10]"
proof -
  let ?m = "(mem demo_log)(0x4000 := 111, 0x4001 := 107)"
  have "kvsprintf 0x4000 0x3000 [] (mem demo_log) = Some ?m"
    by (simp add: kvsprintf_def kvsprintf_loop.simps)
  moreover have "cstring ?m 0x4000 [111, 107]" by (simp add: cstring_def load_bytes_def upt_rec)
  moreover have "uart_ready (\<lambda>_ _. 0x40)" by (simp add: uart_ready_def)
  moreover have "mutex_free (log_mutex demo_log)" by simp
  ultimately show ?thesis
    using log_printf_sends [of "\<lambda>_ _. 0x40" demo_log "0x4000" "0x3000" "[]" ?m "[111, 107]"]
    unfolding demo_log_buffer by auto
qed

end
