(* ===== verification/Irq.thy ===== *)
theory Irq
  imports Log
begin

text \<open>
  Interrupts, \<^verbatim>\<open>src/source/kernel/cpu/irq.c\<close> with \<^verbatim>\<open>irq.h\<close>, and the timer,
  \<^verbatim>\<open>src/source/kernel/dev/timer.c\<close>: the interrupt descriptor table, the two 8259 interrupt
  controllers, the exception handlers and the programmable interval timer.

  \<^item> \<open>handlers\<close> has the addresses of the assembly entry points.
  \<^item> \<open>lit\<close> gives the address of a string literal, \<open>buf\<close> the one of the buffer of the log.
  \<^item> The controllers and the serial port answer through a \<open>device\<close>; \<open>pic\<close> is the part of an
    8259 that the code relies on, and \<open>pic_ok\<close> says that reading a data port gives the mask.
\<close>

subsection \<open>Constants and data\<close>

definition IDT_TABLE_NO :: nat where "IDT_TABLE_NO = 128"

definition IRQ0_DE_DIVIDE_ERROR :: int where "IRQ0_DE_DIVIDE_ERROR = 0"
definition IRQ1_DB_DEBUG_EXCEPTION :: int where "IRQ1_DB_DEBUG_EXCEPTION = 1"
definition IRQ2_NMI_INTERRUPT :: int where "IRQ2_NMI_INTERRUPT = 2"
definition IRQ3_BP_BREAKPOINT :: int where "IRQ3_BP_BREAKPOINT = 3"
definition IRQ4_OF_OVERFLOW :: int where "IRQ4_OF_OVERFLOW = 4"
definition IRQ5_BR_BOUND_RANGE_EXCEEDED :: int where "IRQ5_BR_BOUND_RANGE_EXCEEDED = 5"
definition IRQ6_UD_INVALID_OPCODE :: int where "IRQ6_UD_INVALID_OPCODE = 6"
definition IRQ7_NM_DEVICE_NOT_AVAILABLE :: int where "IRQ7_NM_DEVICE_NOT_AVAILABLE = 7"
definition IRQ8_DF_DOUBLE_FAULT :: int where "IRQ8_DF_DOUBLE_FAULT = 8"
definition IRQ10_TS_INVALID_TSS :: int where "IRQ10_TS_INVALID_TSS = 10"
definition IRQ11_NP_SEGMENT_NOT_PRESENT :: int where "IRQ11_NP_SEGMENT_NOT_PRESENT = 11"
definition IRQ12_SS_STACK_SEGMENT_FAULT :: int where "IRQ12_SS_STACK_SEGMENT_FAULT = 12"
definition IRQ13_GP_GENERAL_PROTECTION :: int where "IRQ13_GP_GENERAL_PROTECTION = 13"
definition IRQ14_PF_PAGE_FAULT :: int where "IRQ14_PF_PAGE_FAULT = 14"
definition IRQ16_MF_FLOATING_POINT_ERR :: int where "IRQ16_MF_FLOATING_POINT_ERR = 16"
definition IRQ17_AC_ALIGNMENT_CHECK :: int where "IRQ17_AC_ALIGNMENT_CHECK = 17"
definition IRQ18_MC_MACHINE_CHECK :: int where "IRQ18_MC_MACHINE_CHECK = 18"
definition IRQ19_XM_SIMD_FLOATING_POINT_EXCEPTION :: int where "IRQ19_XM_SIMD_FLOATING_POINT_EXCEPTION = 19"
definition IRQ20_VE_VITUALIZATION_EXCEPTION :: int where "IRQ20_VE_VITUALIZATION_EXCEPTION = 20"
definition IRQ21_CP_CONTROL_PROTECTION_EXCEPITON :: int where "IRQ21_CP_CONTROL_PROTECTION_EXCEPITON = 21"
definition IRQ0_TIMER :: int where "IRQ0_TIMER = 0x20"

lemmas irq_numbers =
  IRQ0_DE_DIVIDE_ERROR_def IRQ1_DB_DEBUG_EXCEPTION_def IRQ2_NMI_INTERRUPT_def IRQ3_BP_BREAKPOINT_def
  IRQ4_OF_OVERFLOW_def IRQ5_BR_BOUND_RANGE_EXCEEDED_def IRQ6_UD_INVALID_OPCODE_def
  IRQ7_NM_DEVICE_NOT_AVAILABLE_def IRQ8_DF_DOUBLE_FAULT_def IRQ10_TS_INVALID_TSS_def
  IRQ11_NP_SEGMENT_NOT_PRESENT_def IRQ12_SS_STACK_SEGMENT_FAULT_def IRQ13_GP_GENERAL_PROTECTION_def
  IRQ14_PF_PAGE_FAULT_def IRQ16_MF_FLOATING_POINT_ERR_def IRQ17_AC_ALIGNMENT_CHECK_def
  IRQ18_MC_MACHINE_CHECK_def IRQ19_XM_SIMD_FLOATING_POINT_EXCEPTION_def
  IRQ20_VE_VITUALIZATION_EXCEPTION_def IRQ21_CP_CONTROL_PROTECTION_EXCEPITON_def IRQ0_TIMER_def

definition PIC0_ICW1 :: u16 where "PIC0_ICW1 = 0x20"
definition PIC0_ICW2 :: u16 where "PIC0_ICW2 = 0x21"
definition PIC0_ICW3 :: u16 where "PIC0_ICW3 = 0x21"
definition PIC0_ICW4 :: u16 where "PIC0_ICW4 = 0x21"
definition PIC0_IMR :: u16 where "PIC0_IMR = 0x21"
definition PIC0_OCW2 :: u16 where "PIC0_OCW2 = 0x20"
definition PIC1_ICW1 :: u16 where "PIC1_ICW1 = 0xa0"
definition PIC1_ICW2 :: u16 where "PIC1_ICW2 = 0xa1"
definition PIC1_ICW3 :: u16 where "PIC1_ICW3 = 0xa1"
definition PIC1_ICW4 :: u16 where "PIC1_ICW4 = 0xa1"
definition PIC1_IMR :: u16 where "PIC1_IMR = 0xa1"
definition PIC1_OCW2 :: u16 where "PIC1_OCW2 = 0xa0"
definition PIC_ICW1_ALWAYS_1 :: u8 where "PIC_ICW1_ALWAYS_1 = push_bit 4 1"
definition PIC_ICW1_ICW4 :: u8 where "PIC_ICW1_ICW4 = push_bit 0 1"
definition PIC_ICW4_8086 :: u8 where "PIC_ICW4_8086 = push_bit 0 1"
definition PIC_OCW2_EOI :: u8 where "PIC_OCW2_EOI = push_bit 5 1"
definition IRQ_PIC_START :: int where "IRQ_PIC_START = 0x20"

lemmas pic_consts =
  PIC0_ICW1_def PIC0_ICW2_def PIC0_ICW3_def PIC0_ICW4_def PIC0_IMR_def PIC0_OCW2_def PIC1_ICW1_def
  PIC1_ICW2_def PIC1_ICW3_def PIC1_ICW4_def PIC1_IMR_def PIC1_OCW2_def PIC_ICW1_ALWAYS_1_def
  PIC_ICW1_ICW4_def PIC_ICW4_8086_def PIC_OCW2_EOI_def IRQ_PIC_START_def

definition ERR_PAGE_P :: u32 where "ERR_PAGE_P = push_bit 0 1"
definition ERR_PAGE_WR :: u32 where "ERR_PAGE_WR = push_bit 1 1"
definition ERR_PAGE_US :: u32 where "ERR_PAGE_US = push_bit 1 1"
definition ERR_EXT :: u32 where "ERR_EXT = push_bit 0 1"
definition ERR_IDT :: u32 where "ERR_IDT = push_bit 1 1"

record exception_frame_t =
  ef_gs :: u32
  ef_fs :: u32
  ef_es :: u32
  ef_ds :: u32
  ef_edi :: u32
  ef_esi :: u32
  ef_ebp :: u32
  ef_esp :: u32
  ef_ebx :: u32
  ef_edx :: u32
  ef_ecx :: u32
  ef_eax :: u32
  ef_num :: u32
  ef_error_code :: u32
  ef_eip :: u32
  ef_cs :: u32
  ef_eflags :: u32
  ef_esp3 :: u32
  ef_ss3 :: u32

text \<open>The entry points of the assembly code, by the exception they serve.\<close>

record handlers =
  h_unknown :: addr
  h_divide_error :: addr
  h_debug_exception :: addr
  h_nmi_interrupt :: addr
  h_breakpoint :: addr
  h_overflow :: addr
  h_bound_range_exceed :: addr
  h_invalid_opcode :: addr
  h_device_not_found :: addr
  h_double_fault :: addr
  h_invalid_tss :: addr
  h_segment_not_present :: addr
  h_stack_segment_fault :: addr
  h_general_protection :: addr
  h_page_fault :: addr
  h_floating_point_error :: addr
  h_aligment_check :: addr
  h_machine_check :: addr
  h_simd_floating_point_exception :: addr
  h_virtualization_exception :: addr
  h_control_protection_exception :: addr
  h_timer :: addr

record irq_state = log_state +
  idt_table :: "gate_desc_t list"
  sys_tick :: u32

subsection \<open>Exception handlers\<close>

text \<open>A sequence of calls of \<^verbatim>\<open>log_printf\<close> with a literal format each.\<close>

primrec log_lines :: "device \<Rightarrow> (string \<Rightarrow> addr) \<Rightarrow> addr \<Rightarrow> (string \<times> u32 list) list \<Rightarrow>
    's log_state_scheme \<Rightarrow> ('s, unit) log_res" where
  "log_lines dev lit buf [] s = Some (Inr ((), s))"
| "log_lines dev lit buf (l # ls) s =
     bindO (log_printf dev buf (lit (fst l)) (snd l) s) (\<lambda>_. log_lines dev lit buf ls)"

abbreviation nl :: string where "nl \<equiv> [CHR 0x0A]"
abbreviation tab :: string where "tab \<equiv> [CHR 0x09]"

definition dump_core_regs :: "exception_frame_t \<Rightarrow> (string \<times> u32 list) list" where
  "dump_core_regs frm =
     (let (ss, esp) = (if ef_cs frm AND 0x7 \<noteq> 0 then (ef_ds frm, ef_esp frm)
                       else (ef_ss3 frm, ef_esp3 frm))
      in [(''IRQ: %d, Error Code: %d'', [ef_num frm, ef_error_code frm]),
          (''cs: %d'' @ nl @ ''ds: %d'' @ nl @ ''es: %d'' @ nl @ ''ss: %d'' @ nl @ ''fs: %d'' @ nl @ ''gs: %d'' @ nl,
           [ef_cs frm, ef_ds frm, ef_es frm, ss, ef_fs frm, ef_gs frm]),
          (''eax: %x'' @ nl @ ''ebx: %x'' @ nl @ ''edx: %x'' @ nl @ ''edi: %x'' @ nl @ ''esi: %x'' @ nl
             @ ''ebp: %x'' @ nl @ ''esp: %x'' @ nl,
           [ef_eax frm, ef_ebx frm, ef_edx frm, ef_edi frm, ef_esi frm, ef_ebp frm, esp]),
          (''eip: %x'' @ nl @ ''eflags: %x'' @ nl, [ef_eip frm, ef_eflags frm])])"

definition do_default_handler ::
    "device \<Rightarrow> (string \<Rightarrow> addr) \<Rightarrow> addr \<Rightarrow> exception_frame_t \<Rightarrow> string \<Rightarrow> 's log_state_scheme \<Rightarrow> ('s, unit) log_res" where
  "do_default_handler dev lit buf frm message s =
     bindO (log_lines dev lit buf
       ([(''------------------------------------------'', []), (''IRQ/Exception: %s'', [lit message])]
        @ dump_core_regs frm) s)
     (\<lambda>_ s1. Some (Inl (Halted s1)))"

definition do_handler_unknown where
  "do_handler_unknown dev lit buf frm = do_default_handler dev lit buf frm ''unknown exception''"

definition do_handler_divide_error where
  "do_handler_divide_error dev lit buf frm = do_default_handler dev lit buf frm ''Exception: Divide by zero''"

definition do_handler_debug_exception where
  "do_handler_debug_exception dev lit buf frm = do_default_handler dev lit buf frm ''Exception: Debug exception''"

definition do_handler_nmi_interrupt where
  "do_handler_nmi_interrupt dev lit buf frm = do_default_handler dev lit buf frm ''Exception: NMI interrupt''"

definition do_handler_breakpoint where
  "do_handler_breakpoint dev lit buf frm = do_default_handler dev lit buf frm ''Exception: Breakpoint''"

definition do_handler_overflow where
  "do_handler_overflow dev lit buf frm = do_default_handler dev lit buf frm ''Exception: Overflow''"

definition do_handler_bound_range_exceed where
  "do_handler_bound_range_exceed dev lit buf frm = do_default_handler dev lit buf frm ''Exception: Bound range exceed''"

definition do_handler_invalid_opcode where
  "do_handler_invalid_opcode dev lit buf frm = do_default_handler dev lit buf frm ''Exception: Invalid opcode''"

definition do_handler_device_not_found where
  "do_handler_device_not_found dev lit buf frm = do_default_handler dev lit buf frm ''Exception: Device not found''"

definition do_handler_double_fault where
  "do_handler_double_fault dev lit buf frm = do_default_handler dev lit buf frm ''Exception: Double fault''"

definition do_handler_invalid_tss where
  "do_handler_invalid_tss dev lit buf frm = do_default_handler dev lit buf frm ''Exception: Invalid tss''"

definition do_handler_segment_not_present where
  "do_handler_segment_not_present dev lit buf frm = do_default_handler dev lit buf frm ''Exception: Segment not present''"

definition do_handler_stack_segment_fault where
  "do_handler_stack_segment_fault dev lit buf frm = do_default_handler dev lit buf frm ''Exception: Stack segment fault''"

definition general_protection_lines :: "exception_frame_t \<Rightarrow> (string \<times> u32 list) list" where
  "general_protection_lines frm =
     [(''--------------------------------'', []),
      (''IRQ/Exception happend: General Protection.'', []),
      (if ef_error_code frm AND ERR_EXT \<noteq> 0
       then ''the exception occurred during delivery of an event external to the program, such as an interruptor an earlier exception.''
       else ''the exception occurred during delivery of asoftware interrupt (INT n, INT3, or INTO).'', []),
      (if ef_error_code frm AND ERR_IDT \<noteq> 0
       then ''the index portion of the error code refers to a gate descriptor in the IDT''
       else ''the index refers to a descriptor in the GDT'', []),
      (''segment index: %d'', [ef_error_code frm AND 0xFFF8])] @ dump_core_regs frm"

definition do_handler_general_protection ::
    "device \<Rightarrow> (string \<Rightarrow> addr) \<Rightarrow> addr \<Rightarrow> exception_frame_t \<Rightarrow> 's log_state_scheme \<Rightarrow> ('s, unit) log_res" where
  "do_handler_general_protection dev lit buf frm s =
     bindO (log_lines dev lit buf (general_protection_lines frm) s) (\<lambda>_ s1. Some (Inl (Halted s1)))"

definition page_fault_lines :: "u32 \<Rightarrow> exception_frame_t \<Rightarrow> (string \<times> u32 list) list" where
  "page_fault_lines cr2 frm =
     [(''--------------------------------'', []), (''IRQ/Exception: Page fault.'', []),
      (if ef_error_code frm AND ERR_PAGE_P \<noteq> 0
       then tab @ ''page-level protection violation: %x.''
       else tab @ ''The fault was caused by a non-present page. %x'', [cr2]),
      (if ef_error_code frm AND ERR_PAGE_WR \<noteq> 0
       then tab @ ''The access causing the fault was a read.''
       else tab @ ''The access causing the fault was a write.'', []),
      (if ef_error_code frm AND ERR_PAGE_US \<noteq> 0
       then tab @ ''A supervisor-mode access caused the fault.''
       else tab @ ''A user-mode access caused the fault.'', [])] @ dump_core_regs frm"

definition do_handler_page_fault ::
    "device \<Rightarrow> (string \<Rightarrow> addr) \<Rightarrow> addr \<Rightarrow> exception_frame_t \<Rightarrow> 's log_state_scheme \<Rightarrow> ('s, unit) log_res" where
  "do_handler_page_fault dev lit buf frm s =
     bindO (log_lines dev lit buf (page_fault_lines (read_cr2 s) frm) s) (\<lambda>_ s1. Some (Inl (Halted s1)))"

definition do_handler_floating_point_error where
  "do_handler_floating_point_error dev lit buf frm = do_default_handler dev lit buf frm ''Exception: Floating point error''"

definition do_handler_aligment_check where
  "do_handler_aligment_check dev lit buf frm = do_default_handler dev lit buf frm ''Exception: Aligment check''"

definition do_handler_machine_check where
  "do_handler_machine_check dev lit buf frm = do_default_handler dev lit buf frm ''Exception: Machine check''"

definition do_handler_simd_floating_point_exception where
  "do_handler_simd_floating_point_exception dev lit buf frm =
     do_default_handler dev lit buf frm ''Exception: SIMD floating point exception''"

definition do_handler_virtualization_exception where
  "do_handler_virtualization_exception dev lit buf frm =
     do_default_handler dev lit buf frm ''Exception: Virtualization exception''"

definition do_handler_control_protection_exception where
  "do_handler_control_protection_exception dev lit buf frm =
     do_default_handler dev lit buf frm ''Exception: Control protection exception''"

subsection \<open>The interrupt descriptor table and the interrupt controllers\<close>

definition init_pic :: "'m machine_scheme \<Rightarrow> 'm machine_scheme" where
  "init_pic s =
     (let s = outb PIC0_ICW1 (PIC_ICW1_ALWAYS_1 OR PIC_ICW1_ICW4) s;
          s = outb PIC0_ICW2 (of_int IRQ_PIC_START) s;
          s = outb PIC0_ICW3 (push_bit 2 1) s;
          s = outb PIC0_ICW4 PIC_ICW4_8086 s;
          s = outb PIC1_ICW1 (PIC_ICW1_ALWAYS_1 OR PIC_ICW1_ICW4) s;
          s = outb PIC1_ICW2 (of_int (IRQ_PIC_START + 8)) s;
          s = outb PIC1_ICW3 2 s;
          s = outb PIC1_ICW4 PIC_ICW4_8086 s;
          s = outb PIC0_IMR (0xff AND NOT (push_bit 2 1)) s;
          s = outb PIC1_IMR 0xff s
      in s)"

definition int_gate :: "addr \<Rightarrow> gate_desc_t" where
  "int_gate handler = gate_desc_set (ucast KERNEL_SELECTOR_CS) handler (GATE_P_PRESENT OR GATE_DPL0 OR GATE_TYPE_INT)"

text \<open>On success \<^verbatim>\<open>irq_install\<close> ends without a \<^verbatim>\<open>return\<close>.\<close>

definition irq_install :: "int \<Rightarrow> addr \<Rightarrow> 's irq_state_scheme \<Rightarrow> ('s irq_state_scheme, u32) kres" where
  "irq_install irq_num handler s =
     (if int IDT_TABLE_NO \<le> irq_num then Inr (-1, s)
      else case arr_set (idt_table s) irq_num (int_gate handler) of
             None \<Rightarrow> Inl (Fault s)
           | Some t \<Rightarrow> Inr (undef_ret s, s\<lparr>idt_table := t\<rparr>))"

primrec fill_idt :: "nat \<Rightarrow> nat \<Rightarrow> addr \<Rightarrow> 's irq_state_scheme \<Rightarrow> ('s irq_state_scheme, unit) kres" where
  "fill_idt 0 i handler s = Inr ((), s)"
| "fill_idt (Suc n) i handler s =
     (case arr_set (idt_table s) (int i) (int_gate handler) of
        None \<Rightarrow> Inl (Fault s)
      | Some t \<Rightarrow> fill_idt n (Suc i) handler (s\<lparr>idt_table := t\<rparr>))"

primrec install_all :: "(int \<times> addr) list \<Rightarrow> 's irq_state_scheme \<Rightarrow> ('s irq_state_scheme, unit) kres" where
  "install_all [] s = Inr ((), s)"
| "install_all (e # es) s = bindR (irq_install (fst e) (snd e) s) (\<lambda>_. install_all es)"

definition exception_table :: "handlers \<Rightarrow> (int \<times> addr) list" where
  "exception_table h =
     [(IRQ0_DE_DIVIDE_ERROR, h_divide_error h),
      (IRQ1_DB_DEBUG_EXCEPTION, h_debug_exception h),
      (IRQ2_NMI_INTERRUPT, h_nmi_interrupt h),
      (IRQ3_BP_BREAKPOINT, h_breakpoint h),
      (IRQ4_OF_OVERFLOW, h_overflow h),
      (IRQ5_BR_BOUND_RANGE_EXCEEDED, h_bound_range_exceed h),
      (IRQ6_UD_INVALID_OPCODE, h_invalid_opcode h),
      (IRQ7_NM_DEVICE_NOT_AVAILABLE, h_device_not_found h),
      (IRQ8_DF_DOUBLE_FAULT, h_double_fault h),
      (IRQ10_TS_INVALID_TSS, h_invalid_tss h),
      (IRQ11_NP_SEGMENT_NOT_PRESENT, h_segment_not_present h),
      (IRQ12_SS_STACK_SEGMENT_FAULT, h_stack_segment_fault h),
      (IRQ13_GP_GENERAL_PROTECTION, h_general_protection h),
      (IRQ14_PF_PAGE_FAULT, h_page_fault h),
      (IRQ16_MF_FLOATING_POINT_ERR, h_floating_point_error h),
      (IRQ17_AC_ALIGNMENT_CHECK, h_aligment_check h),
      (IRQ18_MC_MACHINE_CHECK, h_machine_check h),
      (IRQ19_XM_SIMD_FLOATING_POINT_EXCEPTION, h_simd_floating_point_exception h),
      (IRQ20_VE_VITUALIZATION_EXCEPTION, h_virtualization_exception h),
      (IRQ21_CP_CONTROL_PROTECTION_EXCEPITON, h_control_protection_exception h)]"

definition irq_init :: "addr \<Rightarrow> handlers \<Rightarrow> 's irq_state_scheme \<Rightarrow> ('s irq_state_scheme, unit) kres" where
  "irq_init idt_at h s =
     bindR (fill_idt IDT_TABLE_NO 0 (h_unknown h) s) (\<lambda>_ s1.
     bindR (install_all (exception_table h) s1) (\<lambda>_ s2.
     Inr ((), init_pic (lidt idt_at (of_nat (8 * IDT_TABLE_NO)) s2))))"

text \<open>A shift by 32 and more is undefined.\<close>

definition irq_enable :: "device \<Rightarrow> int \<Rightarrow> 'm machine_scheme \<Rightarrow> ('m machine_scheme, unit) kres" where
  "irq_enable dev irq_num s =
     (if irq_num < IRQ_PIC_START then Inr ((), s)
      else let n = irq_num - IRQ_PIC_START
           in if n < 8 then
                let (v, s1) = inb dev PIC0_IMR s
                in Inr ((), outb PIC0_IMR (v AND NOT (push_bit (nat n) 1)) s1)
              else if n - 8 < 32 then
                let (v, s1) = inb dev PIC1_IMR s
                in Inr ((), outb PIC1_IMR (v AND NOT (push_bit (nat (n - 8)) 1)) s1)
              else Inl (Fault s))"

definition irq_disable :: "device \<Rightarrow> int \<Rightarrow> 'm machine_scheme \<Rightarrow> ('m machine_scheme, unit) kres" where
  "irq_disable dev irq_num s =
     (if irq_num < IRQ_PIC_START then Inr ((), s)
      else let n = irq_num - IRQ_PIC_START
           in if n < 8 then
                let (v, s1) = inb dev PIC0_IMR s
                in Inr ((), outb PIC0_IMR (v OR push_bit (nat n) 1) s1)
              else if n - 8 < 32 then
                let (v, s1) = inb dev PIC1_IMR s
                in Inr ((), outb PIC1_IMR (v OR push_bit (nat (n - 8)) 1) s1)
              else Inl (Fault s))"

definition pic_send_eoi :: "int \<Rightarrow> 'm machine_scheme \<Rightarrow> 'm machine_scheme" where
  "pic_send_eoi irq_num s =
     (let n = irq_num - IRQ_PIC_START;
          s1 = (if 8 \<le> n then outb PIC1_OCW2 PIC_OCW2_EOI s else s)
      in outb PIC0_OCW2 PIC_OCW2_EOI s1)"

subsection \<open>The timer\<close>

definition PIT_OSC_FREQ :: u32 where "PIT_OSC_FREQ = 1193182"
definition PIT_COMMAND_MODE_PORT :: u16 where "PIT_COMMAND_MODE_PORT = 0x43"
definition PIT_CHANNEL0_DATA_PORT :: u16 where "PIT_CHANNEL0_DATA_PORT = 0x40"
definition PIT_CHANNEL :: u8 where "PIT_CHANNEL = push_bit 6 0"
definition PIT_LOAD_LOHI :: u8 where "PIT_LOAD_LOHI = push_bit 4 3"
definition PIT_MODE3 :: u8 where "PIT_MODE3 = push_bit 1 3"

definition do_handler_timer :: "'s irq_state_scheme \<Rightarrow> ('s irq_state_scheme \<times> bool) option" where
  "do_handler_timer s =
     (let s1 = s\<lparr>sys_tick := sys_tick s + 1\<rparr>;
          s2 = pic_send_eoi IRQ0_TIMER s1
      in task_time_tick s2)"

definition reload_count :: u32 where
  "reload_count = PIT_OSC_FREQ * OS_TICKS_MS div 1000"

definition init_pit :: "device \<Rightarrow> handlers \<Rightarrow> 's irq_state_scheme \<Rightarrow> ('s irq_state_scheme, unit) kres" where
  "init_pit dev h s =
     (let s = outb PIT_COMMAND_MODE_PORT (PIT_CHANNEL OR PIT_LOAD_LOHI OR PIT_MODE3) s;
          s = outb PIT_CHANNEL0_DATA_PORT (ucast (reload_count AND 0xff)) s;
          s = outb PIT_CHANNEL0_DATA_PORT (ucast (drop_bit 8 reload_count AND 0xff)) s
      in bindR (irq_install IRQ0_TIMER (h_timer h) s) (\<lambda>_. irq_enable dev IRQ0_TIMER))"

definition timer_init :: "device \<Rightarrow> handlers \<Rightarrow> 's irq_state_scheme \<Rightarrow> ('s irq_state_scheme, unit) kres" where
  "timer_init dev h s = init_pit dev h (s\<lparr>sys_tick := 0\<rparr>)"

subsection \<open>The table after initialisation\<close>

lemma fill_idt_eq:
  assumes "i + n \<le> length (idt_table s)"
  shows "fill_idt n i h s = Inr ((), s\<lparr>idt_table :=
    take i (idt_table s) @ replicate n (int_gate h) @ drop (i + n) (idt_table s)\<rparr>)"
  using assms
proof (induction n arbitrary: i s)
  case (Suc n)
  then have i: "i < length (idt_table s)" by simp
  let ?t = "(idt_table s)[i := int_gate h]"
  have "take (Suc i) ?t = take i (idt_table s) @ [int_gate h]" using i by (simp add: take_Suc_conv_app_nth)
  moreover have "drop (Suc i + n) ?t = drop (i + Suc n) (idt_table s)" by simp
  ultimately show ?case using Suc.IH [of "Suc i" "s\<lparr>idt_table := ?t\<rparr>"] Suc.prems i by simp
qed simp

text \<open>The table as a function: installing updates it at one vector.\<close>

primrec installed :: "(int \<times> addr) list \<Rightarrow> gate_desc_t list \<Rightarrow> gate_desc_t list" where
  "installed [] t = t"
| "installed (e # es) t = installed es (t[nat (fst e) := int_gate (snd e)])"

lemma installed_length [simp]: "length (installed es t) = length t"
  by (induction es arbitrary: t) auto

lemma install_all_eq:
  assumes "\<forall>e \<in> set es. 0 \<le> fst e \<and> fst e < 128" "length (idt_table s) = 128"
  shows "install_all es s = Inr ((), s\<lparr>idt_table := installed es (idt_table s)\<rparr>)"
  using assms by (induction es arbitrary: s) (simp_all add: irq_install_def IDT_TABLE_NO_def)

lemma installed_nth:
  assumes "n < length t" "\<forall>e \<in> set es. 0 \<le> fst e" "distinct (map fst es)"
  shows "installed es t ! n = (case map_of es (int n) of None \<Rightarrow> t ! n | Some a \<Rightarrow> int_gate a)"
  using assms
proof (induction es arbitrary: t)
  case (Cons e es)
  have "map_of es (fst e) = None" using Cons.prems(3) by (simp add: map_of_eq_None_iff)
  moreover have "nat (fst e) = n \<longleftrightarrow> fst e = int n" using Cons.prems(2) by auto
  ultimately show ?case using Cons by (auto simp: nth_list_update split: option.splits)
qed simp

lemma exception_table_ok:
  "\<forall>e \<in> set (exception_table h). 0 \<le> fst e \<and> fst e < 128" "distinct (map fst (exception_table h))"
  by (simp_all add: exception_table_def irq_numbers)

lemma int_gate_fields:
  "gate_target (int_gate a) = a" "gd_selector (int_gate a) = 8" "gd_attr (int_gate a) = 0x8E00"
  using gate_target_set [of "ucast KERNEL_SELECTOR_CS" a]
  by (simp_all add: int_gate_def gate_desc_set_def KERNEL_SELECTOR_CS_def seg_flags)

lemma irq_init_eq:
  assumes "length (idt_table s) = 128"
  shows "irq_init at h s = Inr ((), init_pic (lidt at 1024
    (s\<lparr>idt_table := installed (exception_table h) (replicate 128 (int_gate (h_unknown h)))\<rparr>)))"
  using fill_idt_eq [of 0 128 s] assms
    install_all_eq [OF exception_table_ok(1) [of h], where s = "s\<lparr>idt_table := replicate 128 (int_gate (h_unknown h))\<rparr>"]
  by (simp add: irq_init_def IDT_TABLE_NO_def)

lemma init_pic_fields [simp]:
  "idt_table (init_pic s) = idt_table s" "idtr (init_pic s) = idtr s"
  by (simp_all add: init_pic_def outb_def Let_def)

text \<open>C34: The interrupt table. \<^verbatim>\<open>irq_init\<close> returns; afterwards every one of the 128 vectors is
  a present 32-bit interrupt gate of privilege 0 in the kernel code segment. In the order in which the processor
  numbers its exceptions, the vectors 0 to 21 lead to the entry points named after them, except for 9 and 15, which
  the processor does not use: these and all from 22 on lead to the default one. The IDT register describes the
  whole table.\<close>

theorem irq_init_table:
  assumes "length (idt_table s) = IDT_TABLE_NO"
  shows "\<exists>s'. irq_init at h s = Inr ((), s') \<and> length (idt_table s') = IDT_TABLE_NO
    \<and> idtr s' = make_table_reg at 1024
    \<and> map gate_target (take 22 (idt_table s')) =
        [h_divide_error h, h_debug_exception h, h_nmi_interrupt h, h_breakpoint h, h_overflow h, h_bound_range_exceed h,
         h_invalid_opcode h, h_device_not_found h, h_double_fault h, h_unknown h, h_invalid_tss h, h_segment_not_present h,
         h_stack_segment_fault h, h_general_protection h, h_page_fault h, h_unknown h, h_floating_point_error h,
         h_aligment_check h, h_machine_check h, h_simd_floating_point_exception h, h_virtualization_exception h,
         h_control_protection_exception h]
    \<and> (\<forall>n < IDT_TABLE_NO. 22 \<le> n \<longrightarrow> gate_target (idt_table s' ! n) = h_unknown h)
    \<and> (\<forall>n < IDT_TABLE_NO. gd_selector (idt_table s' ! n) = 8 \<and> gd_attr (idt_table s' ! n) = 0x8E00)"
proof -
  let ?t = "installed (exception_table h) (replicate 128 (int_gate (h_unknown h)))"
  let ?e = "\<lambda>n. case map_of (exception_table h) (int n) of None \<Rightarrow> h_unknown h | Some a \<Rightarrow> a"
  have nth: "?t ! n = int_gate (?e n)" if "n < 128" for n
    using installed_nth [of n "replicate 128 (int_gate (h_unknown h))" "exception_table h"] exception_table_ok that
    by (auto split: option.splits)
  have "take 22 ?t = map (\<lambda>n. ?t ! n) [0..<22]" by (rule nth_equalityI) simp_all
  also have "\<dots> = map (\<lambda>n. int_gate (?e n)) [0..<22]" by (rule map_cong [OF refl nth]) simp
  finally have "map gate_target (take 22 ?t) = map ?e [0..<22]" by (simp add: int_gate_fields)
  moreover have "map ?e [0..<22] =
        [h_divide_error h, h_debug_exception h, h_nmi_interrupt h, h_breakpoint h, h_overflow h, h_bound_range_exceed h,
         h_invalid_opcode h, h_device_not_found h, h_double_fault h, h_unknown h, h_invalid_tss h, h_segment_not_present h,
         h_stack_segment_fault h, h_general_protection h, h_page_fault h, h_unknown h, h_floating_point_error h,
         h_aligment_check h, h_machine_check h, h_simd_floating_point_exception h, h_virtualization_exception h,
         h_control_protection_exception h]"
    by (simp add: upt_rec exception_table_def irq_numbers)
  moreover have "?e n = h_unknown h" if "22 \<le> n" for n
    using that by (simp add: exception_table_def irq_numbers)
  ultimately show ?thesis using irq_init_eq [of s at h] assms int_gate_fields nth
    by (simp add: IDT_TABLE_NO_def lidt_def)
qed

subsection \<open>The interrupt controllers\<close>

text \<open>
  An 8259 controller, by its command port: how many initialisation words are still to come, and
  its mask. A write with bit 4 to the command port starts an initialisation, whose further words
  go to the data port; any other write to the data port sets the mask.
\<close>

fun pic_step :: "u16 \<Rightarrow> nat \<times> u8 \<Rightarrow> port_event \<Rightarrow> nat \<times> u8" where
  "pic_step c (n, msk) (PortOut p v) =
     (if p = c then if bit v 4 then (1 + of_bool (\<not> bit v 1) + of_bool (bit v 0), 0) else (n, msk)
      else if p = c + 1 then if 0 < n then (n - 1, msk) else (0, v)
      else (n, msk))"
| "pic_step c st _ = st"

definition pic :: "u16 \<Rightarrow> port_event list \<Rightarrow> nat \<times> u8" where
  "pic c es = foldl (pic_step c) (0, 0) es"

text \<open>Reading a data port gives the mask.\<close>

definition pic_ok :: "device \<Rightarrow> bool" where
  "pic_ok dev \<longleftrightarrow> (\<forall>h. ucast (dev h PIC0_IMR) = snd (pic PIC0_ICW1 h) \<and> ucast (dev h PIC1_IMR) = snd (pic PIC1_ICW1 h))"

definition line_masked :: "port_event list \<Rightarrow> nat \<Rightarrow> bool" where
  "line_masked h k = (if k < 8 then bit (snd (pic PIC0_ICW1 h)) k else bit (snd (pic PIC1_ICW1 h)) (k - 8))"

definition pics_ready :: "port_event list \<Rightarrow> bool" where
  "pics_ready h \<longleftrightarrow> fst (pic PIC0_ICW1 h) = 0 \<and> fst (pic PIC1_ICW1 h) = 0"

lemma pic_snoc: "pic c (es @ [e]) = pic_step c (pic c es) e"
  by (simp add: pic_def)

lemma pic_set_mask:
  assumes "pics_ready h"
  shows "pic PIC0_ICW1 (h @ [PortInB q, PortOut PIC0_IMR v]) = (0, v)"
    "pic PIC1_ICW1 (h @ [PortInB q, PortOut PIC0_IMR v]) = pic PIC1_ICW1 h"
    "pic PIC1_ICW1 (h @ [PortInB q, PortOut PIC1_IMR v]) = (0, v)"
    "pic PIC0_ICW1 (h @ [PortInB q, PortOut PIC1_IMR v]) = pic PIC0_ICW1 h"
  using assms by (cases "pic PIC0_ICW1 h"; cases "pic PIC1_ICW1 h"; simp add: pic_def pics_ready_def pic_consts)+

lemma bit_clear_u8: "bit ((v :: u8) AND NOT (push_bit n 1)) k \<longleftrightarrow> bit v k \<and> k \<noteq> n"
  and bit_set_u8: "n < 8 \<Longrightarrow> bit (v OR push_bit n 1) k \<longleftrightarrow> bit v k \<or> k = n"
  by (auto simp: bit_simps dest: bit_imp_le_length)

lemma init_pic_masks:
  assumes "k < 16"
  shows "pics_ready (io_log (init_pic s))" "line_masked (io_log (init_pic s)) k \<longleftrightarrow> k \<noteq> 2"
proof -
  have "pic PIC0_ICW1 (io_log (init_pic s)) = (0, 0xfb)" "pic PIC1_ICW1 (io_log (init_pic s)) = (0, 0xff)"
    by (cases "pic PIC0_ICW1 (io_log s)"; cases "pic PIC1_ICW1 (io_log s)";
        simp add: init_pic_def outb_def pic_def pic_consts bit_simps)+
  moreover have "bit (0xfb :: u8) k \<longleftrightarrow> k \<noteq> 2" if "k < 8" for k
    using that by (auto simp: less_Suc_eq numeral_eq_Suc bit_Suc)
  moreover have "bit (0xff :: u8) k" if "k < 8" for k
    using that by (auto simp: less_Suc_eq numeral_eq_Suc bit_Suc)
  ultimately show "pics_ready (io_log (init_pic s))" "line_masked (io_log (init_pic s)) k \<longleftrightarrow> k \<noteq> 2"
    using assms by (auto simp: pics_ready_def line_masked_def)
qed

text \<open>The interrupt controllers. Where the controllers answer with their mask,
  \<^verbatim>\<open>irq_enable\<close> and \<^verbatim>\<open>irq_disable\<close> of an interrupt of theirs unmask and mask exactly the line of
  that interrupt; and after \<^verbatim>\<open>irq_init\<close> every line but the one that connects the controllers is
  masked.\<close>

theorem pic_lines:
  assumes "pic_ok dev" and "pics_ready (io_log s)" and "k < 16"
  shows "(\<exists>s'. irq_enable dev (IRQ_PIC_START + int k) s = Inr ((), s') \<and> pics_ready (io_log s')
      \<and> (\<forall>j < 16. line_masked (io_log s') j \<longleftrightarrow> line_masked (io_log s) j \<and> j \<noteq> k))
    \<and> (\<exists>s'. irq_disable dev (IRQ_PIC_START + int k) s = Inr ((), s') \<and> pics_ready (io_log s')
      \<and> (\<forall>j < 16. line_masked (io_log s') j \<longleftrightarrow> line_masked (io_log s) j \<or> j = k))
    \<and> pics_ready (io_log (init_pic s)) \<and> (\<forall>j < 16. line_masked (io_log (init_pic s)) j \<longleftrightarrow> j \<noteq> 2)"
proof -
  note d = assms(1) [unfolded pic_ok_def, rule_format, of "io_log s"]
  note m = pic_set_mask [OF assms(2)]
  have "\<exists>s'. irq_enable dev (IRQ_PIC_START + int k) s = Inr ((), s') \<and> pics_ready (io_log s')
      \<and> (\<forall>j < 16. line_masked (io_log s') j \<longleftrightarrow> line_masked (io_log s) j \<and> j \<noteq> k)"
    using assms(2,3) d m bit_clear_u8
    by (cases "k < 8") (auto simp: irq_enable_def inb_def outb_def IRQ_PIC_START_def nat_diff_distrib
        pics_ready_def line_masked_def)
  moreover have "\<exists>s'. irq_disable dev (IRQ_PIC_START + int k) s = Inr ((), s') \<and> pics_ready (io_log s')
      \<and> (\<forall>j < 16. line_masked (io_log s') j \<longleftrightarrow> line_masked (io_log s) j \<or> j = k)"
    using assms(2,3) d m bit_set_u8
    by (cases "k < 8") (auto simp: irq_disable_def inb_def outb_def IRQ_PIC_START_def nat_diff_distrib
        pics_ready_def line_masked_def)
  ultimately show ?thesis using init_pic_masks(1) [OF assms(3), of s] init_pic_masks(2) [of _ s] by blast
qed

subsection \<open>The timer\<close>

text \<open>The divisor fits in the two bytes that are written, and gives the period to the millisecond tick
  with an error below one cycle of the oscillator.\<close>

lemma reload_count_value: "reload_count = 11931"
  by (simp add: reload_count_def PIT_OSC_FREQ_def OS_TICKS_MS_def)

text \<open>The interrupt is acknowledged before the tick, which may switch to another task.\<close>

lemma do_handler_timer_eq:
  "do_handler_timer s = task_time_tick (s\<lparr>sys_tick := sys_tick s + 1, io_log := io_log s @ [PortOut 0x20 0x20]\<rparr>)"
  by (simp add: do_handler_timer_def pic_send_eoi_def outb_def pic_consts IRQ0_TIMER_def)

lemma pic_other: "p \<noteq> c \<Longrightarrow> p \<noteq> c + 1 \<Longrightarrow> pic c (h @ PortOut p v # es) = pic c (h @ es)"
  by (cases "foldl (pic_step c) (0, 0) h") (simp add: pic_def)

lemma pic_pit:
  "pic 0x20 (h @ [PortOut 0x43 a, PortOut 0x40 b, PortOut 0x40 d]) = pic 0x20 h"
  "pic 0xa0 (h @ [PortOut 0x43 a, PortOut 0x40 b, PortOut 0x40 d]) = pic 0xa0 h"
  by (simp_all add: pic_other)

text \<open>The state after \<^verbatim>\<open>timer_init\<close>.\<close>

definition timer_started :: "device \<Rightarrow> handlers \<Rightarrow> 's irq_state_scheme \<Rightarrow> 's irq_state_scheme" where
  "timer_started dev h s =
     (let l = io_log s @ [PortOut 0x43 0x36, PortOut 0x40 0x9b, PortOut 0x40 0x2e]
      in s\<lparr>sys_tick := 0, io_log := l @ [PortInB 0x21, PortOut 0x21 (ucast (dev l 0x21) AND NOT (push_bit 0 1))],
           idt_table := (idt_table s)[32 := int_gate (h_timer h)]\<rparr>)"

lemma timer_init_eq:
  assumes "length (idt_table s) = IDT_TABLE_NO"
  shows "timer_init dev h s = Inr ((), timer_started dev h s)"
  using assms by (simp add: timer_init_def init_pit_def irq_install_def IRQ0_TIMER_def outb_def
      PIT_COMMAND_MODE_PORT_def PIT_CHANNEL0_DATA_PORT_def PIT_CHANNEL_def PIT_LOAD_LOHI_def PIT_MODE3_def
      reload_count_value IDT_TABLE_NO_def irq_enable_def inb_def pic_consts timer_started_def Let_def)

lemma timer_started_masks:
  assumes "pic_ok dev" "pics_ready (io_log s)"
  shows "line_masked (io_log (timer_started dev h s)) j \<longleftrightarrow> line_masked (io_log s) j \<and> j \<noteq> 0"
    and "pics_ready (io_log (timer_started dev h s))"
proof -
  let ?l = "io_log s @ [PortOut 0x43 0x36, PortOut 0x40 0x9b, PortOut 0x40 0x2e]"
  let ?v = "ucast (dev ?l 0x21) AND NOT (push_bit 0 1) :: u8"
  have r: "pics_ready ?l" using assms(2) by (simp add: pics_ready_def pic_consts pic_pit)
  have same: "line_masked ?l j = line_masked (io_log s) j" for j by (simp add: line_masked_def pic_consts pic_pit)
  have "ucast (dev ?l 0x21) = snd (pic PIC0_ICW1 ?l)" using assms(1) by (simp add: pic_ok_def PIC0_IMR_def)
  then have "line_masked (?l @ [PortInB 0x21, PortOut 0x21 ?v]) j \<longleftrightarrow> line_masked ?l j \<and> j \<noteq> 0" for j
    using pic_set_mask(1,2) [OF r, of "0x21" ?v] bit_clear_u8 [of _ 0 j]
    by (auto simp: line_masked_def PIC0_IMR_def)
  then show "line_masked (io_log (timer_started dev h s)) j \<longleftrightarrow> line_masked (io_log s) j \<and> j \<noteq> 0"
    unfolding same by (simp add: timer_started_def Let_def)
  show "pics_ready (io_log (timer_started dev h s))"
    using r pic_set_mask(1,2) [OF r, of "0x21" ?v] by (simp add: timer_started_def pics_ready_def PIC0_IMR_def)
qed

text \<open>Starting the timer. \<^verbatim>\<open>timer_init\<close> installs the timer entry at vector 32 and changes no
  other vector, unmasks exactly the line of the timer, and programs the timer with a divisor that
  fits in 16 bits and makes the period ten milliseconds, short by less than one oscillator cycle.\<close>

theorem timer_init_effect:
  assumes "pic_ok dev" and "pics_ready (io_log s)" and "length (idt_table s) = IDT_TABLE_NO"
  shows "\<exists>s' lo hi. timer_init dev h s = Inr ((), s') \<and> sys_tick s' = 0
    \<and> idt_table s' = (idt_table s)[32 := int_gate (h_timer h)]
    \<and> (\<forall>j < 16. line_masked (io_log s') j \<longleftrightarrow> line_masked (io_log s) j \<and> j \<noteq> 0)
    \<and> take 3 (drop (length (io_log s)) (io_log s')) = [PortOut 0x43 0x36, PortOut 0x40 lo, PortOut 0x40 hi]
    \<and> (unat lo + 256 * unat hi) * 1000 \<le> unat PIT_OSC_FREQ * unat OS_TICKS_MS
    \<and> unat PIT_OSC_FREQ * unat OS_TICKS_MS < (unat lo + 256 * unat hi) * 1000 + 1000"
  unfolding timer_init_eq [OF assms(3)]
  by (intro exI [of _ "timer_started dev h s"] exI [of _ "0x9b"] exI [of _ "0x2e"])
    (simp add: timer_started_masks [OF assms(1,2)], simp add: timer_started_def Let_def PIT_OSC_FREQ_def OS_TICKS_MS_def)

subsection \<open>Concrete devices and state\<close>

definition demo_device :: device where
  "demo_device h p = (if p = PIC0_IMR then ucast (snd (pic PIC0_ICW1 h)) else if p = PIC1_IMR then ucast (snd (pic PIC1_ICW1 h)) else 0x48)"

lemma demo_device_ok: "pic_ok demo_device" "uart_ready demo_device"
proof -
  have "ucast (ucast v :: u16) = v" for v :: u8 by (rule bit_eqI) (simp add: bit_simps)
  moreover have "PIC0_IMR \<noteq> PIC1_IMR" by (simp add: pic_consts)
  ultimately show "pic_ok demo_device" by (simp add: pic_ok_def demo_device_def)
  have "COM1_PORT + 5 \<noteq> PIC0_IMR" "COM1_PORT + 5 \<noteq> PIC1_IMR" by (simp_all add: pic_consts COM1_PORT_def)
  then show "uart_ready demo_device" by (simp add: uart_ready_def demo_device_def)
qed

definition demo_irq :: irq_state where
  "demo_irq = log_state.extend demo_log (irq_state.fields (replicate 128 (gate_desc_set 0 0 0)) 0)"

lemma demo_irq_fields [simp]: "idt_table demo_irq = replicate 128 (gate_desc_set 0 0 0)" "io_log demo_irq = []"
proof -
  have "io_log demo_sched = []"
    by (simp add: demo_sched_def demo_base_def task_set_sleep_def task_set_ready_def upd_task_def Let_def
        split: prod.splits)
  then show "io_log demo_irq = []"
    by (simp add: demo_irq_def demo_log_def demo_kmem_def demo_gdt_def log_state.defs irq_state.defs
        gdt_state.defs kmem.defs sched.defs)
  show "idt_table demo_irq = replicate 128 (gate_desc_set 0 0 0)"
    by (simp add: demo_irq_def log_state.defs irq_state.defs)
qed

lemma demo_pics_ready: "pics_ready (io_log demo_irq)"
  by (simp add: pics_ready_def pic_def)

definition demo_handlers :: handlers where
  "demo_handlers = \<lparr>h_unknown = 0x100, h_divide_error = 0x110, h_debug_exception = 0x120, h_nmi_interrupt = 0x130,
     h_breakpoint = 0x140, h_overflow = 0x150, h_bound_range_exceed = 0x160, h_invalid_opcode = 0x170,
     h_device_not_found = 0x180, h_double_fault = 0x190, h_invalid_tss = 0x1a0, h_segment_not_present = 0x1b0,
     h_stack_segment_fault = 0x1c0, h_general_protection = 0x1d0, h_page_fault = 0x1e0,
     h_floating_point_error = 0x1f0, h_aligment_check = 0x200, h_machine_check = 0x210,
     h_simd_floating_point_exception = 0x220, h_virtualization_exception = 0x230,
     h_control_protection_exception = 0x240, h_timer = 0x250\<rparr>"

theorem irq_init_table_witness:
  "\<exists>s'. irq_init 0x9000 demo_handlers demo_irq = Inr ((), s') \<and> map gate_target (take 22 (idt_table s')) ! 14 = 0x1e0"
proof -
  have l: "length (idt_table demo_irq) = IDT_TABLE_NO" by (simp add: IDT_TABLE_NO_def)
  from irq_init_table [OF l, of "0x9000" demo_handlers] show ?thesis
    by (elim exE conjE) (intro exI conjI, assumption, simp add: demo_handlers_def)
qed

theorem pic_lines_witness:
  "\<exists>s'. irq_enable demo_device (IRQ_PIC_START + int 9) demo_irq = Inr ((), s') \<and> \<not> line_masked (io_log s') 9"
  using pic_lines [OF demo_device_ok(1) demo_pics_ready, of 9] by fastforce

theorem timer_init_effect_witness:
  "\<exists>s'. timer_init demo_device demo_handlers demo_irq = Inr ((), s') \<and> \<not> line_masked (io_log s') 0"
  using timer_init_effect [OF demo_device_ok(1) demo_pics_ready, of demo_handlers] by (auto simp: IDT_TABLE_NO_def)

end
