(* ===== verification/Fs.thy ===== *)
theory Fs
  imports Irq Disk Elf
begin

text \<open>
  The file interface, \<^verbatim>\<open>src/source/kernel/fs/fs.c\<close>: there is one file, the 80 sectors from
  sector 5000 on, which \<^verbatim>\<open>sys_open\<close> reads into a static buffer (\<open>temp_at\<close> is its address); the file
  position is a pointer into it. The name is a pointer of the running task, so reading it may fault.
\<close>

definition TEMP_FD :: u32 where "TEMP_FD = 100"

record fs_state = irq_state +
  temp_pos :: addr

definition sys_open :: "device \<Rightarrow> addr \<Rightarrow> addr \<Rightarrow> u32 \<Rightarrow> 's fs_state_scheme \<Rightarrow> ('s fs_state_scheme, u32) kres option" where
  "sys_open dev temp_at name fl s =
     (case vload s name of
        None \<Rightarrow> Some (Inl (Fault s))
      | Some c \<Rightarrow>
          if c = 47 then
            Option.bind (read_disk dev 5000 80 temp_at s) (\<lambda>s1. Some (Inr (TEMP_FD, s1\<lparr>temp_pos := temp_at\<rparr>)))
          else Some (Inr (-1, s)))"

definition sys_read :: "u32 \<Rightarrow> addr \<Rightarrow> u32 \<Rightarrow> 's fs_state_scheme \<Rightarrow> u32 \<times> 's fs_state_scheme" where
  "sys_read fd ptr len s =
     (if fd = TEMP_FD then
        let s1 = s\<lparr>mem := kmemcpy ptr (temp_pos s) len (mem s)\<rparr>
        in (len, s1\<lparr>temp_pos := temp_pos s1 + len\<rparr>)
      else (-1, s))"

definition sys_write :: "u32 \<Rightarrow> addr \<Rightarrow> u32 \<Rightarrow> 's fs_state_scheme \<Rightarrow> u32 \<times> 's fs_state_scheme" where
  "sys_write fd ptr len s = (-1, s)"

definition sys_lseek :: "addr \<Rightarrow> u32 \<Rightarrow> u32 \<Rightarrow> u32 \<Rightarrow> 's fs_state_scheme \<Rightarrow> u32 \<times> 's fs_state_scheme" where
  "sys_lseek temp_at fd offset dir s =
     (if fd = TEMP_FD then (0, s\<lparr>temp_pos := temp_at + offset\<rparr>) else (-1, s))"

definition sys_close :: "u32 \<Rightarrow> 's fs_state_scheme \<Rightarrow> u32 \<times> 's fs_state_scheme" where
  "sys_close fd s = (0, s)"

subsection \<open>A file with a position\<close>

text \<open>\<open>file_open temp_at file s\<close>: the buffer holds the file.\<close>

definition FILE_SIZE :: nat where "FILE_SIZE = SECTOR_SIZE * 80"

definition file_open :: "addr \<Rightarrow> u8 list \<Rightarrow> 's fs_state_scheme \<Rightarrow> bool" where
  "file_open temp_at file s \<longleftrightarrow> length file = FILE_SIZE \<and> load_bytes (mem s) temp_at FILE_SIZE = file"

lemma sys_open_effect:
  assumes "ata_ok disk dev" "vload s name = Some c"
  shows "\<exists>r s'. sys_open dev temp_at name fl s = Some (Inr (r, s'))
    \<and> (if c = 47 then r = TEMP_FD \<and> temp_pos s' = temp_at
         \<and> file_open temp_at (disk_bytes disk (SECTOR_SIZE * 5000) FILE_SIZE) s'
         \<and> (\<forall>x. x \<notin> region temp_at FILE_SIZE \<longrightarrow> mem s' x = mem s x)
       else r = -1 \<and> s' = s)"
proof (cases "c = 47")
  case True
  obtain es where "read_disk dev 5000 80 temp_at s = Some (s\<lparr>io_log := es,
      mem := store_bytes temp_at (disk_bytes disk (SECTOR_SIZE * 5000) (SECTOR_SIZE * 80)) (mem s)\<rparr>)"
    using read_disk_effect [OF assms(1), of 80 5000 temp_at s] by auto
  then show ?thesis using True assms(2)
    load_store_bytes [of "disk_bytes disk (SECTOR_SIZE * 5000) FILE_SIZE" temp_at "mem s"]
    by (auto simp: sys_open_def file_open_def FILE_SIZE_def SECTOR_SIZE_def disk_bytes_def intro!: store_bytes_other)
qed (use assms(2) in \<open>simp add: sys_open_def\<close>)

text \<open>Where the position is \<open>off\<close>, a read gives the next bytes and moves the position behind them.\<close>

lemma sys_read_effect:
  assumes "file_open temp_at file s" "temp_pos s = temp_at + of_nat off" "off + unat len \<le> FILE_SIZE"
    "ptr \<noteq> 0" "temp_pos s \<noteq> 0" "region ptr (unat len) \<inter> region temp_at FILE_SIZE = {}"
  shows "\<exists>s'. sys_read TEMP_FD ptr len s = (len, s') \<and> file_open temp_at file s'
    \<and> temp_pos s' = temp_at + of_nat (off + unat len)
    \<and> s' = s\<lparr>mem := store_bytes ptr (take (unat len) (drop off file)) (mem s), temp_pos := temp_pos s'\<rparr>"
proof -
  let ?n = "unat len" and ?src = "temp_at + of_nat off"
  have sub: "region ?src ?n \<subseteq> region temp_at FILE_SIZE" using assms(3) by (rule region_sub)
  have f: "file = load_bytes (mem s) temp_at FILE_SIZE" "length file = FILE_SIZE"
    using assms(1) by (simp_all add: file_open_def)
  have bytes: "load_bytes (mem s) ?src ?n = take ?n (drop off file)"
    unfolding f(1) using assms(3)
    by (intro nth_equalityI) (simp_all add: load_bytes_def add.assoc)
  have "kmemcpy ptr ?src len (mem s) = store_bytes ptr (take ?n (drop off file)) (mem s)"
  proof (cases "len = 0")
    case False
    have "region ptr ?n \<inter> region ?src ?n = {}" using sub assms(6) by blast
    then show ?thesis using False assms(2,4,5) bytes by (simp add: kmemcpy_def kmemcpy_loop_eq)
  qed (simp add: kmemcpy_def)
  moreover have "load_bytes (store_bytes ptr (take ?n (drop off file)) (mem s)) temp_at FILE_SIZE = file"
  proof -
    have "length (take ?n (drop off file)) = ?n" using assms(3) f(2) by simp
    then show ?thesis using f(1) assms(6)
      by (metis load_bytes_cong store_bytes_other disjoint_iff)
  qed
  ultimately show ?thesis using assms(2) f(2) by (auto simp: sys_read_def file_open_def add.assoc)
qed

text \<open>C21: Reading a file. After opening a name that starts with a slash, seeking to an offset and
  reading stores exactly the bytes of the file on disk from that offset on and returns their number,
  as long as they are within the 80 sectors that are read and the target is outside the buffer; a
  second read goes on behind the first.\<close>

theorem open_seek_read:
  assumes "ata_ok disk dev" and "vload s name = Some 47" and "temp_at \<noteq> 0" and "unat temp_at + FILE_SIZE \<le> 2 ^ 32"
    and "unat off + unat len + unat len2 \<le> FILE_SIZE" and "ptr \<noteq> 0" and "ptr2 \<noteq> 0"
    and "region ptr (unat len) \<inter> region temp_at FILE_SIZE = {}"
    and "region ptr2 (unat len2) \<inter> region temp_at FILE_SIZE = {}" and "unat len2 \<noteq> 0"
  shows "\<exists>fd s1 s2 s3 s4. sys_open dev temp_at name fl s = Some (Inr (fd, s1)) \<and> sys_lseek temp_at fd off 0 s1 = (0, s2)
    \<and> sys_read fd ptr len s2 = (len, s3) \<and> sys_read fd ptr2 len2 s3 = (len2, s4)
    \<and> mem s3 = store_bytes ptr (disk_bytes disk (SECTOR_SIZE * 5000 + unat off) (unat len)) (mem s1)
    \<and> mem s4 = store_bytes ptr2 (disk_bytes disk (SECTOR_SIZE * 5000 + unat off + unat len) (unat len2)) (mem s3)
    \<and> (\<forall>x. x \<notin> region temp_at FILE_SIZE \<longrightarrow> mem s1 x = mem s x)"
proof -
  let ?file = "disk_bytes disk (SECTOR_SIZE * 5000) FILE_SIZE"
  have part: "take n (drop k ?file) = disk_bytes disk (SECTOR_SIZE * 5000 + k) n" if "k + n \<le> FILE_SIZE" for k n
    using that by (intro nth_equalityI) (simp_all add: disk_bytes_def add.assoc)
  obtain s1 where o: "sys_open dev temp_at name fl s = Some (Inr (TEMP_FD, s1))" "file_open temp_at ?file s1"
    "\<forall>x. x \<notin> region temp_at FILE_SIZE \<longrightarrow> mem s1 x = mem s x"
    using sys_open_effect [OF assms(1,2), of temp_at fl] by auto
  let ?s2 = "s1\<lparr>temp_pos := temp_at + off\<rparr>"
  have l: "sys_lseek temp_at TEMP_FD off 0 s1 = (0, ?s2)" by (simp add: sys_lseek_def)
  have nz: "temp_at + of_nat k \<noteq> 0" if "k < FILE_SIZE" for k
    using unat_add_lt [of temp_at k] assms(3,4) that unat_gt_0 [of temp_at] by auto
  have "file_open temp_at ?file ?s2" using o(2) by (simp add: file_open_def)
  moreover have "temp_pos ?s2 = temp_at + of_nat (unat off)" by simp
  moreover have "unat off < FILE_SIZE" "unat off + unat len < FILE_SIZE" using assms(5,10) by auto
  ultimately obtain s3 where r: "sys_read TEMP_FD ptr len ?s2 = (len, s3)" "file_open temp_at ?file s3"
    "temp_pos s3 = temp_at + of_nat (unat off + unat len)"
    "s3 = ?s2\<lparr>mem := store_bytes ptr (take (unat len) (drop (unat off) ?file)) (mem ?s2), temp_pos := temp_pos s3\<rparr>"
    using sys_read_effect [of temp_at ?file ?s2 "unat off" len ptr] assms(6,8) nz [of "unat off"] by auto
  have "temp_pos s3 \<noteq> 0" using r(3) nz [of "unat off + unat len"] \<open>unat off + unat len < FILE_SIZE\<close> by simp
  then obtain s4 where r2: "sys_read TEMP_FD ptr2 len2 s3 = (len2, s4)"
    "s4 = s3\<lparr>mem := store_bytes ptr2 (take (unat len2) (drop (unat off + unat len) ?file)) (mem s3), temp_pos := temp_pos s4\<rparr>"
    using sys_read_effect [OF r(2,3), of len2 ptr2] assms(5,7,9) by auto
  have "mem s3 = store_bytes ptr (disk_bytes disk (SECTOR_SIZE * 5000 + unat off) (unat len)) (mem s1)"
    using arg_cong [OF r(4), of mem] part [of "unat off" "unat len"] assms(5) by simp
  moreover have "mem s4 = store_bytes ptr2 (disk_bytes disk (SECTOR_SIZE * 5000 + unat off + unat len) (unat len2)) (mem s3)"
    using arg_cong [OF r2(2), of mem] part [of "unat off + unat len" "unat len2"] assms(5) by (simp add: add.assoc)
  ultimately show ?thesis using o l r(1) r2(1) by blast
qed

text \<open>The name \<^verbatim>\<open>"/"\<close> at \<open>0x3000\<close>.\<close>

definition demo_fs :: fs_state where
  "demo_fs = irq_state.extend (demo_irq\<lparr>mem := (\<lambda>_. 0)(0x3000 := 47)\<rparr>) (fs_state.fields 0)"

lemma demo_fs_name: "vload demo_fs 0x3000 = Some 47"
  by (simp add: vload_def demo_fs_def irq_state.defs MEMORY_TASK_BASE_def)

theorem open_seek_read_witness:
  "\<exists>fd s1 s2 s3 s4. sys_open demo_drive 0x20000 0x3000 0 demo_fs = Some (Inr (fd, s1)) \<and> sys_lseek 0x20000 fd 16 0 s1 = (0, s2)
    \<and> sys_read fd 0x8000 8 s2 = (8, s3) \<and> sys_read fd 0x9000 4 s3 = (4, s4)
    \<and> mem s4 = store_bytes 0x9000 (disk_bytes demo_disk 2560024 4) (mem s3)"
proof -
  have f: "FILE_SIZE = 40960" by (simp add: FILE_SIZE_def SECTOR_SIZE_def)
  have "region 0x8000 8 \<inter> region 0x20000 40960 = {}" "region 0x9000 4 \<inter> region 0x20000 40960 = {}"
    by (intro region_disjoint; simp)+
  then show ?thesis
    using open_seek_read [OF demo_drive_ok demo_fs_name, of "0x20000" 16 8 4 "0x8000" "0x9000" 0]
    by (simp add: f SECTOR_SIZE_def) blast
qed

end
