(* ===== verification/Task.thy ===== *)
theory Task
  imports Fs
begin

text \<open>
  The life of tasks, \<^verbatim>\<open>src/source/kernel/core/task.c\<close>: initialising a task with its task state
  segment, kernel stack and address space, the table of tasks, the first tasks, \<^verbatim>\<open>fork\<close>,
  \<^verbatim>\<open>execve\<close> and the release of a task.

  \<^item> \<open>kernel_env\<close> has the addresses of static objects, of string literals (\<open>lit\<close>) and of local
    variables whose address the code takes.
  \<^item> Task control blocks are not part of \<open>mem\<close>; where a string function works on the name in a block,
    the name and the bytes behind it are laid over memory (\<open>name_over\<close>) and read back.
  \<^item> User addresses are accessed through the page directory in CR3; an access to a page that is not
    mapped is a fault. \<open>vbytes\<close> is the memory seen through it, and \<open>vmapped\<close> checks a range.
\<close>

subsection \<open>Constants and data\<close>

definition TASK_NR :: nat where "TASK_NR = 128"
definition IDLE_TASK_SIZE :: u32 where "IDLE_TASK_SIZE = 1024"
definition TASK_FLAGS_USER :: u32 where "TASK_FLAGS_USER = 0"
definition TASK_FLAGS_SYSTEM :: u32 where "TASK_FLAGS_SYSTEM = push_bit 0 1"

text \<open>Sizes of the structures on the 32-bit target.\<close>

abbreviation task_t_size :: u32 where "task_t_size \<equiv> 188"
abbreviation tss_t_size :: u32 where "tss_t_size \<equiv> 104"
abbreviation frame_size :: u32 where "frame_size \<equiv> 88"
abbreviation task_args_size :: u32 where "task_args_size \<equiv> 12"

record kernel_env =
  task_table :: addr
  table_mutex_at :: addr
  lit :: "string \<Rightarrow> addr"
  idle_task_entry :: addr
  idle_task_stack :: addr
  first_task_entry :: addr
  s_first_task :: addr
  e_first_task :: addr
  temp_at :: addr
  elf_hdr_below :: u32
  elf_phdr_below :: u32
  task_args_below :: u32

text \<open>
  During \<^verbatim>\<open>execve\<close> the local variables \<^verbatim>\<open>elf_hdr\<close>, \<^verbatim>\<open>elf_phdr\<close> and \<^verbatim>\<open>task_args\<close> are on the kernel stack of the
  running task. The compiler chooses how far below the top of the stack they lie (\<open>elf_hdr_below\<close> and the others);
  \<open>exec_env\<close> has their addresses during a call (\<open>exec_locals\<close>).
\<close>

record exec_env = kernel_env +
  elf_hdr_at :: addr
  elf_phdr_at :: addr
  task_args_at :: addr

record kernel = fs_state +
  task_table_mutex :: mutex_t

type_synonym ('s, 'a) tres = "('s kernel_scheme, 'a) kres"

text \<open>The fields of a system call frame at an address, \<^verbatim>\<open>syscall_frame_t\<close>: offsets of the words.\<close>

record syscall_frame_t =
  sf_eflags :: u32
  sf_gs :: u32
  sf_fs :: u32
  sf_es :: u32
  sf_ds :: u32
  sf_edi :: u32
  sf_esi :: u32
  sf_ebp :: u32
  sf_dummy :: u32
  sf_ebx :: u32
  sf_edx :: u32
  sf_ecx :: u32
  sf_eax :: u32
  sf_eip :: u32
  sf_cs :: u32
  sf_func_id :: u32
  sf_arg0 :: u32
  sf_arg1 :: u32
  sf_arg2 :: u32
  sf_arg3 :: u32
  sf_esp :: u32
  sf_ss :: u32

definition read_frame :: "bytes \<Rightarrow> addr \<Rightarrow> syscall_frame_t" where
  "read_frame m a =
     \<lparr>sf_eflags = load32 m a, sf_gs = load32 m (a + 4), sf_fs = load32 m (a + 8), sf_es = load32 m (a + 12),
      sf_ds = load32 m (a + 16), sf_edi = load32 m (a + 20), sf_esi = load32 m (a + 24),
      sf_ebp = load32 m (a + 28), sf_dummy = load32 m (a + 32), sf_ebx = load32 m (a + 36),
      sf_edx = load32 m (a + 40), sf_ecx = load32 m (a + 44), sf_eax = load32 m (a + 48),
      sf_eip = load32 m (a + 52), sf_cs = load32 m (a + 56), sf_func_id = load32 m (a + 60),
      sf_arg0 = load32 m (a + 64), sf_arg1 = load32 m (a + 68), sf_arg2 = load32 m (a + 72),
      sf_arg3 = load32 m (a + 76), sf_esp = load32 m (a + 80), sf_ss = load32 m (a + 84)\<rparr>"

subsection \<open>User memory and names\<close>

definition vbytes :: "'m machine_scheme \<Rightarrow> bytes" where
  "vbytes s a = (case vload s a of None \<Rightarrow> 0 | Some b \<Rightarrow> b)"

definition vmapped :: "'m machine_scheme \<Rightarrow> addr \<Rightarrow> nat \<Rightarrow> bool" where
  "vmapped s a n \<longleftrightarrow> list_all (\<lambda>i. vload s (a + of_nat i) \<noteq> None) [0..<n]"

definition name_over :: "addr \<Rightarrow> task_t \<Rightarrow> bytes \<Rightarrow> bytes" where
  "name_over t tk m = store_bytes (t + 4) (t_name tk) (store32 (t + 36) (t_pid tk) m)"

text \<open>\<^verbatim>\<open>kstrncpy(task->name, src, TASK_NAME_SIZE)\<close>, with \<open>m\<close> the memory that holds the source.\<close>

definition set_task_name :: "addr \<Rightarrow> addr \<Rightarrow> bytes \<Rightarrow> task_t \<Rightarrow> task_t" where
  "set_task_name t src m tk =
     (let m1 = kstrncpy (t + 4) src (int TASK_NAME_SIZE) (name_over t tk m)
      in tk\<lparr>t_name := load_bytes m1 (t + 4) TASK_NAME_SIZE, t_pid := load32 m1 (t + 36)\<rparr>)"

subsection \<open>Initialising and releasing a task\<close>

definition tss_init :: "addr \<Rightarrow> u32 \<Rightarrow> u32 \<Rightarrow> u32 \<Rightarrow> 's kernel_scheme \<Rightarrow> ('s, u32) tres" where
  "tss_init task flg ent esp s =
     bindR (gdt_alloc_desc s) (\<lambda>tss_sel s.
     if sint tss_sel < 0 then Inr (-1, s)
     else bindR (segment_desc_set tss_sel (task + 80) tss_t_size (SEG_P_PRESENT OR SEG_DPL0 OR SEG_TYPE_TSS) s) (\<lambda>_ s.
     let s = upd_task task (t_tss_update (\<lambda>_. tss_zero)) s
     in bindR (memory_alloc_page s) (\<lambda>kernel_stack s.
     if kernel_stack = 0 then bindR (gdt_free_sel tss_sel s) (\<lambda>_ s. Inr (-1, s))
     else
       let code_sel = (if flg AND TASK_FLAGS_SYSTEM \<noteq> 0 then KERNEL_SELECTOR_CS else app_code_sel s OR SEG_RPL3);
           data_sel = (if flg AND TASK_FLAGS_SYSTEM \<noteq> 0 then KERNEL_SELECTOR_DS else app_data_sel s OR SEG_RPL3);
           s = upd_task task (t_tss_update (\<lambda>t. t\<lparr>tss_eip := ent, tss_esp := esp,
                 tss_esp0 := kernel_stack + MEM_PAGE_SIZE, tss_ss := data_sel, tss_ss0 := KERNEL_SELECTOR_DS,
                 tss_es := data_sel, tss_ds := data_sel, tss_fs := data_sel, tss_gs := data_sel,
                 tss_cs := code_sel, tss_eflags := EFLAGS_IF OR EFLAGS_DEFAULT\<rparr>)) s
       in bindR (memory_create_uvm s) (\<lambda>uvm_pgtbl s.
          if uvm_pgtbl = 0 then
            bindR (gdt_free_sel tss_sel s) (\<lambda>_ s.
            bindR (memory_free_page kernel_stack s) (\<lambda>_ s. Inr (-1, s)))
          else Inr (0, upd_task task (\<lambda>t. t\<lparr>t_tss := (t_tss t)\<lparr>tss_cr3 := uvm_pgtbl\<rparr>, t_tss_sel := tss_sel\<rparr>) s)))))"

text \<open>\<open>view\<close> gives the memory through which the name is read.\<close>

definition task_init ::
    "addr \<Rightarrow> addr \<Rightarrow> ('s kernel_scheme \<Rightarrow> bytes) \<Rightarrow> u32 \<Rightarrow> u32 \<Rightarrow> u32 \<Rightarrow> 's kernel_scheme \<Rightarrow> ('s, u32) tres" where
  "task_init task name view flg ent esp s =
     (if task = 0 then Inl (Panic s)
      else bindR (tss_init task flg ent esp s) (\<lambda>_ s.
        let s = upd_task task (\<lambda>t. (set_task_name task name (view s) t)\<lparr>t_state := TASK_CREATED,
                  t_sleep_ticks := 0, t_time_ticks := TASK_TIME_SLICE_DEFAULT,
                  t_slice_ticks := TASK_TIME_SLICE_DEFAULT, t_parent := 0\<rparr>) s;
            s = s\<lparr>nodes := list_node_init (wait_node task) (list_node_init (run_node task)
                  (list_node_init (all_node task) (nodes s)))\<rparr>;
            (state, s) = irq_enter_protection s;
            s = upd_task task (t_pid_update (\<lambda>_. task)) s;
            (l, h) = list_insert_back (task_list s) (all_node task) (nodes s);
            s = s\<lparr>task_list := l, nodes := h\<rparr>;
            s = irq_leave_protection state s
        in Inr (0, s)))"

text \<open>The whole block is cleared, its list nodes too, although it may be linked in a list.\<close>

definition clear_task :: "addr \<Rightarrow> 's sched_scheme \<Rightarrow> 's sched_scheme" where
  "clear_task task s =
     (upd_task task (\<lambda>_. task_zero) s)\<lparr>nodes := list_node_init (wait_node task)
        (list_node_init (all_node task) (list_node_init (run_node task) (nodes s)))\<rparr>"

definition task_uninit :: "addr \<Rightarrow> 's kernel_scheme \<Rightarrow> ('s, unit) tres" where
  "task_uninit task s =
     bindR (if t_tss_sel (tasks s task) \<noteq> 0 then gdt_free_sel (t_tss_sel (tasks s task)) s else Inr ((), s)) (\<lambda>_ s.
     bindR (if tss_esp0 (t_tss (tasks s task)) \<noteq> 0
            then memory_free_page (tss_esp0 (t_tss (tasks s task)) - MEM_PAGE_SIZE) s else Inr ((), s)) (\<lambda>_ s.
     bindR (if tss_cr3 (t_tss (tasks s task)) \<noteq> 0
            then memory_destroy_uvm (tss_cr3 (t_tss (tasks s task))) s else Inr ((), s)) (\<lambda>_ s.
     Inr ((), clear_task task s))))"

subsection \<open>The table of tasks\<close>

definition table_lock :: "'s kernel_scheme \<Rightarrow> ('s, unit) tres" where
  "table_lock s = (let (mx, s1, sw) = mutex_acquire (task_table_mutex s) s; s2 = s1\<lparr>task_table_mutex := mx\<rparr>
     in if sw then Inl (Suspended s2) else Inr ((), s2))"

definition table_unlock :: "'s kernel_scheme \<Rightarrow> ('s, unit) tres" where
  "table_unlock s = (let (mx, s1, sw) = mutex_release (task_table_mutex s) s; s2 = s1\<lparr>task_table_mutex := mx\<rparr>
     in if sw then Inl (Suspended s2) else Inr ((), s2))"

text \<open>The first block from \<open>cur\<close> on, among \<open>n\<close>, whose name is empty.\<close>

primrec find_unnamed :: "nat \<Rightarrow> addr \<Rightarrow> (addr \<Rightarrow> task_t) \<Rightarrow> addr" where
  "find_unnamed 0 cur ts = 0"
| "find_unnamed (Suc n) cur ts =
     (if t_name (ts cur) ! 0 = 0 then cur else find_unnamed n (cur + task_t_size) ts)"

definition alloc_task :: "kernel_env \<Rightarrow> 's kernel_scheme \<Rightarrow> ('s, addr) tres" where
  "alloc_task env s =
     bindR (table_lock s) (\<lambda>_ s.
     let task = find_unnamed TASK_NR (task_table env) (tasks s)
     in bindR (table_unlock s) (\<lambda>_ s. Inr (task, s)))"

definition free_task :: "addr \<Rightarrow> 's kernel_scheme \<Rightarrow> ('s, unit) tres" where
  "free_task task s =
     bindR (table_lock s) (\<lambda>_ s.
     table_unlock (upd_task task (t_name_update (\<lambda>n. n[0 := 0])) s))"

primrec clear_table :: "nat \<Rightarrow> addr \<Rightarrow> 's sched_scheme \<Rightarrow> 's sched_scheme" where
  "clear_table 0 cur s = s"
| "clear_table (Suc n) cur s = clear_table n (cur + task_t_size) (clear_task cur s)"

subsection \<open>The first tasks\<close>

definition app_segment :: "u16 \<Rightarrow> 's kernel_scheme \<Rightarrow> ('s, u32) tres" where
  "app_segment attr s =
     bindR (gdt_alloc_desc s) (\<lambda>sel s.
     bindR (segment_desc_set sel 0 0xFFFFFFFF attr s) (\<lambda>_ s. Inr (sel, s)))"

definition task_manager_init :: "kernel_env \<Rightarrow> 's kernel_scheme \<Rightarrow> ('s, unit) tres" where
  "task_manager_init env s =
     (let s = clear_table TASK_NR (task_table env) s
      in case mutex_init (table_mutex_at env) (lit env ''task_table'') (task_table_mutex s) (mem s) of
           None \<Rightarrow> Inl (Fault s)
         | Some mx \<Rightarrow>
             bindR (app_segment (SEG_P_PRESENT OR SEG_DPL3 OR SEG_S_NORMAL OR SEG_TYPE_DATA OR SEG_TYPE_RW OR SEG_D)
               (s\<lparr>task_table_mutex := mx\<rparr>)) (\<lambda>sel s.
             let s = s\<lparr>app_data_sel := sel\<rparr>
             in bindR (app_segment (SEG_P_PRESENT OR SEG_DPL3 OR SEG_S_NORMAL OR SEG_TYPE_CODE OR SEG_TYPE_RW OR SEG_D) s)
               (\<lambda>sel s.
             let s = s\<lparr>app_code_sel := sel\<rparr>;
                 s = s\<lparr>ready_list := list_init, task_list := list_init, sleep_list := list_init, curr_task := 0\<rparr>
             in bindR (task_init (idle_task s) (lit env ''idle_task'') mem TASK_FLAGS_SYSTEM
                    (idle_task_entry env) (idle_task_stack env + IDLE_TASK_SIZE) s) (\<lambda>_ s.
                Inr ((), task_start (idle_task s) s)))))"

text \<open>\<^verbatim>\<open>kmemcpy\<close> to a virtual address of the current address space, from a kernel address.\<close>

definition vstore :: "addr \<Rightarrow> u8 \<Rightarrow> 'm machine_scheme \<Rightarrow> 'm machine_scheme option" where
  "vstore a b s = (if a < MEMORY_TASK_BASE then Some (s\<lparr>mem := (mem s)(a := b)\<rparr>)
     else map_option (\<lambda>p. s\<lparr>mem := (mem s)(p := b)\<rparr>) (translate (mem s) (cr3_reg s) a))"

primrec copy_to_virt :: "nat \<Rightarrow> addr \<Rightarrow> addr \<Rightarrow> 's kernel_scheme \<Rightarrow> ('s, unit) tres" where
  "copy_to_virt 0 d a s = Inr ((), s)"
| "copy_to_virt (Suc n) d a s =
     (case vstore d (mem s a) s of None \<Rightarrow> Inl (Fault s) | Some s1 \<Rightarrow> copy_to_virt n (d + 1) (a + 1) s1)"

definition task_first_init :: "kernel_env \<Rightarrow> 's kernel_scheme \<Rightarrow> ('s, unit) tres" where
  "task_first_init env s =
     (let copy_size = e_first_task env - s_first_task env;
          alloc_size = 10 * MEM_PAGE_SIZE
      in if \<not> copy_size < alloc_size then Inl (Panic s)
         else let first_start = first_task_entry env
           in bindR (task_init (first_task s) (lit env ''first task'') mem TASK_FLAGS_USER first_start
                  (first_start + alloc_size) s) (\<lambda>_ s.
              let s = write_tr (ucast (t_tss_sel (tasks s (first_task s)))) s;
                  s = s\<lparr>curr_task := first_task s\<rparr>;
                  s = mmu_set_page_dir (tss_cr3 (t_tss (tasks s (first_task s)))) s
              in bindR (memory_alloc_page_for first_start alloc_size (PTE_P OR PTE_W OR PTE_U) s) (\<lambda>_ s.
                 bindR (if first_start = 0 \<or> s_first_task env = 0 \<or> copy_size = 0 then Inr ((), s)
                        else copy_to_virt (unat copy_size) first_start (s_first_task env) s) (\<lambda>_ s.
                 Inr ((), task_start (first_task s) s)))))"

definition task_first_task :: "'s kernel_scheme \<Rightarrow> addr" where
  "task_first_task s = first_task s"

subsection \<open>Fork\<close>

definition fork_failed :: "addr \<Rightarrow> 's kernel_scheme \<Rightarrow> ('s, u32) tres" where
  "fork_failed child_task s =
     (if child_task \<noteq> 0 then
        bindR (task_uninit child_task s) (\<lambda>_ s. bindR (free_task child_task s) (\<lambda>_ s. Inr (-1, s)))
      else Inr (-1, s))"

text \<open>The result of \<^verbatim>\<open>memory_copy_uvm2\<close> is compared as an unsigned number with 0: it is never less.\<close>

definition sys_fork :: "kernel_env \<Rightarrow> 's kernel_scheme \<Rightarrow> ('s, u32) tres" where
  "sys_fork env s =
     (let parent_task = task_current s
      in bindR (alloc_task env s) (\<lambda>child_task s.
         if child_task = 0 then fork_failed child_task s
         else
           let fr = read_frame (mem s) (tss_esp0 (t_tss (tasks s parent_task)) - frame_size)
           in bindR (task_init child_task (parent_task + 4) (\<lambda>s. name_over parent_task (tasks s parent_task) (mem s))
                  TASK_FLAGS_USER (sf_eip fr) (sf_esp fr + 4 * ucast SYSCALL_PARAM_COUNT) s) (\<lambda>err s.
              if sint err < 0 then fork_failed child_task s
              else
                let fr = read_frame (mem s) (tss_esp0 (t_tss (tasks s parent_task)) - frame_size);
                    s = upd_task child_task (\<lambda>t. t\<lparr>t_tss := (t_tss t)\<lparr>tss_eax := 0, tss_ebx := sf_ebx fr,
                          tss_ecx := sf_ecx fr, tss_edx := sf_edx fr, tss_esi := sf_esi fr, tss_edi := sf_edi fr,
                          tss_ebp := sf_ebp fr, tss_cs := sf_cs fr, tss_ds := sf_ds fr, tss_es := sf_es fr,
                          tss_fs := sf_fs fr, tss_gs := sf_gs fr, tss_eflags := sf_eflags fr\<rparr>,
                          t_parent := parent_task\<rparr>) s
                in bindR (memory_copy_uvm2 (tss_cr3 (t_tss (tasks s parent_task)))
                         (tss_cr3 (t_tss (tasks s child_task))) s) (\<lambda>cr3 s.
                   let s = upd_task child_task (t_tss_update (tss_cr3_update (\<lambda>_. cr3))) s;
                       s = task_start child_task s
                   in Inr (t_pid (tasks s child_task), s)))))"

subsection \<open>Loading a program\<close>

text \<open>The loop of \<^verbatim>\<open>load_phdr\<close> over the pages of a segment.\<close>

function load_pages :: "u32 \<Rightarrow> addr \<Rightarrow> u32 \<Rightarrow> u32 \<Rightarrow> 's kernel_scheme \<Rightarrow> ('s, u32) tres" where
  "load_pages fd page_dir vaddr sz s =
     (if sz = 0 then Inr (0, s)
      else let curr_size = (if MEM_PAGE_SIZE < sz then MEM_PAGE_SIZE else sz)
           in case memory_get_paddr page_dir vaddr s of
                Inl e \<Rightarrow> Inl e
              | Inr (paddr, s1) \<Rightarrow>
                  (case sys_read fd paddr curr_size s1 of (n, s2) \<Rightarrow>
                     if sint n < sint curr_size then Inr (-1, s2)
                     else load_pages fd page_dir (vaddr + curr_size) (sz - curr_size) s2))"
  by pat_completeness auto
termination
proof (relation "measure (\<lambda>(fd, dir, va, sz, s). unat sz)", simp, goal_cases)
  case (1 fd dir va sz s c x p s1 n)
  then have "c \<le> sz" "c \<noteq> 0" by (auto simp: MEM_PAGE_SIZE_def)
  then have "unat (sz - c) < unat sz"
    by (simp add: unat_sub word_le_nat_alt) (metis diff_less unat_gt_0 le_zero_eq word_gt_0 not_gr_zero)
  then show ?case by simp
qed

declare load_pages.simps [simp del]

definition load_phdr :: "exec_env \<Rightarrow> u32 \<Rightarrow> Elf32_Phdr \<Rightarrow> addr \<Rightarrow> 's kernel_scheme \<Rightarrow> ('s, u32) tres" where
  "load_phdr env fd phdr page_dir s =
     bindR (memory_alloc_for_page_dir page_dir (p_vaddr phdr) (p_memsz phdr) (PTE_P OR PTE_U OR PTE_W) s) (\<lambda>err s.
     if sint err < 0 then Inr (-1, s)
     else let (r, s) = sys_lseek (temp_at env) fd (p_offset phdr) 0 s
          in if sint r < 0 then Inr (-1, s)
             else load_pages fd page_dir (p_vaddr phdr) (p_filesz phdr) s)"

text \<open>
  The loop over the program headers, with \<open>n\<close> rounds of fuel. It returns \<open>None\<close> when all headers
  are done and nothing was loaded, else the value that \<^verbatim>\<open>load_elf_file\<close> returns: it returns out
  of the loop after the first segment. The number of headers has 16 bits, so \<open>2 ^ 16\<close> rounds are enough.
\<close>

primrec load_headers ::
    "nat \<Rightarrow> exec_env \<Rightarrow> u32 \<Rightarrow> nat \<Rightarrow> u32 \<Rightarrow> addr \<Rightarrow> 's kernel_scheme \<Rightarrow> ('s, u32 option) tres" where
  "load_headers 0 env fd i phoff page_dir s = Inr (None, s)"
| "load_headers (Suc n) env fd i phoff page_dir s =
     (let hdr = read_ehdr (mem s) (elf_hdr_at env)
      in if \<not> i < unat (e_phnum hdr) then Inr (None, s)
         else let (r, s) = sys_lseek (temp_at env) fd phoff 0 s
           in if sint r < 0 then Inr (Some (-1), snd (sys_close fd s))
              else let (cnt, s) = sys_read fd (elf_phdr_at env) 32 s
                in if cnt < 32 then Inr (Some (-1), snd (sys_close fd s))
                   else let phdr = read_phdr (mem s) (elf_phdr_at env)
                     in if p_type phdr \<noteq> PT_LOAD \<or> p_vaddr phdr < MEMORY_TASK_BASE
                        then load_headers n env fd (Suc i)
                               (phoff + ucast (e_phentsize (read_ehdr (mem s) (elf_hdr_at env)))) page_dir s
                        else bindR (load_phdr env fd phdr page_dir s) (\<lambda>err s.
                          if sint err < 0 then Inr (Some (-1), snd (sys_close fd s))
                          else Inr (Some (e_entry (read_ehdr (mem s) (elf_hdr_at env))), snd (sys_close fd s))))"

definition load_elf_file :: "device \<Rightarrow> exec_env \<Rightarrow> addr \<Rightarrow> addr \<Rightarrow> addr \<Rightarrow> 's kernel_scheme \<Rightarrow> ('s, u32) tres option" where
  "load_elf_file dev env task name page_dir s =
     bindO (sys_open dev (temp_at env) name 0 s) (\<lambda>fd s.
     if sint fd < 0 then Some (Inr (-1, s))
     else let (cnt, s) = sys_read fd (elf_hdr_at env) 52 s
       in if cnt < 52 then Some (Inr (-1, snd (sys_close fd s)))
          else let hdr = read_ehdr (mem s) (elf_hdr_at env)
            in if \<not> elf_ident_ok (e_ident hdr) then Some (Inr (-1, snd (sys_close fd s)))
               else if e_phentsize hdr = 0 \<or> e_phoff hdr = 0 then Some (Inr (-1, snd (sys_close fd s)))
               else Some (bindR (load_headers (2 ^ 16) env fd 0 (e_phoff hdr) page_dir s)
                      (\<lambda>r s. Inr (case r of None \<Rightarrow> 0 | Some v \<Rightarrow> v, s))))"

subsection \<open>The arguments of a program\<close>

text \<open>The loop over the arguments; \<open>tb\<close> is the address of the table of pointers.\<close>

primrec copy_arg_strings ::
    "nat \<Rightarrow> nat \<Rightarrow> addr \<Rightarrow> addr \<Rightarrow> addr \<Rightarrow> addr \<Rightarrow> 's kernel_scheme \<Rightarrow> ('s, unit) tres option" where
  "copy_arg_strings 0 i tb dest_arg page_dir argv s = Some (Inr ((), s))"
| "copy_arg_strings (Suc n) i tb dest_arg page_dir argv s =
     (if \<not> vmapped s (argv + 4 * of_nat i) 4 then Some (Inl (Fault s))
      else let from = load32 (vbytes s) (argv + 4 * of_nat i)
        in Option.bind (kstrlen from (vbytes s)) (\<lambda>l.
           if from \<noteq> 0 \<and> \<not> vmapped s from (unat l + 1) then Some (Inl (Fault s))
           else let len = l + 1
             in bindO (Some (memory_copy_uvm_data dest_arg page_dir from len s)) (\<lambda>err s.
                if sint err < 0 then Some (Inl (Panic s))
                else copy_arg_strings n (Suc i) tb (dest_arg + len) page_dir argv
                       (store_word (tb + 4 * of_nat i) dest_arg s))))"

definition copy_args :: "exec_env \<Rightarrow> addr \<Rightarrow> addr \<Rightarrow> u32 \<Rightarrow> addr \<Rightarrow> 's kernel_scheme \<Rightarrow> ('s, u32) tres option" where
  "copy_args env to page_dir argc argv s =
     (let s = store_word (task_args_at env + 4) argc s;
          s = store_word (task_args_at env + 8) (to + task_args_size) s;
          dest_arg = to + task_args_size + 4 * argc
      in bindO (Some (memory_get_paddr page_dir (to + task_args_size) s)) (\<lambda>dest_argv_tb s.
         if dest_argv_tb = 0 then Some (Inl (Panic s))
         else bindO (copy_arg_strings (nat (sint argc)) 0 dest_argv_tb dest_arg page_dir argv s) (\<lambda>_ s.
              Some (memory_copy_uvm_data to page_dir (task_args_at env) task_args_size s))))"

subsection \<open>Execve\<close>

definition execve_failed :: "addr \<Rightarrow> addr \<Rightarrow> addr \<Rightarrow> 's kernel_scheme \<Rightarrow> ('s, u32) tres" where
  "execve_failed task old_page_dir new_page_dir s =
     (if new_page_dir \<noteq> 0 then
        let s = upd_task task (t_tss_update (tss_cr3_update (\<lambda>_. old_page_dir))) s;
            s = mmu_set_page_dir old_page_dir s
        in bindR (memory_destroy_uvm new_page_dir s) (\<lambda>_ s. Inr (-1, s))
      else Inr (-1, s))"

text \<open>The registers the task continues with, in the frame at the top of its kernel stack.\<close>

definition exec_frame :: "addr \<Rightarrow> u32 \<Rightarrow> u32 \<Rightarrow> bytes \<Rightarrow> bytes" where
  "exec_frame a ent esp m =
     (let m = store32 (a + 52) ent m;
          m = store32 (a + 48) 0 m;
          m = store32 (a + 36) 0 m;
          m = store32 (a + 44) 0 m;
          m = store32 (a + 40) 0 m;
          m = store32 (a + 24) 0 m;
          m = store32 (a + 20) 0 m;
          m = store32 (a + 28) 0 m;
          m = store32 a (EFLAGS_DEFAULT OR EFLAGS_IF) m
      in store32 (a + 80) esp m)"

definition exec_locals :: "kernel_env \<Rightarrow> 's sched_scheme \<Rightarrow> exec_env" where
  "exec_locals env s =
     (let top = tss_esp0 (t_tss (tasks s (task_current s)))
      in kernel_env.extend env (exec_env.fields (top - elf_hdr_below env) (top - elf_phdr_below env) (top - task_args_below env)))"

definition exec_name :: "addr \<Rightarrow> addr \<Rightarrow> 's kernel_scheme \<Rightarrow> ('s, unit) tres option" where
  "exec_name task name s =
     Option.bind (file_name_end name (vbytes s)) (\<lambda>e.
     Option.bind (get_file_name name (vbytes s)) (\<lambda>f.
     if vmapped s (f - 1) (unat (e - f) + 2)
     then Some (Inr ((), upd_task task (set_task_name task f (vbytes s)) s)) else Some (Inl (Fault s))))"

definition exec_argc :: "addr \<Rightarrow> 's kernel_scheme \<Rightarrow> ('s, u32) tres option" where
  "exec_argc argv s =
     Option.bind (strings_count argv (vbytes s)) (\<lambda>n.
     if argv = 0 \<or> vmapped s argv (4 * (unat n + 1)) then Some (Inr (n, s)) else Some (Inl (Fault s)))"

definition sys_execve :: "device \<Rightarrow> kernel_env \<Rightarrow> addr \<Rightarrow> addr \<Rightarrow> addr \<Rightarrow> 's kernel_scheme \<Rightarrow> ('s, u32) tres option" where
  "sys_execve dev env name argv envp s =
     (let task = task_current s; loc = exec_locals env s
      in bindO (exec_name task name s) (\<lambda>_ s.
         let old_page_dir = tss_cr3 (t_tss (tasks s task))
         in bindO (Some (memory_create_uvm s)) (\<lambda>new_page_dir s.
            if new_page_dir = 0 then Some (execve_failed task old_page_dir new_page_dir s)
            else bindO (load_elf_file dev loc task name new_page_dir s) (\<lambda>ent s.
              if ent = 0 then Some (execve_failed task old_page_dir new_page_dir s)
              else let stack_top = MEM_TASK_STACK_TOP - MEM_TASK_ARG_SIZE
                in bindO (Some (memory_alloc_for_page_dir new_page_dir (MEM_TASK_STACK_TOP - MEM_TASK_STACK_SIZE)
                       MEM_TASK_STACK_SIZE (PTE_P OR PTE_U OR PTE_W) s)) (\<lambda>err s.
                   if sint err < 0 then Some (execve_failed task old_page_dir new_page_dir s)
                   else bindO (exec_argc argv s) (\<lambda>argc s.
                     bindO (copy_args loc stack_top new_page_dir argc argv s) (\<lambda>err s.
                     if sint err < 0 then Some (execve_failed task old_page_dir new_page_dir s)
                     else
                       let fr = tss_esp0 (t_tss (tasks s task)) - frame_size;
                           s = s\<lparr>mem := exec_frame fr ent (stack_top - 4 * ucast SYSCALL_PARAM_COUNT) (mem s)\<rparr>;
                           s = upd_task task (t_tss_update (tss_cr3_update (\<lambda>_. new_page_dir))) s;
                           s = mmu_set_page_dir new_page_dir s
                       in bindO (Some (memory_destroy_uvm old_page_dir s)) (\<lambda>_ s. Some (Inr (0, s))))))))))"

definition kernel_ready :: "'s kmem_scheme \<Rightarrow> bool" where
  "kernel_ready s \<longleftrightarrow> gdt_ready s \<and> alloc_wf (paddr_alloc s) \<and> dir_wf (mem s) (kernel_page_dir s) (paddr_alloc s)"

lemma memory_alloc_page_some:
  assumes "alloc_wf (paddr_alloc s)" "avail (paddr_alloc s) \<noteq> {}"
  obtains p al where "memory_alloc_page s = Inr (p, s\<lparr>paddr_alloc := al\<rparr>)" "alloc_wf al"
    "frames al = frames (paddr_alloc s)" "avail al = avail (paddr_alloc s) - {p}"
    "p \<noteq> 0" "p \<in> avail (paddr_alloc s)"
proof -
  obtain p s1 where a: "addr_alloc_page 1 s = Inr (p, s1)" "alloc_wf (paddr_alloc s1)"
    "frames (paddr_alloc s1) = frames (paddr_alloc s)" "alloc_rest s1 = alloc_rest s"
    "p = 0 \<longleftrightarrow> avail (paddr_alloc s) = {}" "p \<noteq> 0 \<Longrightarrow> p \<in> avail (paddr_alloc s)"
    "avail (paddr_alloc s1) = avail (paddr_alloc s) - {p}"
    using pool.alloc_total [OF assms(1)] by metis
  have "memory_alloc_page s = Inr (p, s\<lparr>paddr_alloc := paddr_alloc s1\<rparr>)"
    using a(1) alloc_rest_eq [OF a(4)] by (simp add: memory_alloc_page_def)
  then show thesis using that a assms(2) by blast
qed

lemma memory_alloc_page_none:
  assumes "alloc_wf (paddr_alloc s)" "avail (paddr_alloc s) = {}"
  obtains al where "memory_alloc_page s = Inr (0, s\<lparr>paddr_alloc := al\<rparr>)" "alloc_wf al"
    "frames al = frames (paddr_alloc s)" "avail al = {}"
proof -
  obtain p s1 where a: "addr_alloc_page 1 s = Inr (p, s1)" "alloc_wf (paddr_alloc s1)"
    "frames (paddr_alloc s1) = frames (paddr_alloc s)" "alloc_rest s1 = alloc_rest s"
    "p = 0 \<longleftrightarrow> avail (paddr_alloc s) = {}"
    "avail (paddr_alloc s1) = avail (paddr_alloc s) - {p}"
    using pool.alloc_total [OF assms(1)] by metis
  have "memory_alloc_page s = Inr (p, s\<lparr>paddr_alloc := paddr_alloc s1\<rparr>)"
    using a(1) alloc_rest_eq [OF a(4)] by (simp add: memory_alloc_page_def)
  then show thesis using that a assms(2) by simp
qed

lemma memory_create_uvm_some:
  assumes "alloc_wf (paddr_alloc s)" "dir_wf (mem s) (kernel_page_dir s) (paddr_alloc s)" "avail (paddr_alloc s) \<noteq> {}"
  obtains dir m al where "memory_create_uvm s = Inr (dir, s\<lparr>mem := m, paddr_alloc := al\<rparr>)" "alloc_wf al" "dir \<noteq> 0"
    "avail al = avail (paddr_alloc s) - {dir}" "dir \<in> avail (paddr_alloc s)" "dir_wf m dir al"
    "\<And>n. entry m dir n = (if n < 2 ^ 19 then entry (mem s) (kernel_page_dir s) n else None)"
    "\<And>x. page_no x \<noteq> page_no dir \<Longrightarrow> m x = mem s x" "\<And>j. has_pt m dir j \<Longrightarrow> j < 512"
    "dir_pages m dir \<subseteq> insert (page_no dir) (dir_pages (mem s) (kernel_page_dir s))"
proof -
  obtain dir s' where e: "memory_create_uvm s = Inr (dir, s')" "alloc_wf (paddr_alloc s')"
    "dir = 0 \<longleftrightarrow> avail (paddr_alloc s) = {}"
    "avail (paddr_alloc s') = avail (paddr_alloc s) - {dir}" "s' = s\<lparr>mem := mem s', paddr_alloc := paddr_alloc s'\<rparr>"
    "dir \<noteq> 0 \<longrightarrow> dir \<in> avail (paddr_alloc s) \<and> dir_wf (mem s') dir (paddr_alloc s')
        \<and> (\<forall>n. entry (mem s') dir n = (if n < 2 ^ 19 then entry (mem s) (kernel_page_dir s) n else None))
        \<and> (\<forall>x. page_no x \<noteq> page_no dir \<longrightarrow> mem s' x = mem s x)
        \<and> (\<forall>j. has_pt (mem s') dir j \<longrightarrow> j < 512)
        \<and> dir_pages (mem s') dir \<subseteq> insert (page_no dir) (dir_pages (mem s) (kernel_page_dir s))"
    using memory_create_uvm_effect [OF assms(1,2)] by blast
  have "memory_create_uvm s = Inr (dir, s\<lparr>mem := mem s', paddr_alloc := paddr_alloc s'\<rparr>)" using e(1,5) by metis
  then show thesis using that [of dir "paddr_alloc s'" "mem s'"] e assms(3) by blast
qed

lemma memory_create_uvm_eqs:
  assumes "paddr_alloc s = al1" "mem s = m1" "kernel_page_dir s = k" "alloc_wf al1" "dir_wf m1 k al1" "avail al1 \<noteq> {}"
  shows "\<exists>dir m al. memory_create_uvm s = Inr (dir, s\<lparr>mem := m, paddr_alloc := al\<rparr>) \<and> alloc_wf al \<and> dir \<noteq> 0
    \<and> avail al = avail al1 - {dir} \<and> dir \<in> avail al1 \<and> dir_wf m dir al
    \<and> (\<forall>n. entry m dir n = (if n < 2 ^ 19 then entry m1 k n else None))
    \<and> (\<forall>x. page_no x \<noteq> page_no dir \<longrightarrow> m x = m1 x) \<and> (\<forall>j. has_pt m dir j \<longrightarrow> j < 512)
    \<and> dir_pages m dir \<subseteq> insert (page_no dir) (dir_pages m1 k)"
proof -
  have w: "alloc_wf (paddr_alloc s)" "dir_wf (mem s) (kernel_page_dir s) (paddr_alloc s)" "avail (paddr_alloc s) \<noteq> {}"
    using assms by simp_all
  show ?thesis
    by (rule memory_create_uvm_some [OF w], unfold assms(1-3)) blast
qed


text \<open>The task state segment of a new task.\<close>

definition new_tss :: "u32 \<Rightarrow> u32 \<Rightarrow> addr \<Rightarrow> u32 \<Rightarrow> u32 \<Rightarrow> addr \<Rightarrow> tss_t" where
  "new_tss ent esp ks code_sel data_sel dir = tss_zero\<lparr>tss_eip := ent, tss_esp := esp, tss_esp0 := ks + MEM_PAGE_SIZE,
     tss_ss := data_sel, tss_ss0 := KERNEL_SELECTOR_DS, tss_es := data_sel, tss_ds := data_sel, tss_fs := data_sel,
     tss_gs := data_sel, tss_cs := code_sel, tss_eflags := EFLAGS_IF OR EFLAGS_DEFAULT, tss_cr3 := dir\<rparr>"

definition code_selector :: "u32 \<Rightarrow> 's sched_scheme \<Rightarrow> u32" where
  "code_selector flg s = (if flg AND TASK_FLAGS_SYSTEM \<noteq> 0 then KERNEL_SELECTOR_CS else app_code_sel s OR SEG_RPL3)"

definition data_selector :: "u32 \<Rightarrow> 's sched_scheme \<Rightarrow> u32" where
  "data_selector flg s = (if flg AND TASK_FLAGS_SYSTEM \<noteq> 0 then KERNEL_SELECTOR_DS else app_data_sel s OR SEG_RPL3)"

lemma selector_of_index:
  assumes "i < GDT_TABLE_SIZE"
  shows "unat (of_nat i * 8 :: u32) = 8 * i" and "0 \<le> sint (of_nat i * 8 :: u32)"
proof -
  show u: "unat (of_nat i * 8 :: u32) = 8 * i"
    using assms by (simp add: GDT_TABLE_SIZE_def unat_word_ariths unat_of_nat)
  have "(of_nat i * 8 :: u32) = of_nat (8 * i)" by (simp add: mult.commute)
  moreover have "sint (of_nat (8 * i) :: u32) = int (8 * i)"
    using assms by (intro sint_of_nat_u32) (simp add: GDT_TABLE_SIZE_def)
  ultimately show "0 \<le> sint (of_nat i * 8 :: u32)" by (simp add: mult.commute)
qed

lemma tss_init_full:
  assumes "kernel_ready s" "gdt_find_free 1 (gdt_table s) = Some i"
    "{p, q} \<subseteq> avail (paddr_alloc s)" "p \<noteq> q"
  obtains ks dir m al mx where
    "tss_init task flg ent esp s = Inr (0, s\<lparr>gdt_mutex := mx, gdt_table := (gdt_table s)[i := make_segment_desc (task + 80) 104 0x89],
       mem := m, paddr_alloc := al, tasks := (tasks s)(task := (tasks s task)\<lparr>t_tss := new_tss ent esp ks (code_selector flg s) (data_selector flg s) dir,
         t_tss_sel := of_nat i * 8\<rparr>)\<rparr>)"
    "mutex_free mx" "alloc_wf al" "ks \<in> avail (paddr_alloc s)" "dir \<in> avail (paddr_alloc s)" "ks \<noteq> dir" "ks \<noteq> 0" "dir \<noteq> 0"
    "avail al = avail (paddr_alloc s) - {ks, dir}" "dir_wf m dir al"
    "\<And>n. entry m dir n = (if n < 2 ^ 19 then entry (mem s) (kernel_page_dir s) n else None)"
    "\<And>x. page_no x \<noteq> page_no dir \<Longrightarrow> m x = mem s x" "\<And>j. has_pt m dir j \<Longrightarrow> j < 512"
    "dir_pages m dir \<subseteq> insert (page_no dir) (dir_pages (mem s) (kernel_page_dir s))" "frames al = frames (paddr_alloc s)"
proof -
  have rdy: "gdt_ready s" "alloc_wf (paddr_alloc s)" "dir_wf (mem s) (kernel_page_dir s) (paddr_alloc s)"
    using assms(1) by (auto simp: kernel_ready_def)
  obtain mx where g: "mutex_free mx" "gdt_alloc_desc s = Inr (of_nat i * 8, s\<lparr>gdt_mutex := mx\<rparr>)"
    using gdt_alloc_desc_eq [OF rdy(1)] assms(2) by auto
  have i: "i < GDT_TABLE_SIZE" using gdt_find_free_Some [OF assms(2)] by simp
  note sel = selector_of_index [OF i]
  let ?t = "(gdt_table s)[i := make_segment_desc (task + 80) 104 0x89]"
  have attr: "SEG_P_PRESENT OR SEG_DPL0 OR SEG_TYPE_TSS = 0x89" by (simp add: seg_flags)
  have d: "segment_desc_set (of_nat i * 8) (task + 80) 104 0x89 (s\<lparr>gdt_mutex := mx\<rparr>) =
      Inr ((), s\<lparr>gdt_mutex := mx, gdt_table := ?t\<rparr>)"
    using segment_desc_set_eq [of "s\<lparr>gdt_mutex := mx\<rparr>" "of_nat i * 8"] rdy(1) i by (simp add: gdt_ready_def sel)
  let ?s = "upd_task task (t_tss_update (\<lambda>_. tss_zero)) (s\<lparr>gdt_mutex := mx, gdt_table := ?t\<rparr>)"
  have s: "paddr_alloc ?s = paddr_alloc s" "mem ?s = mem s" "kernel_page_dir ?s = kernel_page_dir s"
    by (simp_all add: upd_task_def)
  have a0: "alloc_wf (paddr_alloc ?s)" "avail (paddr_alloc ?s) \<noteq> {}" using rdy(2) assms(3) unfolding s by auto
  obtain ks al1 where a: "memory_alloc_page ?s = Inr (ks, ?s\<lparr>paddr_alloc := al1\<rparr>)" "alloc_wf al1"
    "frames al1 = frames (paddr_alloc s)" "avail al1 = avail (paddr_alloc s) - {ks}" "ks \<noteq> 0"
    "ks \<in> avail (paddr_alloc s)"
    by (rule memory_alloc_page_some [OF a0, unfolded s])
  let ?f = "\<lambda>t. t\<lparr>tss_eip := ent, tss_esp := esp, tss_esp0 := ks + MEM_PAGE_SIZE, tss_ss := data_selector flg s,
      tss_ss0 := KERNEL_SELECTOR_DS, tss_es := data_selector flg s, tss_ds := data_selector flg s,
      tss_fs := data_selector flg s, tss_gs := data_selector flg s, tss_cs := code_selector flg s,
      tss_eflags := EFLAGS_IF OR EFLAGS_DEFAULT\<rparr>"
  let ?s2 = "upd_task task (t_tss_update ?f) (?s\<lparr>paddr_alloc := al1\<rparr>)"
  have s2: "paddr_alloc ?s2 = al1" "mem ?s2 = mem s" "kernel_page_dir ?s2 = kernel_page_dir s"
    by (simp_all add: upd_task_def)
  have w: "dir_wf (mem s) (kernel_page_dir s) al1" using rdy(3) a(4) by (auto simp: dir_wf_def)
  have ne: "avail al1 \<noteq> {}" using a(4) assms(3,4) by auto
  from memory_create_uvm_eqs [OF s2 a(2) w ne]
  obtain dir m al where c0: "memory_create_uvm ?s2 = Inr (dir, ?s2\<lparr>mem := m, paddr_alloc := al\<rparr>) \<and> alloc_wf al \<and> dir \<noteq> 0
    \<and> avail al = avail al1 - {dir} \<and> dir \<in> avail al1 \<and> dir_wf m dir al
    \<and> (\<forall>n. entry m dir n = (if n < 2 ^ 19 then entry (mem s) (kernel_page_dir s) n else None))
    \<and> (\<forall>x. page_no x \<noteq> page_no dir \<longrightarrow> m x = mem s x) \<and> (\<forall>j. has_pt m dir j \<longrightarrow> j < 512)
    \<and> dir_pages m dir \<subseteq> insert (page_no dir) (dir_pages (mem s) (kernel_page_dir s))"
    by (elim exE)
  note c = conjunct1 [OF c0] and cc = conjunct2 [OF c0]
  have dir: "dir \<noteq> 0" using cc by simp
  have fa: "frames al = frames (paddr_alloc s)" using memory_create_uvm_frames [OF c] a(2,3) by (simp add: s2)
  have cs: "(if flg AND TASK_FLAGS_SYSTEM \<noteq> 0 then KERNEL_SELECTOR_CS else app_code_sel (?s\<lparr>paddr_alloc := al1\<rparr>) OR SEG_RPL3)
      = code_selector flg s"
    by (simp add: code_selector_def upd_task_def)
  have ds: "(if flg AND TASK_FLAGS_SYSTEM \<noteq> 0 then KERNEL_SELECTOR_DS else app_data_sel (?s\<lparr>paddr_alloc := al1\<rparr>) OR SEG_RPL3)
      = data_selector flg s"
    by (simp add: data_selector_def upd_task_def)
  have n: "(sint (of_nat i * 8 :: u32) < 0) = False" using sel(2) by simp
  have r: "tss_init task flg ent esp s = Inr (0, upd_task task (\<lambda>t. t\<lparr>t_tss := (t_tss t)\<lparr>tss_cr3 := dir\<rparr>, t_tss_sel := of_nat i * 8\<rparr>)
      (?s2\<lparr>mem := m, paddr_alloc := al\<rparr>))"
    by (simp only: tss_init_def attr g(2) bindR_Inr n if_False Let_def d a(1,5) cs ds c dir)
  have "upd_task task (\<lambda>t. t\<lparr>t_tss := (t_tss t)\<lparr>tss_cr3 := dir\<rparr>, t_tss_sel := of_nat i * 8\<rparr>)
      (?s2\<lparr>mem := m, paddr_alloc := al\<rparr>) = s\<lparr>gdt_mutex := mx, gdt_table := ?t,
       mem := m, paddr_alloc := al, tasks := (tasks s)(task := (tasks s task)\<lparr>t_tss := new_tss ent esp ks (code_selector flg s) (data_selector flg s) dir,
         t_tss_sel := of_nat i * 8\<rparr>)\<rparr>"
    by (simp add: upd_task_def new_tss_def)
  then show thesis
    using that [of ks dir al m mx] r g(1) cc a(4-6) fa by auto
qed

lemma memory_create_uvm_none:
  assumes "alloc_wf (paddr_alloc s)" "avail (paddr_alloc s) = {}"
  obtains al where "memory_create_uvm s = Inr (0, s\<lparr>paddr_alloc := al\<rparr>)" "alloc_wf al"
    "frames al = frames (paddr_alloc s)" "avail al = {}"
proof -
  obtain p s1 where a: "addr_alloc_page 1 s = Inr (p, s1)" "alloc_wf (paddr_alloc s1)"
    "frames (paddr_alloc s1) = frames (paddr_alloc s)" "alloc_rest s1 = alloc_rest s"
    "p = 0 \<longleftrightarrow> avail (paddr_alloc s) = {}"
    "avail (paddr_alloc s1) = avail (paddr_alloc s) - {p}"
    using pool.alloc_total [OF assms(1)] by metis
  have "memory_create_uvm s = Inr (0, s\<lparr>paddr_alloc := paddr_alloc s1\<rparr>)"
    using a(1,5) assms(2) alloc_rest_eq [OF a(4)] by (simp add: memory_create_uvm_def)
  then show thesis using that a assms(2) by simp
qed

lemma memory_free_frame:
  assumes "alloc_wf (paddr_alloc s)" "p \<in> frames (paddr_alloc s)"
  obtains al where "memory_free_page p s = Inr ((), s\<lparr>paddr_alloc := al\<rparr>)" "alloc_wf al"
    "frames al = frames (paddr_alloc s)" "avail al = insert p (avail (paddr_alloc s))"
proof -
  have v: "p < MEMORY_TASK_BASE" using frames_valid [OF assms] by auto
  obtain s1 where a: "addr_free_page p 1 s = Inr ((), s1)" "alloc_wf (paddr_alloc s1)"
    "frames (paddr_alloc s1) = frames (paddr_alloc s)" "alloc_rest s1 = alloc_rest s"
    "avail (paddr_alloc s1) = insert p (avail (paddr_alloc s))"
    using pool.release_own [OF assms] by metis
  have "memory_free_page p s = Inr ((), s\<lparr>paddr_alloc := paddr_alloc s1\<rparr>)"
    using a(1) v alloc_rest_eq [OF a(4)] by (simp add: memory_free_page_def)
  then show thesis using that a by blast
qed

text \<open>Freeing an entry that was free before it was set.\<close>

lemma gdt_free_entry:
  assumes "gdt_table x = gt[i := d]" "mutex_free (gdt_mutex x)" "length gt = GDT_TABLE_SIZE" "i < GDT_TABLE_SIZE"
    and "sd_attr (gt ! i) = 0"
  shows "\<exists>y. gdt_free_sel (of_nat i * 8) x = Inr ((), y) \<and> paddr_alloc y = paddr_alloc x \<and> mem y = mem x \<and> gdt_ready y
    \<and> (\<forall>k. sd_attr (gdt_table y ! k) = sd_attr (gt ! k)) \<and> tasks y = tasks x \<and> nodes y = nodes x
    \<and> task_list y = task_list x"
proof -
  have r: "gdt_ready x" using assms by (simp add: gdt_ready_def)
  have u: "unat (of_nat i * 8 :: u32) = 8 * i" by (rule selector_of_index(1) [OF assms(4)])
  obtain mx where e: "mutex_free mx" "gdt_free_sel (of_nat i * 8) x = Inr ((), x\<lparr>gdt_mutex := mx,
      gdt_table := (gdt_table x)[i := (gdt_table x ! i)\<lparr>sd_attr := 0\<rparr>]\<rparr>)"
    using gdt_free_sel_eq [OF r, of "of_nat i * 8"] assms(4) unfolding u by auto
  have "sd_attr ((gdt_table x)[i := (gdt_table x ! i)\<lparr>sd_attr := 0\<rparr>] ! k) = sd_attr (gt ! k)" for k
    using assms by (cases "k = i") auto
  with e r show ?thesis by (auto simp: gdt_ready_def)
qed

text \<open>A failed initialisation gives back what it took.\<close>

lemma tss_init_fails:
  assumes "kernel_ready s" "gdt_find_free 1 (gdt_table s) = None \<or> \<not> (\<exists>p q. p \<noteq> q \<and> {p, q} \<subseteq> avail (paddr_alloc s))"
  obtains s' where "tss_init task flg ent esp s = Inr (-1, s')" "alloc_wf (paddr_alloc s')"
    "avail (paddr_alloc s') = avail (paddr_alloc s)" "mem s' = mem s" "gdt_ready s'"
    "\<And>k. sd_attr (gdt_table s' ! k) = sd_attr (gdt_table s ! k)"
    "nodes s' = nodes s" "task_list s' = task_list s"
    "gdt_find_free 1 (gdt_table s) \<noteq> None \<Longrightarrow> tss_cr3 (t_tss (tasks s' task)) = 0"
proof -
  have rdy: "gdt_ready s" "alloc_wf (paddr_alloc s)" "dir_wf (mem s) (kernel_page_dir s) (paddr_alloc s)"
    using assms(1) by (auto simp: kernel_ready_def)
  have attr: "SEG_P_PRESENT OR SEG_DPL0 OR SEG_TYPE_TSS = 0x89" by (simp add: seg_flags)
  show thesis
  proof (cases "gdt_find_free 1 (gdt_table s)")
    case None
    obtain mx where g: "mutex_free mx" "gdt_alloc_desc s = Inr (-1, s\<lparr>gdt_mutex := mx\<rparr>)"
      using gdt_alloc_desc_eq [OF rdy(1)] None by auto
    show thesis
      by (rule that [of "s\<lparr>gdt_mutex := mx\<rparr>"]) (use g rdy None in \<open>auto simp: tss_init_def gdt_ready_def\<close>)
  next
    case (Some i)
    obtain mx where g: "mutex_free mx" "gdt_alloc_desc s = Inr (of_nat i * 8, s\<lparr>gdt_mutex := mx\<rparr>)"
      using gdt_alloc_desc_eq [OF rdy(1)] Some by auto
    have i: "i < GDT_TABLE_SIZE" "sd_attr (gdt_table s ! i) = 0" using gdt_find_free_Some [OF Some] by auto
    note sel = selector_of_index [OF i(1)]
    have n: "(sint (of_nat i * 8 :: u32) < 0) = False" using sel(2) by simp
    let ?t = "(gdt_table s)[i := make_segment_desc (task + 80) 104 0x89]"
    have d: "segment_desc_set (of_nat i * 8) (task + 80) 104 0x89 (s\<lparr>gdt_mutex := mx\<rparr>) =
        Inr ((), s\<lparr>gdt_mutex := mx, gdt_table := ?t\<rparr>)"
      using segment_desc_set_eq [of "s\<lparr>gdt_mutex := mx\<rparr>" "of_nat i * 8"] rdy(1) i by (simp add: gdt_ready_def sel)
    define s0 where "s0 = upd_task task (t_tss_update (\<lambda>_. tss_zero)) (s\<lparr>gdt_mutex := mx, gdt_table := ?t\<rparr>)"
    have s0: "paddr_alloc s0 = paddr_alloc s" "mem s0 = mem s" "gdt_table s0 = ?t" "gdt_mutex s0 = mx"
      "nodes s0 = nodes s" "task_list s0 = task_list s" "t_tss (tasks s0 task) = tss_zero"
      by (simp_all add: s0_def upd_task_def)
    have free: "\<exists>y. gdt_free_sel (of_nat i * 8) x = Inr ((), y) \<and> paddr_alloc y = paddr_alloc x \<and> mem y = mem x \<and> gdt_ready y
        \<and> (\<forall>k. sd_attr (gdt_table y ! k) = sd_attr (gdt_table s ! k)) \<and> tasks y = tasks x \<and> nodes y = nodes x
        \<and> task_list y = task_list x"
      if "gdt_table x = ?t" "gdt_mutex x = mx" for x :: "'s kernel_scheme"
      using that g(1) rdy(1) i by (intro gdt_free_entry) (auto simp: gdt_ready_def)
    show thesis
    proof (cases "avail (paddr_alloc s) = {}")
      case True
      have w: "alloc_wf (paddr_alloc s0)" "avail (paddr_alloc s0) = {}" using rdy(2) True s0 by simp_all
      obtain al where a: "memory_alloc_page s0 = Inr (0, s0\<lparr>paddr_alloc := al\<rparr>)" "alloc_wf al" "avail al = {}"
        by (rule memory_alloc_page_none [OF w])
      obtain y where y: "gdt_free_sel (of_nat i * 8) (s0\<lparr>paddr_alloc := al\<rparr>) = Inr ((), y)" "paddr_alloc y = al"
        "mem y = mem s" "gdt_ready y" "\<And>k. sd_attr (gdt_table y ! k) = sd_attr (gdt_table s ! k)"
        "nodes y = nodes s" "task_list y = task_list s" "tss_cr3 (t_tss (tasks y task)) = 0"
        using free [of "s0\<lparr>paddr_alloc := al\<rparr>"] s0 by (auto simp: tss_zero_def)
      have "tss_init task flg ent esp s = Inr (-1, y)"
        by (simp only: tss_init_def attr g(2) bindR_Inr n if_False if_True Let_def d s0_def [symmetric] a(1) y(1) refl)
      then show thesis using that [of y] y a True by simp
    next
      case False
      then obtain p where p: "avail (paddr_alloc s) = {p}" using assms(2) Some by (auto; metis)
      have w: "alloc_wf (paddr_alloc s0)" "avail (paddr_alloc s0) \<noteq> {}" using rdy(2) p s0 by simp_all
      obtain ks al where a: "memory_alloc_page s0 = Inr (ks, s0\<lparr>paddr_alloc := al\<rparr>)" "alloc_wf al"
        "frames al = frames (paddr_alloc s0)" "avail al = avail (paddr_alloc s0) - {ks}" "ks \<noteq> 0" "ks \<in> avail (paddr_alloc s0)"
        by (rule memory_alloc_page_some [OF w])
      have k: "ks = p" "avail al = {}" using a(4,6) p s0 by auto
      define s2 where "s2 = (\<lambda>cs ds. upd_task task (t_tss_update (\<lambda>t. t\<lparr>tss_eip := ent, tss_esp := esp,
                 tss_esp0 := ks + MEM_PAGE_SIZE, tss_ss := ds, tss_ss0 := KERNEL_SELECTOR_DS,
                 tss_es := ds, tss_ds := ds, tss_fs := ds, tss_gs := ds,
                 tss_cs := cs, tss_eflags := EFLAGS_IF OR EFLAGS_DEFAULT\<rparr>)) (s0\<lparr>paddr_alloc := al\<rparr>))"
      define s3 where "s3 = s2 (if flg AND TASK_FLAGS_SYSTEM \<noteq> 0 then KERNEL_SELECTOR_CS else app_code_sel (s0\<lparr>paddr_alloc := al\<rparr>) OR SEG_RPL3)
         (if flg AND TASK_FLAGS_SYSTEM \<noteq> 0 then KERNEL_SELECTOR_DS else app_data_sel (s0\<lparr>paddr_alloc := al\<rparr>) OR SEG_RPL3)"
      have s3: "paddr_alloc s3 = al" "mem s3 = mem s" "gdt_table s3 = ?t" "gdt_mutex s3 = mx"
        "nodes s3 = nodes s" "task_list s3 = task_list s" "tss_cr3 (t_tss (tasks s3 task)) = 0"
        by (simp_all add: s3_def s2_def s0 upd_task_def tss_zero_def)
      have w3: "alloc_wf (paddr_alloc s3)" "avail (paddr_alloc s3) = {}" using a(2) k(2) s3 by simp_all
      obtain al2 where c: "memory_create_uvm s3 = Inr (0, s3\<lparr>paddr_alloc := al2\<rparr>)" "alloc_wf al2"
        "frames al2 = frames (paddr_alloc s3)" "avail al2 = {}"
        by (rule memory_create_uvm_none [OF w3])
      obtain y where y: "gdt_free_sel (of_nat i * 8) (s3\<lparr>paddr_alloc := al2\<rparr>) = Inr ((), y)" "paddr_alloc y = al2"
        "mem y = mem s" "gdt_ready y" "\<And>k. sd_attr (gdt_table y ! k) = sd_attr (gdt_table s ! k)"
        "nodes y = nodes s" "task_list y = task_list s" "tss_cr3 (t_tss (tasks y task)) = 0"
        using free [of "s3\<lparr>paddr_alloc := al2\<rparr>"] s3 by auto
      have "ks \<in> frames (paddr_alloc y)" using p k(1) y(2) c(3) a(3) s0(1) s3(1) avail_frames [of "paddr_alloc s"] by auto
      moreover have "alloc_wf (paddr_alloc y)" using y(2) c(2) by simp
      ultimately obtain al3 where f: "memory_free_page ks y = Inr ((), y\<lparr>paddr_alloc := al3\<rparr>)" "alloc_wf al3" "avail al3 = {ks}"
        by (elim memory_free_frame) (use y(2) c(4) in auto)
      have "tss_init task flg ent esp s = Inr (-1, y\<lparr>paddr_alloc := al3\<rparr>)"
        by (simp only: tss_init_def attr g(2) bindR_Inr n if_False if_True Let_def d s0_def [symmetric] a(1,5)
            s3_def [unfolded s2_def, symmetric] c(1) y(1) f(1) refl)
      then show thesis using that [of "y\<lparr>paddr_alloc := al3\<rparr>"] y f p k(1) by (simp add: gdt_ready_def)
    qed
  qed
qed

text \<open>C23: \<^verbatim>\<open>tss_init\<close> succeeds exactly when the descriptor table has a free entry and two frames are
  free; otherwise it returns -1 and gives back everything it took: the free frames, memory and the
  used entries of the descriptor table are as before.\<close>

theorem tss_init_all_or_nothing:
  assumes "kernel_ready s"
  shows "\<exists>r s'. tss_init task flg ent esp s = Inr (r, s')
    \<and> r = (if gdt_find_free 1 (gdt_table s) \<noteq> None \<and> (\<exists>p q. p \<noteq> q \<and> {p, q} \<subseteq> avail (paddr_alloc s)) then 0 else -1)
    \<and> alloc_wf (paddr_alloc s') \<and> gdt_ready s'
    \<and> (r \<noteq> 0 \<longrightarrow> avail (paddr_alloc s') = avail (paddr_alloc s) \<and> mem s' = mem s
        \<and> (\<forall>k. sd_attr (gdt_table s' ! k) = sd_attr (gdt_table s ! k)))"
proof (cases "gdt_find_free 1 (gdt_table s) \<noteq> None \<and> (\<exists>p q. p \<noteq> q \<and> {p, q} \<subseteq> avail (paddr_alloc s))")
  case True
  then obtain i p q where i: "gdt_find_free 1 (gdt_table s) = Some i" "{p, q} \<subseteq> avail (paddr_alloc s)" "p \<noteq> q" by auto
  have "gdt_ready s" using assms by (simp add: kernel_ready_def)
  note g = this
  show ?thesis
  proof (rule tss_init_full [OF assms i, of task flg ent esp], goal_cases)
    case (1 ks dir al m mx)
    obtain s' where "tss_init task flg ent esp s = Inr (0, s')" "alloc_wf (paddr_alloc s')" "gdt_ready s'"
      by (rule that [OF 1(1)]) (use 1(2,3) g in \<open>simp_all add: gdt_ready_def\<close>)
    with True show ?case by auto
  qed
next
  case False
  then have f: "gdt_find_free 1 (gdt_table s) = None \<or> \<not> (\<exists>p q. p \<noteq> q \<and> {p, q} \<subseteq> avail (paddr_alloc s))" by blast
  show ?thesis
  proof (rule tss_init_fails [OF assms f, of task flg ent esp], goal_cases)
    case (1 s')
    with False show ?case by (intro exI [of _ "-1"] exI [of _ s']) simp
  qed
qed

lemma init_nodes:
  assumes "dlist h l ts" "{a, b, c} \<inter> set ts = {}" "a \<noteq> 0" "Suc (length ts) < 2 ^ 31"
    and "list_insert_back l a (list_node_init c (list_node_init b (list_node_init a h))) = (l', h')"
  shows "dlist h' l' (ts @ [a])" and "\<And>x. x \<notin> {a, b, c} \<union> set ts \<Longrightarrow> h' x = h x"
    and "\<And>x. x \<in> {b, c} - {a} \<Longrightarrow> h' x = \<lparr>n_pre = 0, n_next = 0\<rparr>"
proof -
  let ?h = "list_node_init c (list_node_init b (list_node_init a h))"
  have "dlist ?h l ts = dlist h l ts" using assms(2) by (intro dlist_cong) (auto simp: list_node_init_def)
  with assms(1) have d: "dlist ?h l ts" by simp
  then show "dlist h' l' (ts @ [a])" using assms by (intro list_insert_back_dlist) auto
  show "h' x = h x" if "x \<notin> {a, b, c} \<union> set ts" for x
    using list_insert_back_dlist(2) [OF d _ assms(3,4,5), of x] that assms(2) by (auto simp: list_node_init_def)
  show "h' x = \<lparr>n_pre = 0, n_next = 0\<rparr>" if "x \<in> {b, c} - {a}" for x
    using list_insert_back_dlist(2) [OF d _ assms(3,4,5), of x] that assms(2) by (auto simp: list_node_init_def)
qed

text \<open>The part of \<^verbatim>\<open>task_init\<close> behind \<^verbatim>\<open>tss_init\<close>.\<close>

lemma task_init_rest:
  assumes "task \<noteq> 0" and tss: "tss_init task flg ent esp s = Inr (r, s1)"
    and list: "dlist (nodes s1) (task_list s1) ts" "{all_node task, run_node task, wait_node task} \<inter> set ts = {}"
      "all_node task \<noteq> 0" "Suc (length ts) < 2 ^ 31"
  obtains l h where "task_init task name view flg ent esp s = Inr (0, s1\<lparr>nodes := h, task_list := l,
      tasks := (tasks s1)(task := (set_task_name task name (view s1) (tasks s1 task))\<lparr>t_state := TASK_CREATED, t_sleep_ticks := 0,
        t_time_ticks := TASK_TIME_SLICE_DEFAULT, t_slice_ticks := TASK_TIME_SLICE_DEFAULT, t_parent := 0, t_pid := task\<rparr>)\<rparr>)"
    "dlist h l (ts @ [all_node task])"
    "\<And>x. x \<notin> {all_node task, run_node task, wait_node task} \<union> set ts \<Longrightarrow> h x = nodes s1 x"
    "\<And>x. x \<in> {run_node task, wait_node task} \<Longrightarrow> h x = \<lparr>n_pre = 0, n_next = 0\<rparr>"
proof -
  let ?h = "list_node_init (wait_node task) (list_node_init (run_node task) (list_node_init (all_node task) (nodes s1)))"
  obtain l h where ins: "list_insert_back (task_list s1) (all_node task) ?h = (l, h)" by fastforce
  have r: "task_init task name view flg ent esp s = Inr (0, s1\<lparr>nodes := h, task_list := l,
      tasks := (tasks s1)(task := (set_task_name task name (view s1) (tasks s1 task))\<lparr>t_state := TASK_CREATED, t_sleep_ticks := 0,
        t_time_ticks := TASK_TIME_SLICE_DEFAULT, t_slice_ticks := TASK_TIME_SLICE_DEFAULT, t_parent := 0, t_pid := task\<rparr>)\<rparr>)"
    using assms(1) ins by (simp add: task_init_def tss upd_task_def irq_defs Let_def)
  note n = init_nodes [OF list ins]
  have rw: "h x = \<lparr>n_pre = 0, n_next = 0\<rparr>" if "x \<in> {run_node task, wait_node task}" for x
    by (rule n(3)) (use that in \<open>auto simp: all_node_def run_node_def wait_node_def\<close>)
  show thesis by (rule that [OF r n(1)]; (rule n(2) | rule rw); assumption)
qed

text \<open>
  The name: what is in the array of 32 characters after \<^verbatim>\<open>kstrncpy\<close> of a string, a terminated string below 31
  characters. One of 31 loses its last character, and a longer one fills the array without a terminator.
\<close>

definition name_written :: "u8 list \<Rightarrow> u8 list \<Rightarrow> u8 list" where
  "name_written old str =
     (if length str < 31 then str @ [0] @ drop (Suc (length str)) old
      else if length str = 31 then butlast str @ [0] @ drop 31 old else take 32 str)"

lemma load_store_overlay:
  assumes "length xs \<le> n" "n \<le> 2 ^ 32"
  shows "load_bytes (store_bytes a xs m) a n = xs @ drop (length xs) (load_bytes m a n)"
proof (rule nth_equalityI)
  fix i assume "i < length (load_bytes (store_bytes a xs m) a n)"
  then have i: "i < n" by simp
  show "load_bytes (store_bytes a xs m) a n ! i = (xs @ drop (length xs) (load_bytes m a n)) ! i"
  proof (cases "i < length xs")
    case True
    then show ?thesis using i assms store_bytes_nth [of i xs a m] by (simp add: nth_append)
  next
    case False
    then have "a + of_nat i \<notin> region a (length xs)" using i assms region_offset_iff [of i "length xs" a] by simp
    then show ?thesis using i False by (simp add: nth_append store_bytes_other)
  qed
qed (use assms in simp)

lemma set_task_name_written:
  assumes c: "cstring m name str" and nz: "name \<noteq> 0" "t + 4 \<noteq> 0" and l: "length (t_name tk) = TASK_NAME_SIZE"
    and ap: "region (t + 4) (max 36 (length str)) \<inter> region name (Suc (length str)) = {}"
  shows "t_name (set_task_name t name m tk) = name_written (t_name tk) str"
proof -
  let ?m = "name_over t tk m"
  have l32: "length (t_name tk) = 32" using l by (simp add: TASK_NAME_SIZE_def)
  have sub: "region (t + 4) 32 \<subseteq> region (t + 4) (max 36 (length str))" "region (t + 4) (length str) \<subseteq> region (t + 4) (max 36 (length str))"
    by (rule region_mono, simp)+
  have "region (t + 4 + of_nat 32) 4 \<subseteq> region (t + 4) (max 36 (length str))" by (rule region_sub) simp
  then have sub2: "region (t + 36) 4 \<subseteq> region (t + 4) (max 36 (length str))" by (simp add: add.assoc)
  have "?m x = m x" if "x \<in> region name (Suc (length str))" for x
  proof -
    have "x \<notin> region (t + 4) 32" "x \<notin> region (t + 36) 4" using that ap sub(1) sub2 by blast+
    then show ?thesis by (simp add: name_over_def store_bytes_other store32_other l32)
  qed
  then have c': "cstring ?m name str" by (rule cstring_cong [OF c])
  have dj: "region (t + 4) (length str) \<inter> region name (Suc (length str)) = {}" using ap sub(2) by blast
  have ld: "load_bytes ?m (t + 4) 32 = t_name tk"
    unfolding name_over_def using load_store_bytes [of "t_name tk" "t + 4" "store32 (t + 36) (t_pid tk) m"] l32 by simp
  have k: "kstrncpy (t + 4) name 32 ?m =
    (if length str < 31 then store_bytes (t + 4) (str @ [0]) ?m
     else if length str = 31 then store_bytes (t + 4) (butlast str @ [0]) ?m else store_bytes (t + 4) (take 32 str @ [0]) ?m)"
    using kstrncpy_behaviour [OF c' nz(2,1) _ dj, of 32] by auto
  have long: "load_bytes (store_bytes (t + 4) (take 32 str @ [0]) ?m) (t + 4) 32 = take 32 str" if "32 \<le> length str"
  proof (rule nth_equalityI)
    fix i assume "i < length (load_bytes (store_bytes (t + 4) (take 32 str @ [0]) ?m) (t + 4) 32)"
    then show "load_bytes (store_bytes (t + 4) (take 32 str @ [0]) ?m) (t + 4) 32 ! i = take 32 str ! i"
      using that store_bytes_nth [of i "take 32 str @ [0]" "t + 4" ?m] by (simp add: nth_append)
  qed (use that in simp)
  show ?thesis
    using load_store_overlay [of "str @ [0]" 32 "t + 4" ?m] load_store_overlay [of "butlast str @ [0]" 32 "t + 4" ?m] long
    by (auto simp: set_task_name_def name_written_def k ld Let_def TASK_NAME_SIZE_def)
qed

text \<open>
  The string is at \<open>name\<close>, apart from the array, and stays readable while free frames and the block of the task change.
\<close>

definition name_given :: "('s kernel_scheme \<Rightarrow> bytes) \<Rightarrow> addr \<Rightarrow> u8 list \<Rightarrow> addr \<Rightarrow> 's kernel_scheme \<Rightarrow> bool" where
  "name_given view name str task s \<longleftrightarrow> name \<noteq> 0 \<and> task + 4 \<noteq> 0 \<and> length (t_name (tasks s task)) = TASK_NAME_SIZE
     \<and> region (task + 4) (max 36 (length str)) \<inter> region name (Suc (length str)) = {}
     \<and> (\<forall>t. (\<forall>x. page_no x \<notin> page_no ` avail (paddr_alloc s) \<longrightarrow> mem t x = mem s x)
          \<longrightarrow> (\<forall>u. u \<noteq> task \<longrightarrow> tasks t u = tasks s u) \<longrightarrow> cstring (view t) name str)"

text \<open>C9: With a free descriptor and two free frames \<^verbatim>\<open>task_init\<close> gives the task a kernel stack and a
  page directory of its own, frames that were free and are different. The directory maps what the
  kernel directory maps below \<open>MEMORY_TASK_BASE\<close> and nothing above it; the task state segment starts the
  task at its entry in the segments of its privilege level and is described by the first free
  descriptor. The block of the task is written completely: \<open>TASK_CREATED\<close>, the name as \<^verbatim>\<open>kstrncpy\<close> leaves it, its
  address as its id, no parent, a full time slice and no sleep; its list nodes are cleared, and it is the
  last task of the list of all tasks. Nothing else changes: of memory only the page of the new directory, of the nodes
  only its own and those of that list, no other task and no other variable of the kernel.\<close>

theorem task_init_effect:
  assumes "kernel_ready s" "gdt_find_free 1 (gdt_table s) = Some i"
    and "{p, q} \<subseteq> avail (paddr_alloc s)" "p \<noteq> q" "task \<noteq> 0"
    and "dlist (nodes s) (task_list s) ts" "{all_node task, run_node task, wait_node task} \<inter> set ts = {}"
    and "all_node task \<noteq> 0" "Suc (length ts) < 2 ^ 31"
  shows "\<exists>s' ks dir. task_init task name view flg ent esp s = Inr (0, s')
    \<and> {ks, dir} \<subseteq> avail (paddr_alloc s) \<and> ks \<noteq> dir \<and> avail (paddr_alloc s') = avail (paddr_alloc s) - {ks, dir}
    \<and> alloc_wf (paddr_alloc s') \<and> frames (paddr_alloc s') = frames (paddr_alloc s) \<and> dir_wf (mem s') dir (paddr_alloc s')
    \<and> (\<forall>n. entry (mem s') dir n = (if n < 2 ^ 19 then entry (mem s) (kernel_page_dir s) n else None))
    \<and> (\<forall>x. page_no x \<noteq> page_no dir \<longrightarrow> mem s' x = mem s x)
    \<and> gdt_table s' = (gdt_table s)[i := make_segment_desc (task + 80) 104 (SEG_P_PRESENT OR SEG_DPL0 OR SEG_TYPE_TSS)]
    \<and> mutex_free (gdt_mutex s')
    \<and> tasks s' task = \<lparr>t_state = TASK_CREATED, t_name = t_name (tasks s' task), t_pid = task, t_parent = 0, t_sleep_ticks = 0,
         t_time_ticks = TASK_TIME_SLICE_DEFAULT, t_slice_ticks = TASK_TIME_SLICE_DEFAULT,
         t_tss = new_tss ent esp ks (code_selector flg s) (data_selector flg s) dir, t_tss_sel = of_nat i * 8\<rparr>
    \<and> (\<forall>str. name_given view name str task s \<longrightarrow> t_name (tasks s' task) = name_written (t_name (tasks s task)) str)
    \<and> dlist (nodes s') (task_list s') (ts @ [all_node task])
    \<and> nodes s' (run_node task) = \<lparr>n_pre = 0, n_next = 0\<rparr> \<and> nodes s' (wait_node task) = \<lparr>n_pre = 0, n_next = 0\<rparr>
    \<and> (\<forall>x. x \<notin> {all_node task, run_node task, wait_node task} \<union> set ts \<longrightarrow> nodes s' x = nodes s x)
    \<and> s' = s\<lparr>gdt_mutex := gdt_mutex s', gdt_table := gdt_table s', mem := mem s', paddr_alloc := paddr_alloc s',
         tasks := (tasks s)(task := tasks s' task), nodes := nodes s', task_list := task_list s'\<rparr>"
proof (rule tss_init_full [OF assms(1-4), of task flg ent esp], goal_cases)
  case (1 ks dir m al mx)
  note o = 1
  let ?s1 = "s\<lparr>gdt_mutex := mx, gdt_table := (gdt_table s)[i := make_segment_desc (task + 80) 104 0x89],
       mem := m, paddr_alloc := al, tasks := (tasks s)(task := (tasks s task)\<lparr>
         t_tss := new_tss ent esp ks (code_selector flg s) (data_selector flg s) dir, t_tss_sel := of_nat i * 8\<rparr>)\<rparr>"
  have attr: "SEG_P_PRESENT OR SEG_DPL0 OR SEG_TYPE_TSS = 0x89" by (simp add: seg_flags)
  have d: "dlist (nodes ?s1) (task_list ?s1) ts" using assms(6) by simp
  have nm: "t_name (set_task_name task name (view ?s1) (tasks ?s1 task)) = name_written (t_name (tasks s task)) str"
    if n: "name_given view name str task s" for str
  proof -
    have "mem ?s1 x = mem s x" if "page_no x \<notin> page_no ` avail (paddr_alloc s)" for x
      using o(5,12) that by auto
    then have "cstring (view ?s1) name str" using n unfolding name_given_def by simp
    then show ?thesis using n set_task_name_written [of "view ?s1" name str task "tasks ?s1 task"] by (simp add: name_given_def)
  qed
  show ?case
  proof (rule task_init_rest [OF assms(5) 1(1) d assms(7-9), of name view], goal_cases)
    case (1 l h)
    show ?case
      by (rule exI, rule exI [of _ ks], rule exI [of _ dir], rule conjI, rule 1(1))
        (use 1(2-4) o(2,3,4,5,6,9,10,11,12,15) attr nm in \<open>simp add: set_task_name_def Let_def\<close>)
  qed
qed

text \<open>C39: When memory is exhausted \<^verbatim>\<open>task_init\<close> still returns 0, and the task is linked into the list of all
  tasks, although \<^verbatim>\<open>tss_init\<close> failed: it has no kernel stack and the page directory 0.\<close>

theorem task_init_hides_failure:
  assumes "kernel_ready s" "gdt_find_free 1 (gdt_table s) = Some i" "avail (paddr_alloc s) = {}" "task \<noteq> 0"
    and "dlist (nodes s) (task_list s) ts" "{all_node task, run_node task, wait_node task} \<inter> set ts = {}"
    and "all_node task \<noteq> 0" "Suc (length ts) < 2 ^ 31"
  shows "\<exists>s1 s'. tss_init task flg ent esp s = Inr (-1, s1) \<and> task_init task name view flg ent esp s = Inr (0, s')
    \<and> tss_cr3 (t_tss (tasks s' task)) = 0 \<and> t_state (tasks s' task) = TASK_CREATED
    \<and> dlist (nodes s') (task_list s') (ts @ [all_node task])"
proof (rule tss_init_fails [OF assms(1), of task flg ent esp], use assms(3) in simp, goal_cases)
  case (1 s1)
  then have d: "dlist (nodes s1) (task_list s1) ts" and c: "tss_cr3 (t_tss (tasks s1 task)) = 0"
    using assms(2,5) by simp_all
  note o = 1(1)
  show ?case
  proof (rule task_init_rest [OF assms(4) o d assms(6-8), of name view], goal_cases)
    case (1 l h)
    show ?case
      by (rule exI [of _ s1], rule exI, rule conjI, rule o, rule conjI, rule 1(1))
        (use 1(2) c in \<open>simp add: set_task_name_def Let_def\<close>)
  qed
qed

text \<open>The table of tasks.\<close>

lemma find_unnamed_first:
  assumes "find_unnamed n cur ts = t"
  shows "(\<forall>i < n. t_name (ts (cur + of_nat i * task_t_size)) ! 0 \<noteq> 0) \<and> t = 0
    \<or> (\<exists>i < n. t = cur + of_nat i * task_t_size \<and> t_name (ts t) ! 0 = 0
         \<and> (\<forall>j < i. t_name (ts (cur + of_nat j * task_t_size)) ! 0 \<noteq> 0))"
  using assms
proof (induction n arbitrary: cur)
  case (Suc n)
  show ?case
  proof (cases "t_name (ts cur) ! 0 = 0")
    case True
    with Suc.prems show ?thesis by (intro disjI2 exI [of _ 0]) simp
  next
    case False
    have sh: "cur + task_t_size + of_nat i * task_t_size = cur + of_nat (Suc i) * task_t_size" for i
      by (simp add: algebra_simps)
    have f: "find_unnamed n (cur + task_t_size) ts = t" using Suc.prems False by simp
    from Suc.IH [OF f] show ?thesis unfolding sh
    proof (elim disjE conjE exE, goal_cases)
      case 1
      then show ?case using False less_Suc_eq_0_disj by auto
    next
      case (2 i)
      then show ?case using False
        by (intro disjI2 exI [of _ "Suc i"]) (auto simp: less_Suc_eq_0_disj)
    qed
  qed
qed simp

lemma table_lock_free:
  assumes "mutex_free (task_table_mutex s)"
  obtains mx where "table_lock s = Inr ((), s\<lparr>task_table_mutex := mx\<rparr>)" "mutex_held_by mx (curr_task s)"
  using mtx.acquire_free [OF assms, of s]
  by (cases "mutex_acquire (task_table_mutex s) s") (auto simp: table_lock_def)

lemma table_unlock_held:
  assumes "mutex_held_by (task_table_mutex s) (curr_task s)"
  obtains mx where "table_unlock s = Inr ((), s\<lparr>task_table_mutex := mx\<rparr>)" "mutex_free mx"
  using mtx.release_held [OF assms]
  by (cases "mutex_release (task_table_mutex s) s") (auto simp: table_unlock_def)

lemma alloc_task_eq:
  assumes "mutex_free (task_table_mutex s)"
  obtains mx where "alloc_task env s = Inr (find_unnamed TASK_NR (task_table env) (tasks s), s\<lparr>task_table_mutex := mx\<rparr>)"
    "mutex_free mx"
proof -
  obtain mx where l: "table_lock s = Inr ((), s\<lparr>task_table_mutex := mx\<rparr>)" "mutex_held_by mx (curr_task s)"
    using table_lock_free [OF assms] by blast
  obtain mx2 where "table_unlock (s\<lparr>task_table_mutex := mx\<rparr>) = Inr ((), s\<lparr>task_table_mutex := mx2\<rparr>)" "mutex_free mx2"
    using table_unlock_held [of "s\<lparr>task_table_mutex := mx\<rparr>"] l(2) by auto
  with l show thesis by (intro that [of mx2]) (simp_all add: alloc_task_def)
qed

lemma free_task_eq:
  assumes "mutex_free (task_table_mutex s)"
  obtains mx where "free_task task s = Inr ((), (upd_task task (t_name_update (\<lambda>n. n[0 := 0])) s)\<lparr>task_table_mutex := mx\<rparr>)"
    "mutex_free mx"
proof -
  obtain mx where l: "table_lock s = Inr ((), s\<lparr>task_table_mutex := mx\<rparr>)" "mutex_held_by mx (curr_task s)"
    using table_lock_free [OF assms] by blast
  let ?s = "upd_task task (t_name_update (\<lambda>n. n[0 := 0])) (s\<lparr>task_table_mutex := mx\<rparr>)"
  obtain mx2 where "table_unlock ?s = Inr ((), ?s\<lparr>task_table_mutex := mx2\<rparr>)" "mutex_free mx2"
    using table_unlock_held [of ?s] l(2) by (auto simp: upd_task_def)
  with l show thesis by (intro that [of mx2]) (simp_all add: free_task_def upd_task_def)
qed

text \<open>The block of entry \<open>i\<close> of the table.\<close>

definition slot :: "kernel_env \<Rightarrow> nat \<Rightarrow> addr" where
  "slot env i = task_table env + of_nat i * task_t_size"

text \<open>C38: \<^verbatim>\<open>alloc_task\<close> returns the first block of the table whose name is empty and 0 exactly when
  all 128 have a name. It does not mark the block: until the task gets its name a second call
  returns the same block. \<^verbatim>\<open>free_task\<close> makes a block available again.\<close>

theorem alloc_task_first_unnamed:
  assumes "mutex_free (task_table_mutex s)" "\<forall>i < TASK_NR. slot env i \<noteq> 0"
    and "\<forall>i < TASK_NR. t_name (tasks s (slot env i)) \<noteq> []"
  shows "\<exists>t s1. alloc_task env s = Inr (t, s1) \<and> tasks s1 = tasks s
    \<and> (t = 0 \<longleftrightarrow> (\<forall>i < TASK_NR. t_name (tasks s (slot env i)) ! 0 \<noteq> 0))
    \<and> (t \<noteq> 0 \<longrightarrow> (\<exists>i < TASK_NR. t = slot env i \<and> t_name (tasks s t) ! 0 = 0
          \<and> (\<forall>j < i. t_name (tasks s (slot env j)) ! 0 \<noteq> 0)))
    \<and> (\<exists>s2. alloc_task env s1 = Inr (t, s2))
    \<and> (\<forall>k < TASK_NR. \<exists>s2 u s3. free_task (slot env k) s = Inr ((), s2) \<and> alloc_task env s2 = Inr (u, s3) \<and> u \<noteq> 0)"
proof -
  let ?f = "\<lambda>ts. find_unnamed TASK_NR (task_table env) ts"
  obtain mx where a: "alloc_task env s = Inr (?f (tasks s), s\<lparr>task_table_mutex := mx\<rparr>)" "mutex_free mx"
    by (rule alloc_task_eq [OF assms(1)])
  have f: "(\<forall>i < TASK_NR. t_name (ts (slot env i)) ! 0 \<noteq> 0) \<and> ?f ts = 0
    \<or> (\<exists>i < TASK_NR. ?f ts = slot env i \<and> t_name (ts (?f ts)) ! 0 = 0
         \<and> (\<forall>j < i. t_name (ts (slot env j)) ! 0 \<noteq> 0))" for ts
    unfolding slot_def by (rule find_unnamed_first) simp
  have free: "mutex_free (task_table_mutex (s\<lparr>task_table_mutex := mx\<rparr>))" using a(2) by simp
  obtain m1 where "alloc_task env (s\<lparr>task_table_mutex := mx\<rparr>) =
      Inr (?f (tasks (s\<lparr>task_table_mutex := mx\<rparr>)), s\<lparr>task_table_mutex := mx, task_table_mutex := m1\<rparr>)" "mutex_free m1"
    by (rule alloc_task_eq [OF free])
  then have again: "\<exists>s2. alloc_task env (s\<lparr>task_table_mutex := mx\<rparr>) = Inr (?f (tasks s), s2)" by simp
  have freed: "\<exists>s2 u s3. free_task (slot env k) s = Inr ((), s2) \<and> alloc_task env s2 = Inr (u, s3) \<and> u \<noteq> 0"
    if k: "k < TASK_NR" for k
  proof -
    obtain m where fr: "free_task (slot env k) s =
        Inr ((), (upd_task (slot env k) (t_name_update (\<lambda>n. n[0 := 0])) s)\<lparr>task_table_mutex := m\<rparr>)" "mutex_free m"
      by (rule free_task_eq [OF assms(1)])
    let ?s2 = "(upd_task (slot env k) (t_name_update (\<lambda>n. n[0 := 0])) s)\<lparr>task_table_mutex := m\<rparr>"
    have "t_name (tasks ?s2 (slot env k)) ! 0 = 0" using assms(3) k by (simp add: upd_task_def)
    then have nz: "?f (tasks ?s2) \<noteq> 0" using f [of "tasks ?s2"] assms(2) k by (metis (no_types, lifting))
    have free: "mutex_free (task_table_mutex ?s2)" using fr(2) by simp
    obtain m2 where a2: "alloc_task env ?s2 = Inr (?f (tasks ?s2), ?s2\<lparr>task_table_mutex := m2\<rparr>)" "mutex_free m2"
      by (rule alloc_task_eq [OF free])
    from fr(1) a2(1) nz show ?thesis by blast
  qed
  have z: "?f (tasks s) = 0 \<longleftrightarrow> (\<forall>i < TASK_NR. t_name (tasks s (slot env i)) ! 0 \<noteq> 0)"
    using f [of "tasks s"] assms(2) by metis
  have nz: "\<exists>i < TASK_NR. ?f (tasks s) = slot env i \<and> t_name (tasks s (?f (tasks s))) ! 0 = 0
        \<and> (\<forall>j < i. t_name (tasks s (slot env j)) ! 0 \<noteq> 0)" if "?f (tasks s) \<noteq> 0"
    using f [of "tasks s"] that by blast
  show ?thesis
    by (rule exI, rule exI, rule conjI, rule a(1), intro conjI)
      (simp, rule z, use nz in blast, rule again, use freed in blast)
qed

definition demo_kernel :: kernel where
  "demo_kernel = fs_state.extend (demo_fs\<lparr>mem := \<lambda>_. 0\<rparr>) (kernel.fields mutex_zero)"

lemma demo_kernel_fields [simp]:
  "mem demo_kernel = (\<lambda>_. 0)" "paddr_alloc demo_kernel = demo_alloc" "kernel_page_dir demo_kernel = 0x10000"
  "gdt_table demo_kernel = initial_gdt 0x10000" "gdt_mutex demo_kernel = mutex_zero" "task_list demo_kernel = list_init"
  "task_table_mutex demo_kernel = mutex_zero" "tasks demo_kernel = tasks demo_sched" "curr_task demo_kernel = 0x2000"
proof -
  have t: "task_list demo_sched = list_init" "curr_task demo_sched = 0x2000"
    by (simp_all add: demo_sched_def demo_base_def task_set_sleep_def task_set_ready_def upd_task_def Let_def split: prod.splits)
  then show "mem demo_kernel = (\<lambda>_. 0)" "paddr_alloc demo_kernel = demo_alloc" "kernel_page_dir demo_kernel = 0x10000"
  "gdt_table demo_kernel = initial_gdt 0x10000" "gdt_mutex demo_kernel = mutex_zero" "task_list demo_kernel = list_init"
  "task_table_mutex demo_kernel = mutex_zero" "tasks demo_kernel = tasks demo_sched" "curr_task demo_kernel = 0x2000"
    by (simp_all add: demo_kernel_def demo_fs_def demo_irq_def demo_log_def demo_kmem_def demo_gdt_def gdt_state.defs
        kmem.defs sched.defs log_state.defs irq_state.defs fs_state.defs kernel.defs)
qed

lemma demo_kernel_ready: "kernel_ready demo_kernel"
  using demo_vm_ok by (simp add: kernel_ready_def gdt_ready_def vm_ok_def)

lemma demo_free_desc: "\<exists>i. gdt_find_free 1 (gdt_table demo_kernel) = Some i"
proof -
  have "\<not> (\<forall>k. 1 \<le> k \<and> k < GDT_TABLE_SIZE \<longrightarrow> sd_attr (gdt_table demo_kernel ! k) \<noteq> 0)"
    using initial_gdt_used [of 4] by (auto simp: GDT_TABLE_SIZE_def intro!: exI [of _ 4])
  then show ?thesis using gdt_find_free_None by (cases "gdt_find_free 1 (gdt_table demo_kernel)") auto
qed

lemma demo_two_frames: "{0x100000, 0x101000} \<subseteq> avail (paddr_alloc demo_kernel)"
  by (auto simp: demo_avail demo_frames intro: exI [of _ "0::nat"] exI [of _ "1::nat"])

lemma demo_slots: "t_name (tasks demo_sched t) = replicate TASK_NAME_SIZE 0"
  by (simp add: demo_sched_def demo_base_def task_set_sleep_def task_set_ready_def upd_task_def Let_def task_zero_def split: prod.splits)

definition demo_env :: kernel_env where
  "demo_env = \<lparr>task_table = 0x40000, table_mutex_at = 0x50000, lit = (\<lambda>_. 0x51000), idle_task_entry = 0x12000,
     idle_task_stack = 0x52000, first_task_entry = MEMORY_TASK_BASE, s_first_task = 0x60000, e_first_task = 0x61000,
     temp_at = 0x1a000, elf_hdr_below = 0x200, elf_phdr_below = 0x180, task_args_below = 0x100\<rparr>"

lemma demo_slot_nz: "i < TASK_NR \<Longrightarrow> slot demo_env i \<noteq> 0"
proof -
  assume "i < TASK_NR"
  then have "unat (slot demo_env i) = 0x40000 + 188 * i"
    by (simp add: slot_def demo_env_def TASK_NR_def unat_word_ariths unat_of_nat)
  then show ?thesis by (intro notI) simp
qed

lemma demo_pair: "\<exists>p q. p \<noteq> q \<and> {p, q} \<subseteq> avail (paddr_alloc demo_kernel)"
  using demo_two_frames by (intro exI [of _ "0x100000"] exI [of _ "0x101000"]) simp

theorem tss_init_all_or_nothing_witness:
  "\<exists>s'. tss_init 0x40000 0 0x80000000 0x80001000 demo_kernel = Inr (0, s') \<and> gdt_ready s'"
proof -
  have c: "(gdt_find_free 1 (gdt_table demo_kernel) \<noteq> None \<and> (\<exists>p q. p \<noteq> q \<and> {p, q} \<subseteq> avail (paddr_alloc demo_kernel))) = True"
    using demo_free_desc demo_pair by auto
  show ?thesis
    using tss_init_all_or_nothing [OF demo_kernel_ready, of "0x40000" 0 "0x80000000" "0x80001000"] unfolding c by auto
qed

theorem task_init_effect_witness:
  "\<exists>s'. task_init 0x40000 0x30000 mem 0 0x80000000 0x80001000 demo_kernel = Inr (0, s')
    \<and> t_pid (tasks s' 0x40000) = 0x40000 \<and> t_name (tasks s' 0x40000) = replicate TASK_NAME_SIZE 0
    \<and> dlist (nodes s') (task_list s') [all_node 0x40000]"
proof -
  obtain i where i: "gdt_find_free 1 (gdt_table demo_kernel) = Some i" using demo_free_desc by auto
  have d: "dlist (nodes demo_kernel) (task_list demo_kernel) []" by (simp add: dlist_init)
  have n: "all_node 0x40000 \<noteq> 0" by (simp add: all_node_def)
  have x: "(0x100000 :: addr) \<noteq> 0x101000" "(0x40000 :: addr) \<noteq> 0" "{all_node 0x40000, run_node 0x40000, wait_node 0x40000} \<inter> set [] = {}"
    "Suc (length ([] :: addr list)) < 2 ^ 31" by simp_all
  from task_init_effect [OF demo_kernel_ready i demo_two_frames x(1,2) d x(3) n x(4), of "0x30000" mem 0 "0x80000000" "0x80001000"]
  obtain s' ks dir where r: "task_init 0x40000 0x30000 mem 0 0x80000000 0x80001000 demo_kernel = Inr (0, s')"
    "tasks s' 0x40000 = \<lparr>t_state = TASK_CREATED, t_name = t_name (tasks s' 0x40000), t_pid = 0x40000, t_parent = 0, t_sleep_ticks = 0,
       t_time_ticks = TASK_TIME_SLICE_DEFAULT, t_slice_ticks = TASK_TIME_SLICE_DEFAULT,
       t_tss = new_tss 0x80000000 0x80001000 ks (code_selector 0 demo_kernel) (data_selector 0 demo_kernel) dir, t_tss_sel = of_nat i * 8\<rparr>"
    "\<forall>str. name_given mem 0x30000 str 0x40000 demo_kernel \<longrightarrow> t_name (tasks s' 0x40000) = name_written (t_name (tasks demo_kernel 0x40000)) str"
    "dlist (nodes s') (task_list s') ([] @ [all_node 0x40000])"
    by (elim exE conjE) (rule that; assumption)
  have "page_no 0x30000 \<notin> page_no ` avail (paddr_alloc demo_kernel)"
  proof
    assume "page_no 0x30000 \<in> page_no ` avail (paddr_alloc demo_kernel)"
    then obtain f where f: "f \<in> frames (paddr_alloc demo_kernel)" "page_no 0x30000 = page_no f" using avail_frames by blast
    then show False using demo_frames by (auto simp: page_no_def unat_word_ariths unat_of_nat)
  qed
  moreover have "region 0x40004 36 \<inter> region 0x30000 1 = {}" by (rule region_disjoint) simp_all
  ultimately have "name_given mem 0x30000 [] 0x40000 demo_kernel" by (simp add: name_given_def demo_slots)
  with r(3) have "t_name (tasks s' 0x40000) = name_written (replicate TASK_NAME_SIZE 0) []" by (simp add: demo_slots)
  then have "t_name (tasks s' 0x40000) = replicate TASK_NAME_SIZE 0" by (simp add: name_written_def TASK_NAME_SIZE_def numeral_eq_Suc)
  moreover have "t_pid (tasks s' 0x40000) = 0x40000" by (subst r(2)) simp
  ultimately show ?thesis using r(1,4) by auto
qed

text \<open>A machine without a free frame.\<close>

definition full_alloc :: addr_alloc_t where
  "full_alloc = demo_alloc\<lparr>aa_bitmap := \<lparr>bit_count = 16, bits = [-1, -1]\<rparr>\<rparr>"

lemma full_avail: "avail full_alloc = {}" and full_alloc_wf: "alloc_wf full_alloc"
proof -
  have "bm_bit \<lparr>bit_count = 16, bits = [-1, -1]\<rparr> k" if "k < 16" for k
  proof -
    have "k div 8 = 0 \<or> k div 8 = 1" using that by auto
    then show ?thesis by (auto simp: bm_bit_def)
  qed
  then show "avail full_alloc = {}" by (auto simp: avail_def full_alloc_def)
  show "alloc_wf full_alloc" using demo_alloc_wf by (simp add: full_alloc_def alloc_wf_def bitmap_wf_def)
qed

theorem task_init_hides_failure_witness:
  "\<exists>s'. task_init 0x40000 0x30000 mem 0 0x80000000 0x80001000 (demo_kernel\<lparr>paddr_alloc := full_alloc\<rparr>) = Inr (0, s')
    \<and> tss_cr3 (t_tss (tasks s' 0x40000)) = 0"
proof -
  let ?s = "demo_kernel\<lparr>paddr_alloc := full_alloc\<rparr>"
  obtain i where i: "gdt_find_free 1 (gdt_table ?s) = Some i" using demo_free_desc by auto
  have r: "kernel_ready ?s" using full_alloc_wf full_avail
    by (simp add: kernel_ready_def gdt_ready_def dir_wf_def page_aligned_def)
  have a: "avail (paddr_alloc ?s) = {}" using full_avail by simp
  have d: "dlist (nodes ?s) (task_list ?s) []" by (simp add: dlist_init)
  have n: "all_node 0x40000 \<noteq> 0" by (simp add: all_node_def)
  show ?thesis
    using task_init_hides_failure [OF r i a _ d _ n, of 0 "0x80000000" "0x80001000" "0x30000" mem]
    by (simp del: demo_kernel_fields) blast
qed

theorem alloc_task_first_unnamed_witness: "\<exists>s'. alloc_task demo_env demo_kernel = Inr (0x40000, s')"
proof -
  have m: "mutex_free (task_table_mutex demo_kernel)" by simp
  have z: "t_name (tasks demo_kernel t) ! 0 = 0" "t_name (tasks demo_kernel t) \<noteq> []" for t by (simp_all add: demo_slots TASK_NAME_SIZE_def)
  have "slot demo_env 0 = 0x40000" by (simp add: slot_def demo_env_def)
  moreover have "0 < TASK_NR" by (simp add: TASK_NR_def)
  ultimately show ?thesis
    using alloc_task_first_unnamed [OF m, of demo_env] demo_slot_nz z by (auto; metis not_gr_zero)
qed

end
