(* ===== verification/Copy.thy ===== *)
theory Copy
  imports Uvm
begin

text \<open>
  \<^verbatim>\<open>memory_copy_uvm2\<close> (\<^verbatim>\<open>src/source/kernel/core/memory.c\<close>), the copy of the user half of an address
  space that \<^verbatim>\<open>fork\<close> relies on: what the loops over the page tables do to memory, to the directory
  that is filled and to the frame allocator.

  \<^item> \<open>apart\<close> is the precondition: the two directories and what the source maps do not overlap.
  \<^item> \<open>copied\<close> is the invariant of the loops: the pages below \<open>n\<close> are copied, to the frames \<open>f\<close>.
  \<^item> \<open>copy_round\<close> is one round of the inner loop for a page that is present.
\<close>

lemma page_no_inj: "page_aligned p \<Longrightarrow> page_aligned q \<Longrightarrow> page_no p = page_no q \<Longrightarrow> p = q"
  using page_no_eq by blast

lemma avail_aligned: "alloc_wf al \<Longrightarrow> p \<in> avail al \<Longrightarrow> page_aligned p"
  using frames_valid(1) avail_frames by blast

lemma avail_nonzero: "alloc_wf al \<Longrightarrow> p \<in> avail al \<Longrightarrow> p \<noteq> 0"
  using frames_valid avail_frames by blast

lemma avail_finite [simp]: "finite (avail al)"
  unfolding avail_def by (rule finite_imageI, rule finite_subset [of _ "{..<nat (bit_count (aa_bitmap al))}"]) auto

lemma dir_pages_apart:
  assumes wf: "dir_wf m dir al" and "alloc_wf al" "p \<in> avail al"
  shows "page_no p \<notin> dir_pages m dir"
proof
  note p = avail_aligned [OF assms(2,3)]
  assume "page_no p \<in> dir_pages m dir"
  then consider "page_no p = page_no dir" | i where "has_pt m dir i" "page_no p = page_no (pt_at m dir i)"
    unfolding dir_pages_def by blast
  then show False
  proof cases
    case 1
    then have "p = dir" using wf p by (intro page_no_inj) (simp_all add: dir_wf_def)
    then show False using wf assms(3) by (simp add: dir_wf_def)
  next
    case (2 i)
    then have "p = pt_at m dir i" using p by (intro page_no_inj) simp_all
    then show False using wf assms(3) 2(1) by (auto simp: dir_wf_def)
  qed
qed

text \<open>
  Looking up an entry whose table is missing: no frame is left, or the table is a frame that was
  available, and only the directory and that frame were written.
\<close>

lemma find_pte_new:
  assumes ok: "vm_ok dir s" and new: "\<not> has_pt (mem s) dir (page_no va div 1024)"
    and av: "avail (paddr_alloc s) \<noteq> {}"
  obtains p s' where "find_pte dir va 1 s = Inr (page_word p (page_no va mod 1024), s')"
    "p \<in> avail (paddr_alloc s)" "avail (paddr_alloc s') = avail (paddr_alloc s) - {p}" "vm_ok dir s'"
    "frames (paddr_alloc s') = frames (paddr_alloc s)" "s' = s\<lparr>mem := mem s', paddr_alloc := paddr_alloc s'\<rparr>"
    "\<And>j. has_pt (mem s') dir j \<longleftrightarrow> j = page_no va div 1024 \<or> has_pt (mem s) dir j"
    "pt_at (mem s') dir (page_no va div 1024) = p"
    "\<And>j. has_pt (mem s) dir j \<Longrightarrow> pt_at (mem s') dir j = pt_at (mem s) dir j"
    "\<And>n. entry (mem s') dir n = entry (mem s) dir n"
    "\<And>x. page_no x \<noteq> page_no dir \<Longrightarrow> page_no x \<noteq> page_no p \<Longrightarrow> mem s' x = mem s x"
proof -
  let ?i = "page_no va div 1024"
  have aw: "alloc_wf (paddr_alloc s)" and dw: "dir_wf (mem s) dir (paddr_alloc s)"
    using ok by (auto simp: vm_ok_def)
  obtain p s1 where a: "addr_alloc_page 1 s = Inr (p, s1)" "alloc_wf (paddr_alloc s1)"
    "frames (paddr_alloc s1) = frames (paddr_alloc s)" "alloc_rest s1 = alloc_rest s"
    "p = 0 \<longleftrightarrow> avail (paddr_alloc s) = {}" "p \<noteq> 0 \<Longrightarrow> p \<in> avail (paddr_alloc s)"
    "avail (paddr_alloc s1) = avail (paddr_alloc s) - {p}"
    using pool.alloc_total [OF aw] by metis
  have p: "p \<noteq> 0" "p \<in> avail (paddr_alloc s)" using a(5,6) av by auto
  note s1 = alloc_rest_eq [OF a(4)]
  have m1: "mem s1 = mem s" using arg_cong [OF s1, of mem] by simp
  have np: "\<not> present (load32 (mem s) (page_word dir ?i))"
    using new pde_no_lt [of va] by (simp add: has_pt_def pde_at_def)
  let ?v = "p OR PDE_P OR PTE_W OR PTE_U"
  let ?m = "clear_page p (store32 (page_word dir ?i) ?v (mem s))"
  let ?s = "s1\<lparr>mem := ?m\<rparr>"
  have pv: "page_aligned p" using avail_aligned [OF aw p(2)] .
  have f: "find_pte dir va 1 s = Inr (page_word p (page_no va mod 1024), ?s)"
    using a(1) np p m1
    by (simp add: find_pte_def pde_index_word pte_index_word Let_def store_word_def clear_page_def)
  have v: "present ?v" "pde_paddr ?v = p"
    using paddr_of_or(1) [OF pv, of 7] by (simp_all add: present_def mem_consts bit_or_iff or.assoc)
  note t = add_table [OF dw pde_no_lt [of va] new pv p(1,2) a(7) v]
  have "mem ?s x = mem s x" if "page_no x \<noteq> page_no dir" "page_no x \<noteq> page_no p" for x
    using that dw pde_no_lt [of va] pv p(1) by (simp add: clear_page_eq store_page_word_other dir_wf_def)
  moreover have "?s = s\<lparr>mem := mem ?s, paddr_alloc := paddr_alloc ?s\<rparr>" by (subst s1) simp
  moreover have "vm_ok dir ?s" using a(2) t(1) by (simp add: vm_ok_def)
  ultimately show thesis
    using f p(2) a(3,7) t(2-5) by (intro that [of p ?s]) simp_all
qed

text \<open>Mapping a single page, with what it writes.\<close>

lemma store_pte_one:
  fixes v :: u32
  assumes ok: "vm_ok dir s" and has: "has_pt (mem s) dir (n div 1024)"
  defines "s' \<equiv> store_word (page_word (pt_at (mem s) dir (n div 1024)) (n mod 1024)) (v OR PTE_P) s"
  shows "vm_ok dir s'" "s' = s\<lparr>mem := mem s'\<rparr>" "has_pt (mem s') dir j = has_pt (mem s) dir j"
    and "has_pt (mem s) dir j \<Longrightarrow> pt_at (mem s') dir j = pt_at (mem s) dir j"
    and "entry (mem s') dir = (entry (mem s) dir)(n \<mapsto> (v OR PTE_P))"
    and "page_no x \<noteq> page_no (pt_at (mem s) dir (n div 1024)) \<Longrightarrow> mem s' x = mem s x"
proof -
  have dw: "dir_wf (mem s) dir (paddr_alloc s)" using ok by (simp add: vm_ok_def)
  note t = store_entry [OF dw has, where v = "v OR PTE_P"]
  have m: "mem s' = store32 (page_word (pt_at (mem s) dir (n div 1024)) (n mod 1024)) (v OR PTE_P) (mem s)"
    and al: "paddr_alloc s' = paddr_alloc s"
    by (simp_all add: s'_def store_word_def)
  show "vm_ok dir s'" "s' = s\<lparr>mem := mem s'\<rparr>" "has_pt (mem s') dir j = has_pt (mem s) dir j"
    using ok t(1,2) by (simp_all add: vm_ok_def s'_def store_word_def)
  show "has_pt (mem s) dir j \<Longrightarrow> pt_at (mem s') dir j = pt_at (mem s) dir j" using t(3) by (simp add: m)
  show "entry (mem s') dir = (entry (mem s) dir)(n \<mapsto> (v OR PTE_P))"
    using t(4) present_or by (simp add: m fun_eq_iff)
  show "page_no x \<noteq> page_no (pt_at (mem s) dir (n div 1024)) \<Longrightarrow> mem s' x = mem s x"
    unfolding m by (intro store_page_word_other) simp_all
qed

lemma map_one_page:
  assumes ok: "vm_ok dir s" and none: "entry (mem s) dir (page_no va) = None"
    and room: "has_pt (mem s) dir (page_no va div 1024) \<or> avail (paddr_alloc s) \<noteq> {}"
  obtains s' T where "memory_create_map dir va p 1 perm s = Inr (undef_ret s, s')" "vm_ok dir s'"
    "frames (paddr_alloc s') = frames (paddr_alloc s)" "s' = s\<lparr>mem := mem s', paddr_alloc := paddr_alloc s'\<rparr>"
    "T = (if has_pt (mem s) dir (page_no va div 1024) then {} else {pt_at (mem s') dir (page_no va div 1024)})"
    "T \<subseteq> avail (paddr_alloc s)" "avail (paddr_alloc s') = avail (paddr_alloc s) - T"
    "\<And>j. has_pt (mem s') dir j \<longleftrightarrow> j = page_no va div 1024 \<or> has_pt (mem s) dir j"
    "\<And>j. has_pt (mem s) dir j \<Longrightarrow> pt_at (mem s') dir j = pt_at (mem s) dir j"
    "entry (mem s') dir = (entry (mem s) dir)(page_no va \<mapsto> (p OR perm OR PTE_P))"
    "\<And>x. page_no x \<noteq> page_no dir \<Longrightarrow> page_no x \<noteq> page_no (pt_at (mem s') dir (page_no va div 1024)) \<Longrightarrow> mem s' x = mem s x"
    "\<And>k. create_map_loop (Suc k) dir va p perm s = create_map_loop k dir (va + MEM_PAGE_SIZE) (p + MEM_PAGE_SIZE) perm s'"
proof -
  let ?n = "page_no va"
  let ?i = "?n div 1024"
  have map: "memory_create_map dir va p 1 perm s = Inr (undef_ret s1, store_word pte (p OR perm OR PTE_P) s1)"
    if "find_pte dir va 1 s = Inr (pte, s1)" "pte \<noteq> 0" "\<not> present (load32 (mem s1) pte)" for pte s1
    using that by (simp add: memory_create_map_def store_word_def)
  have next_page: "create_map_loop (Suc k) dir va p perm s = create_map_loop k dir (va + MEM_PAGE_SIZE) (p + MEM_PAGE_SIZE) perm
      (store_word pte (p OR perm OR PTE_P) s1)"
    if "find_pte dir va 1 s = Inr (pte, s1)" "pte \<noteq> 0" "\<not> present (load32 (mem s1) pte)" for pte s1 k
    using that by simp
  show thesis
  proof (cases "has_pt (mem s) dir ?i")
    case True
    let ?pte = "page_word (pt_at (mem s) dir ?i) (?n mod 1024)"
    have nz: "?pte \<noteq> 0" using True ok by (intro page_word_nonzero) (auto simp: vm_ok_def dir_wf_def)
    have np: "\<not> present (load32 (mem s) ?pte)" using none True by (auto simp: entry_def Let_def split: if_splits)
    note m = map [OF find_pte_has [OF True] nz np]
    note t = store_pte_one [OF ok True, where v = "p OR perm", unfolded or.assoc]
    have t5: "pt_at (mem (store_word ?pte (p OR perm OR PTE_P) s)) dir ?i = pt_at (mem s) dir ?i"
      using t(4) True by simp
    show thesis
      by (rule that [OF m t(1), where T = "{}"]) (use t(3-6) True t5 next_page [OF find_pte_has [OF True] nz np] in \<open>auto simp: store_word_def\<close>)
  next
    case False
    with room have av: "avail (paddr_alloc s) \<noteq> {}" by simp
    show thesis
    proof (rule find_pte_new [OF ok False av], goal_cases)
    case (1 t s1)
    note f = 1
    have h: "has_pt (mem s1) dir ?i" using f(7) by simp
    have nz: "page_word t (?n mod 1024) \<noteq> 0"
      using f(2) ok avail_aligned avail_nonzero by (intro page_word_nonzero) (auto simp: vm_ok_def)
    have np: "\<not> present (load32 (mem s1) (page_word t (?n mod 1024)))"
    proof
      assume "present (load32 (mem s1) (page_word t (?n mod 1024)))"
      then have "entry (mem s1) dir ?n \<noteq> None" using h f(8) by (simp add: entry_def Let_def)
      then show False using none f(10) by simp
    qed
    note m = map [OF f(1) nz np]
    note e = store_pte_one [OF f(4) h, where v = "p OR perm", unfolded or.assoc f(8)]
    let ?s = "store_word (page_word t (?n mod 1024)) (p OR perm OR PTE_P) s1"
    have u: "undef_ret s1 = undef_ret s" using arg_cong [OF f(6), of undef_ret] by simp
    have pt: "pt_at (mem ?s) dir ?i = t" using e(4) h f(8) by simp
    have al: "paddr_alloc ?s = paddr_alloc s1" by (simp add: store_word_def)
    show ?case
    proof (rule that [OF m [unfolded u] e(1), where T = "{t}"])
      show "?s = s\<lparr>mem := mem ?s, paddr_alloc := paddr_alloc ?s\<rparr>" by (subst f(6)) (simp add: store_word_def)
      show "has_pt (mem ?s) dir j \<longleftrightarrow> j = ?i \<or> has_pt (mem s) dir j" for j using e(3) f(7) by simp
      show "pt_at (mem ?s) dir j = pt_at (mem s) dir j" if "has_pt (mem s) dir j" for j
        using e(4) f(7,9) that by simp
      show "entry (mem ?s) dir = (entry (mem s) dir)(?n \<mapsto> (p OR perm OR PTE_P))" using e(5) f(10) by (simp add: fun_eq_iff)
      show "mem ?s x = mem s x" if "page_no x \<noteq> page_no dir" "page_no x \<noteq> page_no (pt_at (mem ?s) dir ?i)" for x
        using that e(6) f(11) unfolding pt by simp
      show "create_map_loop (Suc k) dir va p perm s = create_map_loop k dir (va + MEM_PAGE_SIZE) (p + MEM_PAGE_SIZE) perm ?s" for k
        by (rule next_page [OF f(1) nz np])
    qed (use f(2,3,5) False pt al in simp_all)
    qed
  qed
qed

text \<open>
  \<open>apart from to s\<close>: the directory \<open>from\<close> is well-formed, its pages and the frames it maps in the user
  half are in use and different from the directory \<open>to\<close>, which has no user page tables.
\<close>

definition apart :: "addr \<Rightarrow> addr \<Rightarrow> 's kmem_scheme \<Rightarrow> bool" where
  "apart from to s \<longleftrightarrow> vm_ok from s \<and> vm_ok to s \<and> to \<noteq> 0 \<and> page_no to \<notin> dir_pages (mem s) from
     \<and> (\<forall>j. has_pt (mem s) to j \<longrightarrow> j < 512)
     \<and> (\<forall>n pte. 2 ^ 19 \<le> n \<longrightarrow> entry (mem s) from n = Some pte \<longrightarrow>
          pte_paddr pte \<notin> avail (paddr_alloc s) \<and> pte_paddr pte \<noteq> to)"

text \<open>The mapped user pages of a directory below a page number.\<close>

definition user_pages :: "bytes \<Rightarrow> addr \<Rightarrow> nat \<Rightarrow> nat set" where
  "user_pages m dir n = {k. 2 ^ 19 \<le> k \<and> k < n \<and> entry m dir k \<noteq> None}"

lemma user_pages_finite [simp]: "finite (user_pages m dir n)"
  by (rule finite_subset [of _ "{..<n}"]) (auto simp: user_pages_def)

lemma user_pages_Suc:
  "user_pages m dir (Suc n) = (if 2 ^ 19 \<le> n \<and> entry m dir n \<noteq> None then insert n (user_pages m dir n) else user_pages m dir n)"
  by (auto simp: user_pages_def less_Suc_eq)

lemma user_pages_less: "n \<notin> user_pages m dir n"
  by (simp add: user_pages_def)

text \<open>
  \<open>copied from to s s' n f\<close>: the user pages of \<open>from\<close> below page number \<open>n\<close> have been copied to frames
  \<open>f k\<close>, mapped by \<open>to\<close>; only \<open>to\<close> and frames that were available were written.
\<close>

definition copied :: "addr \<Rightarrow> addr \<Rightarrow> 's kmem_scheme \<Rightarrow> 's kmem_scheme \<Rightarrow> nat \<Rightarrow> (nat \<Rightarrow> addr) \<Rightarrow> bool" where
  "copied from to s s' n f \<longleftrightarrow>
     s' = s\<lparr>mem := mem s', paddr_alloc := paddr_alloc s'\<rparr> \<and> vm_ok to s'
   \<and> frames (paddr_alloc s') = frames (paddr_alloc s) \<and> avail (paddr_alloc s') \<subseteq> avail (paddr_alloc s)
   \<and> (\<forall>x. page_no x \<noteq> page_no to \<longrightarrow> page_no x \<notin> page_no ` taken s s' \<longrightarrow> mem s' x = mem s x)
   \<and> (\<forall>j. has_pt (mem s') to j \<longrightarrow> j < 512 \<or> pt_at (mem s') to j \<in> taken s s')
   \<and> (\<forall>k. entry (mem s') to k = (if k < 2 ^ 19 then entry (mem s) to k
        else if k < n then map_option (\<lambda>pte. f k OR get_pte_perm pte OR PTE_P) (entry (mem s) from k) else None))
   \<and> (\<forall>k \<in> user_pages (mem s) from n. f k \<in> taken s s' \<and> (\<forall>j. has_pt (mem s') to j \<longrightarrow> pt_at (mem s') to j \<noteq> f k)
        \<and> (\<forall>i < 4096. mem s' (f k + of_nat i) = mem s (pte_paddr (the (entry (mem s) from k)) + of_nat i)))
   \<and> inj_on f (user_pages (mem s) from n)
   \<and> card (avail (paddr_alloc s)) \<le> card (avail (paddr_alloc s')) + 2 * card (user_pages (mem s) from n)"

text \<open>Reading the source does not depend on what has been written.\<close>

lemma apart_source:
  assumes A: "apart from to s" and "page_no x \<in> dir_pages (mem s) from
    \<or> (\<exists>n pte. 2 ^ 19 \<le> n \<and> entry (mem s) from n = Some pte \<and> page_no x = page_no (pte_paddr pte))"
  shows "page_no x \<noteq> page_no to" and "page_no x \<notin> page_no ` avail (paddr_alloc s)"
proof -
  have ok: "dir_wf (mem s) from (paddr_alloc s)" "alloc_wf (paddr_alloc s)" "page_aligned to"
    using A by (auto simp: apart_def vm_ok_def dir_wf_def)
  note al = avail_aligned [OF ok(2)]
  show "page_no x \<noteq> page_no to"
    using assms page_no_inj [OF paddr_aligned(2) ok(3)] unfolding apart_def by metis
  show "page_no x \<notin> page_no ` avail (paddr_alloc s)"
  proof
    assume "page_no x \<in> page_no ` avail (paddr_alloc s)"
    then obtain p where p: "p \<in> avail (paddr_alloc s)" "page_no x = page_no p" by auto
    have "page_no x \<notin> dir_pages (mem s) from" using dir_pages_apart [OF ok(1,2) p(1)] p(2) by simp
    then obtain n pte where "2 ^ 19 \<le> n" "entry (mem s) from n = Some pte" "page_no p = page_no (pte_paddr pte)"
      using assms(2) p(2) by auto
    then show False using A p(1) page_no_inj [OF al [OF p(1)] paddr_aligned(2)] unfolding apart_def by metis
  qed
qed

lemma copied_source:
  assumes "apart from to s" "copied from to s s' n f" "page_no x \<in> dir_pages (mem s) from
    \<or> (\<exists>n pte. 2 ^ 19 \<le> n \<and> entry (mem s) from n = Some pte \<and> page_no x = page_no (pte_paddr pte))"
  shows "mem s' x = mem s x"
  using apart_source [OF assms(1,3)] assms(2) by (auto simp: copied_def taken_def)

lemma copied_0: "apart from to s \<Longrightarrow> n \<le> 2 ^ 19 \<Longrightarrow> copied from to s s n f"
proof -
  assume A: "apart from to s" and n: "n \<le> 2 ^ 19"
  have "user_pages (mem s) from n = {}" using n by (auto simp: user_pages_def)
  moreover have "entry (mem s) to k = None" if "\<not> k < 2 ^ 19" for k
  proof -
    have "\<not> k div 1024 < 512" using that by simp
    then have "\<not> has_pt (mem s) to (k div 1024)" using A unfolding apart_def by blast
    then show ?thesis by (simp add: entry_def)
  qed
  ultimately show ?thesis using A n by (auto simp: copied_def apart_def taken_def)
qed

lemma copied_skip:
  assumes "copied from to s s' n f" "n \<le> m" "\<And>k. n \<le> k \<Longrightarrow> k < m \<Longrightarrow> entry (mem s) from k = None"
  shows "copied from to s s' m f"
proof -
  have u: "user_pages (mem s) from m = user_pages (mem s) from n"
    using assms(2,3) by (auto simp: user_pages_def) (metis not_le option.distinct(1))
  have "(if k < m then map_option g (entry (mem s) from k) else None) = (if k < n then map_option g (entry (mem s) from k) else None)"
    for k and g :: "u32 \<Rightarrow> u32"
    using assms(2) assms(3) [of k] by (cases "n \<le> k") auto
  with assms(1) u show ?thesis unfolding copied_def by simp
qed

text \<open>Copying one page of the current address space.\<close>

lemma kmemcpy_virt_page:
  assumes "page_aligned (cr3_reg s)" "MEMORY_TASK_BASE \<le> va" "page_aligned va" "entry (mem s) (cr3_reg s) (page_no va) = Some pte"
    and "page_aligned p" "p \<noteq> 0" "page_no p \<notin> dir_pages (mem s) (cr3_reg s)" "p \<noteq> pte_paddr pte"
  obtains m where "kmemcpy_virt p va MEM_PAGE_SIZE s = Inr ((), s\<lparr>mem := m\<rparr>)"
    "\<And>i. i < 4096 \<Longrightarrow> m (p + of_nat i) = mem s (pte_paddr pte + of_nat i)"
    "\<And>x. page_no x \<noteq> page_no p \<Longrightarrow> m x = mem s x"
proof -
  let ?b = "\<lambda>i. mem s (pte_paddr pte + of_nat i)"
  have off: "page_off va = 0" using assms(3) by (auto simp: page_off_def page_aligned_def)
  have tr0: "translate (mem s) (cr3_reg s) va = Some (pte_paddr pte)"
    using assms(4) off by (simp add: translate_eq page_off_and)
  have tr: "translate (mem s) (cr3_reg s) (va + of_nat i) = Some (pte_paddr pte + of_nat i)" if "i < 4096" for i
    using translate_same_page [OF tr0] off that by simp
  have hi: "\<not> va + of_nat i < MEMORY_TASK_BASE" if "i < 4096" for i
  proof -
    have "unat va + i < 2 ^ 32" using page_aligned_bound [OF assms(3) that] .
    then have "unat (va + of_nat i) = unat va + i" by (rule unat_add_lt)
    then show ?thesis using assms(2) by (simp add: word_less_nat_alt word_le_nat_alt)
  qed
  have v: "vload s (va + of_nat i) = Some (?b i)" if "i < 4096" for i
    using hi [OF that] tr [OF that] by (simp add: vload_def)
  have rd: "page_no (p + of_nat j) \<notin> read_pages s (va + of_nat i)" if "i < 4096" "j < 4096" for i j
  proof -
    have "page_no (p + of_nat j) = page_no p" "page_no (pte_paddr pte + of_nat i) = page_no (pte_paddr pte)"
      using page_no_offset [OF assms(5) that(2)] page_no_offset [OF paddr_aligned(2) that(1)] by simp_all
    moreover have "page_no p \<noteq> page_no (pte_paddr pte)" using assms(5,8) page_no_inj paddr_aligned(2) by blast
    ultimately show ?thesis using hi [OF that(1)] tr [OF that(1)] assms(7) by (simp add: read_pages_def)
  qed
  let ?m = "store_bytes p (map ?b [0..<4096]) (mem s)"
  have n: "unat MEM_PAGE_SIZE = 4096" "MEM_PAGE_SIZE \<noteq> 0" by (simp_all add: MEM_PAGE_SIZE_def)
  have "va \<noteq> 0" using assms(2) by (auto simp: MEMORY_TASK_BASE_def)
  then have "kmemcpy_virt p va MEM_PAGE_SIZE s = Inr ((), s\<lparr>mem := ?m\<rparr>)"
    using vmemcpy_loop_effect [OF assms(1) _ v rd] assms(6) n by (simp add: kmemcpy_virt_def)
  moreover have "?m (p + of_nat i) = ?b i" if "i < 4096" for i
    using store_bytes_nth [of i "map ?b [0..<4096]" p "mem s"] that by simp
  moreover have "?m x = mem s x" if "page_no x \<noteq> page_no p" for x
    using that page_region [OF assms(5), of x] store_bytes_other [of x p "map ?b [0..<4096]" "mem s"] by simp
  ultimately show thesis by (rule that)
qed

lemma find_pte_full:
  assumes "vm_ok dir s" "\<not> has_pt (mem s) dir (page_no va div 1024)" "avail (paddr_alloc s) = {}"
  obtains s' where "find_pte dir va 1 s = Inr (0, s')" "s' = s\<lparr>paddr_alloc := paddr_alloc s'\<rparr>" "alloc_wf (paddr_alloc s')"
proof -
  have aw: "alloc_wf (paddr_alloc s)" using assms(1) by (simp add: vm_ok_def)
  obtain p s1 where a: "addr_alloc_page 1 s = Inr (p, s1)" "alloc_wf (paddr_alloc s1)" "alloc_rest s1 = alloc_rest s"
    "p = 0 \<longleftrightarrow> avail (paddr_alloc s) = {}"
    using pool.alloc_total [OF aw] by metis
  have np: "\<not> present (load32 (mem s) (page_word dir (page_no va div 1024)))"
    using assms(2) pde_no_lt [of va] by (simp add: has_pt_def pde_at_def)
  then have "find_pte dir va 1 s = Inr (0, s1)"
    using a(1,4) assms(3) by (simp add: find_pte_def pde_index_word Let_def)
  with alloc_rest_eq [OF a(3)] a(2) that show thesis by blast
qed

text \<open>One round of the inner loop for a page that is present.\<close>

definition copy_round :: "addr \<Rightarrow> addr \<Rightarrow> u32 \<Rightarrow> ('s kmem_scheme \<Rightarrow> ('s, bool) mres) \<Rightarrow> 's kmem_scheme \<Rightarrow> ('s, bool) mres" where
  "copy_round to va pte K s = bindR (addr_alloc_page 1 s) (\<lambda>page s1.
        if page = 0 then Inr (False, s1)
        else bindR (memory_create_map to va page 1 (get_pte_perm pte) s1) (\<lambda>err s2.
                  if sint err < 0 then Inr (False, s2)
                  else bindR (kmemcpy_virt page va MEM_PAGE_SIZE s2) (\<lambda>_. K)))"

definition copy_failed :: "addr \<Rightarrow> 's kmem_scheme \<Rightarrow> 's kmem_scheme \<Rightarrow> bool" where
  "copy_failed from s s' \<longleftrightarrow> s' = s\<lparr>mem := mem s', paddr_alloc := paddr_alloc s'\<rparr> \<and> alloc_wf (paddr_alloc s')
     \<and> card (avail (paddr_alloc s)) < 2 * card (user_pages (mem s) from (2 ^ 20))"

lemma page_eq_of_offset:
  "page_aligned p \<Longrightarrow> page_aligned q \<Longrightarrow> i < 4096 \<Longrightarrow> page_no (p + of_nat i) = page_no q \<longleftrightarrow> p = q"
  using page_no_offset [of p i] page_no_inj [of p q] by auto

lemma copied_Suc:
  assumes A: "apart from to s" and C: "copied from to s s1 N f" and N: "2 ^ 19 \<le> N" "entry (mem s) from N = Some pte"
    and s3: "s3 = s1\<lparr>mem := mem s3, paddr_alloc := paddr_alloc s3\<rparr>" "vm_ok to s3"
      "frames (paddr_alloc s3) = frames (paddr_alloc s1)"
    and T: "T = (if has_pt (mem s1) to (N div 1024) then {} else {pt_at (mem s3) to (N div 1024)})"
      "T \<subseteq> avail (paddr_alloc s1)" "p \<in> avail (paddr_alloc s1)" "p \<notin> T"
      "avail (paddr_alloc s3) = avail (paddr_alloc s1) - insert p T"
    and pt: "\<And>j. has_pt (mem s3) to j \<longleftrightarrow> j = N div 1024 \<or> has_pt (mem s1) to j"
      "\<And>j. has_pt (mem s1) to j \<Longrightarrow> pt_at (mem s3) to j = pt_at (mem s1) to j"
    and e: "entry (mem s3) to = (entry (mem s1) to)(N \<mapsto> (p OR get_pte_perm pte OR PTE_P))"
    and w: "\<And>x. page_no x \<noteq> page_no to \<Longrightarrow> page_no x \<noteq> page_no (pt_at (mem s3) to (N div 1024)) \<Longrightarrow>
        page_no x \<noteq> page_no p \<Longrightarrow> mem s3 x = mem s1 x"
      "\<And>i. i < 4096 \<Longrightarrow> mem s3 (p + of_nat i) = mem s (pte_paddr pte + of_nat i)"
  shows "copied from to s s3 (Suc N) (f(N := p))"
proof -
  let ?i = "N div 1024" and ?U = "user_pages (mem s) from N"
  have c: "s1 = s\<lparr>mem := mem s1, paddr_alloc := paddr_alloc s1\<rparr>" "vm_ok to s1"
    "frames (paddr_alloc s1) = frames (paddr_alloc s)" "avail (paddr_alloc s1) \<subseteq> avail (paddr_alloc s)"
    and cw: "\<And>x. page_no x \<noteq> page_no to \<Longrightarrow> page_no x \<notin> page_no ` taken s s1 \<Longrightarrow> mem s1 x = mem s x"
    and cp: "\<And>j. has_pt (mem s1) to j \<Longrightarrow> j < 512 \<or> pt_at (mem s1) to j \<in> taken s s1"
    and ce: "\<And>k. entry (mem s1) to k = (if k < 2 ^ 19 then entry (mem s) to k
        else if k < N then map_option (\<lambda>pte. f k OR get_pte_perm pte OR PTE_P) (entry (mem s) from k) else None)"
    and cf: "\<And>k. k \<in> ?U \<Longrightarrow> f k \<in> taken s s1" "\<And>k j. k \<in> ?U \<Longrightarrow> has_pt (mem s1) to j \<Longrightarrow> pt_at (mem s1) to j \<noteq> f k"
      "\<And>k i. k \<in> ?U \<Longrightarrow> i < 4096 \<Longrightarrow> mem s1 (f k + of_nat i) = mem s (pte_paddr (the (entry (mem s) from k)) + of_nat i)"
      "inj_on f ?U" "card (avail (paddr_alloc s)) \<le> card (avail (paddr_alloc s1)) + 2 * card ?U"
    using C by (simp_all add: copied_def)
  have to: "page_aligned to" "to \<notin> avail (paddr_alloc s)"
    and aw: "alloc_wf (paddr_alloc s)" using A by (auto simp: apart_def vm_ok_def dir_wf_def)
  have tk: "taken s s3 = taken s s1 \<union> insert p T" using T(2,3,5) c(4) by (auto simp: taken_def)
  have i512: "\<not> ?i < 512" using N(1) by simp
  have ti: "pt_at (mem s3) to ?i \<in> taken s s3"
  proof (cases "has_pt (mem s1) to ?i")
    case True
    then have "pt_at (mem s1) to ?i \<in> taken s s1" using cp i512 by blast
    then show ?thesis using pt(2) [OF True] tk by simp
  next
    case False
    then show ?thesis using T(1) tk by simp
  qed
  have u: "user_pages (mem s) from (Suc N) = insert N ?U" "N \<notin> ?U"
    using N user_pages_Suc user_pages_less by auto
  have fk: "f k \<noteq> p" "f k \<noteq> to" "f k \<noteq> pt_at (mem s3) to j" "page_aligned (f k)" if k: "k \<in> ?U" and j: "has_pt (mem s3) to j" for k j
  proof -
    have t: "f k \<in> taken s s1" by (rule cf(1) [OF k])
    then show "f k \<noteq> p" "f k \<noteq> to" "page_aligned (f k)" using T(3) to(2) avail_aligned [OF aw] by (auto simp: taken_def)
    show "f k \<noteq> pt_at (mem s3) to j"
    proof (cases "has_pt (mem s1) to j")
      case True
      then show ?thesis using pt(2) [OF True] cf(2) [OF k True] by simp
    next
      case False
      then have "j = ?i" using j pt(1) by blast
      then have "pt_at (mem s3) to j \<in> avail (paddr_alloc s1)" using T(1,2) False by auto
      then show ?thesis using t by (auto simp: taken_def)
    qed
  qed
  have hi: "has_pt (mem s3) to ?i" using pt(1) by simp
  have pa: "page_aligned p" using T(3) c(4) avail_aligned [OF aw] by blast
  show ?thesis
    unfolding copied_def u
  proof (intro conjI allI impI ballI)
    show "s3 = s\<lparr>mem := mem s3, paddr_alloc := paddr_alloc s3\<rparr>" by (subst s3(1), subst c(1)) simp
    show "vm_ok to s3" "frames (paddr_alloc s3) = frames (paddr_alloc s)" "avail (paddr_alloc s3) \<subseteq> avail (paddr_alloc s)"
      using s3 c T(5) by auto
    show "mem s3 x = mem s x" if "page_no x \<noteq> page_no to" "page_no x \<notin> page_no ` taken s s3" for x
    proof -
      have ne: "page_no x \<noteq> page_no q" if "q \<in> taken s s3" for q
        using \<open>page_no x \<notin> page_no ` taken s s3\<close> that by auto
      have "mem s3 x = mem s1 x" by (rule w(1) [OF that(1) ne [OF ti] ne]) (simp add: tk)
      also have "\<dots> = mem s x" using that tk by (intro cw) auto
      finally show ?thesis .
    qed
    show "j < 512 \<or> pt_at (mem s3) to j \<in> taken s s3" if "has_pt (mem s3) to j" for j
      using that pt ti tk cp [of j] by (cases "has_pt (mem s1) to j") auto
    show "entry (mem s3) to k = (if k < 2 ^ 19 then entry (mem s) to k
        else if k < Suc N then map_option (\<lambda>pte. (f(N := p)) k OR get_pte_perm pte OR PTE_P) (entry (mem s) from k) else None)" for k
      using N unfolding e by (cases "k = N") (auto simp: ce)
    show "(f(N := p)) k \<in> taken s s3" if "k \<in> insert N ?U" for k using that cf(1) tk by auto
    show "pt_at (mem s3) to j \<noteq> (f(N := p)) k" if k: "k \<in> insert N ?U" and j: "has_pt (mem s3) to j" for k j
    proof (cases "k = N")
      case True
      show ?thesis
      proof (cases "has_pt (mem s1) to j")
        case h: True
        then have "pt_at (mem s1) to j \<notin> avail (paddr_alloc s1)" using c(2) by (auto simp: vm_ok_def dir_wf_def)
        then show ?thesis using True T(3) pt(2) [OF h] by auto
      next
        case False
        then have "pt_at (mem s3) to j \<in> T" using j pt(1) T(1) by auto
        then show ?thesis using True T(4) by auto
      qed
    next
      case False
      then show ?thesis using fk(3) [of k j] k j by auto
    qed
    show "mem s3 ((f(N := p)) k + of_nat i) = mem s (pte_paddr (the (entry (mem s) from k)) + of_nat i)"
      if k: "k \<in> insert N ?U" and i: "i < 4096" for k i
    proof (cases "k = N")
      case True
      then show ?thesis using w(2) [OF i] N(2) by simp
    next
      case False
      then have k: "k \<in> ?U" using k by simp
      note g = fk [OF k hi]
      have "mem s3 (f k + of_nat i) = mem s1 (f k + of_nat i)"
        using g page_eq_of_offset [OF g(4) to(1) i] page_eq_of_offset [OF g(4) pa i]
          page_eq_of_offset [OF g(4) pt_at_aligned i] by (intro w(1)) auto
      then show ?thesis using False cf(3) [OF k i] by simp
    qed
    show "inj_on (f(N := p)) (insert N ?U)"
      using cf(4) u(2) fk(1) hi by (auto simp: inj_on_def)
    have "card (insert p T) \<le> 2" using T(1) by (simp add: card_insert_if)
    moreover have "card (avail (paddr_alloc s1)) - card (insert p T) \<le> card (avail (paddr_alloc s3))"
      unfolding T(5) by (rule diff_card_le_card_Diff) (simp add: T(1))
    ultimately show "card (avail (paddr_alloc s)) \<le> card (avail (paddr_alloc s3)) + 2 * card (insert N ?U)"
      using cf(5) u(2) by simp
  qed
qed

lemma copied_from_source:
  assumes "apart from to s" "copied from to s s' n f"
  shows "has_pt (mem s') from j = has_pt (mem s) from j" "j < 1024 \<Longrightarrow> pt_at (mem s') from j = pt_at (mem s) from j"
    "entry (mem s') from k = entry (mem s) from k"
proof -
  have "page_aligned from" using assms(1) by (simp add: apart_def vm_ok_def dir_wf_def)
  note c = dir_cong [OF this, of "mem s" "mem s'"]
  have m: "mem s' x = mem s x" if "page_no x \<in> dir_pages (mem s) from" for x
    using copied_source [OF assms] that by blast
  show "has_pt (mem s') from j = has_pt (mem s) from j" "j < 1024 \<Longrightarrow> pt_at (mem s') from j = pt_at (mem s) from j"
    "entry (mem s') from k = entry (mem s) from k" using c m by blast+
qed

lemma dir_pages_same:
  assumes "\<And>j. has_pt m' dir j = has_pt m dir j" "\<And>j. has_pt m dir j \<Longrightarrow> pt_at m' dir j = pt_at m dir j"
  shows "dir_pages m' dir = dir_pages m dir"
  unfolding dir_pages_def using assms by (metis (no_types, lifting))

lemma copy_failedI:
  assumes A: "apart from to s" and C: "copied from to s s1 N f" and N: "2 ^ 19 \<le> N" "N < 2 ^ 20" "entry (mem s) from N \<noteq> None"
    and "s' = s1\<lparr>mem := mem s', paddr_alloc := paddr_alloc s'\<rparr>" "alloc_wf (paddr_alloc s')"
    "card (avail (paddr_alloc s1)) \<le> 1"
  shows "copy_failed from s s'"
proof -
  let ?U = "user_pages (mem s) from"
  have "?U (Suc N) \<subseteq> ?U (2 ^ 20)" using N(2) by (auto simp: user_pages_def)
  then have "card (?U (Suc N)) \<le> card (?U (2 ^ 20))" by (intro card_mono) simp_all
  moreover have "card (?U (Suc N)) = Suc (card (?U N))" using N user_pages_Suc user_pages_less by simp
  moreover have "card (avail (paddr_alloc s)) \<le> card (avail (paddr_alloc s1)) + 2 * card (?U N)"
    "s1 = s\<lparr>mem := mem s1, paddr_alloc := paddr_alloc s1\<rparr>" using C by (simp_all add: copied_def)
  moreover have "s' = s\<lparr>mem := mem s', paddr_alloc := paddr_alloc s'\<rparr>"
    by (subst assms(6), subst calculation(4)) simp
  ultimately show ?thesis using assms(7,8) by (simp add: copy_failed_def)
qed

lemma copy_round_effect:
  assumes A: "apart from to s" and C: "copied from to s s1 N f" and N: "2 ^ 19 \<le> N" "N < 2 ^ 20" "entry (mem s) from N = Some pte"
    and cr3: "cr3_reg s = from" and ret: "0 \<le> sint (undef_ret s)" and va: "page_aligned va" "page_no va = N"
  shows "(\<exists>s' p. copy_round to va pte K s1 = K s' \<and> copied from to s s' (Suc N) (f(N := p)))
    \<or> (\<exists>s'. copy_round to va pte K s1 = Inr (False, s') \<and> copy_failed from s s')"
proof -
  have c: "s1 = s\<lparr>mem := mem s1, paddr_alloc := paddr_alloc s1\<rparr>" "vm_ok to s1" "avail (paddr_alloc s1) \<subseteq> avail (paddr_alloc s)"
    "entry (mem s1) to N = None" using C N by (simp_all add: copied_def)
  have aw: "alloc_wf (paddr_alloc s)" using A by (simp add: apart_def vm_ok_def)
  have r1: "undef_ret s1 = undef_ret s" "cr3_reg s1 = from"
    using arg_cong [OF c(1), of undef_ret] arg_cong [OF c(1), of cr3_reg] cr3 by simp_all
  obtain p s2 where a: "addr_alloc_page 1 s1 = Inr (p, s2)" "grows to s1 s2" "vm_ok to s2" "mem s2 = mem s1"
    "p = 0 \<longleftrightarrow> avail (paddr_alloc s1) = {}" "p \<noteq> 0 \<Longrightarrow> p \<in> avail (paddr_alloc s1)"
    "avail (paddr_alloc s2) = avail (paddr_alloc s1) - {p}"
    using alloc_page_grows [OF c(2)] by metis
  have s2: "s2 = s1\<lparr>mem := mem s2, paddr_alloc := paddr_alloc s2\<rparr>" using a(2) by (simp add: grows_def)
  have aw2: "alloc_wf (paddr_alloc s2)" using a(3) by (simp add: vm_ok_def)
  have r2: "undef_ret s2 = undef_ret s" using arg_cong [OF s2, of undef_ret] r1 by simp
  have ne: "entry (mem s) from N \<noteq> None" using N(3) by simp
  have en: "entry (mem s2) to (page_no va) = None" using c(4) a(4) va(2) by simp
  consider "p = 0" | "p \<noteq> 0" "\<not> has_pt (mem s2) to (page_no va div 1024)" "avail (paddr_alloc s2) = {}"
    | "p \<noteq> 0" "has_pt (mem s2) to (page_no va div 1024) \<or> avail (paddr_alloc s2) \<noteq> {}" by blast
  then show ?thesis
  proof cases
    case 1
    then have "copy_round to va pte K s1 = Inr (False, s2)" using a(1) by (simp add: copy_round_def)
    moreover have "copy_failed from s s2"
      by (rule copy_failedI [OF A C N(1,2) ne s2 aw2]) (use 1 a(5) in simp)
    ultimately show ?thesis by blast
  next
    case 2
    obtain s3 where f: "find_pte to va 1 s2 = Inr (0, s3)" "s3 = s2\<lparr>paddr_alloc := paddr_alloc s3\<rparr>" "alloc_wf (paddr_alloc s3)"
      using find_pte_full [OF a(3) 2(2,3)] by blast
    have r: "copy_round to va pte K s1 = Inr (False, s3)"
      using a(1) 2(1) f(1) by (simp add: copy_round_def memory_create_map_def)
    have m3: "mem s3 = mem s2" using arg_cong [OF f(2), of mem] by simp
    have "s3 = s1\<lparr>mem := mem s3, paddr_alloc := paddr_alloc s3\<rparr>" by (subst f(2), subst s2) (simp add: m3)
    moreover have "card (avail (paddr_alloc s1)) \<le> 1"
    proof -
      have "avail (paddr_alloc s1) \<subseteq> {p}" using a(7) 2(3) by auto
      then have "card (avail (paddr_alloc s1)) \<le> card {p}" by (intro card_mono) simp_all
      then show ?thesis by simp
    qed
    ultimately have "copy_failed from s s3" using f(3) by (intro copy_failedI [OF A C N(1,2) ne])
    with r show ?thesis by blast
  next
    case 3
    have p: "p \<in> avail (paddr_alloc s1)" using a(6) 3(1) by blast
    then have pa: "p \<in> avail (paddr_alloc s)" "page_aligned p" using c(3) avail_aligned [OF aw] by auto
    show ?thesis
    proof (rule map_one_page [OF a(3) en 3(2), of p "get_pte_perm pte"], goal_cases)
      case (1 s3 T)
      note m = 1 [unfolded a(4) va(2)]
      let ?t = "pt_at (mem s3) to (N div 1024)"
      have i: "\<not> N div 1024 < 512" "N div 1024 < 1024" using N(1,2) by simp_all
      have t: "?t \<in> avail (paddr_alloc s)"
      proof (cases "has_pt (mem s1) to (N div 1024)")
        case True
        then have "pt_at (mem s1) to (N div 1024) \<in> taken s s1" using C i(1) by (auto simp: copied_def)
        then show ?thesis using m(9) [OF True] by (simp add: taken_def)
      next
        case False
        then show ?thesis using m(5,6) a(7) c(3) by auto
      qed
      have src: "mem s3 x = mem s x" if x: "page_no x \<in> dir_pages (mem s) from
        \<or> (\<exists>n pte. 2 ^ 19 \<le> n \<and> entry (mem s) from n = Some pte \<and> page_no x = page_no (pte_paddr pte))" for x
      proof -
        have "mem s3 x = mem s1 x" using apart_source [OF A x] t by (intro m(11)) auto
        then show ?thesis using copied_source [OF A C x] by simp
      qed
      have fa: "page_aligned from" "dir_wf (mem s) from (paddr_alloc s)" using A by (auto simp: apart_def vm_ok_def dir_wf_def)
      note d = dir_cong [OF fa(1), of "mem s" "mem s3"]
      have d1: "has_pt (mem s3) from j = has_pt (mem s) from j" "entry (mem s3) from k = entry (mem s) from k" for j k
        using src by (intro d; blast)+
      have d2: "pt_at (mem s3) from j = pt_at (mem s) from j" if "has_pt (mem s) from j" for j
        using src that by (intro d(2)) (auto simp: has_pt_def)
      have dp: "dir_pages (mem s3) from = dir_pages (mem s) from" using d1 d2 by (intro dir_pages_same) auto
      have cr: "cr3_reg s3 = from" using arg_cong [OF m(4), of cr3_reg] arg_cong [OF s2, of cr3_reg] r1 by simp
      have base: "MEMORY_TASK_BASE \<le> va" using va N(1)
        by (simp add: word_le_nat_alt MEMORY_TASK_BASE_def page_no_def)
      have pq: "p \<noteq> pte_paddr pte" using A N(1,3) pa(1) by (auto simp: apart_def)
      obtain mm where k: "kmemcpy_virt p va MEM_PAGE_SIZE s3 = Inr ((), s3\<lparr>mem := mm\<rparr>)"
        "\<And>i. i < 4096 \<Longrightarrow> mm (p + of_nat i) = mem s3 (pte_paddr pte + of_nat i)"
        "\<And>x. page_no x \<noteq> page_no p \<Longrightarrow> mm x = mem s3 x"
        using kmemcpy_virt_page [of s3 va pte p] cr fa base va d1 N(3) pa 3(1) dp pq dir_pages_apart [OF fa(2) aw pa(1)]
        by metis
      let ?s = "s3\<lparr>mem := mm\<rparr>"
      have r: "copy_round to va pte K s1 = K ?s"
        using a(1) 3(1) m(1) ret r2 k(1) by (simp add: copy_round_def)
      have to: "dir_wf (mem s3) to (paddr_alloc s3)" "page_aligned to" using m(2) by (auto simp: vm_ok_def dir_wf_def)
      have pt: "p \<noteq> pt_at (mem s3) to j" if h: "has_pt (mem s3) to j" for j
      proof (cases "has_pt (mem s1) to j")
        case True
        then show ?thesis using c(2) p m(9) [OF True] by (auto simp: vm_ok_def dir_wf_def)
      next
        case False
        then have "pt_at (mem s3) to j \<in> T" using h m(5,8) by auto
        then show ?thesis using m(6) a(7) by auto
      qed
      have pto: "p \<noteq> to" using A pa(1) by (auto simp: apart_def vm_ok_def dir_wf_def)
      have out: "mm x = mem s3 x" if x: "page_no x \<in> dir_pages (mem s3) to" for x
      proof (rule k(3), rule notI)
        assume "page_no x = page_no p"
        then consider "page_no p = page_no to" | j where "has_pt (mem s3) to j" "page_no p = page_no (pt_at (mem s3) to j)"
          using x by (auto simp: dir_pages_def)
        then show False
          by cases (use pto pt page_no_inj [OF pa(2) to(2)] page_no_inj [OF pa(2) pt_at_aligned] in blast)+
      qed
      note g = dir_cong [OF to(2), of "mem s3" mm, OF out]
      have h: "has_pt mm to j \<longleftrightarrow> j = N div 1024 \<or> has_pt (mem s1) to j" for j using g(1) m(8) by blast
      have gt: "pt_at mm to j = pt_at (mem s3) to j" if "has_pt (mem s3) to j" for j
        using that by (intro g(2)) (simp_all add: has_pt_def)
      have ti: "pt_at mm to (N div 1024) = ?t" using gt m(8) by blast
      have "copied from to s ?s (Suc N) (f(N := p))"
      proof (rule copied_Suc [OF A C N(1,3), where T = T])
        show "?s = s1\<lparr>mem := mem ?s, paddr_alloc := paddr_alloc ?s\<rparr>" by (subst m(4), subst s2) simp
        show "vm_ok to ?s" using m(2) dir_wf_cong [OF to(1) out] by (simp add: vm_ok_def)
        show "frames (paddr_alloc ?s) = frames (paddr_alloc s1)" using m(3) a(2) by (simp add: grows_def)
        show "T = (if has_pt (mem s1) to (N div 1024) then {} else {pt_at (mem ?s) to (N div 1024)})" using m(5) ti by simp
        show "T \<subseteq> avail (paddr_alloc s1)" "p \<in> avail (paddr_alloc s1)" "p \<notin> T"
          "avail (paddr_alloc ?s) = avail (paddr_alloc s1) - insert p T" using m(6,7) a(7) p by auto
        show "has_pt (mem ?s) to j \<longleftrightarrow> j = N div 1024 \<or> has_pt (mem s1) to j" for j using h by simp
        show "pt_at (mem ?s) to j = pt_at (mem s1) to j" if "has_pt (mem s1) to j" for j
          using gt [of j] m(8) m(9) [OF that] that by simp
        show "entry (mem ?s) to = (entry (mem s1) to)(N \<mapsto> (p OR get_pte_perm pte OR PTE_P))"
          using g(3) m(10) by (simp add: fun_eq_iff)
        show "mem ?s x = mem s1 x" if "page_no x \<noteq> page_no to" "page_no x \<noteq> page_no (pt_at (mem ?s) to (N div 1024))"
          "page_no x \<noteq> page_no p" for x
          using k(3) [OF that(3)] m(11) [OF that(1)] that(2) ti by simp
        show "mem ?s (p + of_nat i) = mem s (pte_paddr pte + of_nat i)" if "i < 4096" for i
        proof -
          have "page_no (pte_paddr pte + of_nat i) = page_no (pte_paddr pte)" using that by (intro page_no_offset) simp_all
          then have "mem s3 (pte_paddr pte + of_nat i) = mem s (pte_paddr pte + of_nat i)"
            using N(1,3) by (intro src) auto
          then show ?thesis using k(2) [OF that] by simp
        qed
      qed
      with r show ?case by blast
    qed
  qed
qed

lemma page_addr:
  assumes "i < 1024" "j < 1024"
  shows "push_bit 22 (of_nat i) OR push_bit 12 (of_nat j) = (of_nat (4096 * (1024 * i + j)) :: u32)"
proof -
  have hj: "\<not> bit j k" if "10 \<le> k" for k
  proof -
    have "(2 :: nat) ^ 10 \<le> 2 ^ k" using that by (intro power_increasing) simp_all
    then have "j div 2 ^ k = 0" using assms(2) by simp
    then show ?thesis by (simp add: bit_iff_odd)
  qed
  have "\<not> bit (push_bit 22 (of_nat i :: u32)) n \<or> \<not> bit (push_bit 12 (of_nat j :: u32)) n" for n
    using hj [of "n - 12"] by (cases "22 \<le> n") (auto simp: bit_simps)
  then have "push_bit 22 (of_nat i) OR push_bit 12 (of_nat j) = (push_bit 22 (of_nat i) + push_bit 12 (of_nat j) :: u32)"
    by (simp add: disjunctive_add)
  also have "\<dots> = of_nat (4096 * (1024 * i + j))" by (simp add: push_bit_eq_mult)
  finally show ?thesis .
qed

lemma page_addr_no:
  assumes "n < 2 ^ 20"
  shows "page_aligned (of_nat (4096 * n))" and "page_no (of_nat (4096 * n)) = n"
proof -
  have "unat (of_nat (4096 * n) :: u32) = 4096 * n" using assms by (intro unat_of_nat_u32) simp
  then show "page_aligned (of_nat (4096 * n))" "page_no (of_nat (4096 * n)) = n"
    by (simp_all add: page_aligned_def page_no_def)
qed

lemma copy_table_present:
  assumes "vm_ok dir s" "present (load32 (mem s) pte)"
  shows "copy_table (Suc n) i j pte to s =
    copy_round to (push_bit 22 i OR push_bit 12 j) (load32 (mem s) pte) (copy_table n i (j + 1) (pte + 4) to) s"
proof -
  obtain p s1 where a: "addr_alloc_page 1 s = Inr (p, s1)" "mem s1 = mem s" using alloc_page_grows [OF assms(1)] by metis
  show ?thesis using assms(2) by (simp add: copy_round_def a Let_def)
qed

lemma copy_table_effect:
  assumes A: "apart from to s" and cr3: "cr3_reg s = from" and ret: "0 \<le> sint (undef_ret s)"
    and i: "512 \<le> i" "i < 1024" "has_pt (mem s) from i"
  shows "copied from to s s1 (1024 * i + j) f \<Longrightarrow> n + j = 1024 \<Longrightarrow>
    (\<exists>s' f'. copy_table n (of_nat i) (of_nat j) (page_word (pt_at (mem s) from i) j) to s1 = Inr (True, s')
       \<and> copied from to s s' (1024 * Suc i) f')
    \<or> (\<exists>s'. copy_table n (of_nat i) (of_nat j) (page_word (pt_at (mem s) from i) j) to s1 = Inr (False, s')
       \<and> copy_failed from s s')"
proof (induction n arbitrary: j s1 f)
  case 0
  then show ?case by (auto simp: algebra_simps)
next
  case (Suc n)
  let ?N = "1024 * i + j" and ?t = "pt_at (mem s) from i"
  have j: "j < 1024" using Suc.prems(2) by simp
  have N: "2 ^ 19 \<le> ?N" "?N < 2 ^ 20" "?N div 1024 = i" "?N mod 1024 = j" using i j by simp_all
  have ld: "load32 (mem s1) (page_word ?t j) = load32 (mem s) (page_word ?t j)"
  proof (rule load_page_word_cong)
    fix x assume "page_no x = page_no ?t"
    then have "page_no x \<in> dir_pages (mem s) from" using i(3) by (auto simp: dir_pages_def)
    then show "mem s1 x = mem s x" using copied_source [OF A Suc.prems(1)] by blast
  qed (use j in simp_all)
  have en: "entry (mem s) from ?N = (if present (load32 (mem s) (page_word ?t j)) then Some (load32 (mem s) (page_word ?t j)) else None)"
    using i(3) N by (simp add: entry_def Let_def)
  have st: "of_nat j + 1 = (of_nat (Suc j) :: u32)" "page_word ?t j + 4 = page_word ?t (Suc j)"
    by (simp_all add: page_word_def algebra_simps)
  show ?case
  proof (cases "present (load32 (mem s) (page_word ?t j))")
    case False
    then have "copied from to s s1 (1024 * i + Suc j) f"
      using Suc.prems(1) en by (intro copied_skip [OF Suc.prems(1)]) (auto simp: le_antisym less_Suc_eq_le)
    note IH = Suc.IH [OF this]
    have "copy_table (Suc n) (of_nat i) (of_nat j) (page_word ?t j) to s1 =
        copy_table n (of_nat i) (of_nat (Suc j)) (page_word ?t (Suc j)) to s1"
      using False by (simp only: copy_table.simps ld st if_True not_False_eq_True)
    with IH Suc.prems(2) show ?thesis by simp
  next
    case True
    have ok: "vm_ok to s1" using Suc.prems(1) by (simp add: copied_def)
    let ?va = "push_bit 22 (of_nat i) OR push_bit 12 (of_nat j) :: u32"
    have va: "page_aligned ?va" "page_no ?va = ?N" unfolding page_addr [OF i(2) j] using page_addr_no [OF N(2)] by auto
    have step: "copy_table (Suc n) (of_nat i) (of_nat j) (page_word ?t j) to s1 =
        copy_round to ?va (load32 (mem s) (page_word ?t j)) (copy_table n (of_nat i) (of_nat (Suc j)) (page_word ?t (Suc j)) to) s1"
      using copy_table_present [OF ok, where pte = "page_word ?t j" and i = "of_nat i" and j = "of_nat j" and to = to and n = n] True unfolding ld st by (simp only: simp_thms)
    have "entry (mem s) from ?N = Some (load32 (mem s) (page_word ?t j))" using en True by simp
    note rd = copy_round_effect [OF A Suc.prems(1) N(1,2) this cr3 ret va,
        of "copy_table n (of_nat i) (of_nat (Suc j)) (page_word ?t (Suc j)) to"]
    from rd step
    show ?thesis
    proof (elim disjE exE conjE, goal_cases)
      case (1 s' p)
      then have "copied from to s s' (1024 * i + Suc j) (f(?N := p))" by simp
      from Suc.IH [OF this] Suc.prems(2) 1 show ?case by simp
    next
      case (2 s')
      then show ?case by auto
    qed
  qed
qed

lemma copy_dir_effect:
  assumes A: "apart from to s" and cr3: "cr3_reg s = from" and ret: "0 \<le> sint (undef_ret s)"
  shows "copied from to s s1 (1024 * i) f \<Longrightarrow> n + i = 1024 \<Longrightarrow> 512 \<le> i \<Longrightarrow>
    (\<exists>s' f'. copy_dir n (of_nat i) (page_word from i) to s1 = Inr (True, s') \<and> copied from to s s' (2 ^ 20) f')
    \<or> (\<exists>s'. copy_dir n (of_nat i) (page_word from i) to s1 = Inr (False, s') \<and> copy_failed from s s')"
proof (induction n arbitrary: i s1 f)
  case 0
  then show ?case by auto
next
  case (Suc n)
  have i: "i < 1024" using Suc.prems(2) by simp
  have fa: "page_aligned from" using A by (auto simp: apart_def vm_ok_def dir_wf_def)
  have ld: "load32 (mem s1) (page_word from i) = pde_at (mem s) from i"
  proof -
    have "load32 (mem s1) (page_word from i) = load32 (mem s) (page_word from i)"
    proof (rule load_page_word_cong [OF fa i])
      fix x assume "page_no x = page_no from"
      then have "page_no x \<in> dir_pages (mem s) from" by (simp add: dir_pages_def)
      then show "mem s1 x = mem s x" using copied_source [OF A Suc.prems(1)] by blast
    qed
    then show ?thesis by (simp add: pde_at_def)
  qed
  have st: "of_nat i + 1 = (of_nat (Suc i) :: u32)" "page_word from i + 4 = page_word from (Suc i)"
    by (simp_all add: page_word_def algebra_simps)
  show ?case
  proof (cases "has_pt (mem s) from i")
    case False
    have "entry (mem s) from k = None" if "1024 * i \<le> k" "k < 1024 * Suc i" for k
    proof -
      have "k div 1024 = i" using that by auto
      then show ?thesis using False by (simp add: entry_def)
    qed
    then have "copied from to s s1 (1024 * Suc i) f" using Suc.prems(1) by (intro copied_skip [OF Suc.prems(1)]) auto
    note IH = Suc.IH [OF this]
    have "copy_dir (Suc n) (of_nat i) (page_word from i) to s1 = copy_dir n (of_nat (Suc i)) (page_word from (Suc i)) to s1"
      using False i ld by (simp only: copy_dir.simps st has_pt_def not_False_eq_True if_True simp_thms)
    with IH Suc.prems(2,3) show ?thesis by simp
  next
    case True
    have p: "present (load32 (mem s1) (page_word from i))" "pde_paddr (load32 (mem s1) (page_word from i)) = pt_at (mem s) from i"
      using True ld by (simp_all add: has_pt_def pt_at_def)
    have "copied from to s s1 (1024 * i + 0) f" using Suc.prems(1) by simp
    note tb = copy_table_effect [OF A cr3 ret Suc.prems(3) i True this, of 1024, simplified add_0_right, OF refl]
    from tb show ?thesis
    proof (elim disjE exE conjE, goal_cases)
      case (1 s' f')
      have w0: "page_word (pt_at (mem s) from i) 0 = pt_at (mem s) from i" by (simp add: page_word_def)
      have "copy_dir (Suc n) (of_nat i) (page_word from i) to s1 = copy_dir n (of_nat (Suc i)) (page_word from (Suc i)) to s'"
        using 1 p w0 by (simp add: PTE_CNT_def st(2) [symmetric] add.commute [of 1])
      moreover have "copied from to s s' (1024 * Suc i) f'" using 1 by simp
      note Suc.IH [OF this]
      ultimately show ?case using Suc.prems(2,3) by simp
    next
      case (2 s')
      have w0: "page_word (pt_at (mem s) from i) 0 = pt_at (mem s) from i" by (simp add: page_word_def)
      have "copy_dir (Suc n) (of_nat i) (page_word from i) to s1 = Inr (False, s')"
        using 2 p w0 by (simp add: PTE_CNT_def)
      with 2 show ?case by auto
    qed
  qed
qed

lemma copy_user_pages_effect:
  assumes A: "apart from to s" and cr3: "cr3_reg s = from" and ret: "0 \<le> sint (undef_ret s)"
  shows "(\<exists>s' f. copy_user_pages from to s = Inr (True, s') \<and> copied from to s s' (2 ^ 20) f)
    \<or> (\<exists>s'. copy_user_pages from to s = Inr (False, s') \<and> copy_failed from s s')"
proof -
  have "copied from to s s (1024 * 512) (\<lambda>_. 0)" by (rule copied_0 [OF A]) simp
  from copy_dir_effect [OF A cr3 ret this, of 512]
  show ?thesis unfolding copy_user_pages_def Let_def user_pde_start
    by (simp add: PDE_CNT_def pde_index_def MEMORY_TASK_BASE_def page_word_def)
qed

lemma perm_bits:
  assumes "page_aligned p" "present pte"
  shows "pte_paddr (p OR get_pte_perm pte OR PTE_P) = p" and "get_pte_perm (p OR get_pte_perm pte OR PTE_P) = get_pte_perm pte"
    and "present (p OR get_pte_perm pte OR PTE_P)"
proof -
  have lit: "(0x3ff :: u32) = mask 10" by (simp add: mask_eq_exp_minus_1)
  have perm: "get_pte_perm v = take_bit 10 v" for v unfolding get_pte_perm_def lit by (simp only: take_bit_eq_mask)
  have "get_pte_perm pte OR PTE_P = get_pte_perm pte"
    using assms(2) by (intro bit_eqI) (auto simp: perm bit_simps PTE_P_def present_def)
  then have e: "p OR get_pte_perm pte OR PTE_P = p OR get_pte_perm pte" by simp
  have small: "unat (get_pte_perm pte) < 4096"
  proof -
    have "unat (get_pte_perm pte) < 2 ^ 10" unfolding perm using take_bit_nat_less_exp [of 10 "unat pte"] by (simp add: unsigned_take_bit_eq)
    then show ?thesis by simp
  qed
  show pa: "pte_paddr (p OR get_pte_perm pte OR PTE_P) = p" unfolding e by (rule paddr_of_or(2) [OF assms(1) small])
  have "take_bit 12 p = 0"
  proof -
    have "take_bit 12 (unat p) = 0" using assms(1) by (simp add: take_bit_eq_mod page_aligned_def)
    then have "unat (take_bit 12 p) = 0" by (simp add: unsigned_take_bit_eq)
    then show ?thesis by (simp only: unat_eq_0)
  qed
  moreover have "take_bit 10 p = take_bit 10 (take_bit 12 p)" by simp
  ultimately have "take_bit 10 p = 0" by simp
  then show "get_pte_perm (p OR get_pte_perm pte OR PTE_P) = get_pte_perm pte" unfolding e unfolding perm by simp
  show "present (p OR get_pte_perm pte OR PTE_P)" using present_or by (metis or.assoc)
qed

lemma user_page_no: "MEMORY_TASK_BASE \<le> va \<longleftrightarrow> 2 ^ 19 \<le> page_no va"
  by (simp add: word_le_nat_alt MEMORY_TASK_BASE_def page_no_def less_eq_div_iff_mult_less_eq)

lemma translate_SomeE:
  assumes "translate m dir va = Some q"
  obtains pte where "entry m dir (page_no va) = Some pte" "q = pte_paddr pte + of_nat (page_off va)"
  using assms unfolding translate_eq page_off_and by (cases "entry m dir (page_no va)") auto

lemma entry_present: "entry m dir n = Some v \<Longrightarrow> present v"
  by (auto simp: entry_def Let_def split: if_splits)

text \<open>What the finished copy means for the two address spaces.\<close>

lemma copied_view:
  assumes A: "apart from to s" and C: "copied from to s s' (2 ^ 20) f" and va: "MEMORY_TASK_BASE \<le> va"
  shows "translate (mem s) from va = None \<Longrightarrow> translate (mem s') to va = None"
    and "translate (mem s) from va = Some q \<Longrightarrow>
      \<exists>p. translate (mem s') to va = Some p \<and> mem s' p = mem s q \<and> page_no p \<in> page_no ` taken s s'"
    and "map_option get_pte_perm (pt_entry (mem s') to va) = map_option get_pte_perm (pt_entry (mem s) from va)"
    and "translate (mem s') from va = translate (mem s) from va"
    and "translate (mem s) from va = Some q \<Longrightarrow> mem s' q = mem s q"
proof -
  let ?n = "page_no va"
  have n: "2 ^ 19 \<le> ?n" "?n < 2 ^ 20" "\<not> ?n < 2 ^ 19" using va user_page_no page_no_bound by auto
  have aw: "alloc_wf (paddr_alloc s)" using A by (simp add: apart_def vm_ok_def)
  have e: "entry (mem s') to ?n = map_option (\<lambda>pte. f ?n OR get_pte_perm pte OR PTE_P) (entry (mem s) from ?n)"
    using C n by (simp add: copied_def)
  have off: "page_off va < 4096" by (simp add: page_off_def)
  then show "translate (mem s) from va = None \<Longrightarrow> translate (mem s') to va = None"
    using e by (simp add: translate_eq)
  have k: "f ?n \<in> taken s s'" "page_aligned (f ?n)" "\<And>i. i < 4096 \<Longrightarrow> mem s' (f ?n + of_nat i) = mem s (pte_paddr pte + of_nat i)"
    if "entry (mem s) from ?n = Some pte" for pte
  proof -
    have "?n \<in> user_pages (mem s) from (2 ^ 20)" using n that by (simp add: user_pages_def)
    then show "f ?n \<in> taken s s'" "\<And>i. i < 4096 \<Longrightarrow> mem s' (f ?n + of_nat i) = mem s (pte_paddr pte + of_nat i)"
      using C that by (auto simp: copied_def)
    then show "page_aligned (f ?n)" using avail_aligned [OF aw] by (auto simp: taken_def)
  qed
  show "\<exists>p. translate (mem s') to va = Some p \<and> mem s' p = mem s q \<and> page_no p \<in> page_no ` taken s s'"
    if "translate (mem s) from va = Some q"
  proof -
    obtain pte where pte: "entry (mem s) from ?n = Some pte" "q = pte_paddr pte + of_nat (page_off va)"
      by (rule translate_SomeE [OF \<open>translate (mem s) from va = Some q\<close>])
    note k = k [OF pte(1)]
    have "translate (mem s') to va = Some (f ?n + of_nat (page_off va))"
      using e pte(1) perm_bits(1) [OF k(2) entry_present [OF pte(1)]] by (simp add: translate_eq page_off_and)
    moreover have "page_no (f ?n + of_nat (page_off va)) = page_no (f ?n)" using page_no_offset [OF k(2) off] .
    ultimately show ?thesis using k(1,3) off pte(2) by auto
  qed
  show "map_option get_pte_perm (pt_entry (mem s') to va) = map_option get_pte_perm (pt_entry (mem s) from va)"
    unfolding pt_entry_eq e using k(2) perm_bits(2) entry_present by (cases "entry (mem s) from ?n") auto
  show "translate (mem s') from va = translate (mem s) from va"
    unfolding translate_eq copied_from_source(3) [OF A C] ..
  show "mem s' q = mem s q" if "translate (mem s) from va = Some q"
  proof -
    obtain pte where pte: "entry (mem s) from ?n = Some pte" "q = pte_paddr pte + of_nat (page_off va)"
      by (rule translate_SomeE [OF \<open>translate (mem s) from va = Some q\<close>])
    have "page_no q = page_no (pte_paddr pte)" unfolding pte(2) using off by (intro page_no_offset) simp_all
    then show ?thesis using pte(1) n(1) by (intro copied_source [OF A C]) auto
  qed
qed

lemma copied_kernel_half:
  assumes "copied from to s s' n f" "va < MEMORY_TASK_BASE"
  shows "pt_entry (mem s') to va = pt_entry (mem s) to va"
proof -
  have "page_no va < 2 ^ 19" using assms(2) user_page_no [of va] by auto
  then show ?thesis using assms(1) by (simp add: pt_entry_eq copied_def)
qed

lemma copied_inj:
  assumes A: "apart from to s" and C: "copied from to s s' (2 ^ 20) f"
    and "MEMORY_TASK_BASE \<le> va" "MEMORY_TASK_BASE \<le> va'"
    and "translate (mem s') to va = Some p" "translate (mem s') to va' = Some p"
  shows "va = va'"
proof -
  have aw: "alloc_wf (paddr_alloc s)" using A by (simp add: apart_def vm_ok_def)
  have g: "page_no v \<in> user_pages (mem s) from (2 ^ 20) \<and> p = f (page_no v) + of_nat (page_off v) \<and> page_aligned (f (page_no v))"
    if v: "MEMORY_TASK_BASE \<le> v" "translate (mem s') to v = Some p" for v
  proof -
    have n: "2 ^ 19 \<le> page_no v" "page_no v < 2 ^ 20" "\<not> page_no v < 2 ^ 19" using v(1) user_page_no page_no_bound by auto
    have e: "entry (mem s') to (page_no v) = map_option (\<lambda>pte. f (page_no v) OR get_pte_perm pte OR PTE_P) (entry (mem s) from (page_no v))"
      using C n by (simp add: copied_def)
    then obtain pte where pte: "entry (mem s) from (page_no v) = Some pte" using v(2) by (auto simp: translate_eq)
    then have u: "page_no v \<in> user_pages (mem s) from (2 ^ 20)" using n by (simp add: user_pages_def)
    then have "f (page_no v) \<in> avail (paddr_alloc s)" using C by (auto simp: copied_def taken_def)
    then have fa: "page_aligned (f (page_no v))" using avail_aligned [OF aw] by blast
    have "p = f (page_no v) + of_nat (page_off v)"
      using v(2) e pte perm_bits(1) [OF fa entry_present [OF pte]] by (simp add: translate_eq page_off_and)
    with u fa show ?thesis by simp
  qed
  note g1 = g [OF assms(3,5)] and g2 = g [OF assms(4,6)]
  have o: "page_off v < 4096" for v by (simp add: page_off_def)
  have "page_no (f (page_no va)) = page_no (f (page_no va'))"
    using g1 g2 page_no_offset [OF _ o] by metis
  then have ff: "f (page_no va) = f (page_no va')" using g1 g2 page_no_inj by blast
  then have "page_no va = page_no va'" using g1 g2 C by (auto simp: copied_def dest: inj_onD)
  moreover have "page_off va = page_off va'"
  proof -
    have "of_nat (page_off va) = (of_nat (page_off va') :: u32)" using g1 g2 ff by simp
    moreover have "page_off va < 2 ^ 32" "page_off va' < 2 ^ 32" using o [of va] o [of va'] by simp_all
    ultimately show ?thesis using unat_of_nat_u32 by metis
  qed
  ultimately have "unat va = unat va'" by (metis div_mult_mod_eq page_no_def page_off_def)
  then show ?thesis by (simp only: word_unat_eq_iff)
qed

lemma memory_copy_uvm2_eq:
  assumes A: "apart from to s" and cr3: "cr3_reg s = from" and ret: "0 \<le> sint (undef_ret s)"
    and room: "2 * card (user_pages (mem s) from (2 ^ 20)) \<le> card (avail (paddr_alloc s))"
  obtains s' f where "memory_copy_uvm2 from to s = Inr (to, s')" "copied from to s s' (2 ^ 20) f"
proof -
  have to: "to \<noteq> 0" using A by (simp add: apart_def)
  from copy_user_pages_effect [OF A cr3 ret] show thesis
  proof (elim disjE exE conjE)
    fix s' f assume "copy_user_pages from to s = Inr (True, s')" "copied from to s s' (2 ^ 20) f"
    then show thesis using to by (intro that [of s' f]) (simp_all add: memory_copy_uvm2_def)
  next
    fix s' assume "copy_failed from s s'"
    then show thesis using room by (simp add: copy_failed_def)
  qed
qed

text \<open>C14: Copying the user half of the current address space. If two frames are free for every mapped user
  page, \<^verbatim>\<open>memory_copy_uvm2\<close> returns the target directory. Afterwards the target reads at every user
  address what the source read there, with the same permissions, and maps nothing else; each of its
  pages is a frame of its own that was free before, so the two spaces share no user page; the
  source reads what it read before, and the kernel half of the target is unchanged.
  The hypothesis on \<open>undef_ret\<close> is for \<^verbatim>\<open>memory_create_map\<close>, whose indeterminate result must not be negative.\<close>

theorem memory_copy_uvm2_copies:
  assumes "apart from to s" "cr3_reg s = from" "0 \<le> sint (undef_ret s)"
    and "2 * card (user_pages (mem s) from (2 ^ 20)) \<le> card (avail (paddr_alloc s))"
  shows "\<exists>s'. memory_copy_uvm2 from to s = Inr (to, s') \<and> vm_ok to s'
    \<and> (\<forall>va \<ge> MEMORY_TASK_BASE. (translate (mem s) from va = None \<longrightarrow> translate (mem s') to va = None)
         \<and> (\<forall>q. translate (mem s) from va = Some q \<longrightarrow> (\<exists>p. translate (mem s') to va = Some p
              \<and> mem s' p = mem s q \<and> mem s' q = mem s q \<and> page_no p \<in> page_no ` taken s s'))
         \<and> map_option get_pte_perm (pt_entry (mem s') to va) = map_option get_pte_perm (pt_entry (mem s) from va)
         \<and> translate (mem s') from va = translate (mem s) from va)
    \<and> (\<forall>va \<ge> MEMORY_TASK_BASE. \<forall>va' \<ge> MEMORY_TASK_BASE. translate (mem s') to va \<noteq> None
         \<and> translate (mem s') to va = translate (mem s') to va' \<longrightarrow> va = va')
    \<and> (\<forall>va < MEMORY_TASK_BASE. pt_entry (mem s') to va = pt_entry (mem s) to va)"
proof -
  obtain s' f where e: "memory_copy_uvm2 from to s = Inr (to, s')" and C: "copied from to s s' (2 ^ 20) f"
    by (rule memory_copy_uvm2_eq [OF assms])
  note v = copied_view [OF assms(1) C]
  have "vm_ok to s'" using C by (simp add: copied_def)
  moreover have "va = va'" if "MEMORY_TASK_BASE \<le> va" "MEMORY_TASK_BASE \<le> va'" "translate (mem s') to va \<noteq> None"
    "translate (mem s') to va = translate (mem s') to va'" for va va'
    using copied_inj [OF assms(1) C that(1,2)] that(3,4) by (cases "translate (mem s') to va") auto
  ultimately show ?thesis using e v copied_kernel_half [OF C] by (intro exI [of _ s'] conjI allI impI) metis+
qed

lemma demo_avail_card: "card (avail demo_alloc) = 16"
proof -
  have "{k. int k < bit_count (aa_bitmap demo_alloc)} = {..<16}" by auto
  moreover have "inj_on (frame demo_alloc) {..<16}"
    using frame_inj [OF demo_alloc_wf] by (auto simp: inj_on_def)
  ultimately show ?thesis by (simp add: demo_avail frames_def card_image)
qed

text \<open>Two address spaces, the first with one user page.\<close>

lemma demo_two_spaces:
  obtains s :: kmem where "apart 0x10000 0x11000 s" "cr3_reg s = 0x10000" "undef_ret s = 0"
    "user_pages (mem s) 0x10000 (2 ^ 20) = {2 ^ 19}" "card (avail (paddr_alloc s)) = 15"
    "translate (mem s) 0x10000 0x80000000 = Some 0x20000"
proof -
  let ?va = "0x80000000 :: addr"
  have pn: "page_no ?va = 2 ^ 19" "page_no (0x10000 :: addr) = 16" "page_no (0x11000 :: addr) = 17" by (simp_all add: page_no_def)
  have al: "page_aligned 0x10000" "page_aligned 0x11000" "page_aligned 0x20000" by (simp_all add: page_aligned_def)
  have n: "entry (mem demo_kmem) 0x10000 (page_no ?va) = None" by simp
  have fr: "256 \<le> page_no p" if "p \<in> avail (paddr_alloc demo_kmem)" for p
    using that demo_frame_page demo_avail by auto
  show thesis
  proof (rule map_one_page [OF demo_vm_ok n disjI2 [OF demo_avail_nonempty], of "0x20000" 6], goal_cases)
    case (1 s T)
    note m = 1
    let ?t = "pt_at (mem s) 0x10000 512" and ?s = "s\<lparr>cr3_reg := 0x10000\<rparr>"
    have T: "T = {?t}" using m(5) by (simp add: pn)
    have t: "?t \<in> avail (paddr_alloc demo_kmem)" using m(6) T by simp
    have has: "has_pt (mem s) 0x10000 j \<longleftrightarrow> j = 512" for j using m(8) by (simp add: pn)
    have e: "entry (mem s) 0x10000 = [2 ^ 19 \<mapsto> 0x20007]"
      using m(10) by (simp add: pn fun_eq_iff PTE_P_def)
    have zero: "mem s x = 0" if "page_no x = 17" for x
      using m(11) [of x] that pn fr [OF t] by simp
    have to: "\<not> has_pt (mem s) 0x11000 j" for j
    proof -
      have "pde_at (mem s) 0x11000 j = pde_at (\<lambda>_. 0) 0x11000 j" if "j < 1024"
        using al(2) that zero pn by (intro pde_at_cong) simp_all
      then show ?thesis by (auto simp: has_pt_def pde_at_def present_def)
    qed
    have av: "avail (paddr_alloc s) = avail (paddr_alloc demo_kmem) - {?t}" using m(7) T by simp
    have pta: "pte_paddr 0x20007 = 0x20000" by (simp add: pte_paddr_def)
    have nf: "p \<notin> avail (paddr_alloc demo_kmem)" if "page_no p < 256" for p using fr [of p] that by auto
    have "vm_ok 0x11000 ?s" using m(2) to nf [of "0x11000"] pn al av by (auto simp: vm_ok_def dir_wf_def)
    moreover have "page_no (0x11000 :: addr) \<notin> dir_pages (mem s) 0x10000"
      using pn has fr [OF t] by (auto simp: dir_pages_def)
    moreover have "vm_ok 0x10000 ?s" using m(2) by (simp add: vm_ok_def)
    ultimately have "apart 0x10000 0x11000 ?s"
      using to e pta nf [of "0x20000"] av by (auto simp: apart_def page_no_def)
    moreover have "undef_ret ?s = 0" using arg_cong [OF m(4), of undef_ret] by simp
    moreover have "user_pages (mem ?s) 0x10000 (2 ^ 20) = {2 ^ 19}" using e by (auto simp: user_pages_def split: if_splits)
    moreover have "card (avail (paddr_alloc ?s)) = 15" using av t demo_avail_card by simp
    moreover have "translate (mem ?s) 0x10000 ?va = Some 0x20000"
      using e pn pta by (simp add: translate_eq MEM_PAGE_SIZE_def)
    ultimately show thesis by (intro that [of ?s]) simp_all
  qed
qed

theorem memory_copy_uvm2_copies_witness:
  "\<exists>s s' p. memory_copy_uvm2 0x10000 0x11000 (s :: kmem) = Inr (0x11000, s')
     \<and> translate (mem s') 0x11000 0x80000000 = Some p \<and> mem s' p = mem s 0x20000"
proof -
  obtain s :: kmem where s: "apart 0x10000 0x11000 s" "cr3_reg s = 0x10000" "undef_ret s = 0"
    "user_pages (mem s) 0x10000 (2 ^ 20) = {2 ^ 19}" "card (avail (paddr_alloc s)) = 15"
    "translate (mem s) 0x10000 0x80000000 = Some 0x20000" by (rule demo_two_spaces)
  have "MEMORY_TASK_BASE \<le> 0x80000000" by (simp add: MEMORY_TASK_BASE_def)
  then show ?thesis
    using memory_copy_uvm2_copies [OF s(1,2)] s(3-6) by simp blast
qed

end
