(* ===== verification/Fork.thy ===== *)
theory Fork
  imports Task Copy
begin

text \<open>
  \<^verbatim>\<open>sys_fork\<close> (\<^verbatim>\<open>src/source/kernel/core/task.c\<close>): the whole system call, from the block of the child over its
  task state segment and the copy of the address space to the lists of the scheduler.

  \<^item> \<open>user_task\<close> is what a task that calls \<^verbatim>\<open>fork\<close> satisfies, and satisfies again afterwards;
    \<open>space_ok\<close> is the invariant of an address space, \<open>task_lists\<close> that of the lists of tasks.
  \<^item> \<open>fork_child\<close> is the state when the copy of the address space begins.
\<close>

text \<open>
  The address space of a user task: the directory is well-formed and the frames it maps in the user
  half are in use.
\<close>

definition space_ok :: "addr \<Rightarrow> 's kmem_scheme \<Rightarrow> bool" where
  "space_ok dir s \<longleftrightarrow> vm_ok dir s
     \<and> (\<forall>n pte. 2 ^ 19 \<le> n \<longrightarrow> entry (mem s) dir n = Some pte \<longrightarrow> pte_paddr pte \<notin> avail (paddr_alloc s))"

text \<open>The frame of a system call lies at the end of the kernel stack, a page in use.\<close>

definition kernel_stack_ok :: "addr \<Rightarrow> 's kernel_scheme \<Rightarrow> bool" where
  "kernel_stack_ok t s \<longleftrightarrow> (\<exists>ks. page_aligned ks \<and> ks \<notin> avail (paddr_alloc s)
     \<and> tss_esp0 (t_tss (tasks s t)) = ks + MEM_PAGE_SIZE)"

lemma read_frame_cong:
  assumes "\<And>i. i < 88 \<Longrightarrow> m' (a + of_nat i) = m (a + of_nat i)"
  shows "read_frame m' a = read_frame m a"
proof -
  have b: "m' (a + w) = m (a + w)" if "w < 88" for w :: addr
    using assms [of "unat w"] that by (simp add: word_less_nat_alt)
  have l: "load32 m' (a + k) = load32 m (a + k)" if "k \<le> 84" for k :: addr
  proof -
    have "k < 88" "k + 1 < 88" "k + 2 < 88" "k + 3 < 88" using \<open>k \<le> 84\<close> by uint_arith+
    then show ?thesis by (simp only: load32_def add.assoc b)
  qed
  show ?thesis using l [of 0] by (simp add: read_frame_def l)
qed


lemma read_frame_page:
  assumes "page_aligned ks" "\<And>x. page_no x = page_no ks \<Longrightarrow> m' x = m x"
  shows "read_frame m' (ks + MEM_PAGE_SIZE - frame_size) = read_frame m (ks + MEM_PAGE_SIZE - frame_size)"
proof (rule read_frame_cong, rule assms(2))
  fix i :: nat assume "i < 88"
  then have "page_no (ks + of_nat (4008 + i)) = page_no ks" by (intro page_no_offset assms(1)) simp_all
  then show "page_no (ks + MEM_PAGE_SIZE - frame_size + of_nat i) = page_no ks"
    by (simp add: MEM_PAGE_SIZE_def algebra_simps)
qed

text \<open>The directories of parent and child when the copy begins.\<close>

lemma fork_apart:
  assumes sp: "space_ok from s" and dir: "dir \<in> avail (paddr_alloc s)" "dir \<noteq> 0"
    and s1: "alloc_wf (paddr_alloc s1)" "avail (paddr_alloc s1) \<subseteq> avail (paddr_alloc s)"
      "dir_wf (mem s1) dir (paddr_alloc s1)" "\<And>j. has_pt (mem s1) dir j \<Longrightarrow> j < 512"
      "\<And>x. page_no x \<noteq> page_no dir \<Longrightarrow> mem s1 x = mem s x"
  shows "apart from dir s1" and "entry (mem s1) from n = entry (mem s) from n"
proof -
  have wf: "dir_wf (mem s) from (paddr_alloc s)" "alloc_wf (paddr_alloc s)" using sp by (simp_all add: space_ok_def vm_ok_def)
  have nd: "page_no dir \<notin> dir_pages (mem s) from" by (rule dir_pages_apart [OF wf dir(1)])
  have same: "mem s1 x = mem s x" if "page_no x \<in> dir_pages (mem s) from" for x using s1(5) that nd by metis
  have al: "page_aligned from" using wf(1) by (simp add: dir_wf_def)
  note c = dir_cong [OF al, of "mem s" "mem s1", OF same]
  show e: "entry (mem s1) from n = entry (mem s) from n" for n by (rule c(3))
  have "dir_wf (mem s1) from (paddr_alloc s1)" by (rule dir_wf_cong [OF wf(1) same s1(2)])
  moreover have "dir_pages (mem s1) from = dir_pages (mem s) from"
    using c(1,2) by (intro dir_pages_same) (auto simp: has_pt_def)
  ultimately show "apart from dir s1"
    using s1 dir sp nd e unfolding apart_def vm_ok_def space_ok_def by (metis subsetD)
qed

text \<open>After the copy both are address spaces.\<close>

lemma copied_spaces:
  assumes A: "apart from to s" and C: "copied from to s s' (2 ^ 20) f"
  shows "space_ok from s'" and "space_ok to s'"
proof -
  have av: "avail (paddr_alloc s') \<subseteq> avail (paddr_alloc s)" "taken s s' = avail (paddr_alloc s) - avail (paddr_alloc s')"
    using C by (simp_all add: copied_def taken_def)
  have wf: "dir_wf (mem s) from (paddr_alloc s)" "alloc_wf (paddr_alloc s)" using A by (simp_all add: apart_def vm_ok_def)
  have m: "mem s' x = mem s x" if "page_no x \<in> dir_pages (mem s) from" for x
    using copied_source [OF A C] that by blast
  have "dir_wf (mem s') from (paddr_alloc s')" by (rule dir_wf_cong [OF wf(1) m av(1)])
  then show "space_ok from s'"
    using A C av copied_from_source(3) [OF A C] unfolding space_ok_def apart_def copied_def vm_ok_def by (metis subsetD)
  show "space_ok to s'" unfolding space_ok_def
  proof (intro conjI allI impI)
    show "vm_ok to s'" using C by (simp add: copied_def)
    fix n pte assume n: "2 ^ 19 \<le> n" "entry (mem s') to n = Some pte"
    have "\<not> n < 2 ^ 19" using n(1) by simp
    then obtain pte0 where e: "n < 2 ^ 20" "entry (mem s) from n = Some pte0" "pte = f n OR get_pte_perm pte0 OR PTE_P"
      using n(2) C by (auto simp: copied_def split: if_splits)
    then have u: "n \<in> user_pages (mem s) from (2 ^ 20)" using n(1) by (simp add: user_pages_def)
    then have t: "f n \<in> taken s s'" using C by (simp add: copied_def)
    have "page_aligned (f n)" using avail_aligned [OF wf(2)] t av(2) by auto
    then have "pte_paddr pte = f n" using perm_bits(1) [of "f n" pte0] entry_present e by simp
    then show "pte_paddr pte \<notin> avail (paddr_alloc s')" using t av(2) by simp
  qed
qed

lemma task_start_eq:
  assumes "t \<noteq> idle_task s"
  obtains l h where "task_start t s = s\<lparr>ready_list := l, nodes := h,
    tasks := (tasks s)(t := (tasks s t)\<lparr>t_state := TASK_READY\<rparr>)\<rparr>" "h = nodes (task_start t s)"
proof -
  obtain l h where "list_insert_back (ready_list s) (run_node t) (nodes s) = (l, h)" by fastforce
  then show thesis using assms
    by (intro that [where l = l and h = h]) (simp_all add: task_start_def irq_defs task_set_ready_def upd_task_def)
qed

text \<open>A new task does not disturb the lists of the scheduler.\<close>

lemma sched_rep_new_task:
  assumes r: "sched_rep T s rs ss" and c: "c \<in> T" "c \<notin> set rs \<union> set ss" and xs: "set xs \<subseteq> T"
    and s1: "ready_list s1 = ready_list s" "sleep_list s1 = sleep_list s" "idle_task s1 = idle_task s"
      "\<And>x. x \<notin> {all_node c, run_node c, wait_node c} \<union> set (map all_node xs) \<Longrightarrow> nodes s1 x = nodes s x"
  shows "sched_rep T s1 rs ss"
proof -
  have lay: "task_layout T" and sub: "set rs \<subseteq> T" "set ss \<subseteq> T" using r by (simp_all add: sched_rep_def)
  have n: "nodes s1 (run_node t) = nodes s (run_node t)" if "t \<in> T" "t \<noteq> c" for t
  proof (rule s1(4))
    have "run_node t \<noteq> all_node u" "run_node t \<noteq> wait_node u" if "u \<in> T" for u
      using lay that \<open>t \<in> T\<close> by (simp_all add: task_layout_def)
    moreover have "run_node t \<noteq> run_node c" using that(2) by (simp add: run_node_def)
    ultimately show "run_node t \<notin> {all_node c, run_node c, wait_node c} \<union> set (map all_node xs)"
      using c(1) xs by auto
  qed
  have "dlist (nodes s1) l (map run_node ys) = dlist (nodes s) l (map run_node ys)"
    if "set ys \<subseteq> T" "c \<notin> set ys" for l ys
  proof (rule dlist_cong)
    fix a assume "a \<in> set (map run_node ys)"
    then obtain t where t: "t \<in> set ys" "a = run_node t" by auto
    show "nodes s1 a = nodes s a" unfolding t(2) using t(1) that by (intro n) auto
  qed
  then show ?thesis using r c(2) sub s1(1-3) by (simp add: sched_rep_def)
qed

text \<open>The nodes of a new task are free for the list of all tasks.\<close>

lemma new_task_nodes:
  assumes "task_layout T" "c \<in> T" "set xs \<subseteq> T" "c \<notin> set xs" "distinct xs"
  shows "{all_node c, run_node c, wait_node c} \<inter> set (map all_node xs) = {}" "all_node c \<noteq> 0"
    "Suc (length (map all_node xs)) < 2 ^ 31"
proof -
  have "all_node c \<noteq> all_node x" if "x \<in> set xs" for x using that assms(4) by (auto simp: all_node_def)
  moreover have "run_node c \<noteq> all_node x" "wait_node c \<noteq> all_node x" if "x \<in> set xs" for x
    using that assms(1-3) unfolding task_layout_def by (metis subsetD)+
  ultimately show "{all_node c, run_node c, wait_node c} \<inter> set (map all_node xs) = {}" by auto
  show "all_node c \<noteq> 0" using assms(1,2) by (simp add: task_layout_def)
  show "Suc (length (map all_node xs)) < 2 ^ 31" using task_layout_length [OF assms(1,5,3)] by simp
qed

text \<open>The registers that the child takes over from the frame of the system call.\<close>

definition fork_tss :: "syscall_frame_t \<Rightarrow> tss_t \<Rightarrow> tss_t" where
  "fork_tss fr t = t\<lparr>tss_eax := 0, tss_ebx := sf_ebx fr, tss_ecx := sf_ecx fr, tss_edx := sf_edx fr, tss_esi := sf_esi fr,
     tss_edi := sf_edi fr, tss_ebp := sf_ebp fr, tss_cs := sf_cs fr, tss_ds := sf_ds fr, tss_es := sf_es fr,
     tss_fs := sf_fs fr, tss_gs := sf_gs fr, tss_eflags := sf_eflags fr\<rparr>"

definition parent_dir :: "'s sched_scheme \<Rightarrow> addr" where
  "parent_dir s = tss_cr3 (t_tss (tasks s (curr_task s)))"

definition parent_frame :: "'s kernel_scheme \<Rightarrow> syscall_frame_t" where
  "parent_frame s = read_frame (mem s) (tss_esp0 (t_tss (tasks s (curr_task s))) - frame_size)"

text \<open>The running task is a named user task that may call \<^verbatim>\<open>fork\<close>.\<close>

definition user_task :: "'s kernel_scheme \<Rightarrow> bool" where
  "user_task s \<longleftrightarrow> space_ok (parent_dir s) s \<and> cr3_reg s = parent_dir s \<and> kernel_stack_ok (curr_task s) s
     \<and> t_name (tasks s (curr_task s)) ! 0 \<noteq> 0"

text \<open>The lists of the kernel: ready tasks \<open>rs\<close>, sleeping tasks \<open>ss\<close>, all tasks \<open>xs\<close>.\<close>

definition task_lists :: "addr set \<Rightarrow> 's sched_scheme \<Rightarrow> addr list \<Rightarrow> addr list \<Rightarrow> addr list \<Rightarrow> bool" where
  "task_lists T s rs ss xs \<longleftrightarrow> sched_rep T s rs ss \<and> dlist (nodes s) (task_list s) (map all_node xs) \<and> set xs \<subseteq> T"

text \<open>The state at the copy of the address space: the child's block is filled in.\<close>

definition fork_child :: "addr \<Rightarrow> addr \<Rightarrow> 's kernel_scheme \<Rightarrow> 's kernel_scheme \<Rightarrow> bool" where
  "fork_child c dir s s2 \<longleftrightarrow> (\<exists>ks name i. {ks, dir} \<subseteq> avail (paddr_alloc s) \<and> ks \<noteq> dir \<and> dir \<noteq> 0
     \<and> avail (paddr_alloc s2) = avail (paddr_alloc s) - {ks, dir} \<and> alloc_wf (paddr_alloc s2)
     \<and> dir_wf (mem s2) dir (paddr_alloc s2) \<and> (\<forall>j. has_pt (mem s2) dir j \<longrightarrow> j < 512)
     \<and> (\<forall>n. entry (mem s2) dir n = (if n < 2 ^ 19 then entry (mem s) (kernel_page_dir s) n else None))
     \<and> (\<forall>x. page_no x \<noteq> page_no dir \<longrightarrow> mem s2 x = mem s x)
     \<and> tasks s2 = (tasks s)(c := (tasks s c)\<lparr>t_tss_sel := i, t_name := name, t_state := TASK_CREATED, t_sleep_ticks := 0,
         t_time_ticks := TASK_TIME_SLICE_DEFAULT, t_slice_ticks := TASK_TIME_SLICE_DEFAULT, t_pid := c,
         t_tss := fork_tss (parent_frame s) (new_tss (sf_eip (parent_frame s)) (sf_esp (parent_frame s) + 20) ks
           (code_selector 0 s) (data_selector 0 s) dir), t_parent := curr_task s\<rparr>))"

lemma two_frames:
  assumes "2 \<le> card A"
  obtains p q where "{p, q} \<subseteq> A" "p \<noteq> q"
proof -
  obtain B where "B \<subseteq> A" "card B = 2" using obtain_subset_with_card_n [OF assms] by blast
  then show thesis using that by (auto simp: card_2_iff)
qed

text \<open>Initialising a task that is in no list.\<close>

lemma task_init_full:
  assumes k: "kernel_ready s" "gdt_find_free 1 (gdt_table s) = Some i" "2 \<le> card (avail (paddr_alloc s))"
    and l: "task_lists T s rs ss xs" "c \<in> T" "c \<notin> set rs \<union> set ss \<union> set xs"
  obtains s2 ks dir where "task_init c name view flg ent esp s = Inr (0, s2)" "task_lists T s2 rs ss (xs @ [c])"
    "s2 = s\<lparr>gdt_mutex := gdt_mutex s2, gdt_table := (gdt_table s)[i := make_segment_desc (c + 80) 104 0x89], mem := mem s2,
       paddr_alloc := paddr_alloc s2, tasks := (tasks s)(c := tasks s2 c), nodes := nodes s2, task_list := task_list s2\<rparr>"
    "t_tss (tasks s2 c) = new_tss ent esp ks (code_selector flg s) (data_selector flg s) dir" "t_tss_sel (tasks s2 c) = of_nat i * 8"
    "alloc_wf (paddr_alloc s2)" "{ks, dir} \<subseteq> avail (paddr_alloc s)" "dir \<noteq> 0" "ks \<noteq> dir"
    "avail (paddr_alloc s2) = avail (paddr_alloc s) - {ks, dir}" "dir_wf (mem s2) dir (paddr_alloc s2)"
    "\<And>n. entry (mem s2) dir n = (if n < 2 ^ 19 then entry (mem s) (kernel_page_dir s) n else None)"
    "\<And>x. page_no x \<noteq> page_no dir \<Longrightarrow> mem s2 x = mem s x" "\<And>j. has_pt (mem s2) dir j \<Longrightarrow> j < 512"
    "dir_pages (mem s2) dir \<subseteq> insert (page_no dir) (dir_pages (mem s) (kernel_page_dir s))"
    "tasks s2 c = (tasks s c)\<lparr>t_tss_sel := of_nat i * 8, t_name := t_name (tasks s2 c), t_state := TASK_CREATED, t_sleep_ticks := 0,
       t_time_ticks := TASK_TIME_SLICE_DEFAULT, t_slice_ticks := TASK_TIME_SLICE_DEFAULT, t_pid := c,
       t_tss := new_tss ent esp ks (code_selector flg s) (data_selector flg s) dir, t_parent := 0\<rparr>"
    "mutex_free (gdt_mutex s2)" "frames (paddr_alloc s2) = frames (paddr_alloc s)"
proof -
  obtain p q where pq: "{p, q} \<subseteq> avail (paddr_alloc s)" "p \<noteq> q" using two_frames [OF k(3)] by auto
  show thesis
  proof (rule tss_init_full [OF k(1,2) pq, of c flg ent esp], goal_cases)
    case (1 ks dir m al gmx)
    note t = this
    let ?s1 = "s\<lparr>gdt_mutex := gmx, gdt_table := (gdt_table s)[i := make_segment_desc (c + 80) 104 0x89],
       mem := m, paddr_alloc := al, tasks := (tasks s)(c := (tasks s c)\<lparr>t_tss := new_tss ent
         esp ks (code_selector flg s) (data_selector flg s) dir, t_tss_sel := of_nat i * 8\<rparr>)\<rparr>"
    have lay: "task_layout T" "set xs \<subseteq> T" "dlist (nodes s) (task_list s) (map all_node xs)"
      using l(1) by (simp_all add: task_lists_def sched_rep_def)
    have c0: "c \<noteq> 0" using lay(1) l(2) by (auto simp: task_layout_def)
    have "distinct xs" using kl.rep_distinct [OF lay(3)] by (simp add: distinct_map)
    note nn = new_task_nodes [OF lay(1) l(2) lay(2) _ this]
    have d1: "dlist (nodes ?s1) (task_list ?s1) (map all_node xs)" using lay(3) by simp
    show ?case
    proof (rule task_init_rest [OF c0 t(1) d1, of name view], goal_cases)
      case (4 ln h)
      note r = this
      let ?s2 = "?s1\<lparr>nodes := h, task_list := ln, tasks := (tasks ?s1)(c := (set_task_name c name (view ?s1) (tasks ?s1 c))\<lparr>
          t_state := TASK_CREATED, t_sleep_ticks := 0,
          t_time_ticks := TASK_TIME_SLICE_DEFAULT, t_slice_ticks := TASK_TIME_SLICE_DEFAULT, t_parent := 0, t_pid := c\<rparr>)\<rparr>"
      have li: "task_lists T ?s2 rs ss (xs @ [c])"
        unfolding task_lists_def
      proof (intro conjI)
        show "sched_rep T ?s2 rs ss"
          by (rule sched_rep_new_task [of T s rs ss c xs]) (use l r(3) in \<open>simp_all add: task_lists_def\<close>)
        show "dlist (nodes ?s2) (task_list ?s2) (map all_node (xs @ [c]))" using r(2) by simp
        show "set (xs @ [c]) \<subseteq> T" using l(2) lay(2) by simp
      qed
      show ?case
        by (rule that [OF r(1) li, of ks dir]) (use t in \<open>simp_all add: set_task_name_def Let_def\<close>)
    qed (use nn l(3) in auto)
  qed
qed

text \<open>\<^verbatim>\<open>sys_fork\<close> up to the copy of the address space.\<close>

lemma sys_fork_prefix:
  assumes k: "kernel_ready s" "mutex_free (task_table_mutex s)" "gdt_find_free 1 (gdt_table s) \<noteq> None" "2 \<le> card (avail (paddr_alloc s))"
    and c: "find_unnamed TASK_NR (task_table env) (tasks s) = c" "c \<noteq> 0"
    and u: "kernel_stack_ok (curr_task s) s" "c \<noteq> curr_task s"
    and l: "task_lists T s rs ss xs" "c \<in> T" "c \<notin> set rs \<union> set ss \<union> set xs"
  obtains s2 dir where "fork_child c dir s s2" "task_lists T s2 rs ss (xs @ [c])"
    "cr3_reg s2 = cr3_reg s" "undef_ret s2 = undef_ret s" "curr_task s2 = curr_task s" "idle_task s2 = idle_task s"
    "sys_fork env s = bindR (memory_copy_uvm2 (parent_dir s) dir s2) (\<lambda>cr3 s.
       let s = task_start c (upd_task c (t_tss_update (tss_cr3_update (\<lambda>_. cr3))) s) in Inr (t_pid (tasks s c), s))"
proof -
  obtain mx where a: "alloc_task env s = Inr (c, s\<lparr>task_table_mutex := mx\<rparr>)"
    using alloc_task_eq [OF k(2), of env] c(1) by metis
  let ?s0 = "s\<lparr>task_table_mutex := mx\<rparr>"
  let ?fr = "parent_frame s"
  obtain i where i: "gdt_find_free 1 (gdt_table ?s0) = Some i" using k(3) by auto
  have rdy: "kernel_ready ?s0" and room: "2 \<le> card (avail (paddr_alloc ?s0))" and l0: "task_lists T ?s0 rs ss xs"
    using k(1,4) l(1) by (simp_all add: kernel_ready_def gdt_ready_def task_lists_def sched_rep_def)
  show thesis
  proof (rule task_init_full [OF rdy i room l0 l(2,3), of "curr_task s + 4" "\<lambda>s'. name_over (curr_task s) (tasks s' (curr_task s)) (mem s')"
      TASK_FLAGS_USER "sf_eip ?fr" "sf_esp ?fr + 4 * ucast SYSCALL_PARAM_COUNT"], goal_cases)
    case (1 s2 ks dir)
    note t = this
    let ?s3 = "upd_task c (\<lambda>t. t\<lparr>t_tss := fork_tss ?fr (t_tss t), t_parent := curr_task s\<rparr>) s2"
    have other: "tasks s2 p = tasks s p" if "p \<noteq> c" for p using that by (subst t(3)) simp
    obtain kp where kp: "page_aligned kp" "kp \<notin> avail (paddr_alloc s)" "tss_esp0 (t_tss (tasks s (curr_task s))) = kp + MEM_PAGE_SIZE"
      using u(1) by (auto simp: kernel_stack_ok_def)
    have al0: "alloc_wf (paddr_alloc s)" using k(1) by (simp add: kernel_ready_def)
    have dir: "{ks, dir} \<subseteq> avail (paddr_alloc s)" using t(7) by simp
    then have "page_no kp \<noteq> page_no dir" using page_no_inj [OF kp(1) avail_aligned [OF al0]] kp(2) by blast
    then have f2: "read_frame (mem s2) (tss_esp0 (t_tss (tasks s (curr_task s))) - frame_size) = ?fr"
      unfolding parent_frame_def kp(3) using t(13) by (intro read_frame_page kp(1)) simp
    have e: "sys_fork env s = bindR (memory_copy_uvm2 (parent_dir s) dir ?s3) (\<lambda>cr3 s.
       let s = task_start c (upd_task c (t_tss_update (tss_cr3_update (\<lambda>_. cr3))) s) in Inr (t_pid (tasks s c), s))"
    proof -
      have f0: "read_frame (mem ?s0) (tss_esp0 (t_tss (tasks ?s0 (curr_task s))) - frame_size) = ?fr"
        by (simp add: parent_frame_def)
      have g2: "read_frame (mem s2) (tss_esp0 (t_tss (tasks s2 (curr_task s))) - frame_size) = ?fr"
        using f2 u(2) other by simp
      have d3: "tss_cr3 (t_tss (tasks ?s3 (curr_task s))) = parent_dir s" "tss_cr3 (t_tss (tasks ?s3 c)) = dir"
        using u(2) other t(4) by (simp_all add: upd_task_def parent_dir_def fork_tss_def new_tss_def)
      have z: "(sint (0 :: u32) < 0) = False" "(c = 0) = False" using c(2) by simp_all
      show ?thesis
        by (simp only: sys_fork_def task_current_def Let_def a bindR_Inr f0 t(1) z g2 if_False fork_tss_def [symmetric] d3)
    qed
    have s3: "mem ?s3 = mem s2" "paddr_alloc ?s3 = paddr_alloc s2" by (simp_all add: upd_task_def)
    have "(tasks s2 c)\<lparr>t_tss := fork_tss ?fr (t_tss (tasks s2 c)), t_parent := curr_task s\<rparr> = (tasks s c)\<lparr>t_tss_sel := of_nat i * 8,
        t_name := t_name (tasks s2 c), t_state := TASK_CREATED, t_sleep_ticks := 0, t_time_ticks := TASK_TIME_SLICE_DEFAULT,
        t_slice_ticks := TASK_TIME_SLICE_DEFAULT, t_pid := c, t_tss := fork_tss ?fr (new_tss (sf_eip ?fr)
          (sf_esp ?fr + 20) ks (code_selector 0 s) (data_selector 0 s) dir), t_parent := curr_task s\<rparr>"
      unfolding t(4) by (subst t(16)) (simp add: code_selector_def data_selector_def TASK_FLAGS_USER_def SYSCALL_PARAM_COUNT_def)
    moreover have "tasks s2 = (tasks s)(c := tasks s2 c)" by (subst t(3)) simp
    ultimately have ts: "tasks ?s3 = (tasks s)(c := (tasks s c)\<lparr>t_tss_sel := of_nat i * 8,
        t_name := t_name (tasks s2 c), t_state := TASK_CREATED, t_sleep_ticks := 0, t_time_ticks := TASK_TIME_SLICE_DEFAULT,
        t_slice_ticks := TASK_TIME_SLICE_DEFAULT, t_pid := c, t_tss := fork_tss ?fr (new_tss (sf_eip ?fr)
          (sf_esp ?fr + 20) ks (code_selector 0 s) (data_selector 0 s) dir), t_parent := curr_task s\<rparr>)"
      unfolding upd_task_def by (simp del: unsigned_numeral) (metis fun_upd_upd)
    have ch: "fork_child c dir s ?s3"
      unfolding fork_child_def s3 ts
      by (rule exI [of _ ks], rule exI [of _ "t_name (tasks s2 c)"], rule exI [of _ "of_nat i * 8"], intro conjI allI impI)
        (use dir t(6,8-14) in simp_all)
    have li: "task_lists T ?s3 rs ss (xs @ [c])" using t(2) by (simp add: task_lists_def sched_rep_def upd_task_def)
    have fr: "cr3_reg s2 = cr3_reg s" "undef_ret s2 = undef_ret s" "curr_task s2 = curr_task s" "idle_task s2 = idle_task s"
      by (subst t(3), simp)+
    show ?case
      by (rule that [OF ch li _ _ _ _ e]) (simp_all add: upd_task_def fr)
  qed
qed

lemma unnamed_not_running:
  "find_unnamed n cur ts = c \<Longrightarrow> c \<noteq> 0 \<Longrightarrow> t_name (ts p) ! 0 \<noteq> 0 \<Longrightarrow> c \<noteq> p"
  using find_unnamed_first [of n cur ts c] by auto

lemma user_pages_cong: "(\<And>n. entry m' dir n = entry m dir n) \<Longrightarrow> user_pages m' dir k = user_pages m dir k"
  by (simp add: user_pages_def)

lemma task_start_lists:
  assumes l: "task_lists T s rs ss xs" and t: "t \<in> T" "t \<noteq> idle_task s" "t \<notin> set rs \<union> set ss"
  shows "task_lists T (task_start t s) (rs @ [t]) ss xs"
proof -
  have r: "sched_rep T s rs ss" and sub: "set xs \<subseteq> T" and d: "dlist (nodes s) (task_list s) (map all_node xs)"
    using l by (simp_all add: task_lists_def)
  have "sched_rep T (cli s) rs ss" using r by (simp add: sched_rep_def cli_def)
  from task_set_ready_rep(2) [OF this t(1) _ t(3)] have f: "run_frame T s (task_start t s)"
    using t(2) by (simp add: run_frame_def task_start_def irq_defs task_set_ready_def upd_task_def split: prod.splits)
  have tl: "task_list (task_start t s) = task_list s"
    by (simp add: task_start_def irq_defs task_set_ready_def upd_task_def split: prod.splits)
  have "dlist (nodes (task_start t s)) (task_list s) (map all_node xs) = dlist (nodes s) (task_list s) (map all_node xs)"
  proof (rule dlist_cong)
    fix a assume "a \<in> set (map all_node xs)"
    then have "a \<notin> run_node ` T" using r sub by (force simp: sched_rep_def task_layout_def)
    then show "nodes (task_start t s) a = nodes s a" using f by (simp add: run_frame_def)
  qed
  then show ?thesis using task_start_rep(1) [OF r t] d sub by (simp add: task_lists_def tl)
qed

text \<open>The whole of \<^verbatim>\<open>sys_fork\<close>.\<close>

lemma sys_fork_eq:
  assumes k: "kernel_ready s" "mutex_free (task_table_mutex s)" "gdt_find_free 1 (gdt_table s) \<noteq> None" "0 \<le> sint (undef_ret s)"
    and c: "find_unnamed TASK_NR (task_table env) (tasks s) = c" "c \<noteq> 0"
    and u: "user_task s" and l: "task_lists T s rs ss xs" "c \<in> T" "c \<noteq> idle_task s" "c \<notin> set rs \<union> set ss \<union> set xs"
    and room: "2 * card (user_pages (mem s) (parent_dir s) (2 ^ 20)) + 2 \<le> card (avail (paddr_alloc s))"
  obtains s2 s3 s4 dir f lr h where "fork_child c dir s s2" "apart (parent_dir s) dir s2" "copied (parent_dir s) dir s2 s3 (2 ^ 20) f"
    "s4 = s3\<lparr>ready_list := lr, nodes := h, tasks := (tasks s3)(c := (tasks s3 c)\<lparr>t_state := TASK_READY\<rparr>)\<rparr>"
    "task_lists T s4 (rs @ [c]) ss (xs @ [c])" "cr3_reg s3 = cr3_reg s" "curr_task s3 = curr_task s" "tasks s3 = tasks s2"
    "\<And>n. entry (mem s2) (parent_dir s) n = entry (mem s) (parent_dir s) n"
    "sys_fork env s = Inr (c, s4)"
proof -
  note res = that
  have nc: "c \<noteq> curr_task s" using unnamed_not_running [OF c] u by (simp add: user_task_def)
  have st: "kernel_stack_ok (curr_task s) s" and cr: "cr3_reg s = parent_dir s" and sp: "space_ok (parent_dir s) s"
    using u by (simp_all add: user_task_def)
  have r2: "2 \<le> card (avail (paddr_alloc s))" using room by simp
  show thesis
  proof (rule sys_fork_prefix [OF k(1-3) r2 c st nc l(1,2,4)], goal_cases)
    case (1 s2 dir)
    note p = this
    obtain ks where w: "{ks, dir} \<subseteq> avail (paddr_alloc s)" "ks \<noteq> dir" "dir \<noteq> 0" "alloc_wf (paddr_alloc s2)"
      "avail (paddr_alloc s2) = avail (paddr_alloc s) - {ks, dir}" "dir_wf (mem s2) dir (paddr_alloc s2)"
      "\<And>j. has_pt (mem s2) dir j \<Longrightarrow> j < 512" "\<And>x. page_no x \<noteq> page_no dir \<Longrightarrow> mem s2 x = mem s x"
      using p(1) unfolding fork_child_def by blast
    have sub: "dir \<in> avail (paddr_alloc s)" "avail (paddr_alloc s2) \<subseteq> avail (paddr_alloc s)" using w(1,5) by auto
    have ap: "apart (parent_dir s) dir s2" and e: "\<And>n. entry (mem s2) (parent_dir s) n = entry (mem s) (parent_dir s) n"
      using fork_apart [OF sp sub(1) w(3,4) sub(2) w(6)] w(7,8) by blast+
    have "card (avail (paddr_alloc s2)) = card (avail (paddr_alloc s)) - 2"
      using w(1,2,5) by (simp add: card_Diff_subset)
    then have room2: "2 * card (user_pages (mem s2) (parent_dir s) (2 ^ 20)) \<le> card (avail (paddr_alloc s2))"
      using room by (simp add: user_pages_def e)
    have cr2: "cr3_reg s2 = parent_dir s" using p(3) cr by simp
    have u2: "0 \<le> sint (undef_ret s2)" using p(4) k(4) by simp
    show ?case
    proof (rule memory_copy_uvm2_eq [OF ap cr2 u2 room2], goal_cases)
      case (1 s3 f)
      note m = this
      have s3: "s3 = s2\<lparr>mem := mem s3, paddr_alloc := paddr_alloc s3\<rparr>" using m(2) by (simp add: copied_def)
      note s3' = arg_cong [OF s3, of tasks] arg_cong [OF s3, of idle_task] arg_cong [OF s3, of curr_task] arg_cong [OF s3, of cr3_reg]
        arg_cong [OF s3, of ready_list] arg_cong [OF s3, of sleep_list] arg_cong [OF s3, of nodes] arg_cong [OF s3, of task_list]
      have cr3: "tss_cr3 (t_tss (tasks s3 c)) = dir" and pid: "t_pid (tasks s3 c) = c"
        using p(1) s3'(1) by (auto simp: fork_child_def fork_tss_def new_tss_def)
      have "upd_task c (t_tss_update (tss_cr3_update (\<lambda>_. dir))) s3 = s3"
      proof -
        have "t_tss_update (tss_cr3_update (\<lambda>_. dir)) (tasks s3 c) = tasks s3 c"
          unfolding cr3 [symmetric] by (intro task_t.equality) (simp_all add: tss_t.equality)
        then show ?thesis by (simp add: upd_task_def)
      qed
      then have e4: "sys_fork env s = Inr (t_pid (tasks (task_start c s3) c), task_start c s3)"
        by (simp add: p(7) m(1) bindR_Inr Let_def)
      have li3: "task_lists T s3 rs ss (xs @ [c])"
        using p(2) s3' by (simp add: task_lists_def sched_rep_def)
      have idle: "c \<noteq> idle_task s3" using l(3) p(6) s3'(2) by simp
      have cc: "c \<notin> set rs \<union> set ss" using l(4) by simp
      note li4 = task_start_lists [OF li3 l(2) idle cc]
      obtain lr h where s4: "task_start c s3 = s3\<lparr>ready_list := lr, nodes := h, tasks := (tasks s3)(c := (tasks s3 c)\<lparr>t_state := TASK_READY\<rparr>)\<rparr>"
        by (rule task_start_eq [OF idle])
      show ?case
        by (rule res [OF p(1) ap m(2) s4 li4 _ _ _ e]) (use e4 s4 pid p(3,5) s3' in simp_all)
    qed
  qed
qed

text \<open>What a mapped user address refers to lies outside the free frames and the new directory.\<close>

lemma apart_target:
  assumes A: "apart from to s" and va: "MEMORY_TASK_BASE \<le> va" and t: "translate (mem s) from va = Some q"
  shows "page_no q \<noteq> page_no to" "page_no q \<notin> page_no ` avail (paddr_alloc s)"
proof -
  obtain pte where e: "entry (mem s) from (page_no va) = Some pte" "q = pte_paddr pte + (va AND (MEM_PAGE_SIZE - 1))"
    using t by (auto simp: translate_eq)
  have "page_no q = page_no (pte_paddr pte)"
    using page_no_offset [of "pte_paddr pte" "page_off va"] paddr_aligned e(2) page_off_and [of va]
    by (simp add: page_off_def MEM_PAGE_SIZE_def)
  then have "\<exists>n pte. 2 ^ 19 \<le> n \<and> entry (mem s) from n = Some pte \<and> page_no q = page_no (pte_paddr pte)"
    using e(1) va user_page_no by blast
  then show "page_no q \<noteq> page_no to" "page_no q \<notin> page_no ` avail (paddr_alloc s)"
    using apart_source [OF A] by blast+
qed

text \<open>The views of parent and child, between the state before \<^verbatim>\<open>fork\<close> and the one after it.\<close>

lemma fork_view:
  assumes A: "apart from to s2" and C: "copied from to s2 s3 (2 ^ 20) f" and va: "MEMORY_TASK_BASE \<le> va"
    and s: "\<And>n. entry (mem s2) from n = entry (mem s) from n" "\<And>x. page_no x \<noteq> page_no to \<Longrightarrow> mem s2 x = mem s x"
  shows "translate (mem s) from va = None \<Longrightarrow> translate (mem s3) to va = None"
    and "translate (mem s) from va = Some q \<Longrightarrow> translate (mem s3) from va = Some q
      \<and> (\<exists>p. translate (mem s3) to va = Some p \<and> p \<noteq> q \<and> mem s3 p = mem s q \<and> mem s3 q = mem s q)"
proof -
  have tr: "translate (mem s2) from va = translate (mem s) from va" by (simp add: translate_eq s(1))
  note v = copied_view [OF A C va]
  show "translate (mem s) from va = None \<Longrightarrow> translate (mem s3) to va = None" using v(1) tr by simp
  assume "translate (mem s) from va = Some q"
  then have q: "translate (mem s2) from va = Some q" using tr by simp
  note t = apart_target [OF A va q]
  obtain p where p: "translate (mem s3) to va = Some p" "mem s3 p = mem s2 q" "page_no p \<in> page_no ` taken s2 s3"
    using v(2) [OF q] by blast
  have "page_no p \<in> page_no ` avail (paddr_alloc s2)" using p(3) by (auto simp: taken_def)
  then have "p \<noteq> q" using t(2) by auto
  moreover have "mem s2 q = mem s q" by (rule s(2) [OF t(1)])
  ultimately show "translate (mem s3) from va = Some q
      \<and> (\<exists>p. translate (mem s3) to va = Some p \<and> p \<noteq> q \<and> mem s3 p = mem s q \<and> mem s3 q = mem s q)"
    using v(4,5) q p(1,2) by auto
qed

text \<open>C2: With a free block, a free descriptor and enough free frames (two for every mapped user page
  and two for the task), \<^verbatim>\<open>sys_fork\<close> returns the id of the child to the parent. The child continues
  behind the call of its parent: its task state segment has the parent's registers from the frame
  of the system call, with 0 in EAX and the stack pointer above the five words of the call. It has a
  kernel stack and an address space of its own in which every user address reads as for the parent
  but refers to different memory; its kernel half is that of the kernel directory. It is the last of the ready
  tasks and of all tasks; the parent is still a running user task with its memory unchanged, and no
  other task is touched.
  The hypothesis on \<open>undef_ret\<close> is for \<^verbatim>\<open>memory_create_map\<close>, whose indeterminate result must not be negative.\<close>

theorem sys_fork_clones_parent:
  assumes "kernel_ready s" "mutex_free (task_table_mutex s)" "gdt_find_free 1 (gdt_table s) \<noteq> None" "0 \<le> sint (undef_ret s)"
    and "find_unnamed TASK_NR (task_table env) (tasks s) = c" "c \<noteq> 0"
    and "user_task s" "task_lists T s rs ss xs" "c \<in> T" "c \<noteq> idle_task s" "c \<notin> set rs \<union> set ss \<union> set xs"
    and "2 * card (user_pages (mem s) (parent_dir s) (2 ^ 20)) + 2 \<le> card (avail (paddr_alloc s))"
  shows "\<exists>s' dir ks. sys_fork env s = Inr (c, s')
    \<and> {ks, dir} \<subseteq> avail (paddr_alloc s) \<and> ks \<noteq> dir
    \<and> t_tss (tasks s' c) = fork_tss (parent_frame s) (new_tss (sf_eip (parent_frame s)) (sf_esp (parent_frame s) + 20) ks
          (code_selector 0 s) (data_selector 0 s) dir)
    \<and> t_state (tasks s' c) = TASK_READY \<and> t_parent (tasks s' c) = curr_task s \<and> t_pid (tasks s' c) = c
    \<and> t_slice_ticks (tasks s' c) = TASK_TIME_SLICE_DEFAULT
    \<and> task_lists T s' (rs @ [c]) ss (xs @ [c]) \<and> curr_task s' = curr_task s
    \<and> (\<forall>t. t \<noteq> c \<longrightarrow> tasks s' t = tasks s t) \<and> space_ok dir s' \<and> user_task s'
    \<and> (\<forall>va \<ge> MEMORY_TASK_BASE. (translate (mem s) (parent_dir s) va = None \<longrightarrow> translate (mem s') dir va = None)
         \<and> (\<forall>q. translate (mem s) (parent_dir s) va = Some q \<longrightarrow> translate (mem s') (parent_dir s) va = Some q
             \<and> (\<exists>p. translate (mem s') dir va = Some p \<and> p \<noteq> q \<and> mem s' p = mem s q \<and> mem s' q = mem s q)))
    \<and> (\<forall>va < MEMORY_TASK_BASE. pt_entry (mem s') dir va = pt_entry (mem s) (kernel_page_dir s) va)"
proof (rule sys_fork_eq [OF assms], goal_cases)
  case (1 s2 s3 s4 dir f lr h)
  note o = this
  have nc: "c \<noteq> curr_task s" using unnamed_not_running [OF assms(5,6)] assms(7) by (simp add: user_task_def)
  obtain ks name i where w: "{ks, dir} \<subseteq> avail (paddr_alloc s)" "ks \<noteq> dir"
      "avail (paddr_alloc s2) = avail (paddr_alloc s) - {ks, dir}"
      "\<And>n. entry (mem s2) dir n = (if n < 2 ^ 19 then entry (mem s) (kernel_page_dir s) n else None)"
      "\<And>x. page_no x \<noteq> page_no dir \<Longrightarrow> mem s2 x = mem s x"
      "tasks s2 = (tasks s)(c := (tasks s c)\<lparr>t_tss_sel := i, t_name := name, t_state := TASK_CREATED, t_sleep_ticks := 0,
         t_time_ticks := TASK_TIME_SLICE_DEFAULT, t_slice_ticks := TASK_TIME_SLICE_DEFAULT, t_pid := c,
         t_tss := fork_tss (parent_frame s) (new_tss (sf_eip (parent_frame s)) (sf_esp (parent_frame s) + 20) ks
           (code_selector 0 s) (data_selector 0 s) dir), t_parent := curr_task s\<rparr>)"
    using o(1) unfolding fork_child_def by blast
  have same: "mem s4 = mem s3" "paddr_alloc s4 = paddr_alloc s3" "curr_task s4 = curr_task s" "cr3_reg s4 = cr3_reg s"
    using o(4,6,7) by simp_all
  have tk: "tasks s4 = (tasks s2)(c := (tasks s2 c)\<lparr>t_state := TASK_READY\<rparr>)" using o(4,8) by simp
  have child: "t_tss (tasks s4 c) = fork_tss (parent_frame s) (new_tss (sf_eip (parent_frame s)) (sf_esp (parent_frame s) + 20) ks
          (code_selector 0 s) (data_selector 0 s) dir)"
    "t_state (tasks s4 c) = TASK_READY" "t_parent (tasks s4 c) = curr_task s" "t_pid (tasks s4 c) = c"
    "t_slice_ticks (tasks s4 c) = TASK_TIME_SLICE_DEFAULT" and others: "\<And>t. t \<noteq> c \<Longrightarrow> tasks s4 t = tasks s t"
    unfolding tk w(6) by simp_all
  have sp: "space_ok (parent_dir s) s4" "space_ok dir s4"
    using copied_spaces [OF o(2,3)] same by (simp_all add: space_ok_def vm_ok_def)
  have pd: "parent_dir s4 = parent_dir s" using others nc same(3) by (simp add: parent_dir_def)
  have av: "avail (paddr_alloc s4) \<subseteq> avail (paddr_alloc s)" using o(3) w(3) same(2) by (auto simp: copied_def)
  have ut: "user_task s4"
    using assms(7) sp(1) av others nc same(3,4) unfolding user_task_def pd kernel_stack_ok_def by auto
  have kern: "pt_entry (mem s4) dir va = pt_entry (mem s) (kernel_page_dir s) va" if "va < MEMORY_TASK_BASE" for va
    using copied_kernel_half [OF o(3) that] w(4) that user_page_no [of va] same(1) by (auto simp: pt_entry_eq)
  note view = fork_view [OF o(2,3) _ o(9) w(5), folded same(1)]
  have V: "\<forall>va \<ge> MEMORY_TASK_BASE. (translate (mem s) (parent_dir s) va = None \<longrightarrow> translate (mem s4) dir va = None)
         \<and> (\<forall>q. translate (mem s) (parent_dir s) va = Some q \<longrightarrow> translate (mem s4) (parent_dir s) va = Some q
             \<and> (\<exists>p. translate (mem s4) dir va = Some p \<and> p \<noteq> q \<and> mem s4 p = mem s q \<and> mem s4 q = mem s q))"
    using view by blast
  have O: "\<forall>t. t \<noteq> c \<longrightarrow> tasks s4 t = tasks s t"
    and K: "\<forall>va < MEMORY_TASK_BASE. pt_entry (mem s4) dir va = pt_entry (mem s) (kernel_page_dir s) va"
    using others kern by blast+
  show ?case
    by (rule exI [of _ s4], rule exI [of _ dir], rule exI [of _ ks], intro conjI)
      (rule o(10) w(1,2) child o(5) same(3) O sp(2) ut V K)+
qed

text \<open>
  A running user task with one page, on the demonstration kernel; the frame on its kernel stack is that
  of a call of \<^verbatim>\<open>fork\<close>.
\<close>

definition demo_parent :: kernel where
  "demo_parent = demo_kernel\<lparr>mem := store32 0x12fe4 3 (\<lambda>_. 0), cr3_reg := 0x11000, tasks := (tasks demo_kernel)(0x2000 := (tasks demo_kernel 0x2000)\<lparr>
     t_name := 65 # replicate 31 0, t_tss := tss_zero\<lparr>tss_cr3 := 0x11000, tss_esp0 := 0x13000\<rparr>\<rparr>)\<rparr>"

definition demo_all_tasks :: "addr set" where
  "demo_all_tasks = insert 0x40000 demo_tasks"

lemma demo_task_lists: "task_lists demo_all_tasks demo_parent [0x2000, 0x3000] [0x4000] []"
proof -
  have n: "nodes demo_kernel = nodes demo_sched" "ready_list demo_kernel = ready_list demo_sched"
    "sleep_list demo_kernel = sleep_list demo_sched" "idle_task demo_kernel = idle_task demo_sched"
    by (simp_all add: demo_kernel_def demo_fs_def demo_irq_def demo_log_def demo_kmem_def demo_gdt_def gdt_state.defs
        kmem.defs sched.defs log_state.defs irq_state.defs fs_state.defs kernel.defs)
  have "task_layout demo_all_tasks"
    by (simp add: task_layout_def demo_all_tasks_def demo_tasks_def run_node_def all_node_def wait_node_def)
  then have "sched_rep demo_all_tasks demo_sched [0x2000, 0x3000] [0x4000]"
    using demo_sched_rep by (auto simp: sched_rep_def demo_all_tasks_def)
  then show ?thesis using dlist_init by (simp add: task_lists_def sched_rep_def demo_parent_def n)
qed

lemma demo_parent_page:
  obtains s :: kernel where "kernel_ready s" "user_task s" "parent_dir s = 0x11000" "s = demo_parent\<lparr>mem := mem s, paddr_alloc := paddr_alloc s\<rparr>"
    "user_pages (mem s) 0x11000 (2 ^ 20) = {2 ^ 19}" "card (avail (paddr_alloc s)) = 15"
    "translate (mem s) 0x11000 0x80000000 = Some 0x20000" "load32 (mem s) 0x12fe4 = 3"
proof -
  let ?va = "0x80000000 :: addr" and ?M = "store32 0x12fe4 3 (\<lambda>_. 0)"
  have pn: "page_no ?va = 2 ^ 19" "page_no (0x10000 :: addr) = 16" "page_no (0x11000 :: addr) = 17" by (simp_all add: page_no_def)
  have al: "page_aligned 0x10000" "page_aligned 0x11000" "page_aligned 0x20000" "page_aligned 0x12000" by (simp_all add: page_aligned_def)
  have d0: "mem demo_parent = ?M" "paddr_alloc demo_parent = demo_alloc" by (simp_all add: demo_parent_def)
  have M: "?M x = 0" if "page_no x \<noteq> 18" for x
    using that by (auto simp: store32_def page_no_def)
  have fr: "256 \<le> page_no p" if "p \<in> avail demo_alloc" for p
    using that demo_frame_page demo_avail by auto
  have nf: "p \<notin> avail demo_alloc" if "page_no p < 256" for p using fr [of p] that by auto
  have nh: "\<not> has_pt ?M 0x11000 j" "entry ?M 0x11000 = (\<lambda>_. None)" for j
  proof -
    have "pde_at ?M 0x11000 j = pde_at (\<lambda>_. 0) 0x11000 j" if "j < 1024" for j
      using al(2) that M pn by (intro pde_at_cong) simp_all
    then show "\<not> has_pt ?M 0x11000 j" for j by (auto simp: has_pt_def pde_at_def present_def)
    then show "entry ?M 0x11000 = (\<lambda>_. None)" by (auto simp: entry_def)
  qed
  have ok: "vm_ok 0x11000 demo_parent"
    using demo_alloc_wf al(2) nh nf [of "0x11000"] by (simp add: vm_ok_def dir_wf_def d0 page_no_def)
  have n: "entry (mem demo_parent) 0x11000 (page_no ?va) = None" by (simp add: d0 nh)
  have ne: "avail (paddr_alloc demo_parent) \<noteq> {}" using demo_avail_nonempty by (simp add: d0)
  show thesis
  proof (rule map_one_page [OF ok n disjI2 [OF ne], of "0x20000" 6], goal_cases)
    case (1 s T)
    note m = 1
    let ?t = "pt_at (mem s) 0x11000 512"
    have T: "T = {?t}" using m(5) by (simp add: pn d0 nh)
    have t: "?t \<in> avail demo_alloc" using m(6) T by (simp add: d0)
    have has: "has_pt (mem s) 0x11000 j \<longleftrightarrow> j = 512" for j using m(8) by (simp add: pn d0 nh)
    have e: "entry (mem s) 0x11000 = [2 ^ 19 \<mapsto> 0x20007]"
      using m(10) by (simp add: pn fun_eq_iff PTE_P_def d0 nh)
    have zero: "mem s x = 0" if "page_no x = 16" for x
      using m(11) [of x] that pn fr [OF t] M by (simp add: d0)
    have call: "load32 (mem s) 0x12fe4 = 3"
    proof -
      have "mem s x = ?M x" if "page_no x = 18" for x using m(11) [of x] that pn fr [OF t] by (simp add: d0)
      then have "load32 (mem s) 0x12fe4 = load32 ?M 0x12fe4" by (simp only: load32_def) (simp add: page_no_def)
      then show ?thesis by simp
    qed
    have kern: "\<not> has_pt (mem s) 0x10000 j" for j
    proof -
      have "pde_at (mem s) 0x10000 j = pde_at (\<lambda>_. 0) 0x10000 j" if "j < 1024"
        using al(1) that zero pn by (intro pde_at_cong) simp_all
      then show ?thesis by (auto simp: has_pt_def pde_at_def present_def)
    qed
    have av: "avail (paddr_alloc s) = avail demo_alloc - {?t}" using m(7) T by (simp add: d0)
    have pta: "pte_paddr 0x20007 = 0x20000" by (simp add: pte_paddr_def)
    have s: "tasks s = tasks demo_parent" "curr_task s = 0x2000" "cr3_reg s = 0x11000" "kernel_page_dir s = 0x10000"
      "gdt_table s = gdt_table demo_kernel" "gdt_mutex s = gdt_mutex demo_kernel"
      using arg_cong [OF m(4), of tasks] arg_cong [OF m(4), of curr_task] arg_cong [OF m(4), of cr3_reg]
        arg_cong [OF m(4), of kernel_page_dir] arg_cong [OF m(4), of gdt_table] arg_cong [OF m(4), of gdt_mutex]
      by (simp_all add: demo_parent_def)
    have pd: "parent_dir s = 0x11000" by (simp add: parent_dir_def s demo_parent_def)
    have aw: "alloc_wf (paddr_alloc s)" using m(2) by (simp add: vm_ok_def)
    have "kernel_ready s"
      using demo_kernel_ready aw kern al(1) nf [of "0x10000"] av pn
      by (simp add: kernel_ready_def gdt_ready_def s dir_wf_def)
    moreover have "user_task s"
    proof -
      have "space_ok 0x11000 s" using m(2) e pta nf [of "0x20000"] av by (auto simp: space_ok_def page_no_def)
      moreover have "kernel_stack_ok 0x2000 s"
        unfolding kernel_stack_ok_def using al(4) nf [of "0x12000"] av
        by (intro exI [of _ "0x12000"]) (simp add: s demo_parent_def page_no_def MEM_PAGE_SIZE_def)
      ultimately show ?thesis using pd by (simp add: user_task_def s demo_parent_def)
    qed
    moreover have "user_pages (mem s) 0x11000 (2 ^ 20) = {2 ^ 19}" using e by (auto simp: user_pages_def split: if_splits)
    moreover have "card (avail (paddr_alloc s)) = 15" using av t demo_avail_card by simp
    moreover have "translate (mem s) 0x11000 ?va = Some 0x20000"
      using e pn pta by (simp add: translate_eq MEM_PAGE_SIZE_def)
    ultimately show thesis using pd m(4) call by (intro that [of s])
  qed
qed

lemma demo_can_fork:
  obtains s :: kernel where "kernel_ready s" "mutex_free (task_table_mutex s)" "gdt_find_free 1 (gdt_table s) \<noteq> None"
    "0 \<le> sint (undef_ret s)" "find_unnamed TASK_NR (task_table demo_env) (tasks s) = 0x40000" "(0x40000 :: addr) \<noteq> 0" "user_task s"
    "task_lists demo_all_tasks s [0x2000, 0x3000] [0x4000] []" "0x40000 \<in> demo_all_tasks" "0x40000 \<noteq> idle_task s"
    "0x40000 \<notin> set [0x2000, 0x3000] \<union> set [0x4000] \<union> set ([] :: addr list)"
    "2 * card (user_pages (mem s) (parent_dir s) (2 ^ 20)) + 2 \<le> card (avail (paddr_alloc s))"
    "parent_dir s = 0x11000" "translate (mem s) 0x11000 0x80000000 = Some 0x20000" "tasks s = tasks demo_parent" "curr_task s = 0x2000"
    "load32 (mem s) 0x12fe4 = 3"
proof -
  obtain s :: kernel where s: "kernel_ready s" "user_task s" "parent_dir s = 0x11000"
    "s = demo_parent\<lparr>mem := mem s, paddr_alloc := paddr_alloc s\<rparr>"
    "user_pages (mem s) 0x11000 (2 ^ 20) = {2 ^ 19}" "card (avail (paddr_alloc s)) = 15"
    "translate (mem s) 0x11000 0x80000000 = Some 0x20000" "load32 (mem s) 0x12fe4 = 3" by (rule demo_parent_page)
  have n: "task_lists T s rs ss xs = task_lists T demo_parent rs ss xs" for T rs ss xs
    by (subst s(4)) (simp add: task_lists_def sched_rep_def)
  have fields: "task_table_mutex s = mutex_zero" "gdt_table s = gdt_table demo_kernel" "undef_ret s = undef_ret demo_kernel"
    "tasks s = tasks demo_parent" "idle_task s = idle_task demo_kernel" "curr_task s = 0x2000"
    by (subst s(4), simp add: demo_parent_def)+
  have u: "undef_ret demo_kernel = 0" and idle: "idle_task demo_kernel = 0x1000"
    by (simp_all add: demo_kernel_def demo_fs_def demo_irq_def demo_log_def demo_kmem_def demo_gdt_def gdt_state.defs
        kmem.defs sched.defs log_state.defs irq_state.defs fs_state.defs kernel.defs demo_sched_def demo_base_def
        task_set_sleep_def task_set_ready_def upd_task_def Let_def split: prod.splits)
  have nr: "TASK_NR = Suc 127" by (simp add: TASK_NR_def)
  have first: "find_unnamed (Suc k) a ts = a" if "t_name (ts a) ! 0 = 0" for k a ts using that by simp
  have free: "find_unnamed TASK_NR (task_table demo_env) (tasks s) = 0x40000"
    unfolding nr fields demo_env_def kernel_env.simps by (rule first) (simp add: demo_parent_def demo_slots TASK_NAME_SIZE_def)
  have gdt: "gdt_find_free 1 (gdt_table s) \<noteq> None" using demo_free_desc fields(2) by auto
  have room: "2 * card (user_pages (mem s) (parent_dir s) (2 ^ 20)) + 2 \<le> card (avail (paddr_alloc s))"
    unfolding s(3,5,6) by simp
  have lists: "task_lists demo_all_tasks s [0x2000, 0x3000] [0x4000] []" using demo_task_lists n by simp
  have m: "mutex_free (task_table_mutex s)" and r: "0 \<le> sint (undef_ret s)" by (simp_all add: fields u)
  have c: "(0x40000 :: addr) \<noteq> 0" "0x40000 \<in> demo_all_tasks" "0x40000 \<noteq> idle_task s"
    "0x40000 \<notin> set [0x2000, 0x3000] \<union> set [0x4000] \<union> set ([] :: addr list)"
    by (simp_all add: demo_all_tasks_def fields idle)
  show thesis by (rule that [OF s(1) m gdt r free c(1) s(2) lists c(2-4) room s(3,7) fields(4,6) s(8)])
qed

theorem sys_fork_clones_parent_witness:
  "\<exists>(s :: kernel) s' dir p. sys_fork demo_env s = Inr (0x40000, s') \<and> t_parent (tasks s' 0x40000) = 0x2000
    \<and> tss_eax (t_tss (tasks s' 0x40000)) = 0 \<and> translate (mem s) 0x11000 0x80000000 = Some 0x20000
    \<and> translate (mem s') dir 0x80000000 = Some p \<and> p \<noteq> 0x20000 \<and> mem s' p = mem s 0x20000"
proof (rule demo_can_fork, goal_cases)
  case (1 s)
  note d = this
  from sys_fork_clones_parent [OF d(1-12)] show ?case
  proof (elim exE conjE, goal_cases)
    case (1 s' dir ks)
    note w = 1(1,4,6) and v = \<open>\<forall>va \<ge> MEMORY_TASK_BASE. (translate (mem s) (parent_dir s) va = None \<longrightarrow> _ va) \<and> _ va\<close>
    have va: "(MEMORY_TASK_BASE :: addr) \<le> 0x80000000" by (simp add: MEMORY_TASK_BASE_def)
    obtain p where p: "translate (mem s') dir 0x80000000 = Some p" "p \<noteq> 0x20000" "mem s' p = mem s 0x20000"
      using v [rule_format, OF va, THEN conjunct2, rule_format, of "0x20000"] d(13,14) by auto
    have "tss_eax (t_tss (tasks s' 0x40000)) = 0" unfolding w(2) by (simp add: fork_tss_def)
    moreover have "t_parent (tasks s' 0x40000) = 0x2000" unfolding w(3) by (rule d(16))
    ultimately show ?thesis using w(1) d(14) p
      by (intro exI [of _ s] exI [of _ s'] exI [of _ dir] exI [of _ p] conjI) assumption+
  qed
qed

end
