(* ===== verification/Syscall.thy ===== *)
theory Syscall
  imports Fork
begin

text \<open>
  System calls, \<^verbatim>\<open>src/source/kernel/core/syscall.c\<close>. The frame that the call gate and the
  assembly entry leave on the kernel stack is at \<open>fr\<close>; the result goes to its word for EAX. A call
  that switches to another task stops (\<open>Suspended\<close>); what is left of a \<^verbatim>\<open>sys_sleep\<close> when its task runs again is
  \<open>do_handler_syscall_resumed\<close>. The functions without a result
  are called as functions with one: the value is indeterminate (\<open>undef_ret\<close>).
\<close>

definition SYS_sleep :: u32 where "SYS_sleep = 0"
definition SYS_getpid :: u32 where "SYS_getpid = 1"
definition SYS_print_msg :: u32 where "SYS_print_msg = 2"
definition SYS_fork :: u32 where "SYS_fork = 3"
definition SYS_execve :: u32 where "SYS_execve = 4"
definition SYS_exit :: u32 where "SYS_exit = 5"

lemmas syscall_numbers =
  SYS_sleep_def SYS_getpid_def SYS_print_msg_def SYS_fork_def SYS_execve_def SYS_exit_def

text \<open>
  A function that works on memory, run on another view of it; afterwards memory is what the function
  left, except at the addresses \<open>keep\<close>.
\<close>

definition with_view :: "bytes \<Rightarrow> (addr \<Rightarrow> bool) \<Rightarrow>
    ('m machine_scheme \<Rightarrow> ('m machine_scheme, unit) kres option) \<Rightarrow>
    'm machine_scheme \<Rightarrow> ('m machine_scheme, unit) kres option" where
  "with_view v keep f s =
     (let back = (\<lambda>s'. s'\<lparr>mem := \<lambda>a. if keep a then mem s a else mem s' a\<rparr>)
      in map_option (\<lambda>r. case r of Inl e \<Rightarrow> Inl (map_stop back e) | Inr (x, s') \<Rightarrow> Inr (x, back s')) (f (s\<lparr>mem := v\<rparr>)))"

text \<open>The first conversion in a format string, 0 if there is none.\<close>

fun first_conv :: "u8 list \<Rightarrow> u8" where
  "first_conv (c # d # cs) =
     (if c = 37 then if d = 100 \<or> d = 120 \<or> d = 99 \<or> d = 115 then d else first_conv cs
      else first_conv (d # cs))"
| "first_conv _ = 0"

text \<open>The format and, for a string, the argument are user addresses.\<close>

definition sys_print_msg :: "device \<Rightarrow> addr \<Rightarrow> addr \<Rightarrow> u32 \<Rightarrow> 's kernel_scheme \<Rightarrow> ('s, unit) tres option" where
  "sys_print_msg dev buf fmt arg s =
     (let v = vbytes s;
          print = with_view v (\<lambda>a. MEMORY_TASK_BASE \<le> a) (log_printf dev buf fmt [arg]) s
      in Option.bind (kstrlen fmt v) (\<lambda>n.
         if \<not> vmapped s fmt (unat n + 1) then Some (Inl (Fault s))
         else if first_conv (load_bytes v fmt (unat n)) \<noteq> 115 then print
         else Option.bind (kstrlen arg v) (\<lambda>k.
           if arg \<noteq> 0 \<and> \<not> vmapped s arg (unat k + 1) then Some (Inl (Fault s)) else print)))"

definition returned :: "u32 \<Rightarrow> 's kernel_scheme \<times> bool \<Rightarrow> ('s, u32) tres" where
  "returned r p = (if snd p then Inl (Suspended (fst p)) else Inr (r, fst p))"

text \<open>The entries of \<^verbatim>\<open>sys_table\<close>.\<close>

definition sys_table :: "device \<Rightarrow> kernel_env \<Rightarrow> addr \<Rightarrow> u32 \<Rightarrow> u32 \<Rightarrow> u32 \<Rightarrow> u32 \<Rightarrow> u32 \<Rightarrow>
    's kernel_scheme \<Rightarrow> ('s, u32) tres option" where
  "sys_table dev env buf func_id arg0 arg1 arg2 arg3 s =
     (if func_id = SYS_sleep then Some (returned (undef_ret s) (sys_sleep arg0 s))
      else if func_id = SYS_getpid then Some (Inr (sys_getpid s, s))
      else if func_id = SYS_print_msg then bindO (sys_print_msg dev buf arg0 arg1 s) (\<lambda>_ s. Some (Inr (undef_ret s, s)))
      else if func_id = SYS_fork then Some (sys_fork env s)
      else if func_id = SYS_execve then sys_execve dev env arg0 arg1 arg2 s
      else Some (returned 0 (sys_exit arg0 s)))"

definition set_eax :: "addr \<Rightarrow> u32 \<Rightarrow> 's kernel_scheme \<Rightarrow> ('s, unit) tres option" where
  "set_eax fr v s = Some (Inr ((), store_word (fr + 48) v s))"

definition do_handler_syscall :: "device \<Rightarrow> kernel_env \<Rightarrow> addr \<Rightarrow> addr \<Rightarrow> 's kernel_scheme \<Rightarrow> ('s, unit) tres option" where
  "do_handler_syscall dev env buf fr s =
     (let f = read_frame (mem s) fr
      in if sf_func_id f < 6 then
           bindO (sys_table dev env buf (sf_func_id f) (sf_arg0 f) (sf_arg1 f) (sf_arg2 f) (sf_arg3 f) s) (set_eax fr)
         else
           let task = task_current s
           in bindO (with_view (name_over task (tasks s task) (mem s)) (\<lambda>a. a \<in> set (map (\<lambda>i. task + 4 + of_nat i) [0..<36]))
                (log_printf dev buf (lit env ''task: %s, Unknown syscall: %d'') [task + 4, sf_func_id f]) s)
              (\<lambda>_. set_eax fr (-1)))"

text \<open>
  The rest of a call of \<^verbatim>\<open>sys_sleep\<close>, in the state \<open>s\<close> in which its task runs again: \<^verbatim>\<open>task_dispatch\<close> returns with the
  flags it has read (\<open>inner\<close>), \<^verbatim>\<open>sys_sleep\<close> with those of the caller (\<open>state\<close>), and the handler writes
  the result, which is indeterminate.
\<close>

definition sys_sleep_resumed :: "u32 \<Rightarrow> u32 \<Rightarrow> 'm machine_scheme \<Rightarrow> 'm machine_scheme" where
  "sys_sleep_resumed state inner s = irq_leave_protection state (irq_leave_protection inner s)"

definition do_handler_syscall_resumed :: "addr \<Rightarrow> u32 \<Rightarrow> u32 \<Rightarrow> 's kernel_scheme \<Rightarrow> ('s, unit) tres option" where
  "do_handler_syscall_resumed fr state inner s =
     (let s = sys_sleep_resumed state inner s in set_eax fr (undef_ret s) s)"

lemma load32_store32_offset:
  assumes "\<And>i j. i < 4 \<Longrightarrow> j < 4 \<Longrightarrow> k + of_nat i \<noteq> (l :: u32) + of_nat j"
  shows "load32 (store32 (a + k) v m) (a + l) = load32 m (a + l)"
proof (intro load32_cong store32_other notI)
  fix x assume "x \<in> region (a + l) 4" "x \<in> region (a + k) 4"
  then obtain i j where "i < 4" "j < 4" "a + (k + of_nat i) = a + (l + of_nat j)" by (auto simp: region_def add.assoc)
  with assms show False by simp
qed

lemma frame_word_other:
  fixes k :: nat
  assumes "k < 22" "k \<noteq> 12"
  shows "load32 (store32 (fr + 48) v m) (fr + 4 * of_nat k) = load32 m (fr + 4 * of_nat k)"
proof (rule load32_store32_offset)
  fix i j :: nat assume ij: "i < 4" "j < 4"
  have "48 + i \<noteq> 4 * k + j" using assms ij by presburger
  moreover have "unat (48 + of_nat i :: u32) = 48 + i" using ij by (simp add: unat_word_ariths unat_of_nat)
  moreover have "unat (4 * of_nat k + of_nat j :: u32) = 4 * k + j"
    using ij assms(1) by (simp add: unat_word_ariths unat_of_nat)
  ultimately show "48 + of_nat i \<noteq> 4 * of_nat k + (of_nat j :: u32)" by metis
qed

lemma read_frame_set_eax: "read_frame (store32 (fr + 48) v m) fr = (read_frame m fr)\<lparr>sf_eax := v\<rparr>"
  using frame_word_other [of 0 fr v m] frame_word_other [of 1 fr v m] frame_word_other [of 2 fr v m]
    frame_word_other [of 3 fr v m] frame_word_other [of 4 fr v m] frame_word_other [of 5 fr v m]
    frame_word_other [of 6 fr v m] frame_word_other [of 7 fr v m] frame_word_other [of 8 fr v m]
    frame_word_other [of 9 fr v m] frame_word_other [of 10 fr v m] frame_word_other [of 11 fr v m]
    frame_word_other [of 13 fr v m] frame_word_other [of 14 fr v m] frame_word_other [of 15 fr v m]
    frame_word_other [of 16 fr v m] frame_word_other [of 17 fr v m] frame_word_other [of 18 fr v m]
    frame_word_other [of 19 fr v m] frame_word_other [of 20 fr v m] frame_word_other [of 21 fr v m]
  by (simp add: read_frame_def)

text \<open>A system call that gives up the processor does not touch memory before.\<close>

lemma task_dispatch_mem: "mem (fst (task_dispatch s)) = mem s"
  by (simp add: task_dispatch_def irq_defs task_switch_from_to_def swtch_to_tss_def upd_task_def)

lemma after_dispatch_mem: "mem (fst (after_dispatch v r)) = mem (fst r)"
  by (cases r) (simp add: after_dispatch_def irq_defs)

lemma sys_sleep_mem: "mem (fst (sys_sleep ms s)) = mem s"
  by (simp add: sys_sleep_def irq_defs after_dispatch_mem task_dispatch_mem task_set_blocked_def task_set_sleep_def upd_task_def split: prod.splits)

lemma sys_exit_mem: "mem (fst (sys_exit v s)) = mem s"
  by (simp add: sys_exit_def irq_defs after_dispatch_mem task_dispatch_mem task_set_blocked_def upd_task_def split: prod.splits)

text \<open>Writing the result.\<close>

lemma set_eax_effect:
  "\<exists>s2. set_eax fr v s1 = Some (Inr ((), s2)) \<and> read_frame (mem s2) fr = (read_frame (mem s1) fr)\<lparr>sf_eax := v\<rparr>
    \<and> (\<forall>x. x \<notin> region (fr + 48) 4 \<longrightarrow> mem s2 x = mem s1 x) \<and> s2 = s1\<lparr>mem := mem s2\<rparr>"
  by (simp add: set_eax_def store_word_def read_frame_set_eax store32_other)

text \<open>C12: System calls and the frame of the caller. A call with a known number that comes back leaves its result in the
  word for EAX of the frame, and the other words and the rest of the state as the call left them: the caller sees the
  result and its other registers; the id of a task is what \<^verbatim>\<open>sys_getpid\<close> returns. When \<^verbatim>\<open>sys_sleep\<close> or
  \<^verbatim>\<open>sys_exit\<close> switches to another task, the frame and all of memory are still as they were. When the task that sleeps
  runs again, the handler goes on: it restores the flags of the caller and writes EAX too, with an
  indeterminate value, and no other word. A call with an unknown number is logged and leaves -1. (Not covered: calls that stop
  inside because a mutex is taken.)\<close>

theorem syscall_returns_in_eax:
  fixes s :: "'s kernel_scheme"
  assumes "f = read_frame (mem s) fr"
  shows "(\<forall>v s1. sf_func_id f < 6 \<longrightarrow>
        sys_table dev env buf (sf_func_id f) (sf_arg0 f) (sf_arg1 f) (sf_arg2 f) (sf_arg3 f) s = Some (Inr (v, s1)) \<longrightarrow>
        (\<exists>s2. do_handler_syscall dev env buf fr s = Some (Inr ((), s2))
          \<and> read_frame (mem s2) fr = (read_frame (mem s1) fr)\<lparr>sf_eax := v\<rparr>
          \<and> (\<forall>x. x \<notin> region (fr + 48) 4 \<longrightarrow> mem s2 x = mem s1 x) \<and> s2 = s1\<lparr>mem := mem s2\<rparr>
          \<and> (sf_func_id f = SYS_getpid \<longrightarrow> v = t_pid (tasks s (curr_task s)) \<and> s1 = s)))
    \<and> (\<forall>s1. sf_func_id f = SYS_sleep \<and> sys_sleep (sf_arg0 f) s = (s1, True) \<or> sf_func_id f = SYS_exit \<and> sys_exit (sf_arg0 f) s = (s1, True) \<longrightarrow>
        do_handler_syscall dev env buf fr s = Some (Inl (Suspended s1)) \<and> mem s1 = mem s \<and> read_frame (mem s1) fr = f)
    \<and> (\<forall>s2 :: 's kernel_scheme. \<exists>s3. do_handler_syscall_resumed fr (eflags s) (eflags (cli s)) s2 = Some (Inr ((), s3)) \<and> eflags s3 = eflags s
        \<and> read_frame (mem s3) fr = (read_frame (mem s2) fr)\<lparr>sf_eax := undef_ret s2\<rparr>
        \<and> (\<forall>x. x \<notin> region (fr + 48) 4 \<longrightarrow> mem s3 x = mem s2 x) \<and> s3 = s2\<lparr>mem := mem s3, eflags := eflags s\<rparr>)
    \<and> (\<forall>s1. 6 \<le> sf_func_id f \<longrightarrow>
        with_view (name_over (curr_task s) (tasks s (curr_task s)) (mem s)) (\<lambda>a. a \<in> set (map (\<lambda>i. curr_task s + 4 + of_nat i) [0..<36]))
          (log_printf dev buf (lit env ''task: %s, Unknown syscall: %d'') [curr_task s + 4, sf_func_id f]) s = Some (Inr ((), s1)) \<longrightarrow>
        (\<exists>s2. do_handler_syscall dev env buf fr s = Some (Inr ((), s2)) \<and> read_frame (mem s2) fr = (read_frame (mem s1) fr)\<lparr>sf_eax := -1\<rparr>
          \<and> s2 = s1\<lparr>mem := mem s2\<rparr>))"
proof (intro conjI allI impI)
  fix v s1
  assume h: "sf_func_id f < 6" "sys_table dev env buf (sf_func_id f) (sf_arg0 f) (sf_arg1 f) (sf_arg2 f) (sf_arg3 f) s = Some (Inr (v, s1))"
  have d: "do_handler_syscall dev env buf fr s = set_eax fr v s1" using assms h by (simp add: do_handler_syscall_def Let_def)
  have "v = t_pid (tasks s (curr_task s)) \<and> s1 = s" if "sf_func_id f = SYS_getpid"
    using h(2) that by (auto simp: sys_table_def syscall_numbers sys_getpid_def task_current_def)
  then show "\<exists>s2. do_handler_syscall dev env buf fr s = Some (Inr ((), s2))
      \<and> read_frame (mem s2) fr = (read_frame (mem s1) fr)\<lparr>sf_eax := v\<rparr>
      \<and> (\<forall>x. x \<notin> region (fr + 48) 4 \<longrightarrow> mem s2 x = mem s1 x) \<and> s2 = s1\<lparr>mem := mem s2\<rparr>
      \<and> (sf_func_id f = SYS_getpid \<longrightarrow> v = t_pid (tasks s (curr_task s)) \<and> s1 = s)"
    unfolding d using set_eax_effect [of fr v s1] by blast
next
  fix s1
  assume h: "sf_func_id f = SYS_sleep \<and> sys_sleep (sf_arg0 f) s = (s1, True) \<or> sf_func_id f = SYS_exit \<and> sys_exit (sf_arg0 f) s = (s1, True)"
  then show "do_handler_syscall dev env buf fr s = Some (Inl (Suspended s1))"
    using assms by (auto simp: do_handler_syscall_def Let_def sys_table_def syscall_numbers returned_def)
  show m: "mem s1 = mem s" using h sys_sleep_mem [of "sf_arg0 f" s] sys_exit_mem [of "sf_arg0 f" s] by auto
  show "read_frame (mem s1) fr = f" unfolding m using assms by simp
next
  fix s2 :: "'s kernel_scheme"
  let ?s = "sys_sleep_resumed (eflags s) (eflags (cli s)) s2"
  have e: "?s = s2\<lparr>eflags := eflags s\<rparr>" by (simp add: sys_sleep_resumed_def irq_defs)
  show "\<exists>s3. do_handler_syscall_resumed fr (eflags s) (eflags (cli s)) s2 = Some (Inr ((), s3)) \<and> eflags s3 = eflags s
      \<and> read_frame (mem s3) fr = (read_frame (mem s2) fr)\<lparr>sf_eax := undef_ret s2\<rparr>
      \<and> (\<forall>x. x \<notin> region (fr + 48) 4 \<longrightarrow> mem s3 x = mem s2 x) \<and> s3 = s2\<lparr>mem := mem s3, eflags := eflags s\<rparr>"
    unfolding do_handler_syscall_resumed_def Let_def e by (simp add: set_eax_def store_word_def read_frame_set_eax store32_other)
next
  fix s1
  assume h: "6 \<le> sf_func_id f"
    "with_view (name_over (curr_task s) (tasks s (curr_task s)) (mem s)) (\<lambda>a. a \<in> set (map (\<lambda>i. curr_task s + 4 + of_nat i) [0..<36]))
      (log_printf dev buf (lit env ''task: %s, Unknown syscall: %d'') [curr_task s + 4, sf_func_id f]) s = Some (Inr ((), s1))"
  then have d: "do_handler_syscall dev env buf fr s = set_eax fr (-1) s1"
    using assms by (simp add: do_handler_syscall_def Let_def task_current_def not_less [symmetric] del: set_map)
  show "\<exists>s2. do_handler_syscall dev env buf fr s = Some (Inr ((), s2)) \<and> read_frame (mem s2) fr = (read_frame (mem s1) fr)\<lparr>sf_eax := -1\<rparr>
      \<and> s2 = s1\<lparr>mem := mem s2\<rparr>"
    unfolding d using set_eax_effect [of fr "-1" s1] by blast
qed

theorem syscall_returns_in_eax_witness:
  "(\<exists>s2. do_handler_syscall demo_drive demo_env 0x4000 0x8000
      (demo_kernel\<lparr>mem := store32 0x803c SYS_getpid (\<lambda>_. 0)\<rparr>) = Some (Inr ((), s2))
    \<and> sf_eax (read_frame (mem s2) 0x8000) = t_pid (tasks demo_sched 0x2000))
   \<and> (\<exists>s3. do_handler_syscall_resumed 0x8000 (eflags demo_kernel) (eflags (cli demo_kernel)) demo_kernel = Some (Inr ((), s3))
    \<and> sf_eax (read_frame (mem s3) 0x8000) = undef_ret demo_kernel)"
proof -
  let ?s = "demo_kernel\<lparr>mem := store32 0x803c SYS_getpid (\<lambda>_. 0)\<rparr>"
  let ?f = "read_frame (mem ?s) 0x8000"
  have f: "sf_func_id ?f = SYS_getpid" by (simp add: read_frame_def)
  have c: "curr_task demo_kernel = 0x2000" by simp
  have t: "sys_table demo_drive demo_env 0x4000 (sf_func_id ?f) (sf_arg0 ?f) (sf_arg1 ?f) (sf_arg2 ?f) (sf_arg3 ?f) ?s
      = Some (Inr (sys_getpid ?s, ?s))"
    unfolding f by (simp add: sys_table_def syscall_numbers)
  have l: "sf_func_id ?f < 6" unfolding f by (simp add: syscall_numbers)
  note C = syscall_returns_in_eax [OF refl, of ?s "0x8000" demo_drive demo_env "0x4000"]
    and R = syscall_returns_in_eax [OF refl, of demo_kernel "0x8000" demo_drive demo_env "0x4000"]
  obtain s2 where s2: "do_handler_syscall demo_drive demo_env 0x4000 0x8000 ?s = Some (Inr ((), s2))"
    "read_frame (mem s2) 0x8000 = (read_frame (mem ?s) 0x8000)\<lparr>sf_eax := sys_getpid ?s\<rparr>" "sys_getpid ?s = t_pid (tasks ?s (curr_task ?s))"
    using conjunct1 [OF C, rule_format, OF l t] f by blast
  obtain s3 where s3: "do_handler_syscall_resumed 0x8000 (eflags demo_kernel) (eflags (cli demo_kernel)) demo_kernel = Some (Inr ((), s3))"
    "read_frame (mem s3) 0x8000 = (read_frame (mem demo_kernel) 0x8000)\<lparr>sf_eax := undef_ret demo_kernel\<rparr>"
    using R [THEN conjunct2, THEN conjunct2, THEN conjunct1] by blast
  show ?thesis by (intro conjI exI [of _ s2] exI [of _ s3] s2(1) s3(1)) (use s2(2,3) s3(2) c in simp_all)
qed

end
