(* ===== verification/Applib.thy ===== *)
theory Applib
  imports Syscall
begin

text \<open>
  The programs in user mode: the system call library \<^verbatim>\<open>src/source/applib/lib_syscall.h\<close>, the start of
  an application \<^verbatim>\<open>applib/cstart.c\<close>, the shell \<^verbatim>\<open>shell/main.c\<close>, and the first task
  \<^verbatim>\<open>kernel/init/first_task.c\<close>.

  \<^item> A program is a \<open>process\<close>: a possibly endless tree of actions, the continuation of which depends on the
    answers. \<open>seq\<close> is sequencing and \<open>loop\<close> a loop.
  \<^item> \<open>calls\<close> runs a process against a kernel that answers in any way; the theorems give the exact
    sequence of system calls.
  \<^item> \<open>process_step\<close> runs a process on the model of the kernel, through the frame on the kernel stack and
    \<^verbatim>\<open>do_handler_syscall\<close>.
\<close>

subsection \<open>Programs in user mode\<close>

text \<open>
  The arguments of a system call; a field that the caller does not set is \<open>None\<close>, an indeterminate
  word. A process ends with a value or acts and goes on with the answer: it calls the kernel, reads or
  writes a word of its memory, or goes back to the start of a loop (the answers to the last two are
  not used).
\<close>

record syscall_args_t =
  sa_id :: u32
  sa_arg0 :: "u32 option"
  sa_arg1 :: "u32 option"
  sa_arg2 :: "u32 option"
  sa_arg3 :: "u32 option"

datatype action = Call syscall_args_t | Read addr | Write addr u32 | Again

codatatype 'a process = Done 'a | Act action "u32 \<Rightarrow> 'a process"

primcorec seq :: "'a process \<Rightarrow> ('a \<Rightarrow> 'b process) \<Rightarrow> 'b process" where
  "seq p f = (case p of Done x \<Rightarrow> f x | Act a k \<Rightarrow> Act a (\<lambda>r. seq (k r) f))"

text \<open>A loop whose body ends with a new state (\<open>Inl\<close>) or leaves the loop with a value (\<open>Inr\<close>).\<close>

primcorec iterate :: "('s \<Rightarrow> ('s + 'r) process) \<Rightarrow> ('s + 'r) process \<Rightarrow> 'r process" where
  "iterate body p = (case p of
     Done x \<Rightarrow> (case x of Inl s \<Rightarrow> Act Again (\<lambda>_. iterate body (body s)) | Inr r \<Rightarrow> Done r)
   | Act a k \<Rightarrow> Act a (\<lambda>r. iterate body (k r)))"

definition loop :: "('s \<Rightarrow> ('s + 'r) process) \<Rightarrow> 's \<Rightarrow> 'r process" where
  "loop body s = iterate body (body s)"

subsection \<open>The library\<close>

definition store_var :: "addr \<Rightarrow> u32 \<Rightarrow> unit process" where
  "store_var a v = Act (Write a v) (\<lambda>_. Done ())"

definition args_uninit :: "u32 \<Rightarrow> syscall_args_t" where
  "args_uninit n = \<lparr>sa_id = n, sa_arg0 = None, sa_arg1 = None, sa_arg2 = None, sa_arg3 = None\<rparr>"

definition user_syscall :: "syscall_args_t \<Rightarrow> u32 process" where
  "user_syscall args = Act (Call args) Done"

definition msleep :: "u32 \<Rightarrow> unit process" where
  "msleep ms = (if sint ms \<le> 0 then Done ()
     else seq (user_syscall ((args_uninit SYS_sleep)\<lparr>sa_arg0 := Some ms\<rparr>)) (\<lambda>_. Done ()))"

definition getpid :: "u32 process" where
  "getpid = user_syscall (args_uninit SYS_getpid)"

definition print_msg :: "addr \<Rightarrow> u32 \<Rightarrow> unit process" where
  "print_msg fmt arg =
     seq (user_syscall ((args_uninit SYS_print_msg)\<lparr>sa_arg0 := Some fmt, sa_arg1 := Some arg\<rparr>)) (\<lambda>_. Done ())"

definition fork :: "u32 process" where
  "fork = user_syscall (args_uninit SYS_fork)"

definition execve :: "addr \<Rightarrow> addr \<Rightarrow> addr \<Rightarrow> u32 process" where
  "execve name argv envp =
     user_syscall ((args_uninit SYS_execve)\<lparr>sa_arg0 := Some name, sa_arg1 := Some argv, sa_arg2 := Some envp\<rparr>)"

definition exit :: "u32 \<Rightarrow> unit process" where
  "exit status = seq (user_syscall ((args_uninit SYS_exit)\<lparr>sa_arg0 := Some status\<rparr>)) (\<lambda>_. Done ())"

subsection \<open>The programs\<close>

text \<open>\<open>lit\<close> gives the addresses of string literals.\<close>

definition arg_round :: "addr \<Rightarrow> u32 \<Rightarrow> addr \<Rightarrow> int \<Rightarrow> (int + unit) process" where
  "arg_round fmt argc argv i =
     (if i < sint argc
      then Act (Read (argv + 4 * of_int i)) (\<lambda>arg. seq (print_msg fmt arg) (\<lambda>_. Done (Inl (i + 1))))
      else Done (Inr ()))"

definition print_args :: "addr \<Rightarrow> u32 \<Rightarrow> addr \<Rightarrow> unit process" where
  "print_args fmt argc argv = loop (arg_round fmt argc argv) 0"

text \<open>\<^verbatim>\<open>main\<close> of the shell: the loop is left by the \<^verbatim>\<open>return\<close> at its end.\<close>

definition shell_main :: "(string \<Rightarrow> addr) \<Rightarrow> u32 \<Rightarrow> addr \<Rightarrow> u32 process" where
  "shell_main slit argc argv =
     seq (print_args (slit ''[arg]: %s'') argc argv) (\<lambda>_.
     seq fork (\<lambda>_.
     loop (\<lambda>_ :: unit.
       seq getpid (\<lambda>pid. seq (print_msg (slit ''main.c: %d'') pid) (\<lambda>_.
       seq (msleep 3000) (\<lambda>_. Done (Inr 0))))) ()))"

definition cstart :: "(u32 \<Rightarrow> addr \<Rightarrow> u32 process) \<Rightarrow> (string \<Rightarrow> addr) \<Rightarrow> u32 \<Rightarrow> addr \<Rightarrow> unit process" where
  "cstart main slit argc argv =
     seq (print_args (slit ''arg = %s'') argc argv) (\<lambda>_.
     seq (main argc argv) (\<lambda>ret. exit ret))"

text \<open>The local array of arguments is at \<open>argv\<close>.\<close>

definition first_task_exec :: "(string \<Rightarrow> addr) \<Rightarrow> addr \<Rightarrow> u32 process" where
  "first_task_exec slit argv =
     seq (store_var argv (slit ''arg0'')) (\<lambda>_. seq (store_var (argv + 4) (slit ''arg1'')) (\<lambda>_.
     seq (store_var (argv + 8) (slit ''arg2'')) (\<lambda>_. seq (store_var (argv + 12) (slit ''arg3'')) (\<lambda>_.
     execve (slit ''/shell.elf'') argv 0))))"

definition first_task_round :: "(string \<Rightarrow> addr) \<Rightarrow> u32 \<Rightarrow> u32 \<Rightarrow> (u32 + u32) process" where
  "first_task_round slit pid count =
     seq (if sint pid < 0 then seq (print_msg (slit ''create child proc failed.'') 0) (\<lambda>_. Done count)
          else if pid = 0 then seq (print_msg (slit ''child: %d'') (count + 10)) (\<lambda>_. Done (count + 10))
          else seq (print_msg (slit ''child task id=%d'') pid) (\<lambda>_.
            seq (print_msg (slit ''parent: %d'') (count + 1)) (\<lambda>_. Done (count + 1)))) (\<lambda>count.
     seq (msleep 1000) (\<lambda>_. Done (Inl count)))"

definition first_task_main :: "(string \<Rightarrow> addr) \<Rightarrow> addr \<Rightarrow> u32 process" where
  "first_task_main slit argv =
     seq getpid (\<lambda>pid.
     seq (print_msg (slit ''first task id=%d'') pid) (\<lambda>_.
     seq fork (\<lambda>pid.
     seq (if sint pid < 0 then seq (print_msg (slit ''create child proc failed.'') 0) (\<lambda>_. Done 3)
          else if pid = 0 then seq (print_msg (slit ''child: %d'') (3 + 10)) (\<lambda>_.
            seq (first_task_exec slit argv) (\<lambda>_. Done (3 + 10)))
          else seq (print_msg (slit ''child task id=%d'') pid) (\<lambda>_.
            seq (print_msg (slit ''parent: %d'') (3 + 1)) (\<lambda>_. Done (3 + 1)))) (\<lambda>count.
     loop (first_task_round slit pid) count))))"

subsection \<open>What a process does\<close>

text \<open>
  The calls of the first \<open>n\<close> steps of a process after the calls \<open>h\<close>: the answer to a call is any
  function of the calls so far, and \<open>m\<close> is the memory of the process.
\<close>

fun answer :: "(syscall_args_t list \<Rightarrow> u32) \<Rightarrow> action \<Rightarrow> syscall_args_t list \<Rightarrow> (addr \<Rightarrow> u32) \<Rightarrow>
    u32 \<times> syscall_args_t list \<times> (addr \<Rightarrow> u32)" where
  "answer ans (Call a) h m = (ans (h @ [a]), h @ [a], m)"
| "answer ans (Read a) h m = (m a, h, m)"
| "answer ans (Write a v) h m = (0, h, m(a := v))"
| "answer ans Again h m = (0, h, m)"

primrec calls :: "nat \<Rightarrow> (syscall_args_t list \<Rightarrow> u32) \<Rightarrow> (addr \<Rightarrow> u32) \<Rightarrow> syscall_args_t list \<Rightarrow> 'a process \<Rightarrow>
    'a process \<times> syscall_args_t list \<times> (addr \<Rightarrow> u32)" where
  "calls 0 ans m h p = (p, h, m)"
| "calls (Suc n) ans m h p = (case p of
     Done x \<Rightarrow> (Done x, h, m)
   | Act a k \<Rightarrow> (case answer ans a h m of (r, h, m) \<Rightarrow> calls n ans m h (k r)))"

lemma seq_simps [simp]: "seq (Done x) f = f x" "seq (Act a k) f = Act a (\<lambda>r. seq (k r) f)"
  by (subst seq.code; simp)+

lemma iterate_simps [simp]:
  "iterate body (Done (Inl s)) = Act Again (\<lambda>_. loop body s)" "iterate body (Done (Inr r)) = Done r"
  "iterate body (Act a k) = Act a (\<lambda>r. iterate body (k r))"
  by (subst iterate.code; simp add: loop_def)+

definition does :: "(syscall_args_t list \<Rightarrow> u32) \<Rightarrow> 'a process \<times> syscall_args_t list \<times> (addr \<Rightarrow> u32) \<Rightarrow>
    'a process \<times> syscall_args_t list \<times> (addr \<Rightarrow> u32) \<Rightarrow> bool" where
  "does ans x y \<longleftrightarrow> (\<exists>n. calls n ans (snd (snd x)) (fst (snd x)) (fst x) = y)"

lemma does_refl: "does ans x x"
  unfolding does_def by (rule exI [of _ 0]) simp

lemma does_act: "answer ans a h m = (r, h1, m1) \<Longrightarrow> does ans (k r, h1, m1) y \<Longrightarrow> does ans (Act a k, h, m) y"
  unfolding does_def by (elim exE, rule exI [of _ "Suc _"]) simp

lemmas does_call = does_act [OF answer.simps(1)] and does_read = does_act [OF answer.simps(2)]
  and does_write = does_act [OF answer.simps(3)] and does_again = does_act [OF answer.simps(4)]

lemmas does_intros = does_call does_read does_write does_again

lemma calls_Done [simp]: "calls n ans m h (Done x) = (Done x, h, m)"
  by (cases n) simp_all

lemma calls_add: "calls (n + k) ans m h p = (case calls n ans m h p of (q, h', m') \<Rightarrow> calls k ans m' h' q)"
proof (induction n arbitrary: m h p)
  case (Suc n)
  show ?case by (cases p) (simp_all add: Suc.IH split: prod.splits)
qed simp

lemma does_trans: "does ans x y \<Longrightarrow> does ans y z \<Longrightarrow> does ans x z"
  unfolding does_def by (elim exE, rule_tac x = "n + na" in exI) (auto simp: calls_add split: prod.splits)

lemma does_loop: "does ans (iterate body (body c), h, m) y \<Longrightarrow> does ans (loop body c, h, m) y"
  by (simp add: loop_def)

text \<open>The calls of the library functions.\<close>

definition print_call :: "addr \<Rightarrow> u32 \<Rightarrow> syscall_args_t" where
  "print_call fmt arg = (args_uninit SYS_print_msg)\<lparr>sa_arg0 := Some fmt, sa_arg1 := Some arg\<rparr>"

definition sleep_call :: "u32 \<Rightarrow> syscall_args_t" where
  "sleep_call ms = (args_uninit SYS_sleep)\<lparr>sa_arg0 := Some ms\<rparr>"

definition exec_call :: "addr \<Rightarrow> addr \<Rightarrow> addr \<Rightarrow> syscall_args_t" where
  "exec_call name argv envp = (args_uninit SYS_execve)\<lparr>sa_arg0 := Some name, sa_arg1 := Some argv, sa_arg2 := Some envp\<rparr>"

lemmas library_defs = msleep_def getpid_def print_msg_def fork_def execve_def exit_def user_syscall_def store_var_def
  print_call_def [symmetric] sleep_call_def [symmetric] exec_call_def [symmetric]

text \<open>One round of the loop of the first task.\<close>

definition round_calls :: "(string \<Rightarrow> addr) \<Rightarrow> u32 \<Rightarrow> u32 \<Rightarrow> syscall_args_t list" where
  "round_calls slit pid count =
     (if sint pid < 0 then [print_call (slit ''create child proc failed.'') 0]
      else if pid = 0 then [print_call (slit ''child: %d'') (count + 10)]
      else [print_call (slit ''child task id=%d'') pid, print_call (slit ''parent: %d'') (count + 1)])
     @ [sleep_call 1000]"

definition round_step :: "u32 \<Rightarrow> u32" where
  "round_step pid = (if sint pid < 0 then 0 else if pid = 0 then 10 else 1)"

lemma first_task_round_does:
  "does ans (loop (first_task_round slit pid) c, h, m)
     (loop (first_task_round slit pid) (c + round_step pid), h @ round_calls slit pid c, m)"
proof -
  have s: "\<not> sint (1000 :: u32) \<le> 0" by simp
  note u = first_task_round_def [of slit _ c] round_calls_def round_step_def library_defs
  show ?thesis
  proof (rule does_loop)
    consider "sint pid < 0" | "\<not> sint pid < 0" "pid = 0" | "\<not> sint pid < 0" "pid \<noteq> 0" by blast
    then show "does ans (iterate (first_task_round slit pid) (first_task_round slit pid c), h, m)
       (loop (first_task_round slit pid) (c + round_step pid), h @ round_calls slit pid c, m)"
      by cases (simp add: u s, (rule does_intros, simp?)+, rule does_refl)+
  qed
qed

lemma first_task_rounds:
  "does ans (loop (first_task_round slit pid) c, h, m)
     (loop (first_task_round slit pid) (c + of_nat k * round_step pid),
      h @ concat (map (\<lambda>i. round_calls slit pid (c + of_nat i * round_step pid)) [0..<k]), m)"
proof (induction k)
  case 0
  then show ?case by (simp add: does_refl)
next
  case (Suc k)
  from does_trans [OF this first_task_round_does] show ?case by (simp add: algebra_simps)
qed

text \<open>The arguments of a program, printed.\<close>

definition arg_calls :: "addr \<Rightarrow> (addr \<Rightarrow> u32) \<Rightarrow> addr \<Rightarrow> nat \<Rightarrow> nat \<Rightarrow> syscall_args_t list" where
  "arg_calls fmt m argv i n = map (\<lambda>j. print_call fmt (m (argv + 4 * of_nat j))) [i..<n]"

lemma does_loop_seq: "does ans (seq (iterate body (body c)) f, h, m) y \<Longrightarrow> does ans (seq (loop body c) f, h, m) y"
  by (simp add: loop_def)

lemma arg_rounds_does:
  "i \<le> nat (sint argc) \<Longrightarrow> does ans (seq (loop (arg_round fmt argc argv) (int i)) f, h, m)
     (f (), h @ arg_calls fmt m argv i (nat (sint argc)), m)"
proof (induction "nat (sint argc) - i" arbitrary: i h)
  case 0
  then have "\<not> int i < sint argc" by linarith
  with 0 show ?case
    by (intro does_loop_seq) (simp add: arg_round_def [of _ _ _ "int i"] arg_calls_def does_refl)
next
  case (Suc d)
  then have i: "int i < sint argc" "i < nat (sint argc)" by linarith+
  have c: "arg_calls fmt m argv i (nat (sint argc)) = print_call fmt (m (argv + 4 * of_nat i)) # arg_calls fmt m argv (Suc i) (nat (sint argc))"
    using i(2) by (simp add: arg_calls_def upt_conv_Cons)
  have "does ans (seq (loop (arg_round fmt argc argv) (int (Suc i))) f, h @ [print_call fmt (m (argv + 4 * of_nat i))], m)
     (f (), (h @ [print_call fmt (m (argv + 4 * of_nat i))]) @ arg_calls fmt m argv (Suc i) (nat (sint argc)), m)"
    using Suc i by (intro Suc.hyps(1)) simp_all
  then show ?case
    by (intro does_loop_seq)
      (simp add: arg_round_def [of _ _ _ "int i"] i library_defs, (rule does_intros)+, simp add: c ac_simps)
qed

lemma print_args_does:
  "does ans (seq (print_args fmt argc argv) f, h, m) (f (), h @ arg_calls fmt m argv 0 (nat (sint argc)), m)"
  using arg_rounds_does [of 0 argc] by (simp add: print_args_def)

lemma calls_does: "(\<exists>n. calls n ans m h p = y) \<longleftrightarrow> does ans (p, h, m) y"
  by (simp add: does_def)

lemma seq_assoc: "seq (seq p f) g = seq p (\<lambda>x. seq (f x) g)"
proof (coinduction arbitrary: p rule: process.coinduct_strong)
  case (Eq_process p)
  then show ?case by (cases p) (auto simp: rel_fun_def)
qed

text \<open>C30: The shell. Started with \<open>argc\<close> arguments at \<open>argv\<close> it ends: it prints each argument twice, forks,
  prints its id, sleeps for three seconds, and exits with status 0.\<close>

theorem shell_calls:
  fixes ans slit m argv argc
  defines "n \<equiv> nat (sint argc)"
  defines "h \<equiv> arg_calls (slit ''arg = %s'') m argv 0 n @ arg_calls (slit ''[arg]: %s'') m argv 0 n @ [args_uninit SYS_fork, args_uninit SYS_getpid]"
  shows "\<exists>k. calls k ans m [] (cstart (shell_main slit) slit argc argv) =
    (Done (), h @ [print_call (slit ''main.c: %d'') (ans h), sleep_call 3000, (args_uninit SYS_exit)\<lparr>sa_arg0 := Some 0\<rparr>], m)"
proof -
  have z: "\<not> sint (3000 :: u32) \<le> 0" by simp
  let ?h = "(([] @ arg_calls (slit ''arg = %s'') m argv 0 n) @ arg_calls (slit ''[arg]: %s'') m argv 0 n) @ [args_uninit SYS_fork]"
  let ?rest = "loop (\<lambda>_ :: unit. seq getpid (\<lambda>pid. seq (print_msg (slit ''main.c: %d'') pid) (\<lambda>_.
       seq (msleep 3000) (\<lambda>_. Done (Inr 0))))) ()"
  have "does ans (seq ?rest exit, ?h, m) (Done (), h @ [print_call (slit ''main.c: %d'') (ans h), sleep_call 3000,
      (args_uninit SYS_exit)\<lparr>sa_arg0 := Some 0\<rparr>], m)"
    unfolding h_def by (rule does_loop_seq) (simp add: library_defs z, (rule does_intros, simp?)+, rule does_refl)
  then have r: "does ans (seq fork (\<lambda>_. seq ?rest exit), ([] @ arg_calls (slit ''arg = %s'') m argv 0 n) @ arg_calls (slit ''[arg]: %s'') m argv 0 n, m)
      (Done (), h @ [print_call (slit ''main.c: %d'') (ans h), sleep_call 3000, (args_uninit SYS_exit)\<lparr>sa_arg0 := Some 0\<rparr>], m)"
    unfolding fork_def user_syscall_def seq_simps by (rule does_call)
  show ?thesis
    unfolding calls_does cstart_def shell_main_def seq_assoc
    by (rule does_trans [OF print_args_does], rule does_trans [OF print_args_does], fold n_def, rule r)
qed

text \<open>C29: The first task. It prints its id and forks. Where the fork fails it prints so for ever; the
  child prints 13, executes the shell, and if that returns goes on counting by ten from 23; the parent
  prints the id of the child and 4, and then in round after round, with a second of sleep, the id and the
  next number from 5 on. In every case it never ends.\<close>

theorem first_task_calls:
  fixes ans slit m argv k
  defines "p0 \<equiv> [args_uninit SYS_getpid]"
  defines "p1 \<equiv> p0 @ [print_call (slit ''first task id=%d'') (ans p0), args_uninit SYS_fork]"
  defines "pid \<equiv> ans p1"
  defines "p2 \<equiv> p1 @ (if sint pid < 0 then [print_call (slit ''create child proc failed.'') 0]
      else if pid = 0 then [print_call (slit ''child: %d'') 13, exec_call (slit ''/shell.elf'') argv 0]
      else [print_call (slit ''child task id=%d'') pid, print_call (slit ''parent: %d'') 4])"
  defines "c \<equiv> (if sint pid < 0 then 3 else if pid = 0 then 13 else 4)"
  shows "\<exists>n m'. calls n ans m [] (first_task_main slit argv) =
    (loop (first_task_round slit pid) (c + of_nat k * round_step pid),
     p2 @ concat (map (\<lambda>i. round_calls slit pid (c + of_nat i * round_step pid)) [0..<k]), m')"
proof -
  let ?m = "if pid = 0 then m(argv := slit ''arg0'', argv + 4 := slit ''arg1'', argv + 8 := slit ''arg2'', argv + 12 := slit ''arg3'') else m"
  let ?rest = "\<lambda>pid. seq (if sint pid < 0 then seq (print_msg (slit ''create child proc failed.'') 0) (\<lambda>_. Done 3)
      else if pid = 0 then seq (print_msg (slit ''child: %d'') (3 + 10)) (\<lambda>_. seq (first_task_exec slit argv) (\<lambda>_. Done (3 + 10)))
      else seq (print_msg (slit ''child task id=%d'') pid) (\<lambda>_. seq (print_msg (slit ''parent: %d'') (3 + 1)) (\<lambda>_. Done (3 + 1))))
      (\<lambda>count. loop (first_task_round slit pid) count)"
  have first: "does ans (first_task_main slit argv, [], m) (?rest pid, p1, m)"
    unfolding pid_def p1_def p0_def first_task_main_def
    by (simp only: getpid_def print_msg_def fork_def user_syscall_def seq_simps, (rule does_intros)+)
      (simp add: print_call_def does_refl)
  have "does ans (?rest pid, p1, m) (loop (first_task_round slit pid) c, p2, ?m)"
  proof -
    note u = first_task_exec_def library_defs p2_def c_def
    consider "sint pid < 0" | "\<not> sint pid < 0" "pid = 0" | "\<not> sint pid < 0" "pid \<noteq> 0" by blast
    then show ?thesis
      by cases (auto simp: u fun_upd_def intro!: does_intros does_refl)
  qed
  from does_trans [OF first does_trans [OF this first_task_rounds]] show ?thesis
    unfolding does_def fst_conv snd_conv by blast
qed

subsection \<open>Processes on the kernel\<close>

text \<open>
  The frame that a call leaves on the kernel stack has the words that were pushed; the words of fields that
  were not set are arbitrary, and so are the other words of the frame.
\<close>

definition passes :: "syscall_args_t \<Rightarrow> syscall_frame_t \<Rightarrow> bool" where
  "passes args f \<longleftrightarrow> sf_func_id f = sa_id args \<and> (\<forall>v. sa_arg0 args = Some v \<longrightarrow> sf_arg0 f = v)
     \<and> (\<forall>v. sa_arg1 args = Some v \<longrightarrow> sf_arg1 f = v) \<and> (\<forall>v. sa_arg2 args = Some v \<longrightarrow> sf_arg2 f = v)
     \<and> (\<forall>v. sa_arg3 args = Some v \<longrightarrow> sf_arg3 f = v)"

definition kernel_frame :: "'s kernel_scheme \<Rightarrow> addr" where
  "kernel_frame s = tss_esp0 (t_tss (tasks s (curr_task s))) - frame_size"

definition entered :: "syscall_args_t \<Rightarrow> 's kernel_scheme \<Rightarrow> 's kernel_scheme \<Rightarrow> bool" where
  "entered args s s1 \<longleftrightarrow> s1 = s\<lparr>mem := mem s1\<rparr> \<and> (\<forall>x. x \<notin> region (kernel_frame s) 88 \<longrightarrow> mem s1 x = mem s x)
     \<and> passes args (read_frame (mem s1) (kernel_frame s))"

definition vstore32 :: "addr \<Rightarrow> u32 \<Rightarrow> 'm machine_scheme \<Rightarrow> 'm machine_scheme option" where
  "vstore32 a v s = Option.bind (vstore a (ucast v) s) (\<lambda>s. Option.bind (vstore (a + 1) (ucast (drop_bit 8 v)) s) (\<lambda>s.
     Option.bind (vstore (a + 2) (ucast (drop_bit 16 v)) s) (vstore (a + 3) (ucast (drop_bit 24 v)))))"

text \<open>
  The steps of the running process. A call is a step if it comes back without a switch to another task;
  the process goes on with what the kernel left in the word for EAX.
\<close>

inductive process_step :: "device \<Rightarrow> kernel_env \<Rightarrow> addr \<Rightarrow> 'a process \<times> 's kernel_scheme \<Rightarrow> 'a process \<times> 's kernel_scheme \<Rightarrow> bool"
  for dev env buf where
  step_call: "entered args s s1 \<Longrightarrow> do_handler_syscall dev env buf (kernel_frame s) s1 = Some (Inr ((), s2)) \<Longrightarrow>
    process_step dev env buf (Act (Call args) k, s) (k (sf_eax (read_frame (mem s2) (kernel_frame s))), s2)"
| step_read: "vmapped s a 4 \<Longrightarrow> process_step dev env buf (Act (Read a) k, s) (k (load32 (vbytes s) a), s)"
| step_write: "vstore32 a v s = Some s1 \<Longrightarrow> process_step dev env buf (Act (Write a v) k, s) (k r, s1)"
| step_again: "process_step dev env buf (Act Again k, s) (k r, s)"

inductive_cases process_step_callE: "process_step dev env buf (Act (Call args) k, s) (q, s2)"

inductive_simps process_step_Done [simp]: "process_step dev env buf (Done x, s) c"

text \<open>What the call numbers and arguments of the library select in the kernel.\<close>

lemma library_calls:
  "passes (sleep_call ms) f \<Longrightarrow> sys_table dev env buf (sf_func_id f) (sf_arg0 f) (sf_arg1 f) (sf_arg2 f) (sf_arg3 f) s
     = Some (returned (undef_ret s) (sys_sleep ms s))"
  "passes (args_uninit SYS_getpid) f \<Longrightarrow> sys_table dev env buf (sf_func_id f) (sf_arg0 f) (sf_arg1 f) (sf_arg2 f) (sf_arg3 f) s
     = Some (Inr (sys_getpid s, s))"
  "passes (print_call fmt arg) f \<Longrightarrow> sys_table dev env buf (sf_func_id f) (sf_arg0 f) (sf_arg1 f) (sf_arg2 f) (sf_arg3 f) s
     = bindO (sys_print_msg dev buf fmt arg s) (\<lambda>_ s. Some (Inr (undef_ret s, s)))"
  "passes (args_uninit SYS_fork) f \<Longrightarrow> sys_table dev env buf (sf_func_id f) (sf_arg0 f) (sf_arg1 f) (sf_arg2 f) (sf_arg3 f) s
     = Some (sys_fork env s)"
  "passes (exec_call name argv envp) f \<Longrightarrow> sys_table dev env buf (sf_func_id f) (sf_arg0 f) (sf_arg1 f) (sf_arg2 f) (sf_arg3 f) s
     = sys_execve dev env name argv envp s"
  "passes ((args_uninit SYS_exit)\<lparr>sa_arg0 := Some st\<rparr>) f \<Longrightarrow> sys_table dev env buf (sf_func_id f) (sf_arg0 f) (sf_arg1 f) (sf_arg2 f) (sf_arg3 f) s
     = Some (returned 0 (sys_exit st s))"
  by (simp_all add: passes_def sleep_call_def print_call_def exec_call_def args_uninit_def sys_table_def syscall_numbers)

lemma passes_known:
  "passes args f \<Longrightarrow> sa_id args \<in> {SYS_sleep, SYS_getpid, SYS_print_msg, SYS_fork, SYS_execve, SYS_exit} \<Longrightarrow> sf_func_id f < 6"
  by (auto simp: passes_def syscall_numbers)

text \<open>A call that the kernel completes is a step to the continuation with its result.\<close>

lemma call_step:
  assumes "entered args s s1" "sf_func_id f < 6" "f = read_frame (mem s1) (kernel_frame s)"
    and "sys_table dev env buf (sf_func_id f) (sf_arg0 f) (sf_arg1 f) (sf_arg2 f) (sf_arg3 f) s1 = Some (Inr (v, s2))"
  shows "process_step dev env buf (Act (Call args) k, s) (k v, store_word (kernel_frame s + 48) v s2)"
proof -
  have d: "do_handler_syscall dev env buf (kernel_frame s) s1 = Some (Inr ((), store_word (kernel_frame s + 48) v s2))"
    using assms(2,4) by (simp add: do_handler_syscall_def Let_def set_eax_def assms(3) [symmetric])
  have e: "sf_eax (read_frame (mem (store_word (kernel_frame s + 48) v s2)) (kernel_frame s)) = v"
    by (simp add: store_word_def read_frame_set_eax)
  show ?thesis using step_call [OF assms(1) d, of k] by (simp only: e)
qed

definition resumes :: "syscall_frame_t \<Rightarrow> u32 \<Rightarrow> tss_t \<Rightarrow> bool" where
  "resumes f v t \<longleftrightarrow> tss_eip t = sf_eip f \<and> tss_esp t = sf_esp f + 20 \<and> tss_eax t = v
     \<and> tss_ebx t = sf_ebx f \<and> tss_ecx t = sf_ecx f \<and> tss_edx t = sf_edx f \<and> tss_esi t = sf_esi f \<and> tss_edi t = sf_edi f
     \<and> tss_ebp t = sf_ebp f \<and> tss_eflags t = sf_eflags f"

lemma resumes_fork_tss: "resumes f 0 (fork_tss f (new_tss (sf_eip f) (sf_esp f + 20) ks cs ds dir))"
  by (simp add: resumes_def fork_tss_def new_tss_def)

text \<open>C15: \<^verbatim>\<open>fork\<close> in a user program. When the call enters the kernel in a state in which the kernel can
  fork, the program goes on with the id of the child; the child, ready to run, resumes the same call in
  the same registers with the answer 0, as a child of the caller.\<close>

theorem fork_returns_twice:
  assumes "entered (args_uninit SYS_fork) s s1"
    and "kernel_ready s1" "mutex_free (task_table_mutex s1)" "gdt_find_free 1 (gdt_table s1) \<noteq> None" "0 \<le> sint (undef_ret s1)"
    and "find_unnamed TASK_NR (task_table env) (tasks s1) = c" "c \<noteq> 0"
    and "user_task s1" "task_lists T s1 rs ss xs" "c \<in> T" "c \<noteq> idle_task s1" "c \<notin> set rs \<union> set ss \<union> set xs"
    and "2 * card (user_pages (mem s1) (parent_dir s1) (2 ^ 20)) + 2 \<le> card (avail (paddr_alloc s1))"
  shows "\<exists>s2. process_step dev env buf (seq fork f, s) (f c, s2)
    \<and> resumes (read_frame (mem s1) (kernel_frame s)) 0 (t_tss (tasks s2 c))
    \<and> t_parent (tasks s2 c) = curr_task s \<and> t_state (tasks s2 c) = TASK_READY
    \<and> task_lists T s2 (rs @ [c]) ss (xs @ [c]) \<and> curr_task s2 = curr_task s"
proof (rule sys_fork_eq [OF assms(2-13)], goal_cases)
  case (1 s2 s3 s4 dir g lr h)
  note o = this
  let ?f = "read_frame (mem s1) (kernel_frame s)"
  have p: "passes (args_uninit SYS_fork) ?f" using assms(1) by (simp add: entered_def)
  have e1: "s1 = s\<lparr>mem := mem s1\<rparr>" using assms(1) unfolding entered_def by (elim conjE)
  have s1: "tasks s1 = tasks s" "curr_task s1 = curr_task s"
    using arg_cong [OF e1, of tasks] arg_cong [OF e1, of curr_task] by simp_all
  have fr: "parent_frame s1 = ?f" by (simp add: parent_frame_def kernel_frame_def s1)
  have k: "sf_func_id ?f < 6" using passes_known [OF p] by (simp add: args_uninit_def)
  have t: "sys_table dev env buf (sf_func_id ?f) (sf_arg0 ?f) (sf_arg1 ?f) (sf_arg2 ?f) (sf_arg3 ?f) s1 = Some (Inr (c, s4))"
    by (subst library_calls(4) [OF p]) (subst o(10), rule refl)
  let ?s = "store_word (kernel_frame s + 48) c s4"
  have step: "process_step dev env buf (seq fork f, s) (f c, ?s)"
    using call_step [OF assms(1) k refl t, of f] by (simp add: fork_def user_syscall_def)
  obtain ks where w: "t_tss (tasks s2 c) = fork_tss ?f (new_tss (sf_eip ?f) (sf_esp ?f + 20) ks (code_selector 0 s1) (data_selector 0 s1) dir)"
    "t_parent (tasks s2 c) = curr_task s"
    using o(1) fr s1(2) by (auto simp: fork_child_def)
  have c4: "tasks s4 c = (tasks s2 c)\<lparr>t_state := TASK_READY\<rparr>" "curr_task s4 = curr_task s" using o(4,7,8) s1 by simp_all
  have l: "task_lists T ?s (rs @ [c]) ss (xs @ [c])" using o(5) by (simp add: task_lists_def sched_rep_def store_word_def)
  show ?case
    by (rule exI [of _ ?s], intro conjI, rule step) (use w c4 l resumes_fork_tss in \<open>simp_all add: store_word_def\<close>)
qed

theorem fork_returns_twice_witness:
  "\<exists>(s :: kernel) s2. process_step demo_drive demo_env 0x4000 (seq fork Done, s) (Done 0x40000, s2)
     \<and> tss_eax (t_tss (tasks s2 0x40000)) = 0"
proof (rule demo_can_fork, goal_cases)
  case (1 s)
  note d = this
  have k: "kernel_frame s = 0x12fa8" by (simp add: kernel_frame_def d(15,16) demo_parent_def MEM_PAGE_SIZE_def)
  have "sf_func_id (read_frame (mem s) 0x12fa8) = SYS_fork"
    using d(17) by (simp add: read_frame_def SYS_fork_def)
  then have "entered (args_uninit SYS_fork) s s" by (simp add: entered_def passes_def args_uninit_def k)
  from fork_returns_twice [OF this d(1-12), of demo_drive "0x4000" Done] show ?case
  proof (elim exE conjE, goal_cases)
    case (1 s2)
    then show ?case by (intro exI [of _ s] exI [of _ s2] conjI) (simp_all add: resumes_def)
  qed
qed

end
