(* ===== verification/Identity.thy ===== *)
theory Identity
  imports Copy
begin

text \<open>
  The memory at the start, \<^verbatim>\<open>memory_init\<close> and \<^verbatim>\<open>create_kernel_table\<close> of
  \<^verbatim>\<open>source/kernel/core/memory.c\<close> (the definitions are in Memory): with enough free frames a range of pages is
  mapped completely, the kernel map consists of disjoint ranges, and the kernel directory is the identity on them.
\<close>

text \<open>The directory entries in use.\<close>

definition tables :: "bytes \<Rightarrow> addr \<Rightarrow> nat set" where
  "tables m dir = {j. has_pt m dir j}"

lemma tables_finite [simp]: "finite (tables m dir)"
  by (rule finite_subset [of _ "{..<1024}"]) (auto simp: tables_def has_pt_def)

lemma map_one_grows:
  assumes "vm_ok dir s" "entry (mem s) dir (page_no va) = None" "memory_create_map dir va p 1 perm s = Inr (r, s')"
  shows "grows dir s s'"
proof -
  have "page_no va + Suc 0 \<le> 2 ^ 20" using page_no_bound [of va] by simp
  from create_map_loop_effect [OF assms(1) this, of p perm] assms(2,3) show ?thesis by (auto simp: memory_create_map_def)
qed

text \<open>
  Mapping a page whose table is among \<open>J\<close>, with a free frame for every missing table of \<open>J\<close> and \<open>r\<close> more:
  there are as many left over for the tables of \<open>J\<close> that are missing afterwards.
\<close>

lemma map_one_room:
  assumes ok: "vm_ok dir s" and none: "entry (mem s) dir (page_no va) = None"
    and J: "finite J" "page_no va div 1024 \<in> J" and room: "card (J - tables (mem s) dir) + r \<le> card (avail (paddr_alloc s))"
  obtains s' where "memory_create_map dir va p 1 perm s = Inr (undef_ret s, s')" "vm_ok dir s'" "grows dir s s'"
    "entry (mem s') dir = (entry (mem s) dir)(page_no va \<mapsto> (p OR perm OR PTE_P))"
    "tables (mem s') dir = insert (page_no va div 1024) (tables (mem s) dir)"
    "card (J - tables (mem s') dir) + r \<le> card (avail (paddr_alloc s'))"
    "card (avail (paddr_alloc s')) + card (tables (mem s') dir) = card (avail (paddr_alloc s)) + card (tables (mem s) dir)"
    "\<And>k. create_map_loop (Suc k) dir va p perm s = create_map_loop k dir (va + MEM_PAGE_SIZE) (p + MEM_PAGE_SIZE) perm s'"
proof -
  let ?i = "page_no va div 1024"
  have missing: "?i \<in> J - tables (mem s) dir" "0 < card (J - tables (mem s) dir)" if "\<not> has_pt (mem s) dir ?i"
    using that J by (auto simp: tables_def card_gt_0_iff)
  then have free: "has_pt (mem s) dir ?i \<or> avail (paddr_alloc s) \<noteq> {}" using room by fastforce
  show thesis
  proof (rule map_one_page [OF ok none free, of p perm], goal_cases)
    case (1 s' T)
    note m = this
    have t: "tables (mem s') dir = insert ?i (tables (mem s) dir)" using m(8) by (auto simp: tables_def)
    have "card (J - tables (mem s') dir) + r \<le> card (avail (paddr_alloc s'))
        \<and> card (avail (paddr_alloc s')) + card (tables (mem s') dir) = card (avail (paddr_alloc s)) + card (tables (mem s) dir)"
    proof (cases "has_pt (mem s) dir ?i")
      case True
      then have "tables (mem s') dir = tables (mem s) dir" "T = {}" using m(5) t by (auto simp: tables_def)
      then show ?thesis unfolding m(7) using room by simp
    next
      case False
      have "card (J - tables (mem s') dir) = card (J - tables (mem s) dir) - 1"
        unfolding t Diff_insert [of J _ "tables (mem s) dir"] by (rule card_Diff_singleton) (rule missing(1) [OF False])
      moreover have "card (avail (paddr_alloc s')) = card (avail (paddr_alloc s)) - 1"
        unfolding m(7) using m(5,6) False by (simp add: card_Diff_singleton)
      moreover have "card (tables (mem s') dir) = Suc (card (tables (mem s) dir))"
        unfolding t using False by (intro card_insert_disjoint tables_finite) (simp add: tables_def)
      ultimately show ?thesis using missing(2) [OF False] room by linarith
    qed
    then show ?case using m(1,2,10,12) t map_one_grows [OF ok none m(1)] by (intro that [of s']) simp_all
  qed
qed

text \<open>Mapping \<open>n\<close> pages whose tables are among \<open>J\<close>, with a free frame for every missing table of \<open>J\<close>: all are mapped.\<close>

lemma create_map_loop_full:
  assumes "vm_ok dir s" "page_no va + n \<le> 2 ^ 20" "\<And>k. k < n \<Longrightarrow> entry (mem s) dir (page_no va + k) = None"
    and "finite J" "\<And>k. k < n \<Longrightarrow> (page_no va + k) div 1024 \<in> J"
    and "card (J - tables (mem s) dir) \<le> card (avail (paddr_alloc s))"
  shows "\<exists>s'. create_map_loop n dir va paddr perm s = Inr (undef_ret s, s') \<and> vm_ok dir s' \<and> grows dir s s'
    \<and> entry (mem s') dir = mapped (page_no va) n paddr perm (entry (mem s) dir)
    \<and> tables (mem s') dir \<subseteq> tables (mem s) dir \<union> J
    \<and> card (J - tables (mem s') dir) \<le> card (avail (paddr_alloc s'))
    \<and> card (avail (paddr_alloc s')) + card (tables (mem s') dir) = card (avail (paddr_alloc s)) + card (tables (mem s) dir)"
  using assms
proof (induction n arbitrary: va paddr s)
  case 0
  then show ?case by simp
next
  case (Suc n)
  let ?n = "page_no va"
  have none: "entry (mem s) dir ?n = None" and iJ: "?n div 1024 \<in> J" and room: "card (J - tables (mem s) dir) + 0 \<le> card (avail (paddr_alloc s))"
    using Suc.prems(3) [of 0] Suc.prems(5) [of 0] Suc.prems(6) by simp_all
  show ?case
  proof (rule map_one_room [OF Suc.prems(1) none Suc.prems(4) iJ room, of paddr perm], goal_cases)
    case (1 s1)
    note m = this
    have u: "undef_ret s1 = undef_ret s" by (rule grows_undef [OF m(3)])
    show ?case
    proof (cases "n = 0")
      case True
      have "create_map_loop (Suc n) dir va paddr perm s = Inr (undef_ret s, s1)" using m(8) [of 0] u True by simp
      moreover have "entry (mem s1) dir = mapped ?n (Suc n) paddr perm (entry (mem s) dir)"
        using m(4) True by (simp add: mapped_1)
      ultimately show ?thesis
        using m(2,3,5-7) iJ by (intro exI [of _ s1]) auto
    next
      case False
      then have nx: "page_no (va + MEM_PAGE_SIZE) = Suc ?n" using Suc.prems(2) by (intro page_no_next) simp
      have "\<exists>s'. create_map_loop n dir (va + MEM_PAGE_SIZE) (paddr + MEM_PAGE_SIZE) perm s1 = Inr (undef_ret s1, s') \<and> vm_ok dir s' \<and> grows dir s1 s'
        \<and> entry (mem s') dir = mapped (page_no (va + MEM_PAGE_SIZE)) n (paddr + MEM_PAGE_SIZE) perm (entry (mem s1) dir)
        \<and> tables (mem s') dir \<subseteq> tables (mem s1) dir \<union> J
        \<and> card (J - tables (mem s') dir) \<le> card (avail (paddr_alloc s'))
        \<and> card (avail (paddr_alloc s')) + card (tables (mem s') dir) = card (avail (paddr_alloc s1)) + card (tables (mem s1) dir)"
      proof (rule Suc.IH [OF m(2) _ _ Suc.prems(4)])
        show "page_no (va + MEM_PAGE_SIZE) + n \<le> 2 ^ 20" using nx Suc.prems(2) by simp
        show "entry (mem s1) dir (page_no (va + MEM_PAGE_SIZE) + k) = None" if "k < n" for k
          unfolding m(4) nx using Suc.prems(3) [of "Suc k"] that by simp
        show "(page_no (va + MEM_PAGE_SIZE) + k) div 1024 \<in> J" if "k < n" for k
          unfolding nx using Suc.prems(5) [of "Suc k"] that by simp
      qed (use m(6) in simp)
      then obtain s' where r: "create_map_loop n dir (va + MEM_PAGE_SIZE) (paddr + MEM_PAGE_SIZE) perm s1 = Inr (undef_ret s1, s')"
        "vm_ok dir s'" "grows dir s1 s'"
        "entry (mem s') dir = mapped (Suc ?n) n (paddr + MEM_PAGE_SIZE) perm ((entry (mem s) dir)(?n \<mapsto> (paddr OR perm OR PTE_P)))"
        "tables (mem s') dir \<subseteq> tables (mem s1) dir \<union> J" "card (J - tables (mem s') dir) \<le> card (avail (paddr_alloc s'))"
        "card (avail (paddr_alloc s')) + card (tables (mem s') dir) = card (avail (paddr_alloc s1)) + card (tables (mem s1) dir)"
        unfolding m(4) nx by blast
      have "grows dir s s'" using m(3) r(3) by (rule grows_trans)
      moreover have "create_map_loop (Suc n) dir va paddr perm s = Inr (undef_ret s, s')" using m(8) [of n] r(1) u by simp
      ultimately show ?thesis
        using r(2,4-7) m(5,7) iJ by (intro exI [of _ s']) (auto simp: mapped_Suc)
    qed
  qed
qed

text \<open>
  The page numbers of an entry of the kernel map, and the page table entries that a list of ranges
  stands for: each page is mapped to itself with the permissions of its range.
\<close>

definition range_pages :: "memory_map_t \<Rightarrow> nat set" where
  "range_pages mp = {page_no (mm_vstart mp) ..< (unat (mm_vend mp) + 4095) div 4096}"

definition identity_entries :: "memory_map_t list \<Rightarrow> nat \<Rightarrow> u32 option" where
  "identity_entries mps n =
     map_option (\<lambda>mp. of_nat (4096 * n) OR mm_perm mp OR PTE_P) (find (\<lambda>mp. n \<in> range_pages mp) mps)"

definition range_ok :: "memory_map_t \<Rightarrow> bool" where
  "range_ok mp \<longleftrightarrow> mm_pstart mp = mm_vstart mp \<and> unat (mm_vend mp) + 4095 < 2 ^ 31
     \<and> page_no (mm_vstart mp) \<le> (unat (mm_vend mp) + 4095) div 4096"

lemma map_range:
  assumes "range_ok mp"
  defines "n \<equiv> card (range_pages mp)"
  shows "memory_create_map dir (down2 (mm_vstart mp) MEM_PAGE_SIZE) (down2 (mm_pstart mp) MEM_PAGE_SIZE)
      (sint (up2 (mm_vend mp) MEM_PAGE_SIZE - down2 (mm_vstart mp) MEM_PAGE_SIZE) sdiv sint MEM_PAGE_SIZE) perm s
    = create_map_loop n dir (of_nat (4096 * page_no (mm_vstart mp))) (of_nat (4096 * page_no (mm_vstart mp))) perm s"
    and "page_no (of_nat (4096 * page_no (mm_vstart mp)) :: addr) = page_no (mm_vstart mp)"
    and "page_no (mm_vstart mp) + n \<le> 2 ^ 19"
proof -
  let ?a = "page_no (mm_vstart mp)" and ?b = "(unat (mm_vend mp) + 4095) div 4096"
  have v: "unat (mm_vend mp) + 4095 < 2147483648" using assms(1) by (simp add: range_ok_def)
  have ab: "?a \<le> ?b" "4096 * ?b < 2 ^ 31" "unat (mm_vend mp) + 4095 < 2 ^ 32" using assms(1) v by (simp_all add: range_ok_def)
  have n: "n = ?b - ?a" by (simp add: n_def range_pages_def)
  have d: "down2 x MEM_PAGE_SIZE = of_nat (4096 * page_no x)" for x
    using arg_cong [OF unat_down2 [of x], of "of_nat :: nat \<Rightarrow> u32"] by (simp del: of_nat_mult)
  have u: "up2 (mm_vend mp) MEM_PAGE_SIZE = of_nat (4096 * ?b)"
    using arg_cong [OF unat_up2 [OF ab(3)], of "of_nat :: nat \<Rightarrow> u32"] by (simp del: of_nat_mult)
  have "up2 (mm_vend mp) MEM_PAGE_SIZE - down2 (mm_vstart mp) MEM_PAGE_SIZE = of_nat (4096 * ?b - 4096 * ?a)"
    unfolding u d using ab(1) by (simp add: of_nat_diff)
  also have "\<dots> = of_nat (4096 * n)" by (simp add: n diff_mult_distrib2)
  finally have "sint (up2 (mm_vend mp) MEM_PAGE_SIZE - down2 (mm_vstart mp) MEM_PAGE_SIZE) = int (4096 * n)"
    using sint_of_nat_u32 [of "4096 * n"] ab n by simp
  moreover have "sint MEM_PAGE_SIZE = 4096" by (simp add: MEM_PAGE_SIZE_def)
  moreover have "int (4096 * n) sdiv 4096 = int n" by (cases "n = 0") (simp_all add: signed_divide_int_def sgn_mult)
  ultimately show "memory_create_map dir (down2 (mm_vstart mp) MEM_PAGE_SIZE) (down2 (mm_pstart mp) MEM_PAGE_SIZE)
      (sint (up2 (mm_vend mp) MEM_PAGE_SIZE - down2 (mm_vstart mp) MEM_PAGE_SIZE) sdiv sint MEM_PAGE_SIZE) perm s
    = create_map_loop n dir (of_nat (4096 * ?a)) (of_nat (4096 * ?a)) perm s"
    using assms(1) by (simp add: memory_create_map_def range_ok_def d del: of_nat_mult)
  have "4096 * ?a < 2 ^ 32" using ab by linarith
  then have "unat (of_nat (4096 * ?a) :: addr) = 4096 * ?a" by (simp add: unat_of_nat del: of_nat_mult)
  then show "page_no (of_nat (4096 * ?a) :: addr) = ?a" unfolding page_no_def [of "of_nat _"] by simp
  show "?a + n \<le> 2 ^ 19" using ab n by simp
qed

lemma mapped_identity:
  "mapped a n (of_nat (4096 * a)) perm e j = (if a \<le> j \<and> j < a + n then Some (of_nat (4096 * j) OR perm OR PTE_P) else e j)"
proof (cases "a \<le> j")
  case True
  then have "(of_nat (4096 * a) :: u32) + of_nat (j - a) * MEM_PAGE_SIZE = of_nat (4096 * a + 4096 * (j - a))"
    by (simp add: MEM_PAGE_SIZE_def mult.commute)
  also have "4096 * a + 4096 * (j - a) = 4096 * j" using True by (simp add: diff_mult_distrib2)
  finally show ?thesis by (simp only: mapped_def)
qed (simp add: mapped_def)

lemma map_kernel_ranges_full:
  assumes "vm_ok (kernel_page_dir s) s" "list_all range_ok mps" "sorted_wrt (\<lambda>a b. range_pages a \<inter> range_pages b = {}) mps"
    and "\<forall>mp \<in> set mps. \<forall>n \<in> range_pages mp. n div 1024 \<in> J \<and> entry (mem s) (kernel_page_dir s) n = None" "finite J"
    and "card (J - tables (mem s) (kernel_page_dir s)) \<le> card (avail (paddr_alloc s))"
  shows "\<exists>s'. map_kernel_ranges mps s = Inr ((), s') \<and> vm_ok (kernel_page_dir s) s'
    \<and> grows (kernel_page_dir s) s s'
    \<and> (\<forall>n. entry (mem s') (kernel_page_dir s) n = (case identity_entries mps n of None \<Rightarrow> entry (mem s) (kernel_page_dir s) n | Some v \<Rightarrow> Some v))
    \<and> tables (mem s') (kernel_page_dir s) \<subseteq> tables (mem s) (kernel_page_dir s) \<union> J
    \<and> card (J - tables (mem s') (kernel_page_dir s)) \<le> card (avail (paddr_alloc s'))
    \<and> card (avail (paddr_alloc s')) + card (tables (mem s') (kernel_page_dir s))
        = card (avail (paddr_alloc s)) + card (tables (mem s) (kernel_page_dir s))"
  using assms
proof (induction mps arbitrary: s)
  case Nil
  then show ?case by (intro exI [of _ s]) (simp add: identity_entries_def)
next
  case (Cons mp mps)
  let ?d = "kernel_page_dir s" and ?a = "page_no (mm_vstart mp)" and ?n = "card (range_pages mp)"
  have ok: "range_ok mp" using Cons.prems(2) by simp
  note r = map_range [OF ok]
  have pages: "range_pages mp = {?a ..< ?a + ?n}"
    using ok by (auto simp: range_pages_def range_ok_def)
  have inp: "?a + k \<in> range_pages mp" if "k < ?n" for k using that by (subst pages) simp
  have loop: "entry (mem s) ?d (page_no (of_nat (4096 * ?a) :: addr) + k) = None" "(page_no (of_nat (4096 * ?a) :: addr) + k) div 1024 \<in> J" if "k < ?n" for k
    using Cons.prems(4) inp [OF that] unfolding r(2) by simp_all
  have len: "page_no (of_nat (4096 * ?a) :: addr) + ?n \<le> 2 ^ 20" using r(3) unfolding r(2) by simp
  obtain s1 where m: "create_map_loop ?n ?d (of_nat (4096 * ?a)) (of_nat (4096 * ?a)) (mm_perm mp) s = Inr (undef_ret s, s1)" "vm_ok ?d s1"
    "grows ?d s s1" "entry (mem s1) ?d = mapped ?a ?n (of_nat (4096 * ?a)) (mm_perm mp) (entry (mem s) ?d)"
    "tables (mem s1) ?d \<subseteq> tables (mem s) ?d \<union> J" "card (J - tables (mem s1) ?d) \<le> card (avail (paddr_alloc s1))"
    "card (avail (paddr_alloc s1)) + card (tables (mem s1) ?d) = card (avail (paddr_alloc s)) + card (tables (mem s) ?d)"
    using create_map_loop_full [OF Cons.prems(1) len loop(1) Cons.prems(5) loop(2) Cons.prems(6), of "of_nat (4096 * ?a)" "mm_perm mp"]
    unfolding r(2) by blast
  have s1: "s1 = s\<lparr>mem := mem s1, paddr_alloc := paddr_alloc s1\<rparr>" using m(3) by (simp add: grows_def)
  have d1: "kernel_page_dir s1 = ?d" using arg_cong [OF s1, of kernel_page_dir] by simp
  have e1: "entry (mem s1) ?d n = (if n \<in> range_pages mp then Some (of_nat (4096 * n) OR mm_perm mp OR PTE_P) else entry (mem s) ?d n)" for n
  proof -
    have "n \<in> range_pages mp \<longleftrightarrow> ?a \<le> n \<and> n < ?a + ?n" by (subst pages) simp
    then show ?thesis unfolding m(4) mapped_identity by simp
  qed
  have disj: "n \<notin> range_pages mp" if "mp' \<in> set mps" "n \<in> range_pages mp'" for mp' n
    using Cons.prems(3) that by auto
  have "\<exists>s'. map_kernel_ranges mps s1 = Inr ((), s') \<and> vm_ok (kernel_page_dir s1) s'
    \<and> grows (kernel_page_dir s1) s1 s'
    \<and> (\<forall>n. entry (mem s') (kernel_page_dir s1) n = (case identity_entries mps n of None \<Rightarrow> entry (mem s1) (kernel_page_dir s1) n | Some v \<Rightarrow> Some v))
    \<and> tables (mem s') (kernel_page_dir s1) \<subseteq> tables (mem s1) (kernel_page_dir s1) \<union> J
    \<and> card (J - tables (mem s') (kernel_page_dir s1)) \<le> card (avail (paddr_alloc s'))
    \<and> card (avail (paddr_alloc s')) + card (tables (mem s') (kernel_page_dir s1))
        = card (avail (paddr_alloc s1)) + card (tables (mem s1) (kernel_page_dir s1))"
  proof (rule Cons.IH)
    show "\<forall>mp' \<in> set mps. \<forall>n \<in> range_pages mp'. n div 1024 \<in> J \<and> entry (mem s1) (kernel_page_dir s1) n = None"
      using Cons.prems(4) disj e1 d1 by simp
  qed (use Cons.prems m(2,6) d1 in simp_all)
  then obtain s' where q: "map_kernel_ranges mps s1 = Inr ((), s')" "vm_ok ?d s'" "grows ?d s1 s'"
    "\<And>n. entry (mem s') ?d n = (case identity_entries mps n of None \<Rightarrow> entry (mem s1) ?d n | Some v \<Rightarrow> Some v)"
    "tables (mem s') ?d \<subseteq> tables (mem s1) ?d \<union> J" "card (J - tables (mem s') ?d) \<le> card (avail (paddr_alloc s'))"
    "card (avail (paddr_alloc s')) + card (tables (mem s') ?d) = card (avail (paddr_alloc s1)) + card (tables (mem s1) ?d)"
    unfolding d1 by blast
  have "map_kernel_ranges (mp # mps) s = Inr ((), s')"
    unfolding map_kernel_ranges.simps Let_def r(1) m(1) bindR_Inr by (rule q(1))
  moreover have "grows ?d s s'" using m(3) q(3) by (rule grows_trans)
  moreover have "entry (mem s') ?d n = (case identity_entries (mp # mps) n of None \<Rightarrow> entry (mem s) ?d n | Some v \<Rightarrow> Some v)" for n
  proof (cases "n \<in> range_pages mp")
    case True
    then have "find (\<lambda>mp. n \<in> range_pages mp) mps = None" using disj by (auto simp: find_None_iff)
    then show ?thesis using True q(4) e1 by (simp add: identity_entries_def)
  next
    case False
    then have "entry (mem s1) ?d n = entry (mem s) ?d n" "identity_entries (mp # mps) n = identity_entries mps n"
      using e1 by (simp_all add: identity_entries_def)
    then show ?thesis unfolding q(4) by (simp split: option.split)
  qed
  ultimately show ?case using q(2,5-7) m(5,7) by (intro exI [of _ s']) auto
qed

text \<open>An allocator after its initialisation: every frame is available.\<close>

lemma addr_alloc_init_fresh:
  assumes "mutex_init mutex_at name (aa_mutex al) m \<noteq> None" "unat sz = 4096 * c" "2 ^ 20 + 4096 * c \<le> 2 ^ 31"
    and "length buf = nat (bitmap_byte_count (int c))"
  obtains al' where "addr_alloc_init mutex_at name buf MEM_EXT_START sz MEM_PAGE_SIZE al m = Some al'" "alloc_wf al'"
    "frames al' = (\<lambda>i. MEM_EXT_START + of_nat i * 4096) ` {..<c}" "avail al' = frames al'" "card (avail al') = c"
proof -
  obtain mx where mx: "mutex_init mutex_at name (aa_mutex al) m = Some mx" using assms(1) by auto
  have fr: "mutex_free mx" using mx by (auto simp: mutex_init_def mutex_free_def list_init_def list_size_def)
  have q: "uint (sz div MEM_PAGE_SIZE) = int c"
  proof -
    have "unat (sz div MEM_PAGE_SIZE) = c" using assms(2) by (simp add: unat_div_distrib MEM_PAGE_SIZE_def)
    then show ?thesis by (metis of_nat_unat uint_nat)
  qed
  let ?n = "nat (bitmap_byte_count (int c))"
  let ?bm = "\<lparr>bit_count = int c, bits = replicate ?n 0\<rparr>"
  let ?al = "al\<lparr>aa_mutex := mx, aa_start := MEM_EXT_START, aa_size := sz, aa_page_size := MEM_PAGE_SIZE, aa_bitmap := ?bm\<rparr>"
  have nn: "int ?n = (int c + 7) div 8" by (simp add: bitmap_byte_count_eq)
  then have "bitmap_byte_count (int c) = int ?n" by (simp add: bitmap_byte_count_eq)
  then have "bitmap_init buf (int c) 0 = Some ?bm" using assms(4) by (subst bitmap_init_eq) simp_all
  then have r: "addr_alloc_init mutex_at name buf MEM_EXT_START sz MEM_PAGE_SIZE al m = Some ?al"
    by (simp add: addr_alloc_init_def mx q)
  have "c \<le> 8 * ?n" using nn by linarith
  have "int c \<le> 8 * bitmap_byte_count (int c)" "0 \<le> bitmap_byte_count (int c)" unfolding bitmap_byte_count_eq [OF of_nat_0_le_iff] by linarith+
  then have w: "alloc_wf ?al"
    using fr assms(3) by (simp add: alloc_wf_def bitmap_wf_def MEM_EXT_START_def MEM_PAGE_SIZE_def page_aligned_def)
  have clear: "\<not> bm_bit ?bm k" if "k < c" for k
  proof -
    have "k div 8 < ?n" using that \<open>c \<le> 8 * ?n\<close> by linarith
    then show ?thesis by (simp add: bm_bit_def)
  qed
  have f: "frames ?al = (\<lambda>i. MEM_EXT_START + of_nat i * 4096) ` {..<c}" by (auto simp: frames_def frame_def)
  have a: "avail ?al = frames ?al" using clear by (auto simp: avail_def frames_def)
  have "inj_on (frame ?al) {..<c}" using frame_inj [OF w] by (auto simp: inj_on_def)
  moreover have "frames ?al = frame ?al ` {..<c}" by (auto simp: frames_def)
  ultimately have "card (avail ?al) = c" unfolding a by (simp add: card_image)
  then show thesis using r w f a by (intro that [of ?al])
qed

text \<open>
  What the code relies on about the addresses of the linker script: the code starts at a page, the data at
  a page behind it, below the EBDA.
\<close>

definition symbols_ok :: "kernel_symbols \<Rightarrow> bool" where
  "symbols_ok k \<longleftrightarrow> kernel_base k = 0 \<and> page_aligned (s_text k) \<and> page_aligned (s_data k) \<and> s_text k \<le> e_text k
     \<and> e_text k \<le> s_data k \<and> s_data k < MEM_EBDA_START"

definition kernel_perm :: "kernel_symbols \<Rightarrow> nat \<Rightarrow> u32 option" where
  "kernel_perm k n =
     (if n < page_no (s_text k) then Some PTE_W
      else if n < (unat (e_text k) + 4095) div 4096 then Some 0
      else if page_no (s_data k) \<le> n \<and> n < 128 then Some PTE_W
      else if 256 \<le> n \<and> n < 32512 then Some PTE_W else None)"

lemma symbols_pages:
  assumes "symbols_ok k"
  shows "unat (s_text k) = 4096 * page_no (s_text k)" "page_no (s_text k) \<le> (unat (e_text k) + 4095) div 4096"
    "(unat (e_text k) + 4095) div 4096 \<le> page_no (s_data k)" "page_no (s_data k) < 128"
    "unat (e_text k) < 2 ^ 19" "unat (s_text k) < 2 ^ 19"
proof -
  have u: "unat x = 4096 * page_no x" if "page_aligned x" for x :: addr using that by (auto simp: page_aligned_def page_no_def)
  have o: "unat (s_text k) \<le> unat (e_text k)" "unat (e_text k) \<le> unat (s_data k)" "unat (s_data k) < 2 ^ 19"
    using assms by (simp_all add: symbols_ok_def word_le_nat_alt word_less_nat_alt MEM_EBDA_START_def)
  have a: "unat (s_text k) = 4096 * page_no (s_text k)" "unat (s_data k) = 4096 * page_no (s_data k)"
    using assms by (auto simp: symbols_ok_def intro: u)
  show "unat (s_text k) = 4096 * page_no (s_text k)" "unat (e_text k) < 2 ^ 19" "unat (s_text k) < 2 ^ 19" using a o by simp_all
  show "page_no (s_text k) \<le> (unat (e_text k) + 4095) div 4096"
    "(unat (e_text k) + 4095) div 4096 \<le> page_no (s_data k)" using a o by linarith+
  show "page_no (s_data k) < 128" using a(2) o(3) by simp
qed

lemma kernel_map_ranges:
  assumes "symbols_ok k"
  shows "list_all range_ok (kernel_map k)" "sorted_wrt (\<lambda>a b. range_pages a \<inter> range_pages b = {}) (kernel_map k)"
    and "mp \<in> set (kernel_map k) \<Longrightarrow> n \<in> range_pages mp \<Longrightarrow> n div 1024 \<in> {..<32}"
    and "identity_entries (kernel_map k) n = map_option (\<lambda>p. of_nat (4096 * n) OR p OR PTE_P) (kernel_perm k n)"
proof -
  note s = symbols_pages [OF assms]
  have b: "kernel_base k = 0" using assms by (simp add: symbols_ok_def)
  have z: "page_no 0 = 0" "page_no (MEM_EXT_START) = 256" "unat (MEM_EBDA_START - 1) = 0x7ffff" "unat MEM_EXT_END = 127 * 2 ^ 20"
    "(unat (s_text k) + 4095) div 4096 = page_no (s_text k)"
    using s(1) by (simp_all add: page_no_def MEM_EXT_START_def MEM_EBDA_START_def MEM_EXT_END_def)
  let ?r = "map range_pages (kernel_map k)"
  have r: "?r = [{0 ..< page_no (s_text k)}, {page_no (s_text k) ..< (unat (e_text k) + 4095) div 4096},
      {page_no (s_data k) ..< 128}, {256 ..< 32512}]"
    by (simp add: kernel_map_def range_pages_def b z)
  show "list_all range_ok (kernel_map k)" using s by (simp add: kernel_map_def range_ok_def b z)
  have "sorted_wrt (\<lambda>a b. a \<inter> b = {}) ?r" unfolding r using s by auto
  then show "sorted_wrt (\<lambda>a b. range_pages a \<inter> range_pages b = {}) (kernel_map k)" by (simp add: sorted_wrt_map)
  show "n div 1024 \<in> {..<32}" if "mp \<in> set (kernel_map k)" "n \<in> range_pages mp"
  proof -
    have "range_pages mp \<in> set ?r" using that(1) by simp
    then have "n < 32512" unfolding r using that(2) s by auto
    then show ?thesis by auto
  qed
  show "identity_entries (kernel_map k) n = map_option (\<lambda>p. of_nat (4096 * n) OR p OR PTE_P) (kernel_perm k n)"
    using r s by (auto simp: identity_entries_def kernel_perm_def kernel_map_def)
qed

lemma cleared_dir:
  assumes "page_aligned dir" "dir \<noteq> 0"
  shows "\<not> has_pt (clear_page dir m) dir j" "entry (clear_page dir m) dir n = None" "tables (clear_page dir m) dir = {}"
proof -
  have h: "\<not> has_pt (clear_page dir m) dir j" for j
    using assms by (auto simp: has_pt_def pde_at_def load_clear_page present_def)
  then show "\<not> has_pt (clear_page dir m) dir j" "entry (clear_page dir m) dir n = None" "tables (clear_page dir m) dir = {}"
    by (simp_all add: entry_def tables_def)
qed

lemma create_kernel_table_full:
  assumes "symbols_ok k" "alloc_wf (paddr_alloc s)" "page_aligned (kernel_page_dir s)" "kernel_page_dir s \<noteq> 0"
    "kernel_page_dir s \<notin> avail (paddr_alloc s)" "32 \<le> card (avail (paddr_alloc s))"
  obtains s' where "create_kernel_table k s = Inr ((), s')" "vm_ok (kernel_page_dir s) s'"
    "s' = s\<lparr>mem := mem s', paddr_alloc := paddr_alloc s'\<rparr>" "frames (paddr_alloc s') = frames (paddr_alloc s)"
    "avail (paddr_alloc s') \<subseteq> avail (paddr_alloc s)"
    "\<And>n. entry (mem s') (kernel_page_dir s) n = map_option (\<lambda>p. of_nat (4096 * n) OR p OR PTE_P) (kernel_perm k n)"
    "\<And>j. has_pt (mem s') (kernel_page_dir s) j \<Longrightarrow> j < 32"
    "card (avail (paddr_alloc s)) \<le> card (avail (paddr_alloc s')) + 32"
    "\<And>x. page_no x \<noteq> page_no (kernel_page_dir s) \<Longrightarrow> page_no x \<notin> page_no ` avail (paddr_alloc s) \<Longrightarrow> mem s' x = mem s x"
    "dir_pages (mem s') (kernel_page_dir s) \<subseteq> insert (page_no (kernel_page_dir s)) (page_no ` avail (paddr_alloc s))"
proof -
  let ?d = "kernel_page_dir s"
  let ?s = "s\<lparr>mem := clear_page ?d (mem s)\<rparr>"
  note c = cleared_dir [OF assms(3,4), of "mem s"]
  note k = kernel_map_ranges [OF assms(1)]
  have ok: "vm_ok (kernel_page_dir ?s) ?s" using assms c by (simp add: vm_ok_def dir_wf_def)
  have room: "card ({..<32} - tables (mem ?s) (kernel_page_dir ?s)) \<le> card (avail (paddr_alloc ?s))" using assms(6) c(3) by simp
  have fresh: "\<forall>mp \<in> set (kernel_map k). \<forall>n \<in> range_pages mp. n div 1024 \<in> {..<32} \<and> entry (mem ?s) (kernel_page_dir ?s) n = None"
    using k(3) c(2) by simp
  have sd: "kernel_page_dir ?s = ?d" "paddr_alloc ?s = paddr_alloc s" by simp_all
  obtain s' where m: "map_kernel_ranges (kernel_map k) ?s = Inr ((), s')" "vm_ok ?d s'"
    "grows ?d ?s s'"
    "\<And>n. entry (mem s') ?d n = (case identity_entries (kernel_map k) n of None \<Rightarrow> entry (mem ?s) ?d n | Some v \<Rightarrow> Some v)"
    "tables (mem s') ?d \<subseteq> tables (mem ?s) ?d \<union> {..<32}"
    "card (avail (paddr_alloc s')) + card (tables (mem s') ?d) = card (avail (paddr_alloc s)) + card (tables (mem ?s) ?d)"
    using map_kernel_ranges_full [OF ok k(1,2) fresh finite_lessThan room] unfolding sd by blast
  have "create_kernel_table k s = Inr ((), s')"
    using m(1) by (simp add: create_kernel_table_def clear_page_def MEM_PAGE_SIZE_def)
  moreover have s': "s' = ?s\<lparr>mem := mem s', paddr_alloc := paddr_alloc s'\<rparr>" "frames (paddr_alloc s') = frames (paddr_alloc s)"
    "avail (paddr_alloc s') \<subseteq> avail (paddr_alloc s)" using m(3) by (simp_all add: grows_def)
  have "s' = s\<lparr>mem := mem s', paddr_alloc := paddr_alloc s'\<rparr>" by (subst s'(1)) simp
  moreover have "dir_pages (mem ?s) ?d = {page_no ?d}" using c(1) by (simp add: dir_pages_def)
  then have "mem s' x = mem s x" if "page_no x \<noteq> page_no ?d" "page_no x \<notin> page_no ` avail (paddr_alloc s)" for x
    using m(3) that assms(3,4) by (auto simp: grows_def taken_def clear_page_eq)
  moreover have "dir_pages (mem s') ?d \<subseteq> insert (page_no ?d) (page_no ` avail (paddr_alloc s))"
    using m(3) \<open>dir_pages (mem ?s) ?d = {page_no ?d}\<close> by (auto simp: grows_def taken_def)
  moreover have "entry (mem s') ?d n = map_option (\<lambda>p. of_nat (4096 * n) OR p OR PTE_P) (kernel_perm k n)" for n
    unfolding m(4) k(4) using c(2) by (simp split: option.split)
  moreover have "j < 32" if "has_pt (mem s') ?d j" for j using m(5) c(3) that by (auto simp: tables_def)
  moreover have "card (tables (mem s') ?d) \<le> 32"
    using card_mono [of "{..<32}" "tables (mem s') ?d"] m(5) c(3) by simp
  ultimately show thesis using m(2,6) s'(2,3) c(3) by (intro that [of s']) simp_all
qed

lemma identity_pte:
  assumes "n < 2 ^ 20" "p = PTE_W \<or> p = 0"
  shows "pte_paddr (of_nat (4096 * n) OR p OR PTE_P) = of_nat (4096 * n)"
    and "get_pte_perm (of_nat (4096 * n) OR p OR PTE_P) = p OR PTE_P"
proof -
  have u: "unat (of_nat (4096 * n) :: u32) = 4096 * n" using assms(1) by (simp add: unat_of_nat del: of_nat_mult)
  have al: "page_aligned (of_nat (4096 * n))" unfolding page_aligned_def u by simp
  have f: "unat (p OR PTE_P) < 4096" using assms(2) by (auto simp: PTE_W_def PTE_P_def)
  show "pte_paddr (of_nat (4096 * n) OR p OR PTE_P) = of_nat (4096 * n)" using paddr_of_or(2) [OF al f] .
  have "present (p OR PTE_P)" by (auto simp: present_def PTE_P_def bit_simps)
  have g: "get_pte_perm (p OR PTE_P) = p OR PTE_P" "p OR PTE_P OR PTE_P = p OR PTE_P"
    using assms(2) by (auto simp: get_pte_perm_def PTE_W_def PTE_P_def)
  have "get_pte_perm (of_nat (4096 * n) OR get_pte_perm (p OR PTE_P) OR PTE_P) = get_pte_perm (p OR PTE_P)"
    by (rule perm_bits(2) [OF al]) fact
  then show "get_pte_perm (of_nat (4096 * n) OR p OR PTE_P) = p OR PTE_P" using g by (simp only: or.assoc)
qed

lemma identity_translate:
  assumes "\<And>n. entry m dir n = map_option (\<lambda>p. of_nat (4096 * n) OR p OR PTE_P) (kernel_perm k n)"
  shows "translate m dir va = (if kernel_perm k (page_no va) = None then None else Some va)"
    and "map_option get_pte_perm (pt_entry m dir va) = map_option (\<lambda>p. p OR PTE_P) (kernel_perm k (page_no va))"
proof -
  have p: "p = PTE_W \<or> p = 0" if "kernel_perm k n = Some p" for n p using that by (auto simp: kernel_perm_def split: if_splits)
  have va: "of_nat (4096 * page_no va) + (va AND (MEM_PAGE_SIZE - 1)) = va"
  proof -
    have "unat va = 4096 * page_no va + page_off va" by (simp add: page_no_def page_off_def)
    from arg_cong [OF this, of "of_nat :: nat \<Rightarrow> u32"] have "va = of_nat (4096 * page_no va + page_off va)" by simp
    then show ?thesis using page_off_and [of va] by (simp add: MEM_PAGE_SIZE_def)
  qed
  note i = identity_pte [OF page_no_bound [of va]]
  show "translate m dir va = (if kernel_perm k (page_no va) = None then None else Some va)"
    using p i(1) va by (auto simp: translate_eq assms simp del: of_nat_mult)
  show "map_option get_pte_perm (pt_entry m dir va) = map_option (\<lambda>p. p OR PTE_P) (kernel_perm k (page_no va))"
    using p i(2) by (cases "kernel_perm k (page_no va)") (auto simp: pt_entry_eq assms simp del: of_nat_mult)
qed

lemma memory_init_eq:
  assumes "total_mem_size boot_info = Some ms" "2 ^ 20 + 32 * 4096 \<le> unat ms" "unat ms \<le> 2 ^ 31" "symbols_ok k"
    and "page_aligned (kernel_page_dir s)" "kernel_page_dir s \<noteq> 0" "kernel_page_dir s < MEM_EXT_START"
    and "mutex_init mutex_at name (aa_mutex (paddr_alloc s)) (mem s) \<noteq> None"
    and "c = (unat ms - 2 ^ 20) div 4096" "unat (mem_free_start k) + (c + 7) div 8 < 2 ^ 19"
  obtains s' where "memory_init mutex_at name k boot_info s = Inr ((), s')" "vm_ok (kernel_page_dir s) s'"
    "s' = s\<lparr>mem := mem s', paddr_alloc := paddr_alloc s', cr3_reg := kernel_page_dir s\<rparr>"
    "frames (paddr_alloc s') = (\<lambda>i. MEM_EXT_START + of_nat i * 4096) ` {..<c}" "c \<le> card (avail (paddr_alloc s')) + 32"
    "\<And>n. entry (mem s') (kernel_page_dir s) n = map_option (\<lambda>p. of_nat (4096 * n) OR p OR PTE_P) (kernel_perm k n)"
    "\<And>j. has_pt (mem s') (kernel_page_dir s) j \<Longrightarrow> j < 32"
    "\<And>x. x < MEM_EXT_START \<Longrightarrow> page_no x \<noteq> page_no (kernel_page_dir s) \<Longrightarrow> mem s' x = mem s x"
    "\<And>x. x < MEM_EXT_START \<Longrightarrow> page_no x \<noteq> page_no (kernel_page_dir s) \<Longrightarrow>
       page_no x \<notin> dir_pages (mem s') (kernel_page_dir s) \<union> page_no ` avail (paddr_alloc s')"
proof -
  let ?up = "down2 (ms - MEM_EXT_START) MEM_PAGE_SIZE" and ?n = "nat (bitmap_byte_count (int c))"
  have b: "unat ms \<le> 2147483648" "1179648 \<le> unat ms" using assms(2,3) by simp_all
  have "MEM_EXT_START \<le> ms" using b by (simp add: MEM_EXT_START_def word_le_nat_alt)
  then have "unat (ms - MEM_EXT_START) = unat ms - 2 ^ 20" by (simp add: unat_sub MEM_EXT_START_def)
  then have up: "unat ?up = 4096 * c" unfolding unat_down2 page_no_def assms(9) by simp
  have c: "2 ^ 20 + 4096 * c \<le> 2 ^ 31" "32 \<le> c" using b unfolding assms(9) by auto
  have q: "uint (?up div MEM_PAGE_SIZE) = int c"
  proof -
    have "unat (?up div MEM_PAGE_SIZE) = c" using up by (simp add: unat_div_distrib MEM_PAGE_SIZE_def)
    then show ?thesis by (metis of_nat_unat uint_nat)
  qed
  have n: "bitmap_byte_count (int c) = int ((c + 7) div 8)" by (simp add: bitmap_byte_count_eq zdiv_int)
  obtain al where al: "addr_alloc_init mutex_at name (load_bytes (mem s) (mem_free_start k) ?n) MEM_EXT_START ?up MEM_PAGE_SIZE
      (paddr_alloc s) (mem s) = Some al" "alloc_wf al" "frames al = (\<lambda>i. MEM_EXT_START + of_nat i * 4096) ` {..<c}"
    "avail al = frames al" "card (avail al) = c"
    by (rule addr_alloc_init_fresh [OF assms(8) up c(1), of "load_bytes (mem s) (mem_free_start k) ?n"]) simp
  let ?s = "s\<lparr>paddr_alloc := al\<rparr>"
  have s: "kernel_page_dir ?s = kernel_page_dir s" "paddr_alloc ?s = al" by simp_all
  have hi: "256 \<le> page_no p" if "p \<in> avail al" for p
  proof -
    obtain i where i: "i < c" "p = MEM_EXT_START + of_nat i * 4096" using al(3,4) \<open>p \<in> avail al\<close> by auto
    have "i * 4096 < 2 ^ 31" using i(1) c(1) by simp
    then have "unat p = 2 ^ 20 + i * 4096" unfolding i(2) by (simp add: unat_word_ariths unat_of_nat MEM_EXT_START_def)
    then show ?thesis by (simp add: page_no_def)
  qed
  have lo: "page_no x < 256" if "x < MEM_EXT_START" for x :: addr
    using that by (simp add: page_no_def word_less_nat_alt MEM_EXT_START_def less_mult_imp_div_less)
  have low: "page_no x \<notin> page_no ` avail al" if "x < MEM_EXT_START" for x using hi lo [OF that] by fastforce
  have nd: "kernel_page_dir s \<notin> avail al" using low [OF assms(7)] by blast
  have room: "32 \<le> card (avail al)" using al(5) c(2) by simp
  show thesis
  proof (rule create_kernel_table_full [OF assms(4), of ?s, unfolded s, OF al(2) assms(5,6) nd room], goal_cases)
    case (1 s2)
    note r = this
    have "unat (of_int (bitmap_byte_count (int c)) :: u32) = (c + 7) div 8"
      using c(1) unfolding n by (simp add: unat_of_nat)
    then have free: "mem_free_start k + of_int (bitmap_byte_count (int c)) < MEM_EBDA_START"
      using assms(10) by (simp add: word_less_nat_alt unat_word_ariths MEM_EBDA_START_def)
    let ?s' = "mmu_set_page_dir (kernel_page_dir s2) s2"
    have k2: "kernel_page_dir s2 = kernel_page_dir s" using arg_cong [OF r(3), of kernel_page_dir] by simp
    have e: "memory_init mutex_at name k boot_info s = Inr ((), ?s')"
      by (simp add: memory_init_def assms(1) Let_def q al(1) free r(1))
    have "?s' = s2\<lparr>cr3_reg := kernel_page_dir s\<rparr>" by (simp add: mmu_set_page_dir_def write_cr3_def k2)
    then have m: "mem ?s' = mem s2" "paddr_alloc ?s' = paddr_alloc s2" "?s' = s\<lparr>mem := mem s2, paddr_alloc := paddr_alloc s2, cr3_reg := kernel_page_dir s\<rparr>"
      by (simp_all, subst r(3), simp)
    have out: "page_no x \<notin> dir_pages (mem s2) (kernel_page_dir s) \<union> page_no ` avail (paddr_alloc s2)"
      if "x < MEM_EXT_START" "page_no x \<noteq> page_no (kernel_page_dir s)" for x
      using r(5,10) low [OF that(1)] that(2) by blast
    show ?case
      by (rule that [OF e]) (use out r(2,4,6-10) al(3,5) m low in \<open>simp_all add: vm_ok_def\<close>)
  qed
qed

text \<open>Static mutexes are zero before their initialisation, so their names are.\<close>

lemma mutex_init_static:
  assumes "mx_name mutex = replicate MUTEX_NAME_SIZE 0"
  obtains mx where "mutex_init mutex_at name mutex m = Some mx" "mutex_free mx"
proof -
  have "0 < MUTEX_NAME_SIZE" "MUTEX_NAME_SIZE \<le> 2 ^ 32" by (simp_all add: MUTEX_NAME_SIZE_def)
  then have "store_bytes mutex_at (mx_name mutex) m mutex_at = 0"
    using store_bytes_nth [where xs = "mx_name mutex" and i = 0 and a = mutex_at and m = m] assms by simp
  then have "\<exists>m1. kstrcpy mutex_at name (store_bytes mutex_at (mx_name mutex) m) = Some m1"
    by (subst kstrcpy_def, subst kstrcpy_loop.simps) simp
  then obtain mx where "mutex_init mutex_at name mutex m = Some mx" by (auto simp: mutex_init_def)
  then show thesis using that by (auto simp: mutex_init_def mutex_free_def list_init_def list_size_def)
qed

text \<open>C16: Memory at the start. With the memory that the boot loader reports (more than 33 pages above 1 MiB, at most
  2 GiB) and the addresses of the linker script, \<^verbatim>\<open>memory_init\<close> returns with paging on the kernel
  directory. Every frame above 1 MiB belongs to the allocator, and all but at most 32 page tables are available. The
  kernel directory maps each page of the kernel and the memory from 1 MiB to 127 MiB to itself, the code
  read-only and the rest writable, and nothing else.\<close>

theorem memory_init_identity:
  assumes "total_mem_size boot_info = Some ms" "2 ^ 20 + 32 * 4096 \<le> unat ms" "unat ms \<le> 2 ^ 31" "symbols_ok k"
    and "page_aligned (kernel_page_dir s)" "kernel_page_dir s \<noteq> 0" "kernel_page_dir s < MEM_EXT_START"
    and "mx_name (aa_mutex (paddr_alloc s)) = replicate MUTEX_NAME_SIZE 0"
    and "c = (unat ms - 2 ^ 20) div 4096" "unat (mem_free_start k) + (c + 7) div 8 < 2 ^ 19"
  shows "\<exists>s'. memory_init mutex_at name k boot_info s = Inr ((), s') \<and> vm_ok (kernel_page_dir s) s'
    \<and> cr3_reg s' = kernel_page_dir s
    \<and> frames (paddr_alloc s') = (\<lambda>i. MEM_EXT_START + of_nat i * 4096) ` {..<c} \<and> c \<le> card (avail (paddr_alloc s')) + 32
    \<and> (\<forall>va. translate (mem s') (kernel_page_dir s) va = (if kernel_perm k (page_no va) = None then None else Some va)
        \<and> map_option get_pte_perm (pt_entry (mem s') (kernel_page_dir s) va) = map_option (\<lambda>p. p OR PTE_P) (kernel_perm k (page_no va)))"
proof -
  obtain mx where "mutex_init mutex_at name (aa_mutex (paddr_alloc s)) (mem s) = Some mx"
    by (rule mutex_init_static [OF assms(8)])
  then have mx: "mutex_init mutex_at name (aa_mutex (paddr_alloc s)) (mem s) \<noteq> None" by simp
  show ?thesis
  proof (rule memory_init_eq [OF assms(1-7) mx assms(9,10)], goal_cases)
    case (1 s')
    note r = this
    have cr: "cr3_reg s' = kernel_page_dir s" using arg_cong [OF r(3), of cr3_reg] by simp
    show ?case
      by (rule exI [of _ s'], intro conjI allI) (rule r(1,2,4,5) cr identity_translate [OF r(6)])+
  qed
qed

definition demo_boot_info :: boot_info_t where
  "demo_boot_info = \<lparr>ram_region_cfg = [\<lparr>rr_start = 0, rr_size = 0x1000000\<rparr>], ram_region_count = 1\<rparr>"

definition demo_symbols :: kernel_symbols where
  "demo_symbols = \<lparr>kernel_base = 0, s_text = 0x10000, e_text = 0x15800, s_data = 0x16000, mem_free_start = 0x61000\<rparr>"

lemma demo_symbols_ok: "symbols_ok demo_symbols"
  by (simp add: symbols_ok_def demo_symbols_def page_aligned_def MEM_EBDA_START_def)

theorem memory_init_identity_witness:
  "\<exists>s'. memory_init 0x5000 0x6000 demo_symbols demo_boot_info (demo_kmem\<lparr>paddr_alloc := (paddr_alloc demo_kmem)\<lparr>aa_mutex := mutex_zero\<rparr>\<rparr>) = Inr ((), s')
    \<and> translate (mem s') 0x10000 0x10234 = Some 0x10234 \<and> translate (mem s') 0x10000 0x90000 = None"
proof -
  let ?s = "demo_kmem\<lparr>paddr_alloc := (paddr_alloc demo_kmem)\<lparr>aa_mutex := mutex_zero\<rparr>\<rparr>"
  have ms: "total_mem_size demo_boot_info = Some 0x1000000" by (simp add: total_mem_size_def demo_boot_info_def)
  have kd: "kernel_page_dir ?s = 0x10000" by simp
  have c: "(3840 :: nat) = (unat (0x1000000 :: u32) - 2 ^ 20) div 4096" by simp
  have p: "kernel_perm demo_symbols (page_no 0x10234) = Some 0" "kernel_perm demo_symbols (page_no 0x90000) = None"
    by (simp_all add: kernel_perm_def demo_symbols_def page_no_def)
  have r: "2 ^ 20 + 32 * 4096 \<le> unat (0x1000000 :: u32)" "unat (0x1000000 :: u32) \<le> 2 ^ 31" by simp_all
  have k: "page_aligned (kernel_page_dir ?s)" "kernel_page_dir ?s \<noteq> 0" "kernel_page_dir ?s < MEM_EXT_START"
    by (simp_all add: page_aligned_def MEM_EXT_START_def)
  have z: "mx_name (aa_mutex (paddr_alloc ?s)) = replicate MUTEX_NAME_SIZE 0" by (simp add: mutex_zero_def)
  have f: "unat (mem_free_start demo_symbols) + (3840 + 7) div 8 < 2 ^ 19" by (simp add: demo_symbols_def)
  from memory_init_identity [OF ms r demo_symbols_ok k z c f, of "0x5000" "0x6000"]
  obtain s' where s': "memory_init 0x5000 0x6000 demo_symbols demo_boot_info ?s = Inr ((), s')"
    "\<forall>va. translate (mem s') 0x10000 va = (if kernel_perm demo_symbols (page_no va) = None then None else Some va)"
    unfolding kd by blast
  show ?thesis by (intro exI [of _ s'] conjI s'(1)) (simp_all only: s'(2) p if_False if_True option.distinct simp_thms)
qed

end
