(* ===== verification/Place.thy ===== *)
theory Place
  imports Identity
begin

text \<open>
  Memory for a program, \<^verbatim>\<open>memory_alloc_for_page_dir\<close> of \<^verbatim>\<open>source/kernel/core/memory.c\<close>, when there are enough
  frames: every page of the range gets a frame of its own, only the page tables of the range are written,
  and the frames used are counted. The start of the first task (Start) and \<^verbatim>\<open>execve\<close> (Exec) rest on it.
\<close>


text \<open>
  The pages a directory uses for the tables of \<open>J\<close>, and \<open>grows\<close> restricted to these tables: the others are
  not written.
\<close>

definition table_pages :: "bytes \<Rightarrow> addr \<Rightarrow> nat set \<Rightarrow> nat set" where
  "table_pages m dir J = insert (page_no dir) {page_no (pt_at m dir j) | j. j \<in> J \<and> has_pt m dir j}"

text \<open>The pages of a directory that hold the tables of the user half.\<close>

abbreviation user_tables :: "bytes \<Rightarrow> addr \<Rightarrow> nat set" where
  "user_tables m dir \<equiv> table_pages m dir {512..}"

definition grows_in :: "nat set \<Rightarrow> addr \<Rightarrow> 's kmem_scheme \<Rightarrow> 's kmem_scheme \<Rightarrow> bool" where
  "grows_in J dir s s' \<longleftrightarrow> grows dir s s' \<and> tables (mem s) dir \<subseteq> tables (mem s') dir \<and> tables (mem s') dir \<subseteq> tables (mem s) dir \<union> J
     \<and> (\<forall>x. page_no x \<notin> table_pages (mem s') dir J \<longrightarrow> mem s' x = mem s x)
     \<and> (\<forall>j. has_pt (mem s) dir j \<longrightarrow> pt_at (mem s') dir j = pt_at (mem s) dir j)
     \<and> table_pages (mem s') dir J \<subseteq> table_pages (mem s) dir J \<union> page_no ` taken s s'"

lemma grows_in_grows: "grows_in J dir s s' \<Longrightarrow> grows dir s s'"
  by (simp add: grows_in_def)

lemma grows_in_refl [simp]: "grows_in J dir s s"
  by (simp add: grows_in_def)

lemma grows_in_tables: "grows_in J dir s s' \<Longrightarrow> has_pt (mem s) dir j \<Longrightarrow> has_pt (mem s') dir j"
  by (auto simp: grows_in_def tables_def)

lemma grows_in_same_mem: "grows dir s s' \<Longrightarrow> mem s' = mem s \<Longrightarrow> grows_in J dir s s'"
  by (simp add: grows_in_def)

lemma grows_in_trans:
  assumes "grows_in J dir s s1" "grows_in J dir s1 s2"
  shows "grows_in J dir s s2"
proof -
  have t: "taken s s1 \<subseteq> taken s s2" "taken s1 s2 \<subseteq> taken s s2"
    using assms by (auto simp: grows_in_def grows_def taken_def)
  have g: "grows dir s s2" using assms grows_trans by (auto simp: grows_in_def)
  have "has_pt (mem s2) dir j \<and> pt_at (mem s2) dir j = pt_at (mem s1) dir j" if "has_pt (mem s1) dir j" for j
    using assms(2) grows_in_tables [OF assms(2) that] that by (simp add: grows_in_def)
  then have "page_no (pt_at (mem s1) dir j) \<in> {page_no (pt_at (mem s2) dir j) | j. j \<in> J \<and> has_pt (mem s2) dir j}"
    if "j \<in> J" "has_pt (mem s1) dir j" for j
    using that by (metis (mono_tags, lifting) mem_Collect_eq)
  then have "table_pages (mem s1) dir J \<subseteq> table_pages (mem s2) dir J" unfolding table_pages_def by blast
  then have "mem s2 x = mem s x" if "page_no x \<notin> table_pages (mem s2) dir J" for x
    using that assms unfolding grows_in_def by (metis subsetD)
  moreover have "table_pages (mem s2) dir J \<subseteq> table_pages (mem s) dir J \<union> page_no ` taken s s2"
    using assms t unfolding grows_in_def by blast
  moreover have "pt_at (mem s2) dir j = pt_at (mem s) dir j" if "has_pt (mem s) dir j" for j
    using assms grows_in_tables [OF assms(1) that] that by (simp add: grows_in_def)
  ultimately show ?thesis using assms g unfolding grows_in_def by blast
qed

lemma grows_in_mono:
  assumes "grows_in J dir s s'" "J \<subseteq> J'"
  shows "grows_in J' dir s s'"
proof -
  have t: "table_pages m dir J \<subseteq> table_pages m dir J'" for m using assms(2) by (auto simp: table_pages_def)
  have "mem s' x = mem s x" if "page_no x \<notin> table_pages (mem s') dir J'" for x
    using that t [of "mem s'"] assms(1) unfolding grows_in_def by blast
  moreover have "y \<in> table_pages (mem s) dir J' \<union> page_no ` taken s s'" if "y \<in> table_pages (mem s') dir J'" for y
  proof -
    from that consider "y \<in> table_pages (mem s') dir J"
      | j where "j \<in> J'" "j \<notin> J" "has_pt (mem s') dir j" "y = page_no (pt_at (mem s') dir j)"
      by (auto simp: table_pages_def)
    then show ?thesis
    proof cases
      case 1
      then show ?thesis using assms(1) t [of "mem s"] unfolding grows_in_def by blast
    next
      case (2 j)
      then have "has_pt (mem s) dir j" using assms(1) by (auto simp: grows_in_def tables_def)
      then show ?thesis using 2 assms(1) by (auto simp: grows_in_def table_pages_def)
    qed
  qed
  moreover have "tables (mem s') dir \<subseteq> tables (mem s) dir \<union> J'" using assms unfolding grows_in_def by blast
  ultimately show ?thesis using assms(1) t [of "mem s"] unfolding grows_in_def by blast
qed

lemma map_one_in:
  assumes ok: "vm_ok dir s" and none: "entry (mem s) dir (page_no va) = None"
    and room: "has_pt (mem s) dir (page_no va div 1024) \<or> avail (paddr_alloc s) \<noteq> {}"
    and J: "page_no va div 1024 \<in> J" and e: "memory_create_map dir va p 1 perm s = Inr (r, s')"
  shows "grows_in J dir s s'"
proof (rule map_one_page [OF ok none room, of p perm], goal_cases)
  case (1 s2 T)
  let ?i = "page_no va div 1024"
  have s': "s2 = s'" using 1(1) e by simp
  note m = 1 [unfolded s']
  have T: "T = taken s s'" using m(6,7) by (auto simp: taken_def)
  have i: "page_no (pt_at (mem s') dir ?i) \<in> table_pages (mem s) dir J \<union> page_no ` taken s s'"
  proof (cases "has_pt (mem s) dir ?i")
    case True
    then show ?thesis using m(9) J by (auto simp: table_pages_def)
  next
    case False
    then show ?thesis using m(5) T by auto
  qed
  have "page_no x \<noteq> page_no dir \<and> page_no x \<noteq> page_no (pt_at (mem s') dir ?i)"
    if "page_no x \<notin> table_pages (mem s') dir J" for x
    using that m(8) J by (auto simp: table_pages_def)
  then have fr: "\<forall>x. page_no x \<notin> table_pages (mem s') dir J \<longrightarrow> mem s' x = mem s x"
    using m(11) by blast
  have tp: "table_pages (mem s') dir J \<subseteq> table_pages (mem s) dir J \<union> page_no ` taken s s'"
  proof
    fix y assume "y \<in> table_pages (mem s') dir J"
    then consider "y = page_no dir" | j where "j \<in> J" "has_pt (mem s') dir j" "y = page_no (pt_at (mem s') dir j)"
      by (auto simp: table_pages_def)
    then show "y \<in> table_pages (mem s) dir J \<union> page_no ` taken s s'"
    proof cases
      case 1
      then show ?thesis by (simp add: table_pages_def)
    next
      case (2 j)
      show ?thesis
      proof (cases "has_pt (mem s) dir j")
        case True
        then show ?thesis using 2 m(9) [OF True] by (auto simp: table_pages_def)
      next
        case False
        then have "j = ?i" using 2(2) m(8) by blast
        then show ?thesis using 2(3) i by simp
      qed
    qed
  qed
  have "tables (mem s) dir \<subseteq> tables (mem s') dir" "tables (mem s') dir \<subseteq> tables (mem s) dir \<union> J"
    using m(8) J by (auto simp: tables_def)
  then show ?case using map_one_grows [OF ok none e] fr tp m(9) by (simp add: grows_in_def)
qed

lemma table_pages_dir: "table_pages m dir J \<subseteq> dir_pages m dir"
  by (auto simp: table_pages_def dir_pages_def)

text \<open>The bookkeeping of frames: every page takes one, and every new table one more.\<close>

definition counted :: "addr \<Rightarrow> nat \<Rightarrow> 's kmem_scheme \<Rightarrow> 's kmem_scheme \<Rightarrow> bool" where
  "counted dir n s s' \<longleftrightarrow> card (avail (paddr_alloc s')) + card (tables (mem s') dir) + n
     = card (avail (paddr_alloc s)) + card (tables (mem s) dir)"

text \<open>
  With a frame for every page and every page table that is missing, \<^verbatim>\<open>memory_alloc_for_page_dir\<close> maps all the
  pages, to frames that are not pages of the directory.
\<close>

lemma alloc_for_page_dir_loop_full:
  assumes "vm_ok dir s" "0 \<le> sint (undef_ret s)" "page_no va + n \<le> 2 ^ 20"
    and "\<And>k. k < n \<Longrightarrow> entry (mem s) dir (page_no va + k) = None"
    and "finite J" "\<And>k. k < n \<Longrightarrow> (page_no va + k) div 1024 \<in> J"
    and "card (J - tables (mem s) dir) + n \<le> card (avail (paddr_alloc s))"
  shows "\<exists>s' f. alloc_for_page_dir_loop n i dir vaddr va perm s = Inr (0, s') \<and> vm_ok dir s' \<and> grows_in J dir s s'
    \<and> fresh_frames f n s s' \<and> entry (mem s') dir = placed f (page_no va) n perm (entry (mem s) dir)
    \<and> (\<forall>k < n. page_no (f k) \<notin> dir_pages (mem s') dir) \<and> counted dir n s s'"
  using assms
proof (induction n arbitrary: va i s)
  case 0
  then show ?case by (auto simp: fresh_frames_def counted_def)
next
  case (Suc n)
  let ?n = "page_no va"
  have aw: "alloc_wf (paddr_alloc s)" and dw: "dir_wf (mem s) dir (paddr_alloc s)" using Suc.prems(1) by (simp_all add: vm_ok_def)
  obtain p s1 where a: "addr_alloc_page 1 s = Inr (p, s1)" "grows dir s s1" "vm_ok dir s1" "mem s1 = mem s"
    "p = 0 \<longleftrightarrow> avail (paddr_alloc s) = {}" "p \<noteq> 0 \<Longrightarrow> p \<in> avail (paddr_alloc s)"
    "avail (paddr_alloc s1) = avail (paddr_alloc s) - {p}"
    using alloc_page_grows [OF Suc.prems(1)] by metis
  have "avail (paddr_alloc s) \<noteq> {}" using Suc.prems(7) by auto
  then have p: "p \<noteq> 0" "p \<in> avail (paddr_alloc s)" using a(5,6) by auto
  have c1: "card (avail (paddr_alloc s)) = Suc (card (avail (paddr_alloc s1)))"
    unfolding a(7) using p(2) by (intro card.remove) simp_all
  then have room: "card (J - tables (mem s1) dir) + n \<le> card (avail (paddr_alloc s1))" using Suc.prems(7) a(4) by simp
  have none: "entry (mem s1) dir ?n = None" and iJ: "?n div 1024 \<in> J" using Suc.prems(4) [of 0] Suc.prems(6) [of 0] a(4) by simp_all
  show ?case
  proof (rule map_one_room [OF a(3) none Suc.prems(5) iJ room, of p perm], goal_cases)
    case (1 s2)
    note m = this
    have u: "undef_ret s1 = undef_ret s" "undef_ret s2 = undef_ret s1" using grows_undef [OF a(2)] grows_undef [OF m(3)] by simp_all
    have free: "has_pt (mem s1) dir (?n div 1024) \<or> avail (paddr_alloc s1) \<noteq> {}"
    proof (rule disjCI)
      assume "\<not> avail (paddr_alloc s1) \<noteq> {}"
      then have "J - tables (mem s1) dir = {}" using room Suc.prems(5) by simp
      then show "has_pt (mem s1) dir (?n div 1024)" using iJ by (auto simp: tables_def)
    qed
    have g2: "grows_in J dir s1 s2" by (rule map_one_in [OF a(3) none free iJ m(1)])
    have g: "grows_in J dir s s2" by (rule grows_in_trans [OF grows_in_same_mem [OF a(2,4)] g2])
    have step: "alloc_for_page_dir_loop (Suc n) i dir vaddr va perm s =
        alloc_for_page_dir_loop n (i + 1) dir vaddr (va + MEM_PAGE_SIZE) perm s2"
      using a(1) p m(1) u Suc.prems(2) by simp
    have e: "entry (mem s2) dir = (entry (mem s) dir)(?n \<mapsto> (p OR perm OR PTE_P))" using m(4) a(4) by simp
    have "\<exists>s' f. alloc_for_page_dir_loop n (i + 1) dir vaddr (va + MEM_PAGE_SIZE) perm s2 = Inr (0, s') \<and> vm_ok dir s' \<and> grows_in J dir s2 s'
      \<and> fresh_frames f n s2 s' \<and> entry (mem s') dir = placed f (Suc ?n) n perm (entry (mem s2) dir)
      \<and> (\<forall>k < n. page_no (f k) \<notin> dir_pages (mem s') dir) \<and> counted dir n s2 s'"
    proof (cases "n = 0")
      case True
      then show ?thesis using m(2) by (auto simp: fresh_frames_def counted_def)
    next
      case False
      then have nx: "page_no (va + MEM_PAGE_SIZE) = Suc ?n" using Suc.prems(3) by (intro page_no_next) simp
      show ?thesis
      proof (rule Suc.IH [OF m(2) _ _ _ Suc.prems(5) _ m(6), of "va + MEM_PAGE_SIZE", unfolded nx])
        show "0 \<le> sint (undef_ret s2)" using u Suc.prems(2) by simp
        show "Suc ?n + n \<le> 2 ^ 20" using Suc.prems(3) by simp
        show "entry (mem s2) dir (Suc ?n + k) = None" if "k < n" for k
          unfolding e using Suc.prems(4) [of "Suc k"] that by simp
        show "(Suc ?n + k) div 1024 \<in> J" if "k < n" for k using Suc.prems(6) [of "Suc k"] that by simp
      qed
    qed
    then obtain s' f where ih: "alloc_for_page_dir_loop n (i + 1) dir vaddr (va + MEM_PAGE_SIZE) perm s2 = Inr (0, s')"
      "vm_ok dir s'" "grows_in J dir s2 s'" "fresh_frames f n s2 s'" "entry (mem s') dir = placed f (Suc ?n) n perm (entry (mem s2) dir)"
      "\<forall>k < n. page_no (f k) \<notin> dir_pages (mem s') dir" "counted dir n s2 s'" by blast
    note ig = grows_in_grows [OF ih(3)]
    have av: "avail (paddr_alloc s2) \<subseteq> avail (paddr_alloc s) - {p}" using m(3) a(7) by (auto simp: grows_def)
    have "fresh_frames (case_nat p f) (Suc n) s s'"
      using fresh_frames_Suc [OF ih(4), of p s] p(2) av ig by (auto simp: grows_def)
    moreover have "page_no p \<notin> dir_pages (mem s') dir"
    proof -
      have pd: "page_no p \<notin> dir_pages (mem s) dir" by (rule dir_pages_apart [OF dw aw p(2)])
      have "page_no p \<notin> page_no ` taken s1 s2 \<union> page_no ` taken s2 s'"
      proof
        assume "page_no p \<in> page_no ` taken s1 s2 \<union> page_no ` taken s2 s'"
        then obtain q where q: "q \<in> avail (paddr_alloc s1) \<union> avail (paddr_alloc s2)" "page_no q = page_no p" unfolding taken_def by fastforce
        then have "q \<in> avail (paddr_alloc s)" "q \<noteq> p" using av a(7) by auto
        then show False using q(2) page_no_inj avail_aligned [OF aw] p(2) by metis
      qed
      then show ?thesis using pd a(4) m(3) ig unfolding grows_def by (metis UnCI UnE subsetD)
    qed
    moreover have "grows_in J dir s s'" using g ih(3) by (rule grows_in_trans)
    moreover have "counted dir (Suc n) s s'" using ih(7) m(7) c1 a(4) by (simp add: counted_def)
    ultimately show ?case using ih step placed_Suc unfolding e
      by (intro exI [of _ s'] exI [of _ "case_nat p f"]) (simp add: All_less_Suc2)
  qed
qed


text \<open>Byte \<open>i\<close> of consecutive pages that are mapped to the frames \<open>f 0, f 1, \<dots>\<close>.\<close>

definition placed_at :: "(nat \<Rightarrow> addr) \<Rightarrow> nat \<Rightarrow> addr" where
  "placed_at f i = f (i div 4096) + of_nat (i mod 4096)"

lemma placed_at_page:
  assumes "page_aligned (f (i div 4096))"
  shows "page_no (placed_at f i) = page_no (f (i div 4096))" and "page_off (placed_at f i) = i mod 4096"
proof -
  have "page_off (f (i div 4096)) = 0" using assms by (auto simp: page_off_def page_aligned_def)
  then show "page_no (placed_at f i) = page_no (f (i div 4096))" "page_off (placed_at f i) = i mod 4096"
    using page_off_add [of "f (i div 4096)" "i mod 4096"] by (simp_all add: placed_at_def)
qed

lemma placed_at_inj:
  assumes "inj_on f {..<N}" "\<And>k. k < N \<Longrightarrow> page_aligned (f k)"
  shows "inj_on (placed_at f) {..<N * 4096}"
proof (rule inj_onI)
  fix i j assume ij: "i \<in> {..<N * 4096}" "j \<in> {..<N * 4096}" "placed_at f i = placed_at f j"
  have k: "i div 4096 < N" "j div 4096 < N" using ij(1,2) by (simp_all add: less_mult_imp_div_less)
  note p = placed_at_page [of f i, OF assms(2) [OF k(1)]] placed_at_page [of f j, OF assms(2) [OF k(2)]]
  have "page_no (f (i div 4096)) = page_no (f (j div 4096))" "i mod 4096 = j mod 4096" using p ij(3) by simp_all
  then have "f (i div 4096) = f (j div 4096)" "i mod 4096 = j mod 4096" using page_no_inj assms(2) k by blast+
  then have "i div 4096 = j div 4096" "i mod 4096 = j mod 4096" using inj_onD [OF assms(1)] k by auto
  then show "i = j" by (metis div_mult_mod_eq)
qed

lemma page_addr_off:
  assumes "page_aligned b" "unat b + N * 4096 \<le> 2 ^ 32" "i < N * 4096"
  shows "page_no (b + of_nat i) = page_no b + i div 4096" and "page_off (b + of_nat i) = i mod 4096"
proof -
  have ub: "unat b = 4096 * page_no b" using assms(1) by (auto simp: page_aligned_def page_no_def)
  have "unat (b + of_nat i) = 4096 * page_no b + i" using unat_add_lt [of b i] assms(2,3) unfolding ub by simp
  then show "page_no (b + of_nat i) = page_no b + i div 4096" "page_off (b + of_nat i) = i mod 4096"
    by (simp_all add: page_no_def page_off_def)
qed

lemma placed_translate:
  assumes e: "entry m dir = placed f (page_no b) N perm e" and b: "page_aligned b" "unat b + N * 4096 \<le> 2 ^ 32"
    and f: "\<And>k. k < N \<Longrightarrow> page_aligned (f k)" and p: "unat (perm OR PTE_P) < 4096" and i: "i < N * 4096"
  shows "translate m dir (b + of_nat i) = Some (placed_at f i)"
proof -
  have k: "i div 4096 < N" using i by (simp add: less_mult_imp_div_less)
  have "pte_paddr (f (i div 4096) OR perm OR PTE_P) = f (i div 4096)" using paddr_of_or(2) [OF f [OF k] p] .
  then show ?thesis
    unfolding translate_eq e placed_def placed_at_def page_addr_off [OF b i] page_off_and using k by simp
qed

text \<open>The directory entries of \<open>N\<close> pages from page number \<open>n\<close> on.\<close>

definition page_tables :: "nat \<Rightarrow> nat \<Rightarrow> nat set" where
  "page_tables n N = {n div 1024 .. (n + N - 1) div 1024}"

lemma page_tables_finite [simp]: "finite (page_tables n N)"
  by (simp add: page_tables_def)

lemma in_page_tables: "k < N \<Longrightarrow> (n + k) div 1024 \<in> page_tables n N"
  by (simp add: page_tables_def div_le_mono)

lemma card_page_tables: "card (page_tables n N) \<le> N div 1024 + 2"
proof -
  have "(n + N - 1) div 1024 \<le> n div 1024 + N div 1024 + 1" by linarith
  then show ?thesis by (simp add: page_tables_def)
qed

text \<open>
  The pages from \<open>va\<close> on are new: mapped to frames \<open>f 0, f 1, \<dots>\<close> of their own that were free before.
\<close>

definition new_pages :: "addr \<Rightarrow> addr \<Rightarrow> nat \<Rightarrow> (nat \<Rightarrow> addr) \<Rightarrow> 's kmem_scheme \<Rightarrow> 's kmem_scheme \<Rightarrow> bool" where
  "new_pages dir va N f s s' \<longleftrightarrow> inj_on f {..<N}
     \<and> (\<forall>k < N. page_aligned (f k) \<and> f k \<noteq> 0 \<and> f k \<in> taken s s' \<and> page_no (f k) \<notin> dir_pages (mem s') dir)
     \<and> (\<forall>i < N * 4096. translate (mem s') dir (va + of_nat i) = Some (placed_at f i))"

lemma memory_alloc_for_page_dir_full:
  assumes ok: "vm_ok dir s" "0 \<le> sint (undef_ret s)" and va: "page_aligned va" "unat va + N * 4096 \<le> 2 ^ 32"
    and sz: "unat sz + 4095 < 2 ^ 32" "N = (unat sz + 4095) div 4096"
    and none: "\<And>k. k < N \<Longrightarrow> entry (mem s) dir (page_no va + k) = None"
    and room: "card (page_tables (page_no va) N - tables (mem s) dir) + N \<le> card (avail (paddr_alloc s))"
    and perm: "unat (perm OR PTE_P) < 4096"
  obtains s' f where "memory_alloc_for_page_dir dir va sz perm s = Inr (0, s')" "vm_ok dir s'"
    "grows_in (page_tables (page_no va) N) dir s s'" "counted dir N s s'" "new_pages dir va N f s s'"
    "\<forall>n. \<not> (page_no va \<le> n \<and> n < page_no va + N) \<longrightarrow> entry (mem s') dir n = entry (mem s) dir n"
proof -
  have ub: "unat va = 4096 * page_no va" using va(1) by (auto simp: page_aligned_def page_no_def)
  have pn: "page_no va + N \<le> 2 ^ 20" using va(2) unfolding ub by simp
  have "unat (up2 sz MEM_PAGE_SIZE div MEM_PAGE_SIZE) = N"
    unfolding unat_div_distrib unat_up2 [OF sz(1)] sz(2) by (simp add: MEM_PAGE_SIZE_def)
  then have eq: "memory_alloc_for_page_dir dir va sz perm s = alloc_for_page_dir_loop N 0 dir va va perm s"
    by (simp add: memory_alloc_for_page_dir_def)
  obtain s' f where r: "alloc_for_page_dir_loop N 0 dir va va perm s = Inr (0, s')" "vm_ok dir s'"
    "grows_in (page_tables (page_no va) N) dir s s'" "fresh_frames f N s s'"
    "entry (mem s') dir = placed f (page_no va) N perm (entry (mem s) dir)"
    "\<forall>k < N. page_no (f k) \<notin> dir_pages (mem s') dir" "counted dir N s s'"
    using alloc_for_page_dir_loop_full [OF ok pn none page_tables_finite in_page_tables room, of 0 va perm] by blast
  have aw: "alloc_wf (paddr_alloc s)" using ok(1) by (simp add: vm_ok_def)
  have ft: "f k \<in> taken s s'" if "k < N" for k using r(4) that by (auto simp: fresh_frames_def)
  then have fa: "page_aligned (f k)" "f k \<noteq> 0" if "k < N" for k
    using avail_aligned [OF aw] avail_nonzero [OF aw] that by (auto simp: taken_def)
  have "new_pages dir va N f s s'"
    unfolding new_pages_def using r(4,6) ft fa placed_translate [OF r(5) va fa(1) perm]
    by (auto simp: fresh_frames_def)
  moreover have "entry (mem s') dir n = entry (mem s) dir n" if "\<not> (page_no va \<le> n \<and> n < page_no va + N)" for n
    unfolding r(5) placed_def using that by auto
  ultimately show thesis using that r(1-3,7) unfolding eq by blast
qed

text \<open>What is mapped and what the new pages are.\<close>

lemma new_pages_at:
  assumes "new_pages dir va N f s s'" "i < N * 4096"
  shows "translate (mem s') dir (va + of_nat i) = Some (placed_at f i)"
    and "page_no (placed_at f i) \<in> page_no ` taken s s'" "page_no (placed_at f i) \<notin> dir_pages (mem s') dir"
    and "placed_at f i \<noteq> 0"
proof -
  have k: "i div 4096 < N" using assms(2) by (simp add: less_mult_imp_div_less)
  have f: "page_aligned (f (i div 4096))" "f (i div 4096) \<noteq> 0" "f (i div 4096) \<in> taken s s'"
    "page_no (f (i div 4096)) \<notin> dir_pages (mem s') dir"
    using assms(1) k by (simp_all add: new_pages_def)
  note p = placed_at_page [of f i, OF f(1)]
  show "translate (mem s') dir (va + of_nat i) = Some (placed_at f i)" using assms by (simp add: new_pages_def)
  show "page_no (placed_at f i) \<in> page_no ` taken s s'" "page_no (placed_at f i) \<notin> dir_pages (mem s') dir"
    unfolding p(1) using f(3,4) by auto
  show "placed_at f i \<noteq> 0"
  proof
    assume z: "placed_at f i = 0"
    have "page_no (0 :: addr) = 0" by (simp add: page_no_def)
    then have "page_no (f (i div 4096)) = page_no 0" using p(1) z by simp
    moreover have "page_aligned 0" by (simp add: page_aligned_def)
    ultimately show False using page_no_inj [OF f(1)] f(2) by blast
  qed
qed

lemma new_pages_inj: "new_pages dir va N f s s' \<Longrightarrow> inj_on (placed_at f) {..<N * 4096}"
  by (rule placed_at_inj) (simp_all add: new_pages_def)

end
