(* ===== verification/Program.thy ===== *)
theory Program
  imports Fork Loader Place
begin

text \<open>
  Loading a program into the address space that \<^verbatim>\<open>sys_execve\<close> builds, \<^verbatim>\<open>load_elf_file\<close> and \<^verbatim>\<open>load_phdr\<close> of
  \<^verbatim>\<open>source/kernel/core/task.c\<close> (the definitions are in Task): what may change on the way (\<open>exec_inv\<close>), the new
  directory, the file in its buffer, and the pages of a segment with the bytes of the file in them.
\<close>

text \<open>
  What \<^verbatim>\<open>execve\<close> writes: the buffer of the file, its local variables (the headers and the arguments) and
  the frames it takes. The variables lie apart from the buffer, and all of them outside of the
  free frames and of the page tables of the kernel.
\<close>

definition buffers :: "exec_env \<Rightarrow> addr set" where
  "buffers env = region (temp_at env) FILE_SIZE \<union> region (elf_hdr_at env) 52 \<union> region (elf_phdr_at env) 32
     \<union> region (task_args_at env) (unat task_args_size)"

definition exec_area :: "exec_env \<Rightarrow> 's kmem_scheme \<Rightarrow> 's kmem_scheme \<Rightarrow> addr set" where
  "exec_area env s0 s = buffers env \<union> {x. page_no x \<in> page_no ` taken s0 s}"

definition exec_linked :: "exec_env \<Rightarrow> bool" where
  "exec_linked env \<longleftrightarrow> temp_at env \<noteq> 0 \<and> unat (temp_at env) + FILE_SIZE \<le> 2 ^ 32
     \<and> elf_hdr_at env \<noteq> 0 \<and> elf_phdr_at env \<noteq> 0 \<and> task_args_at env \<noteq> 0 \<and> unat (task_args_at env) + 12 \<le> 2 ^ 31
     \<and> region (elf_hdr_at env) 52 \<inter> region (temp_at env) FILE_SIZE = {}
     \<and> region (elf_phdr_at env) 32 \<inter> region (temp_at env) FILE_SIZE = {}
     \<and> region (elf_hdr_at env) 52 \<inter> region (elf_phdr_at env) 32 = {}"

definition exec_buffers :: "exec_env \<Rightarrow> 's kmem_scheme \<Rightarrow> bool" where
  "exec_buffers env s \<longleftrightarrow> exec_linked env
     \<and> page_no ` buffers env \<inter> (page_no ` avail (paddr_alloc s) \<union> dir_pages (mem s) (kernel_page_dir s)) = {}"

text \<open>
  While the new address space \<open>D\<close> is filled: besides the file position and the log of the ports only memory and
  the allocator change, and memory only in \<open>exec_area\<close>. \<open>D\<close> and its user tables are frames taken since the
  state \<open>s0\<close> in which \<^verbatim>\<open>execve\<close> began, and its kernel half is that of the kernel directory.
\<close>

definition exec_inv :: "exec_env \<Rightarrow> 's kernel_scheme \<Rightarrow> addr \<Rightarrow> 's kernel_scheme \<Rightarrow> bool" where
  "exec_inv env s0 D s \<longleftrightarrow>
     s = s0\<lparr>mem := mem s, paddr_alloc := paddr_alloc s, temp_pos := temp_pos s, io_log := io_log s\<rparr>
   \<and> vm_ok D s \<and> D \<noteq> 0 \<and> frames (paddr_alloc s) = frames (paddr_alloc s0) \<and> avail (paddr_alloc s) \<subseteq> avail (paddr_alloc s0)
   \<and> (\<forall>x. x \<notin> exec_area env s0 s \<longrightarrow> mem s x = mem s0 x)
   \<and> dir_pages (mem s) D \<subseteq> dir_pages (mem s0) (kernel_page_dir s0) \<union> page_no ` taken s0 s
   \<and> user_tables (mem s) D \<subseteq> page_no ` taken s0 s
   \<and> (\<forall>n < 2 ^ 19. entry (mem s) D n = entry (mem s0) (kernel_page_dir s0) n)"

text \<open>
  From one stage to the next what is mapped stays mapped, and memory outside of the directory, the
  buffers and the free frames is not written.
\<close>

definition later :: "exec_env \<Rightarrow> addr \<Rightarrow> 's kernel_scheme \<Rightarrow> 's kernel_scheme \<Rightarrow> bool" where
  "later env D s s' \<longleftrightarrow> avail (paddr_alloc s') \<subseteq> avail (paddr_alloc s)
   \<and> dir_pages (mem s') D \<subseteq> dir_pages (mem s) D \<union> page_no ` avail (paddr_alloc s)
   \<and> (\<forall>n v. entry (mem s) D n = Some v \<longrightarrow> entry (mem s') D n = Some v)
   \<and> (\<forall>x. page_no x \<notin> dir_pages (mem s) D \<union> page_no ` avail (paddr_alloc s) \<longrightarrow> x \<notin> buffers env \<longrightarrow> mem s' x = mem s x)"

lemma later_refl [simp]: "later env D s s"
  by (simp add: later_def)

lemma later_trans:
  assumes "later env D s s1" "later env D s1 s2"
  shows "later env D s s2"
proof -
  have "page_no ` avail (paddr_alloc s1) \<subseteq> page_no ` avail (paddr_alloc s)" using assms(1) by (auto simp: later_def)
  then have "page_no x \<notin> dir_pages (mem s1) D \<union> page_no ` avail (paddr_alloc s1)"
    if "page_no x \<notin> dir_pages (mem s) D \<union> page_no ` avail (paddr_alloc s)" for x
    using that assms(1) unfolding later_def by blast
  then have "mem s2 x = mem s x" if "page_no x \<notin> dir_pages (mem s) D \<union> page_no ` avail (paddr_alloc s)" "x \<notin> buffers env" for x
    using that assms unfolding later_def by metis
  moreover have "dir_pages (mem s2) D \<subseteq> dir_pages (mem s) D \<union> page_no ` avail (paddr_alloc s)"
    using assms \<open>page_no ` avail (paddr_alloc s1) \<subseteq> _\<close> unfolding later_def by blast
  ultimately show ?thesis using assms unfolding later_def by blast
qed

lemma exec_inv_fields:
  assumes "exec_inv env s0 D s"
  shows "cr3_reg s = cr3_reg s0" "undef_ret s = undef_ret s0" "tasks s = tasks s0" "curr_task s = curr_task s0"
    "kernel_page_dir s = kernel_page_dir s0"
proof -
  have e: "s = s0\<lparr>mem := mem s, paddr_alloc := paddr_alloc s, temp_pos := temp_pos s, io_log := io_log s\<rparr>"
    using assms by (simp add: exec_inv_def)
  show "cr3_reg s = cr3_reg s0" "undef_ret s = undef_ret s0" "tasks s = tasks s0" "curr_task s = curr_task s0"
    "kernel_page_dir s = kernel_page_dir s0" by (subst e, simp)+
qed

text \<open>A write to a buffer or to a frame taken for the program.\<close>

lemma exec_write:
  assumes I: "exec_inv env s0 D s"
    and w: "\<And>x. m' x \<noteq> mem s x \<Longrightarrow> x \<in> exec_area env s0 s \<and> page_no x \<notin> dir_pages (mem s) D"
  shows "exec_inv env s0 D (s\<lparr>mem := m', temp_pos := t, io_log := l\<rparr>)"
    and "entry m' D n = entry (mem s) D n" and "dir_pages m' D = dir_pages (mem s) D"
    and "translate m' D va = translate (mem s) D va"
proof -
  have al: "page_aligned D" and wf: "dir_wf (mem s) D (paddr_alloc s)" using I by (simp_all add: exec_inv_def vm_ok_def dir_wf_def)
  have D: "m' x = mem s x" if "page_no x \<in> dir_pages (mem s) D" for x using w that by blast
  note c = dir_cong [OF al, of "mem s" m', OF D]
  show e: "entry m' D n = entry (mem s) D n" for n by (rule c(3))
  show dp: "dir_pages m' D = dir_pages (mem s) D" using c(1,2) by (intro dir_pages_same) (auto simp: has_pt_def)
  show "translate m' D va = translate (mem s) D va" unfolding translate_eq e ..
  have "pt_at m' D j = pt_at (mem s) D j" if "has_pt (mem s) D j" for j using c(2) that by (simp add: has_pt_def)
  then have ut: "user_tables m' D = user_tables (mem s) D" unfolding table_pages_def using c(1) by (metis (no_types, lifting))
  have "dir_wf m' D (paddr_alloc s)" by (rule dir_wf_cong [OF wf D]) simp_all
  moreover have "m' x = mem s0 x" if "x \<notin> exec_area env s0 s" for x
    using w [of x] that I unfolding exec_inv_def by metis
  moreover have "s\<lparr>mem := m', temp_pos := t, io_log := l\<rparr> = s0\<lparr>mem := m', paddr_alloc := paddr_alloc s, temp_pos := t, io_log := l\<rparr>"
  proof -
    have eq: "s = s0\<lparr>mem := mem s, paddr_alloc := paddr_alloc s, temp_pos := temp_pos s, io_log := io_log s\<rparr>"
      using I by (simp add: exec_inv_def)
    show ?thesis by (subst eq) simp
  qed
  ultimately show "exec_inv env s0 D (s\<lparr>mem := m', temp_pos := t, io_log := l\<rparr>)"
    using I e dp ut by (auto simp: exec_inv_def vm_ok_def taken_def exec_area_def)
qed

text \<open>The same for the buffers alone, which are apart from every page table and every frame.\<close>

lemma buffers_apart:
  assumes I: "exec_inv env s0 D s" and B: "exec_buffers env s0" and x: "x \<in> buffers env"
  shows "x \<in> exec_area env s0 s" "page_no x \<notin> dir_pages (mem s) D" "page_no x \<notin> page_no ` avail (paddr_alloc s0)"
proof -
  have n: "page_no x \<notin> page_no ` avail (paddr_alloc s0) \<union> dir_pages (mem s0) (kernel_page_dir s0)"
    using B x unfolding exec_buffers_def exec_linked_def by blast
  have "page_no ` taken s0 s \<subseteq> page_no ` avail (paddr_alloc s0)" by (auto simp: taken_def)
  then show "page_no x \<notin> dir_pages (mem s) D" using I n unfolding exec_inv_def by blast
  show "x \<in> exec_area env s0 s" "page_no x \<notin> page_no ` avail (paddr_alloc s0)" using x n by (simp_all add: exec_area_def)
qed

lemma later_write:
  assumes L: "later env D s2 s" and e: "entry (mem s') D = entry (mem s) D" "dir_pages (mem s') D = dir_pages (mem s) D"
    and al: "paddr_alloc s' = paddr_alloc s"
    and w: "\<And>x. mem s' x \<noteq> mem s x \<Longrightarrow> x \<in> buffers env \<or> page_no x \<in> page_no ` avail (paddr_alloc s2)"
  shows "later env D s2 s'"
proof -
  have "mem s' x = mem s2 x" if "page_no x \<notin> dir_pages (mem s2) D \<union> page_no ` avail (paddr_alloc s2)" "x \<notin> buffers env" for x
    using w [of x] L that unfolding later_def by (metis UnCI)
  then show ?thesis using L e al by (simp add: later_def)
qed

text \<open>New pages for the new address space.\<close>

lemma exec_alloc:
  assumes I: "exec_inv env s0 D s" and u: "0 \<le> sint (undef_ret s0)"
    and va: "page_aligned va" "MEMORY_TASK_BASE \<le> va" "unat va + N * 4096 \<le> 2 ^ 32"
    and sz: "unat sz + 4095 < 2 ^ 32" "N = (unat sz + 4095) div 4096"
    and none: "\<And>k. k < N \<Longrightarrow> entry (mem s) D (page_no va + k) = None"
    and room: "card (page_tables (page_no va) N) + N \<le> card (avail (paddr_alloc s))"
  obtains s' f where "memory_alloc_for_page_dir D va sz (PTE_P OR PTE_U OR PTE_W) s = Inr (0, s')" "exec_inv env s0 D s'"
    "later env D s s'" "new_pages D va N f s s'"
    "card (avail (paddr_alloc s)) \<le> card (avail (paddr_alloc s')) + N + card (page_tables (page_no va) N)"
    "\<forall>n. \<not> (page_no va \<le> n \<and> n < page_no va + N) \<longrightarrow> entry (mem s') D n = entry (mem s) D n"
    "\<forall>x. page_no x \<notin> user_tables (mem s') D \<longrightarrow> mem s' x = mem s x" "temp_pos s' = temp_pos s"
proof -
  let ?J = "page_tables (page_no va) N" and ?pf = "PTE_P OR PTE_U OR PTE_W"
  have ok: "vm_ok D s" "0 \<le> sint (undef_ret s)" using I u exec_inv_fields(2) [OF I] by (simp_all add: exec_inv_def)
  have pf: "unat (?pf OR PTE_P) < 4096" by (simp add: PTE_P_def PTE_W_def PTE_U_def)
  have "card (?J - tables (mem s) D) \<le> card ?J" by (intro card_mono) auto
  then have rm: "card (?J - tables (mem s) D) + N \<le> card (avail (paddr_alloc s))" using room by simp
  obtain s' f where r: "memory_alloc_for_page_dir D va sz ?pf s = Inr (0, s')" "vm_ok D s'"
    "grows_in ?J D s s'" "counted D N s s'" "new_pages D va N f s s'"
    "\<forall>n. \<not> (page_no va \<le> n \<and> n < page_no va + N) \<longrightarrow> entry (mem s') D n = entry (mem s) D n"
    by (rule memory_alloc_for_page_dir_full [OF ok va(1,3) sz none rm pf])
  have pn: "2 ^ 19 \<le> page_no va" using va(2) user_page_no by blast
  then have "?J \<subseteq> {512..}" by (auto simp: page_tables_def less_eq_div_iff_mult_less_eq intro: order_trans)
  note g = grows_in_mono [OF r(3) this] and gr = grows_in_grows [OF r(3)]
  have s': "s' = s\<lparr>mem := mem s', paddr_alloc := paddr_alloc s'\<rparr>" using gr by (simp add: grows_def)
  have tp: "temp_pos s' = temp_pos s" "io_log s' = io_log s" by (subst s', simp)+
  have av: "avail (paddr_alloc s') \<subseteq> avail (paddr_alloc s)" "frames (paddr_alloc s') = frames (paddr_alloc s)"
    using gr by (simp_all add: grows_def)
  have tk: "taken s0 s' = taken s0 s \<union> taken s s'" using av I by (auto simp: taken_def exec_inv_def)
  have fr: "\<forall>x. page_no x \<notin> user_tables (mem s') D \<longrightarrow> mem s' x = mem s x"
    and ut: "user_tables (mem s') D \<subseteq> user_tables (mem s) D \<union> page_no ` taken s s'" using g by (simp_all add: grows_in_def)
  have sub: "user_tables (mem s') D \<subseteq> page_no ` taken s0 s'" using ut I unfolding tk exec_inv_def by blast
  have eq: "s = s0\<lparr>mem := mem s, paddr_alloc := paddr_alloc s, temp_pos := temp_pos s, io_log := io_log s\<rparr>"
    using I by (simp add: exec_inv_def)
  have low: "entry (mem s') D n = entry (mem s) D n" if "n < 2 ^ 19" for n using r(6) that pn by simp
  have dp: "dir_pages (mem s') D \<subseteq> dir_pages (mem s) D \<union> page_no ` taken s s'" using gr by (simp add: grows_def)
  have "exec_inv env s0 D s'" unfolding exec_inv_def
  proof (intro conjI)
    show "s' = s0\<lparr>mem := mem s', paddr_alloc := paddr_alloc s', temp_pos := temp_pos s', io_log := io_log s'\<rparr>"
      unfolding tp by (subst s', subst eq) simp
    show "\<forall>x. x \<notin> exec_area env s0 s' \<longrightarrow> mem s' x = mem s0 x"
    proof (intro allI impI)
      fix x assume x: "x \<notin> exec_area env s0 s'"
      then have "x \<notin> exec_area env s0 s" "page_no x \<notin> user_tables (mem s') D" using sub tk by (auto simp: exec_area_def)
      then show "mem s' x = mem s0 x" using fr I unfolding exec_inv_def by metis
    qed
    show "dir_pages (mem s') D \<subseteq> dir_pages (mem s0) (kernel_page_dir s0) \<union> page_no ` taken s0 s'"
      using dp I unfolding tk exec_inv_def by blast
    show "user_tables (mem s') D \<subseteq> page_no ` taken s0 s'" by (rule sub)
  qed (use I av r(2) low in \<open>auto simp: exec_inv_def\<close>)
  moreover have "later env D s s'"
  proof -
    have "page_no ` taken s s' \<subseteq> page_no ` avail (paddr_alloc s)" by (auto simp: taken_def)
    moreover have "entry (mem s') D n = Some v" if "entry (mem s) D n = Some v" for n v
    proof -
      have "\<not> (page_no va \<le> n \<and> n < page_no va + N)"
      proof
        assume "page_no va \<le> n \<and> n < page_no va + N"
        then have "n - page_no va < N" "page_no va + (n - page_no va) = n" by auto
        then have "entry (mem s) D n = None" using none [of "n - page_no va"] by metis
        then show False using that by simp
      qed
      then show ?thesis using r(6) that by simp
    qed
    ultimately show ?thesis using dp av gr unfolding later_def grows_def by blast
  qed
  moreover have "card (avail (paddr_alloc s)) \<le> card (avail (paddr_alloc s')) + N + card ?J"
  proof -
    have "tables (mem s') D \<subseteq> tables (mem s) D \<union> ?J" using r(3) by (simp add: grows_in_def)
    then have "card (tables (mem s') D) \<le> card (tables (mem s) D \<union> ?J)" by (intro card_mono) simp_all
    also have "\<dots> \<le> card (tables (mem s) D) + card ?J" by (rule card_Un_le)
    finally show ?thesis using r(4) by (simp add: counted_def)
  qed
  ultimately show thesis using that r(1,5,6) fr tp(1) by blast
qed

text \<open>The new address space at the beginning.\<close>

lemma exec_create:
  assumes "alloc_wf (paddr_alloc s)" "dir_wf (mem s) (kernel_page_dir s) (paddr_alloc s)" "avail (paddr_alloc s) \<noteq> {}"
  obtains D s1 where "memory_create_uvm s = Inr (D, s1)" "exec_inv env s D s1" "D \<in> avail (paddr_alloc s)"
    "\<And>n. 2 ^ 19 \<le> n \<Longrightarrow> entry (mem s1) D n = None" "card (avail (paddr_alloc s)) = Suc (card (avail (paddr_alloc s1)))"
    "\<And>x. page_no x \<notin> page_no ` avail (paddr_alloc s) \<Longrightarrow> mem s1 x = mem s x"
proof -
  obtain D s1 where c: "memory_create_uvm s = Inr (D, s1)" "alloc_wf (paddr_alloc s1)" "D \<noteq> 0"
    "avail (paddr_alloc s1) = avail (paddr_alloc s) - {D}" "s1 = s\<lparr>mem := mem s1, paddr_alloc := paddr_alloc s1\<rparr>"
    "D \<in> avail (paddr_alloc s)" "dir_wf (mem s1) D (paddr_alloc s1)"
    "\<forall>n. entry (mem s1) D n = (if n < 2 ^ 19 then entry (mem s) (kernel_page_dir s) n else None)"
    "\<forall>x. page_no x \<noteq> page_no D \<longrightarrow> mem s1 x = mem s x" "\<forall>j. has_pt (mem s1) D j \<longrightarrow> j < 512"
    "dir_pages (mem s1) D \<subseteq> insert (page_no D) (dir_pages (mem s) (kernel_page_dir s))"
    using memory_create_uvm_effect [OF assms(1,2)] assms(3) by metis
  have fr: "frames (paddr_alloc s1) = frames (paddr_alloc s)" by (rule memory_create_uvm_frames [OF c(1) assms(1)])
  have t: "D \<in> taken s s1" using c(4,6) by (simp add: taken_def)
  have "s1 = s\<lparr>mem := mem s1, paddr_alloc := paddr_alloc s1, temp_pos := temp_pos s1, io_log := io_log s1\<rparr>"
  proof -
    have "temp_pos s1 = temp_pos s" "io_log s1 = io_log s" by (subst c(5), simp)+
    then show ?thesis by (subst c(5)) simp
  qed
  moreover have "mem s1 x = mem s x" if "x \<notin> exec_area env s s1" for x
    using t c(9) that by (auto simp: exec_area_def)
  moreover have "user_tables (mem s1) D \<subseteq> page_no ` taken s s1" using c(10) t by (auto simp: table_pages_def)
  ultimately have "exec_inv env s D s1"
    using c fr t by (auto simp: exec_inv_def vm_ok_def)
  moreover have "card (avail (paddr_alloc s)) = Suc (card (avail (paddr_alloc s1)))"
    unfolding c(4) using c(6) by (intro card.remove) simp_all
  moreover have "mem s1 x = mem s x" if "page_no x \<notin> page_no ` avail (paddr_alloc s)" for x using c(6,9) that by auto
  ultimately show thesis using that [OF c(1) _ c(6)] c(8) by simp
qed

text \<open>
  A stage that writes only to the buffers: the allocator and what the new address space maps are unchanged.
\<close>

definition buffered :: "exec_env \<Rightarrow> addr \<Rightarrow> 's kernel_scheme \<Rightarrow> 's kernel_scheme \<Rightarrow> bool" where
  "buffered env D s s' \<longleftrightarrow> paddr_alloc s' = paddr_alloc s \<and> entry (mem s') D = entry (mem s) D
     \<and> dir_pages (mem s') D = dir_pages (mem s) D \<and> (\<forall>x. x \<notin> buffers env \<longrightarrow> mem s' x = mem s x)"

lemma buffered_trans: "buffered env D s s1 \<Longrightarrow> buffered env D s1 s2 \<Longrightarrow> buffered env D s s2"
  by (simp add: buffered_def)

lemma exec_buffer_write:
  assumes I: "exec_inv env s0 D s" and B: "exec_buffers env s0" and w: "\<And>x. x \<notin> buffers env \<Longrightarrow> m' x = mem s x"
  shows "exec_inv env s0 D (s\<lparr>mem := m', temp_pos := t, io_log := l\<rparr>)"
    and "buffered env D s (s\<lparr>mem := m', temp_pos := t, io_log := l\<rparr>)"
proof -
  have x: "x \<in> exec_area env s0 s \<and> page_no x \<notin> dir_pages (mem s) D" if "m' x \<noteq> mem s x" for x
    using w [of x] that buffers_apart [OF I B] by blast
  note W = exec_write [OF I, of m', OF x]
  show "exec_inv env s0 D (s\<lparr>mem := m', temp_pos := t, io_log := l\<rparr>)" by (rule W(1))
  show "buffered env D s (s\<lparr>mem := m', temp_pos := t, io_log := l\<rparr>)"
  proof -
    have "entry m' D = entry (mem s) D" by (rule ext) (rule W(2))
    then show ?thesis using w by (simp add: buffered_def W(3))
  qed
qed

subsection \<open>The file\<close>

text \<open>The program file, the sectors from 5000 on, as memory from address 0 on, and that the buffer holds it.\<close>

definition exec_image :: "(nat \<Rightarrow> u8) \<Rightarrow> bytes" where
  "exec_image disk a = disk (SECTOR_SIZE * 5000 + unat a)"

definition prog_open :: "exec_env \<Rightarrow> (nat \<Rightarrow> u8) \<Rightarrow> 's fs_state_scheme \<Rightarrow> bool" where
  "prog_open env disk s \<longleftrightarrow> file_open (temp_at env) (disk_bytes disk (SECTOR_SIZE * 5000) FILE_SIZE) s"

lemma file_size: "FILE_SIZE = 40960"
  by (simp add: FILE_SIZE_def SECTOR_SIZE_def)

lemma image_byte: "i < FILE_SIZE \<Longrightarrow> disk_bytes disk (SECTOR_SIZE * 5000) FILE_SIZE ! i = exec_image disk (of_nat i)"
  by (simp add: disk_bytes_def exec_image_def file_size unat_of_nat_u32)

lemma prog_open_cong:
  assumes "prog_open env disk s" "\<And>x. x \<in> region (temp_at env) FILE_SIZE \<Longrightarrow> mem s' x = mem s x"
  shows "prog_open env disk s'"
  using assms load_bytes_cong [of "temp_at env" FILE_SIZE "mem s'" "mem s"] by (simp add: prog_open_def file_open_def)

lemma exec_open:
  assumes I: "exec_inv env s0 D s" and B: "exec_buffers env s0" and dev: "ata_ok disk dev" and nm: "vload s name = Some 47"
  obtains s1 where "sys_open dev (temp_at env) name 0 s = Some (Inr (TEMP_FD, s1))" "exec_inv env s0 D s1"
    "buffered env D s s1" "prog_open env disk s1" "temp_pos s1 = temp_at env"
proof -
  let ?file = "disk_bytes disk (SECTOR_SIZE * 5000) FILE_SIZE"
  obtain es where rd: "read_disk dev 5000 80 (temp_at env) s = Some (s\<lparr>io_log := es, mem := store_bytes (temp_at env) ?file (mem s)\<rparr>)"
    using read_disk_effect [OF dev, of 80 5000 "temp_at env" s] by (auto simp: FILE_SIZE_def)
  let ?m = "store_bytes (temp_at env) ?file (mem s)" and ?s = "s\<lparr>mem := store_bytes (temp_at env) ?file (mem s), temp_pos := temp_at env, io_log := es\<rparr>"
  have len: "length ?file = FILE_SIZE" by (simp add: disk_bytes_def)
  have w: "?m x = mem s x" if "x \<notin> buffers env" for x
    using that len by (intro store_bytes_other) (auto simp: buffers_def)
  have "sys_open dev (temp_at env) name 0 s = Some (Inr (TEMP_FD, ?s))" using rd nm by (simp add: sys_open_def)
  moreover have "prog_open env disk ?s"
    using load_store_bytes [of ?file "temp_at env" "mem s"] len by (simp add: prog_open_def file_open_def file_size)
  ultimately show thesis
    using that [of ?s] exec_buffer_write [OF I B w, where t = "temp_at env" and l = es] by simp
qed

text \<open>Reading from the buffer, to a place outside of it.\<close>

lemma exec_sys_read:
  assumes P: "prog_open env disk s" and B: "exec_buffers env s0" and tp: "temp_pos s = temp_at env + of_nat off"
    and len: "off + unat len \<le> FILE_SIZE" "len \<noteq> 0" and ptr: "ptr \<noteq> 0" "region ptr (unat len) \<inter> region (temp_at env) FILE_SIZE = {}"
  obtains s' where "sys_read TEMP_FD ptr len s = (len, s')" "prog_open env disk s'" "temp_pos s' = temp_at env + of_nat (off + unat len)"
    "s' = s\<lparr>mem := mem s', temp_pos := temp_pos s', io_log := io_log s\<rparr>"
    "\<forall>i < unat len. mem s' (ptr + of_nat i) = exec_image disk (of_nat (off + i))"
    "\<forall>x. x \<notin> region ptr (unat len) \<longrightarrow> mem s' x = mem s x"
proof -
  let ?file = "disk_bytes disk (SECTOR_SIZE * 5000) FILE_SIZE"
  have "0 < unat len" using len(2) by (simp add: unat_gt_0)
  then have "unat (temp_at env) + off < 2 ^ 32" using len(1) B by (simp add: exec_buffers_def exec_linked_def)
  then have "unat (temp_at env + of_nat off) = unat (temp_at env) + off" by (rule unat_add_lt)
  moreover have "0 < unat (temp_at env)" using B by (simp add: exec_buffers_def exec_linked_def unat_gt_0)
  ultimately have nz: "temp_pos s \<noteq> 0" unfolding tp by (intro notI) simp
  let ?bs = "take (unat len) (drop off ?file)"
  obtain s' where r: "sys_read TEMP_FD ptr len s = (len, s')" "file_open (temp_at env) ?file s'"
    "temp_pos s' = temp_at env + of_nat (off + unat len)" "s' = s\<lparr>mem := store_bytes ptr ?bs (mem s), temp_pos := temp_pos s'\<rparr>"
    using sys_read_effect [OF P [unfolded prog_open_def] tp len(1) ptr(1) nz ptr(2)] by blast
  have m: "mem s' = store_bytes ptr ?bs (mem s)" by (subst r(4)) simp
  have bl: "length ?bs = unat len" using len(1) by (simp add: disk_bytes_def)
  have bn: "?bs ! i = exec_image disk (of_nat (off + i))" if "i < unat len" for i
    using that len(1) image_byte [of "off + i" disk] by (simp add: disk_bytes_def)
  have "unat len \<le> 2 ^ 32" using len(1) by (simp add: file_size)
  then have A: "mem s' (ptr + of_nat i) = exec_image disk (of_nat (off + i))" if "i < unat len" for i
    unfolding m using store_bytes_nth [of i ?bs ptr "mem s"] bl bn [OF that] that by simp
  have F: "mem s' x = mem s x" if "x \<notin> region ptr (unat len)" for x
    unfolding m using that bl by (simp add: store_bytes_other)
  have E: "s' = s\<lparr>mem := mem s', temp_pos := temp_pos s', io_log := io_log s\<rparr>" unfolding m by (subst r(4)) simp
  show thesis by (rule that [OF r(1) r(2) [folded prog_open_def] r(3) E]) (use A F in blast)+
qed

lemma new_pages_keep:
  assumes "new_pages D va N f s0 s" "dir_pages (mem s') D = dir_pages (mem s) D"
    "\<And>a. translate (mem s') D a = translate (mem s) D a" "paddr_alloc s' = paddr_alloc s"
  shows "new_pages D va N f s0 s'"
  using assms by (simp add: new_pages_def taken_def)

lemma new_pages_sub:
  assumes "new_pages D va N f s s'" "avail (paddr_alloc s) \<subseteq> avail (paddr_alloc s0)"
  shows "new_pages D va N f s0 s'"
  using assms by (auto simp: new_pages_def taken_def)

text \<open>The bytes of a page are those at the addresses from its start on.\<close>

lemma placed_at_run:
  assumes "i < 4096"
  shows "placed_at f (4096 * k + i) = f k + of_nat i"
proof -
  have "(4096 * k + i) div 4096 = k" "(4096 * k + i) mod 4096 = i" using assms by simp_all
  then show ?thesis by (simp only: placed_at_def)
qed

lemma region_placed:
  assumes "c \<le> 4096"
  shows "region (f k) c = placed_at f ` {4096 * k ..< 4096 * k + c}"
proof -
  have "region (f k) c = (\<lambda>i. placed_at f (4096 * k + i)) ` {..<c}"
    using assms placed_at_run by (auto simp: region_def)
  also have "\<dots> = placed_at f ` ((+) (4096 * k) ` {..<c})" by (simp add: image_image)
  also have "(+) (4096 * k) ` {..<c} = {4096 * k ..< 4096 * k + c}" by (simp add: lessThan_atLeast0 image_add_atLeastLessThan add.commute)
  finally show ?thesis .
qed

lemma buffers_new_pages:
  assumes "exec_buffers env s0" "new_pages D va N f s0 s" "i < N * 4096"
  shows "placed_at f i \<notin> buffers env"
proof
  assume "placed_at f i \<in> buffers env"
  moreover have "page_no (placed_at f i) \<in> page_no ` avail (paddr_alloc s0)"
    using new_pages_at(2) [OF assms(2,3)] by (auto simp: taken_def)
  ultimately show False using assms(1) unfolding exec_buffers_def exec_linked_def by blast
qed

text \<open>The bytes of a run of pages are those of its first page and those behind it.\<close>

lemma placed_bytes_join:
  assumes inj: "inj_on (placed_at f) {..<N * 4096}" and le: "4096 * k + n \<le> N * 4096"
    and hi: "\<forall>i < n - 4096. m' (placed_at f (4096 * Suc k + i)) = g (of_nat (off + 4096 * Suc k + i))"
    and keep: "\<forall>x. x \<notin> placed_at f ` {4096 * Suc k ..< 4096 * Suc k + (n - 4096)} \<longrightarrow> m' x = m x"
    and lo: "\<forall>i < 4096. m (placed_at f (4096 * k + i)) = g (of_nat (off + 4096 * k + i))"
  shows "\<forall>i < n. m' (placed_at f (4096 * k + i)) = g (of_nat (off + 4096 * k + i) :: addr)"
proof (intro allI impI)
  fix i assume n: "i < n"
  show "m' (placed_at f (4096 * k + i)) = g (of_nat (off + 4096 * k + i))"
  proof (cases "i < 4096")
    case True
    have "placed_at f (4096 * k + i) \<notin> placed_at f ` {4096 * Suc k ..< 4096 * Suc k + (n - 4096)}"
    proof
      assume "placed_at f (4096 * k + i) \<in> placed_at f ` {4096 * Suc k ..< 4096 * Suc k + (n - 4096)}"
      then obtain j where j: "4096 * Suc k \<le> j" "j < 4096 * Suc k + (n - 4096)" "placed_at f (4096 * k + i) = placed_at f j" by auto
      have "4096 * k + i < N * 4096" using n le by linarith
      moreover have "j < N * 4096" using j(1,2) le by (cases "4096 \<le> n") simp_all
      ultimately have "4096 * k + i < N * 4096" "j < N * 4096" by blast+
      then have "4096 * k + i = j" using inj_onD [OF inj j(3)] by simp
      then show False using j(1) True by simp
    qed
    then show ?thesis using keep lo True by simp
  next
    case False
    then have i: "4096 * Suc k + (i - 4096) = 4096 * k + i" "off + 4096 * Suc k + (i - 4096) = off + 4096 * k + i" by simp_all
    have "i - 4096 < n - 4096" using n False by simp
    from hi [rule_format, OF this] show ?thesis unfolding i .
  qed
qed

text \<open>One round of the loop of \<^verbatim>\<open>load_phdr\<close>: it stores the rest of the file, one page at most, to the frame of page \<open>k\<close>.\<close>

lemma load_page_round:
  assumes I: "exec_inv env s0 D s" and B: "exec_buffers env s0" and P: "prog_open env disk s" and NP: "new_pages D va N f s0 s"
    and tp: "temp_pos s = temp_at env + of_nat (off + 4096 * k)" and fit: "4096 * k + unat sz \<le> N * 4096" "off + 4096 * k + unat sz \<le> FILE_SIZE"
    and nz: "sz \<noteq> 0" and w: "w = (if MEM_PAGE_SIZE < sz then MEM_PAGE_SIZE else sz)"
  obtains s1 where "load_pages TEMP_FD D (va + of_nat (4096 * k)) sz s = load_pages TEMP_FD D (va + of_nat (4096 * k) + w) (sz - w) s1"
    "exec_inv env s0 D s1" "prog_open env disk s1" "new_pages D va N f s0 s1" "paddr_alloc s1 = paddr_alloc s" "entry (mem s1) D = entry (mem s) D"
    "temp_pos s1 = temp_at env + of_nat (off + 4096 * k + unat w)"
    "\<forall>i < unat w. mem s1 (placed_at f (4096 * k + i)) = exec_image disk (of_nat (off + 4096 * k + i))"
    "\<forall>x. x \<notin> placed_at f ` {4096 * k ..< 4096 * k + unat w} \<longrightarrow> mem s1 x = mem s x"
proof -
  have pos: "0 < unat sz" using nz by (simp add: unat_gt_0)
  have c: "unat w \<le> 4096" "unat w \<le> unat sz" "0 < unat w" "w \<noteq> 0"
    using pos nz by (auto simp: w MEM_PAGE_SIZE_def word_less_nat_alt)
  have kN: "4096 * k < N * 4096" using fit(1) pos by linarith
  then have k: "k < N" by simp
  have fk: "page_aligned (f k)" "f k \<noteq> 0" "page_no (f k) \<notin> dir_pages (mem s) D" "f k \<in> taken s0 s"
    using NP k by (simp_all add: new_pages_def)
  have p0: "placed_at f (4096 * k) = f k" using placed_at_run [of 0 f k] by simp
  have wf: "dir_wf (mem s) D (paddr_alloc s)" using I by (simp add: exec_inv_def vm_ok_def)
  have "translate (mem s) D (va + of_nat (4096 * k)) = Some (f k)" using new_pages_at(1) [OF NP kN] p0 by simp
  then have gp: "memory_get_paddr D (va + of_nat (4096 * k)) s = Inr (f k, s)" by (rule memory_get_paddr_mapped [OF wf])
  note reg = region_placed [OF c(1), of f k]
  have in_pages: "x \<notin> buffers env" "page_no x = page_no (f k)" if x: "x \<in> region (f k) (unat w)" for x
  proof -
    obtain i where i: "i < unat w" "x = f k + of_nat i" using x by (auto simp: region_def)
    then show "page_no x = page_no (f k)" using page_no_offset [OF fk(1), of i] c(1) by simp
    have "4096 * k + i < N * 4096" using i(1) c(2) fit(1) by linarith
    then show "x \<notin> buffers env" using buffers_new_pages [OF B NP, of "4096 * k + i"] placed_at_run [of i f k] i c(1) by simp
  qed
  have dj: "region (f k) (unat w) \<inter> region (temp_at env) FILE_SIZE = {}" using in_pages(1) by (auto simp: buffers_def)
  have le: "off + 4096 * k + unat w \<le> FILE_SIZE" using c(2) fit(2) by simp
  obtain s1 where r: "sys_read TEMP_FD (f k) w s = (w, s1)" "prog_open env disk s1"
    "temp_pos s1 = temp_at env + of_nat (off + 4096 * k + unat w)"
    "s1 = s\<lparr>mem := mem s1, temp_pos := temp_pos s1, io_log := io_log s\<rparr>"
    "\<forall>i < unat w. mem s1 (f k + of_nat i) = exec_image disk (of_nat (off + 4096 * k + i))"
    "\<forall>x. x \<notin> region (f k) (unat w) \<longrightarrow> mem s1 x = mem s x"
    by (rule exec_sys_read [OF P B tp le c(4) fk(2) dj])
  have out: "x \<in> exec_area env s0 s \<and> page_no x \<notin> dir_pages (mem s) D" if "mem s1 x \<noteq> mem s x" for x
  proof -
    have "x \<in> region (f k) (unat w)" using r(6) that by blast
    then have "page_no x = page_no (f k)" by (rule in_pages(2))
    then show ?thesis using fk(3,4) by (auto simp: exec_area_def)
  qed
  note W = exec_write [OF I, of "mem s1", OF out]
  have I1: "exec_inv env s0 D s1" by (subst r(4)) (rule W(1))
  have al: "paddr_alloc s1 = paddr_alloc s" by (subst r(4)) simp
  have NP1: "new_pages D va N f s0 s1" by (rule new_pages_keep [OF NP W(3,4) al])
  have e1: "entry (mem s1) D = entry (mem s) D" by (rule ext) (rule W(2))
  have step: "load_pages TEMP_FD D (va + of_nat (4096 * k)) sz s = load_pages TEMP_FD D (va + of_nat (4096 * k) + w) (sz - w) s1"
    using nz gp r(1) unfolding w by (subst load_pages.simps) (simp add: Let_def)
  have m1: "\<forall>i < unat w. mem s1 (placed_at f (4096 * k + i)) = exec_image disk (of_nat (off + 4096 * k + i))"
    using r(5) placed_at_run [of _ f k] c(1) by simp
  show thesis by (rule that [OF step I1 r(2) NP1 al e1 r(3) m1 r(6) [unfolded reg]])
qed

text \<open>
  The loop of \<^verbatim>\<open>load_phdr\<close>: with the segment mapped from page \<open>va\<close> on, it stores the bytes of the file to
  the frames of the segment and writes nothing else.
\<close>

lemma load_pages_effect:
  assumes "exec_inv env s0 D s" "exec_buffers env s0" "prog_open env disk s" "new_pages D va N f s0 s"
    and "temp_pos s = temp_at env + of_nat (off + 4096 * k)" "4096 * k + unat sz \<le> N * 4096" "off + 4096 * k + unat sz \<le> FILE_SIZE"
  shows "\<exists>s'. load_pages TEMP_FD D (va + of_nat (4096 * k)) sz s = Inr (0, s') \<and> exec_inv env s0 D s'
    \<and> paddr_alloc s' = paddr_alloc s \<and> entry (mem s') D = entry (mem s) D \<and> new_pages D va N f s0 s'
    \<and> (\<forall>i < unat sz. mem s' (placed_at f (4096 * k + i)) = exec_image disk (of_nat (off + 4096 * k + i)))
    \<and> (\<forall>x. x \<notin> placed_at f ` {4096 * k ..< 4096 * k + unat sz} \<longrightarrow> mem s' x = mem s x)"
  using assms
proof (induction "unat sz" arbitrary: sz k s rule: less_induct)
  case less
  show ?case
  proof (cases "sz = 0")
    case True
    then show ?thesis using less.prems by (subst load_pages.simps) auto
  next
    case False
    define w where "w = (if MEM_PAGE_SIZE < sz then MEM_PAGE_SIZE else sz)"
    let ?n = "unat sz" and ?c = "unat w"
    have pos: "0 < ?n" using False by (simp add: unat_gt_0)
    have c: "?c \<le> ?n" "0 < ?c" "w = sz \<or> w = of_nat 4096 \<and> ?c = 4096 \<and> 4096 < ?n"
      using pos by (auto simp: w_def MEM_PAGE_SIZE_def word_less_nat_alt)
    obtain s1 where r: "load_pages TEMP_FD D (va + of_nat (4096 * k)) sz s = load_pages TEMP_FD D (va + of_nat (4096 * k) + w) (sz - w) s1"
      "exec_inv env s0 D s1" "prog_open env disk s1" "new_pages D va N f s0 s1" "paddr_alloc s1 = paddr_alloc s" "entry (mem s1) D = entry (mem s) D"
      "temp_pos s1 = temp_at env + of_nat (off + 4096 * k + ?c)"
      "\<forall>i < ?c. mem s1 (placed_at f (4096 * k + i)) = exec_image disk (of_nat (off + 4096 * k + i))"
      "\<forall>x. x \<notin> placed_at f ` {4096 * k ..< 4096 * k + ?c} \<longrightarrow> mem s1 x = mem s x"
      by (rule load_page_round [OF less.prems False w_def])
    from c(3) show ?thesis
    proof (elim disjE conjE)
      assume sz: "w = sz"
      then have "load_pages TEMP_FD D (va + of_nat (4096 * k)) sz s = Inr (0, s1)"
        unfolding r(1) by (subst load_pages.simps) simp
      then show ?thesis using r sz by (intro exI [of _ s1]) simp
    next
      assume c4: "w = of_nat 4096" "?c = 4096" "4096 < ?n"
      have us: "unat (sz - w) = ?n - 4096" using c4 c(1) by (simp add: unat_sub word_le_nat_alt)
      have va1: "va + of_nat (4096 * k) + w = va + of_nat (4096 * Suc k)" unfolding c4(1) by (simp add: algebra_simps)
      have sm: "unat (sz - w) < unat sz" using us c4(3) by simp
      have t1: "temp_pos s1 = temp_at env + of_nat (off + 4096 * Suc k)" using r(7) unfolding c4(2) by (simp add: add.commute add.left_commute)
      have b1: "4096 * Suc k + unat (sz - w) \<le> N * 4096" "off + 4096 * Suc k + unat (sz - w) \<le> FILE_SIZE"
        unfolding us using less.prems(6,7) c4(3) by simp_all
      obtain s' where ih: "load_pages TEMP_FD D (va + of_nat (4096 * Suc k)) (sz - w) s1 = Inr (0, s')" "exec_inv env s0 D s'"
        "paddr_alloc s' = paddr_alloc s1" "entry (mem s') D = entry (mem s1) D" "new_pages D va N f s0 s'"
        "\<forall>i < ?n - 4096. mem s' (placed_at f (4096 * Suc k + i)) = exec_image disk (of_nat (off + 4096 * Suc k + i))"
        "\<forall>x. x \<notin> placed_at f ` {4096 * Suc k ..< 4096 * Suc k + (?n - 4096)} \<longrightarrow> mem s' x = mem s1 x"
        using less.hyps [OF sm r(2) less.prems(2) r(3,4) t1 b1] unfolding us by blast
      have M: "\<forall>i < ?n. mem s' (placed_at f (4096 * k + i)) = exec_image disk (of_nat (off + 4096 * k + i))"
        by (rule placed_bytes_join [OF new_pages_inj [OF less.prems(4)] less.prems(6) ih(6,7) r(8) [unfolded c4(2)]])
      have sub: "{4096 * Suc k ..< 4096 * Suc k + (?n - 4096)} \<subseteq> {4096 * k ..< 4096 * k + ?n}" "{4096 * k ..< 4096 * k + ?c} \<subseteq> {4096 * k ..< 4096 * k + ?n}"
        using c4 by auto
      have O: "\<forall>x. x \<notin> placed_at f ` {4096 * k ..< 4096 * k + ?n} \<longrightarrow> mem s' x = mem s x"
      proof (intro allI impI)
        fix x assume "x \<notin> placed_at f ` {4096 * k ..< 4096 * k + ?n}"
        then have "x \<notin> placed_at f ` {4096 * Suc k ..< 4096 * Suc k + (?n - 4096)}" "x \<notin> placed_at f ` {4096 * k ..< 4096 * k + ?c}"
          using sub by blast+
        then show "mem s' x = mem s x" using ih(7) r(9) by simp
      qed
      show ?thesis
        by (rule exI [of _ s'], intro conjI M O) (use ih(1-5) r(1,5,6) va1 in \<open>simp_all only: simp_thms\<close>)
    qed
  qed
qed

text \<open>
  A segment that can be loaded: it begins on a page of the user half, fits below the stack, its bytes are in the
  part of the file that is read, and it is not shorter in memory than in the file.
\<close>

definition stack_bottom :: addr where
  "stack_bottom = MEM_TASK_STACK_TOP - MEM_TASK_STACK_SIZE"

definition seg_pages :: "Elf32_Phdr \<Rightarrow> nat" where
  "seg_pages ph = (unat (p_memsz ph) + 4095) div 4096"

definition segment_ok :: "Elf32_Phdr \<Rightarrow> bool" where
  "segment_ok ph \<longleftrightarrow> p_type ph = PT_LOAD \<and> page_aligned (p_vaddr ph) \<and> MEMORY_TASK_BASE \<le> p_vaddr ph \<and> p_filesz ph \<le> p_memsz ph
     \<and> unat (p_vaddr ph) + unat (p_memsz ph) \<le> unat stack_bottom \<and> unat (p_offset ph) + unat (p_filesz ph) \<le> FILE_SIZE"

lemma stack_bottom_page: "unat stack_bottom = 4096 * 0xDFE0C" "page_aligned stack_bottom" "page_no stack_bottom = 0xDFE0C"
  by (simp_all add: stack_bottom_def MEM_TASK_STACK_TOP_def MEM_TASK_STACK_SIZE_def MEM_PAGE_SIZE_def page_aligned_def page_no_def)

lemma segment_pages:
  assumes "segment_ok ph"
  shows "unat (p_memsz ph) \<le> seg_pages ph * 4096" "unat (p_vaddr ph) + seg_pages ph * 4096 \<le> unat stack_bottom"
    "page_no (p_vaddr ph) + seg_pages ph \<le> page_no stack_bottom" "unat (p_memsz ph) + 4095 < 2 ^ 32" "2 ^ 19 \<le> page_no (p_vaddr ph)"
proof -
  have uv: "unat (p_vaddr ph) = 4096 * page_no (p_vaddr ph)" using assms by (auto simp: segment_ok_def page_aligned_def page_no_def)
  have b: "4096 * page_no (p_vaddr ph) + unat (p_memsz ph) \<le> 4096 * 0xDFE0C"
    using assms uv unfolding segment_ok_def stack_bottom_page(1) by simp
  then have sp: "page_no (p_vaddr ph) + seg_pages ph \<le> 0xDFE0C" unfolding seg_pages_def by linarith
  then show "page_no (p_vaddr ph) + seg_pages ph \<le> page_no stack_bottom" unfolding stack_bottom_page(3) .
  show "unat (p_vaddr ph) + seg_pages ph * 4096 \<le> unat stack_bottom" unfolding uv stack_bottom_page(1) using sp by linarith
  show "unat (p_memsz ph) \<le> seg_pages ph * 4096" unfolding seg_pages_def by linarith
  show "2 ^ 19 \<le> page_no (p_vaddr ph)" using assms user_page_no by (simp add: segment_ok_def)
  show "unat (p_memsz ph) + 4095 < 2 ^ 32" using b by simp
qed

text \<open>
  The segment of a program header in the address space: its pages are mapped to frames that were free when
  \<^verbatim>\<open>execve\<close> began; they hold the bytes of the file, and behind them what the frames held before.
\<close>

definition segment_at :: "(nat \<Rightarrow> u8) \<Rightarrow> Elf32_Phdr \<Rightarrow> addr \<Rightarrow> (nat \<Rightarrow> addr) \<Rightarrow> 's kernel_scheme \<Rightarrow> 's kernel_scheme \<Rightarrow> bool" where
  "segment_at disk ph D f s0 s \<longleftrightarrow> new_pages D (p_vaddr ph) (seg_pages ph) f s0 s
     \<and> (\<forall>i < seg_pages ph * 4096. mem s (placed_at f i) =
          (if i < unat (p_filesz ph) then exec_image disk (of_nat (unat (p_offset ph) + i)) else mem s0 (placed_at f i)))"

lemma taken_apart:
  assumes "exec_inv env s0 D s" "page_no x \<in> page_no ` avail (paddr_alloc s)" "exec_buffers env s0"
  shows "mem s x = mem s0 x"
proof -
  obtain p where p: "p \<in> avail (paddr_alloc s)" "page_no x = page_no p" using assms(2) by blast
  have sub: "avail (paddr_alloc s) \<subseteq> avail (paddr_alloc s0)" using assms(1) by (simp add: exec_inv_def)
  have fr: "frames (paddr_alloc s) = frames (paddr_alloc s0)" using assms(1) by (simp add: exec_inv_def)
  have aw: "alloc_wf (paddr_alloc s)" using assms(1) by (simp add: exec_inv_def vm_ok_def)
  have al: "page_aligned q" if "q \<in> avail (paddr_alloc s0)" for q
    using frames_valid(1) [OF aw] that avail_frames [of "paddr_alloc s0"] unfolding fr by blast
  have "x \<notin> exec_area env s0 s"
  proof
    assume "x \<in> exec_area env s0 s"
    moreover have "x \<notin> buffers env" using assms(3) p sub unfolding exec_buffers_def exec_linked_def by blast
    ultimately obtain q where q: "q \<in> taken s0 s" "page_no q = page_no p" using p(2) by (auto simp: exec_area_def)
    then have "q = p" using al p(1) sub page_no_inj unfolding taken_def by blast
    then show False using q(1) p(1) by (simp add: taken_def)
  qed
  then show ?thesis using assms(1) by (simp add: exec_inv_def)
qed

lemma load_phdr_effect:
  assumes I: "exec_inv env s0 D s" and B: "exec_buffers env s0" and u: "0 \<le> sint (undef_ret s0)" and P: "prog_open env disk s"
    and ph: "segment_ok ph" and none: "\<And>n. 2 ^ 19 \<le> n \<Longrightarrow> entry (mem s) D n = None"
    and room: "seg_pages ph + seg_pages ph div 1024 + 2 \<le> card (avail (paddr_alloc s))"
  obtains s' f where "load_phdr env TEMP_FD ph D s = Inr (0, s')" "exec_inv env s0 D s'" "segment_at disk ph D f s0 s'"
    "\<forall>x \<in> buffers env. mem s' x = mem s x"
    "\<forall>n. \<not> (page_no (p_vaddr ph) \<le> n \<and> n < page_no (p_vaddr ph) + seg_pages ph) \<longrightarrow> entry (mem s') D n = entry (mem s) D n"
    "card (avail (paddr_alloc s)) \<le> card (avail (paddr_alloc s')) + seg_pages ph + seg_pages ph div 1024 + 2"
proof -
  let ?N = "seg_pages ph" and ?va = "p_vaddr ph"
  note sp = segment_pages [OF ph]
  have va: "page_aligned ?va" "MEMORY_TASK_BASE \<le> ?va" "unat ?va + ?N * 4096 \<le> 2 ^ 32"
    using ph sp(2) unfolding segment_ok_def stack_bottom_page(1) by simp_all
  have nn: "entry (mem s) D (page_no ?va + k) = None" if "k < ?N" for k using none sp(5) by simp
  note cp = card_page_tables [of "page_no ?va" ?N]
  have rm: "card (page_tables (page_no ?va) ?N) + ?N \<le> card (avail (paddr_alloc s))" using room cp by linarith
  obtain s1 f where r: "memory_alloc_for_page_dir D ?va (p_memsz ph) (PTE_P OR PTE_U OR PTE_W) s = Inr (0, s1)" "exec_inv env s0 D s1"
    "later env D s s1" "new_pages D ?va ?N f s s1"
    "card (avail (paddr_alloc s)) \<le> card (avail (paddr_alloc s1)) + ?N + card (page_tables (page_no ?va) ?N)"
    "\<forall>n. \<not> (page_no ?va \<le> n \<and> n < page_no ?va + ?N) \<longrightarrow> entry (mem s1) D n = entry (mem s) D n"
    "\<forall>x. page_no x \<notin> user_tables (mem s1) D \<longrightarrow> mem s1 x = mem s x" "temp_pos s1 = temp_pos s"
    by (rule exec_alloc [OF I u va sp(4) seg_pages_def nn rm])
  let ?s1 = "s1\<lparr>temp_pos := temp_at env + p_offset ph\<rparr>"
  have ls: "sys_lseek (temp_at env) TEMP_FD (p_offset ph) 0 s1 = (0, ?s1)" by (simp add: sys_lseek_def)
  have B1: "mem s1 x = mem s x" if "x \<in> buffers env" for x
    using buffers_apart(2) [OF r(2) B that] r(7) table_pages_dir by blast
  have "exec_inv env s0 D (s1\<lparr>mem := mem s1, temp_pos := temp_at env + p_offset ph, io_log := io_log s1\<rparr>)"
    by (rule exec_write [OF r(2)]) simp
  then have I1: "exec_inv env s0 D ?s1" by simp
  have P1: "prog_open env disk ?s1" by (rule prog_open_cong [OF P]) (use B1 in \<open>simp add: buffers_def\<close>)
  have "avail (paddr_alloc s) \<subseteq> avail (paddr_alloc s0)" using I by (simp add: exec_inv_def)
  from new_pages_sub [OF r(4) this] have NP0: "new_pages D ?va ?N f s0 s1" .
  then have NP: "new_pages D ?va ?N f s0 ?s1" by (simp add: new_pages_def taken_def)
  have fz: "4096 * 0 + unat (p_filesz ph) \<le> ?N * 4096" "unat (p_offset ph) + 4096 * 0 + unat (p_filesz ph) \<le> FILE_SIZE"
    using ph sp(1) by (simp_all add: segment_ok_def word_le_nat_alt)
  have tp: "temp_pos ?s1 = temp_at env + of_nat (unat (p_offset ph) + 4096 * 0)" by simp
  obtain s' where l: "load_pages TEMP_FD D ?va (p_filesz ph) ?s1 = Inr (0, s')" "exec_inv env s0 D s'"
    "paddr_alloc s' = paddr_alloc s1" "entry (mem s') D = entry (mem s1) D" "new_pages D ?va ?N f s0 s'"
    "\<forall>i < unat (p_filesz ph). mem s' (placed_at f i) = exec_image disk (of_nat (unat (p_offset ph) + i))"
    "\<forall>x. x \<notin> placed_at f ` {0 ..< unat (p_filesz ph)} \<longrightarrow> mem s' x = mem s1 x"
    using load_pages_effect [OF I1 B P1 NP tp fz] by auto
  have e: "load_phdr env TEMP_FD ph D s = Inr (0, s')" using r(1) ls l(1) by (simp add: load_phdr_def)
  have stale: "mem s' (placed_at f i) = mem s0 (placed_at f i)" if i: "unat (p_filesz ph) \<le> i" "i < ?N * 4096" for i
  proof -
    have "placed_at f i \<notin> placed_at f ` {0 ..< unat (p_filesz ph)}"
    proof
      assume "placed_at f i \<in> placed_at f ` {0 ..< unat (p_filesz ph)}"
      then obtain j where j: "j < unat (p_filesz ph)" "placed_at f i = placed_at f j" by auto
      then have "i = j" using inj_onD [OF new_pages_inj [OF NP] j(2)] i by simp
      then show False using i j by simp
    qed
    then have "mem s' (placed_at f i) = mem s1 (placed_at f i)" using l(7) by blast
    also have "\<dots> = mem s (placed_at f i)"
      using new_pages_at(3) [OF NP0 i(2)] r(7) table_pages_dir by blast
    also have "\<dots> = mem s0 (placed_at f i)"
      using new_pages_at(2) [OF r(4) i(2)] by (intro taken_apart [OF I _ B]) (auto simp: taken_def)
    finally show ?thesis .
  qed
  have seg: "segment_at disk ph D f s0 s'" unfolding segment_at_def using l(5,6) stale by simp
  have bf: "\<forall>x \<in> buffers env. mem s' x = mem s x"
  proof
    fix x assume x: "x \<in> buffers env"
    have "x \<notin> placed_at f ` {0 ..< unat (p_filesz ph)}" using buffers_new_pages [OF B NP] x fz(1) by auto
    then show "mem s' x = mem s x" using l(7) B1 [OF x] by simp
  qed
  show thesis
    by (rule that [OF e l(2) seg bf]) (use l(3,4) r(5,6) cp in auto)
qed

text \<open>The same bytes at another place are the same headers.\<close>

lemma load16_shift:
  assumes "\<And>i. i < l \<Longrightarrow> m (a + of_nat i) = m' (b + of_nat i)" "k + 2 \<le> l"
  shows "load16 m (a + of_nat k) = load16 m' (b + of_nat k)"
  using assms(1) [of k] assms(1) [of "k + 1"] assms(2) by (simp add: load16_def algebra_simps)

lemma load32_shift:
  assumes "\<And>i. i < l \<Longrightarrow> m (a + of_nat i) = m' (b + of_nat i)" "k + 4 \<le> l"
  shows "load32 m (a + of_nat k) = load32 m' (b + of_nat k)"
  using assms(1) [of k] assms(1) [of "k + 1"] assms(1) [of "k + 2"] assms(1) [of "k + 3"] assms(2)
  by (simp add: load32_def algebra_simps)

lemma read_ehdr_shift:
  assumes "\<And>i. i < 52 \<Longrightarrow> m (a + of_nat i) = m' (b + of_nat i)"
  shows "read_ehdr m a = read_ehdr m' b"
proof -
  note h = load16_shift [of 52 m a m' b, OF assms] and w = load32_shift [of 52 m a m' b, OF assms]
  have "load_bytes m a EI_NIDENT = load_bytes m' b EI_NIDENT"
    using assms by (intro nth_equalityI) (simp_all add: EI_NIDENT_def)
  then show ?thesis
    using h [of 16] h [of 18] h [of 40] h [of 42] h [of 44] h [of 46] h [of 48] h [of 50]
      w [of 20] w [of 24] w [of 28] w [of 32] w [of 36]
    by (simp add: read_ehdr_def)
qed

lemma read_phdr_shift:
  assumes "\<And>i. i < 32 \<Longrightarrow> m (a + of_nat i) = m' (b + of_nat i)"
  shows "read_phdr m a = read_phdr m' b"
proof -
  note w = load32_shift [of 32 m a m' b, OF assms]
  show ?thesis using w [of 0] w [of 4] w [of 8] w [of 12] w [of 16] w [of 20] w [of 24] w [of 28]
    by (simp add: read_phdr_def)
qed

text \<open>
  A program that can be started: the file has an ELF header with an entry and program headers, and \<open>ph\<close> is the
  first program header of a loadable segment of the user half. The segments behind it are not loaded.
\<close>

definition exec_header :: "(nat \<Rightarrow> u8) \<Rightarrow> Elf32_Ehdr" where
  "exec_header disk = read_ehdr (exec_image disk) 0"

definition exec_phoff :: "(nat \<Rightarrow> u8) \<Rightarrow> nat \<Rightarrow> u32" where
  "exec_phoff disk i = e_phoff (exec_header disk) + of_nat i * ucast (e_phentsize (exec_header disk))"

definition exec_phdr :: "(nat \<Rightarrow> u8) \<Rightarrow> nat \<Rightarrow> Elf32_Phdr" where
  "exec_phdr disk i = read_phdr (exec_image disk) (exec_phoff disk i)"

definition skipped :: "Elf32_Phdr \<Rightarrow> bool" where
  "skipped ph \<longleftrightarrow> p_type ph \<noteq> PT_LOAD \<or> p_vaddr ph < MEMORY_TASK_BASE"

definition exec_program :: "(nat \<Rightarrow> u8) \<Rightarrow> Elf32_Phdr \<Rightarrow> bool" where
  "exec_program disk ph \<longleftrightarrow> elf_ident_ok (e_ident (exec_header disk)) \<and> e_phentsize (exec_header disk) \<noteq> 0
     \<and> e_phoff (exec_header disk) \<noteq> 0 \<and> e_entry (exec_header disk) \<noteq> 0 \<and> segment_ok ph
     \<and> (\<exists>t < unat (e_phnum (exec_header disk)). ph = exec_phdr disk t \<and> (\<forall>j \<le> t. unat (exec_phoff disk j) + 32 \<le> FILE_SIZE)
          \<and> (\<forall>j < t. skipped (exec_phdr disk j)))"

definition header_read :: "exec_env \<Rightarrow> (nat \<Rightarrow> u8) \<Rightarrow> 's kernel_scheme \<Rightarrow> bool" where
  "header_read env disk s \<longleftrightarrow> (\<forall>i < 52. mem s (elf_hdr_at env + of_nat i) = exec_image disk (of_nat i))"

lemma header_read_eq: "header_read env disk s \<Longrightarrow> read_ehdr (mem s) (elf_hdr_at env) = exec_header disk"
  unfolding exec_header_def header_read_def using read_ehdr_shift [of "mem s" "elf_hdr_at env" "exec_image disk" 0] by simp

lemma exec_phoff_Suc: "exec_phoff disk i + ucast (e_phentsize (exec_header disk)) = exec_phoff disk (Suc i)"
  by (simp add: exec_phoff_def algebra_simps)

text \<open>A read into one of the local variables.\<close>

lemma exec_read_var:
  assumes I: "exec_inv env s0 D s" and B: "exec_buffers env s0" and P: "prog_open env disk s" and tp: "temp_pos s = temp_at env + of_nat off"
    and len: "off + unat len \<le> FILE_SIZE" "len \<noteq> 0" and ptr: "ptr \<noteq> 0" "region ptr (unat len) \<inter> region (temp_at env) FILE_SIZE = {}"
      "region ptr (unat len) \<subseteq> buffers env"
  obtains s' where "sys_read TEMP_FD ptr len s = (len, s')" "exec_inv env s0 D s'" "buffered env D s s'" "prog_open env disk s'"
    "\<forall>i < unat len. mem s' (ptr + of_nat i) = exec_image disk (of_nat (off + i))"
    "\<forall>x. x \<notin> region ptr (unat len) \<longrightarrow> mem s' x = mem s x" "temp_pos s' = temp_at env + of_nat (off + unat len)"
proof -
  obtain s1 where r: "sys_read TEMP_FD ptr len s = (len, s1)" "prog_open env disk s1"
    "temp_pos s1 = temp_at env + of_nat (off + unat len)" "s1 = s\<lparr>mem := mem s1, temp_pos := temp_pos s1, io_log := io_log s\<rparr>"
    "\<forall>i < unat len. mem s1 (ptr + of_nat i) = exec_image disk (of_nat (off + i))"
    "\<forall>x. x \<notin> region ptr (unat len) \<longrightarrow> mem s1 x = mem s x"
    by (rule exec_sys_read [OF P B tp len ptr(1,2)])
  have w: "mem s1 x = mem s x" if "x \<notin> buffers env" for x using r(6) ptr(3) that by blast
  have "exec_inv env s0 D s1" by (subst r(4)) (rule exec_buffer_write(1) [OF I B w])
  moreover have "buffered env D s s1" by (subst r(4)) (rule exec_buffer_write(2) [OF I B w])
  ultimately show thesis using that [OF r(1) _ _ r(2,5,6,3)] by blast
qed

lemma load_headers_effect:
  assumes "exec_inv env s0 D s" "exec_buffers env s0" "0 \<le> sint (undef_ret s0)" "prog_open env disk s" "header_read env disk s"
    and "\<forall>n. 2 ^ 19 \<le> n \<longrightarrow> entry (mem s) D n = None"
    and "seg_pages ph + seg_pages ph div 1024 + 2 \<le> card (avail (paddr_alloc s))"
    and "i + d = t" "d < n" "t < unat (e_phnum (exec_header disk))" "ph = exec_phdr disk t" "segment_ok ph"
    and "\<forall>j \<le> t. unat (exec_phoff disk j) + 32 \<le> FILE_SIZE" "\<forall>j < t. skipped (exec_phdr disk j)"
  shows "\<exists>s' f. load_headers n env TEMP_FD i (exec_phoff disk i) D s = Inr (Some (e_entry (exec_header disk)), s')
    \<and> exec_inv env s0 D s' \<and> segment_at disk ph D f s0 s'
    \<and> (\<forall>n. \<not> (page_no (p_vaddr ph) \<le> n \<and> n < page_no (p_vaddr ph) + seg_pages ph) \<longrightarrow> entry (mem s') D n = entry (mem s) D n)
    \<and> card (avail (paddr_alloc s)) \<le> card (avail (paddr_alloc s')) + seg_pages ph + seg_pages ph div 1024 + 2"
  using assms
proof (induction n arbitrary: i d s)
  case (Suc n)
  note I = Suc.prems(1) and B = Suc.prems(2) and u = Suc.prems(3) and P = Suc.prems(4) and H = header_read_eq [OF Suc.prems(5)]
  let ?o = "exec_phoff disk i" and ?p = "elf_phdr_at env"
  let ?s = "s\<lparr>temp_pos := temp_at env + ?o\<rparr>"
  have it: "i \<le> t" "i < unat (e_phnum (exec_header disk))" using Suc.prems(8,10) by simp_all
  have I1: "exec_inv env s0 D ?s" using exec_write(1) [OF I, where m' = "mem s" and t = "temp_at env + ?o" and l = "io_log s"] by simp
  have P1: "prog_open env disk ?s" by (rule prog_open_cong [OF P]) simp
  have tp: "temp_pos ?s = temp_at env + of_nat (unat ?o)" by simp
  have ln: "unat ?o + unat (32 :: u32) \<le> FILE_SIZE" "(32 :: u32) \<noteq> 0" using Suc.prems(13) it(1) by simp_all
  have pt: "?p \<noteq> 0" "region ?p (unat (32 :: u32)) \<inter> region (temp_at env) FILE_SIZE = {}" "region ?p (unat (32 :: u32)) \<subseteq> buffers env"
    using B by (simp_all add: exec_buffers_def exec_linked_def buffers_def) blast
  obtain s1 where r: "sys_read TEMP_FD ?p 32 ?s = (32, s1)" "exec_inv env s0 D s1" "buffered env D ?s s1" "prog_open env disk s1"
    "\<forall>i < unat (32 :: u32). mem s1 (?p + of_nat i) = exec_image disk (of_nat (unat ?o + i))"
    "\<forall>x. x \<notin> region ?p (unat (32 :: u32)) \<longrightarrow> mem s1 x = mem ?s x" "temp_pos s1 = temp_at env + of_nat (unat ?o + unat (32 :: u32))"
    by (rule exec_read_var [OF I1 B P1 tp ln pt])
  have ph: "read_phdr (mem s1) ?p = exec_phdr disk i"
    unfolding exec_phdr_def by (rule read_phdr_shift) (use r(5) in simp)
  have H1: "header_read env disk s1"
  proof -
    have "mem s1 (elf_hdr_at env + of_nat k) = mem s (elf_hdr_at env + of_nat k)" if "k < 52" for k
    proof -
      have "elf_hdr_at env + of_nat k \<in> region (elf_hdr_at env) 52" using that by (rule in_regionI)
      moreover have "region (elf_hdr_at env) 52 \<inter> region ?p 32 = {}" using B by (simp add: exec_buffers_def exec_linked_def)
      ultimately have "elf_hdr_at env + of_nat k \<notin> region ?p (unat (32 :: u32))" by auto
      then show ?thesis using r(6) by simp
    qed
    then show ?thesis using Suc.prems(5) by (simp add: header_read_def)
  qed
  have e1: "entry (mem s1) D = entry (mem s) D" "paddr_alloc s1 = paddr_alloc s" using r(3) by (simp_all add: buffered_def)
  have ls: "sys_lseek (temp_at env) TEMP_FD ?o 0 s = (0, ?s)" by (simp add: sys_lseek_def)
  show ?case
  proof (cases "d = 0")
    case True
    then have iph: "exec_phdr disk i = ph" using Suc.prems(8,11) by simp
    have none: "\<And>n. 2 ^ 19 \<le> n \<Longrightarrow> entry (mem s1) D n = None" using e1(1) Suc.prems(6) by simp
    have rm: "seg_pages ph + seg_pages ph div 1024 + 2 \<le> card (avail (paddr_alloc s1))" using Suc.prems(7) e1(2) by simp
    obtain s' f where l: "load_phdr env TEMP_FD ph D s1 = Inr (0, s')" "exec_inv env s0 D s'" "segment_at disk ph D f s0 s'"
      "\<forall>x \<in> buffers env. mem s' x = mem s1 x"
      "\<forall>n. \<not> (page_no (p_vaddr ph) \<le> n \<and> n < page_no (p_vaddr ph) + seg_pages ph) \<longrightarrow> entry (mem s') D n = entry (mem s1) D n"
      "card (avail (paddr_alloc s1)) \<le> card (avail (paddr_alloc s')) + seg_pages ph + seg_pages ph div 1024 + 2"
      by (rule load_phdr_effect [OF r(2) B u r(4) Suc.prems(12) none rm])
    have "elf_hdr_at env + of_nat k \<in> buffers env" if "k < 52" for k using in_regionI [OF that] by (auto simp: buffers_def)
    then have H2: "header_read env disk s'" using H1 l(4) by (simp add: header_read_def)
    have "\<not> (p_type ph \<noteq> PT_LOAD \<or> p_vaddr ph < MEMORY_TASK_BASE)" using Suc.prems(12) by (auto simp: segment_ok_def)
    then have "load_headers (Suc n) env TEMP_FD i ?o D s = Inr (Some (e_entry (exec_header disk)), s')"
      using it(2) ls r(1) l(1) by (simp add: Let_def H ph iph header_read_eq [OF H2] sys_close_def)
    then show ?thesis using l(2,3,5,6) unfolding e1 by blast
  next
    case False
    then have nx: "Suc i + (d - 1) = t" "d - 1 < n" "i < t" using Suc.prems(8,9) by simp_all
    have "p_type (exec_phdr disk i) \<noteq> PT_LOAD \<or> p_vaddr (exec_phdr disk i) < MEMORY_TASK_BASE"
      using Suc.prems(14) nx(3) by (simp add: skipped_def)
    then have st: "load_headers (Suc n) env TEMP_FD i ?o D s = load_headers n env TEMP_FD (Suc i) (exec_phoff disk (Suc i)) D s1"
      using it(2) ls r(1) by (simp add: Let_def H ph header_read_eq [OF H1] exec_phoff_Suc)
    have a: "\<forall>n. 2 ^ 19 \<le> n \<longrightarrow> entry (mem s1) D n = None" "seg_pages ph + seg_pages ph div 1024 + 2 \<le> card (avail (paddr_alloc s1))"
      using Suc.prems(6,7) e1 by simp_all
    show ?thesis unfolding st using Suc.IH [OF r(2) B u r(4) H1 a nx(1,2) Suc.prems(10-14)] unfolding e1 .
  qed
qed simp

text \<open>\<^verbatim>\<open>load_elf_file\<close> loads the program and returns its entry.\<close>

lemma load_elf_file_loads:
  assumes I: "exec_inv env s0 D s" and B: "exec_buffers env s0" and u: "0 \<le> sint (undef_ret s0)" and dev: "ata_ok disk dev"
    and nm: "vload s name = Some 47" and prog: "exec_program disk ph"
    and none: "\<forall>n. 2 ^ 19 \<le> n \<longrightarrow> entry (mem s) D n = None"
    and room: "seg_pages ph + seg_pages ph div 1024 + 2 \<le> card (avail (paddr_alloc s))"
  obtains s' f where "load_elf_file dev env task name D s = Some (Inr (e_entry (exec_header disk), s'))" "exec_inv env s0 D s'"
    "segment_at disk ph D f s0 s'"
    "\<forall>n. \<not> (page_no (p_vaddr ph) \<le> n \<and> n < page_no (p_vaddr ph) + seg_pages ph) \<longrightarrow> entry (mem s') D n = entry (mem s) D n"
    "card (avail (paddr_alloc s)) \<le> card (avail (paddr_alloc s')) + seg_pages ph + seg_pages ph div 1024 + 2"
proof -
  obtain s1 where o: "sys_open dev (temp_at env) name 0 s = Some (Inr (TEMP_FD, s1))" "exec_inv env s0 D s1"
    "buffered env D s s1" "prog_open env disk s1" "temp_pos s1 = temp_at env"
    by (rule exec_open [OF I B dev nm])
  have tp: "temp_pos s1 = temp_at env + of_nat 0" using o(5) by simp
  have ln: "0 + unat (52 :: u32) \<le> FILE_SIZE" "(52 :: u32) \<noteq> 0" by (simp_all add: file_size)
  have pt: "elf_hdr_at env \<noteq> 0" "region (elf_hdr_at env) (unat (52 :: u32)) \<inter> region (temp_at env) FILE_SIZE = {}"
    "region (elf_hdr_at env) (unat (52 :: u32)) \<subseteq> buffers env"
    using B by (simp_all add: exec_buffers_def exec_linked_def buffers_def) blast
  obtain s2 where r: "sys_read TEMP_FD (elf_hdr_at env) 52 s1 = (52, s2)" "exec_inv env s0 D s2" "buffered env D s1 s2" "prog_open env disk s2"
    "\<forall>i < unat (52 :: u32). mem s2 (elf_hdr_at env + of_nat i) = exec_image disk (of_nat (0 + i))"
    "\<forall>x. x \<notin> region (elf_hdr_at env) (unat (52 :: u32)) \<longrightarrow> mem s2 x = mem s1 x" "temp_pos s2 = temp_at env + of_nat (0 + unat (52 :: u32))"
    by (rule exec_read_var [OF o(2) B o(4) tp ln pt])
  have H: "header_read env disk s2" using r(5) by (simp add: header_read_def)
  have b: "buffered env D s s2" using o(3) r(3) by (rule buffered_trans)
  have e: "entry (mem s2) D = entry (mem s) D" "paddr_alloc s2 = paddr_alloc s" using b by (simp_all add: buffered_def)
  obtain t where t: "t < unat (e_phnum (exec_header disk))" "ph = exec_phdr disk t" "\<forall>j \<le> t. unat (exec_phoff disk j) + 32 \<le> FILE_SIZE"
    "\<forall>j < t. skipped (exec_phdr disk j)" and so: "segment_ok ph"
    using prog by (auto simp: exec_program_def)
  have a: "\<forall>n. 2 ^ 19 \<le> n \<longrightarrow> entry (mem s2) D n = None" "seg_pages ph + seg_pages ph div 1024 + 2 \<le> card (avail (paddr_alloc s2))"
    using none room e by simp_all
  have n: "0 + t = t" "t < 2 ^ 16" using t(1) unsigned_less [where 'a = nat, of "e_phnum (exec_header disk)"] by simp_all
  have p0: "exec_phoff disk 0 = e_phoff (exec_header disk)" by (simp add: exec_phoff_def)
  obtain s' f where l: "load_headers (2 ^ 16) env TEMP_FD 0 (exec_phoff disk 0) D s2 = Inr (Some (e_entry (exec_header disk)), s')"
    "exec_inv env s0 D s'" "segment_at disk ph D f s0 s'"
    "\<forall>n. \<not> (page_no (p_vaddr ph) \<le> n \<and> n < page_no (p_vaddr ph) + seg_pages ph) \<longrightarrow> entry (mem s') D n = entry (mem s2) D n"
    "card (avail (paddr_alloc s2)) \<le> card (avail (paddr_alloc s')) + seg_pages ph + seg_pages ph div 1024 + 2"
    using load_headers_effect [OF r(2) B u r(4) H a n t(1,2) so t(3,4)] by blast
  have "load_elf_file dev env task name D s = Some (Inr (e_entry (exec_header disk), s'))"
    using o(1) r(1) l(1) prog by (simp add: load_elf_file_def bindO_def header_read_eq [OF H] exec_program_def TEMP_FD_def p0 [symmetric] Let_def
        del: numeral_power_eq_of_nat_cancel_iff)
  then show thesis using that l(2-5) unfolding e by blast
qed

end
