(* ===== verification/Args.thy ===== *)
theory Args
  imports Program
begin

text \<open>
  The arguments of a program, \<^verbatim>\<open>copy_args\<close> of \<^verbatim>\<open>source/kernel/core/task.c\<close> (the definitions are in Task): from the
  address space of the caller, which \<^verbatim>\<open>execve\<close> does not disturb, to the top of the stack in the new one.
\<close>

subsection \<open>The arguments\<close>

text \<open>
  An address that can be read in the address space of the caller and that \<^verbatim>\<open>execve\<close> does not disturb: neither the
  byte nor a page its translation depends on is a free frame or one of the buffers.
\<close>

definition quiet :: "exec_env \<Rightarrow> 's kmem_scheme \<Rightarrow> addr \<Rightarrow> bool" where
  "quiet env s a \<longleftrightarrow> vload s a \<noteq> None
     \<and> (if a < MEMORY_TASK_BASE then a \<notin> buffers env \<and> page_no a \<notin> page_no ` avail (paddr_alloc s)
        else read_pages s a \<inter> (page_no ` avail (paddr_alloc s) \<union> page_no ` buffers env) = {})"

lemma quiet_same:
  assumes I: "exec_inv env s0 D s" and q: "quiet env s0 a" and cr: "page_aligned (cr3_reg s0)"
  shows "vload s a = vload s0 a" and "vbytes s a = vbytes s0 a" and "read_pages s a \<inter> page_no ` avail (paddr_alloc s0) = {}"
proof -
  note c = exec_inv_fields(1) [OF I]
  have fr: "mem s x = mem s0 x" if "x \<notin> buffers env" "page_no x \<notin> page_no ` avail (paddr_alloc s0)" for x
  proof -
    have "x \<notin> exec_area env s0 s" using that by (auto simp: exec_area_def taken_def)
    then show ?thesis using I by (simp add: exec_inv_def)
  qed
  have "vload s a = vload s0 a \<and> read_pages s a \<inter> page_no ` avail (paddr_alloc s0) = {}"
  proof (cases "a < MEMORY_TASK_BASE")
    case True
    then show ?thesis using q fr [of a] by (simp add: quiet_def vload_def read_pages_def)
  next
    case False
    have m: "mem s x = mem s0 x" if "page_no x \<in> read_pages s0 a" for x
      using q False that by (intro fr) (auto simp: quiet_def)
    note v = vload_cong [OF cr m]
    have "vload s a = vload (s0\<lparr>mem := mem s\<rparr>) a" "read_pages s a = read_pages (s0\<lparr>mem := mem s\<rparr>) a"
      using c by (simp_all add: vload_def read_pages_def)
    then show ?thesis using v q False by (auto simp: quiet_def)
  qed
  then show "vload s a = vload s0 a" "read_pages s a \<inter> page_no ` avail (paddr_alloc s0) = {}" by simp_all
  then show "vbytes s a = vbytes s0 a" by (simp add: vbytes_def)
qed

text \<open>\<open>pa j\<close> is the physical address of byte \<open>j\<close> of an area of the new address space from \<open>to\<close> on.\<close>

definition window :: "addr \<Rightarrow> addr \<Rightarrow> nat \<Rightarrow> (nat \<Rightarrow> addr) \<Rightarrow> 's kmem_scheme \<Rightarrow> 's kmem_scheme \<Rightarrow> bool" where
  "window D to n pa s0 s \<longleftrightarrow> inj_on pa {..<n}
     \<and> (\<forall>j < n. translate (mem s) D (to + of_nat j) = Some (pa j) \<and> pa j \<noteq> 0
          \<and> page_no (pa j) \<notin> dir_pages (mem s) D \<and> page_no (pa j) \<in> page_no ` taken s0 s)"

lemma exec_window_write:
  assumes I: "exec_inv env s0 D s" and W: "window D to n pa s0 s" and w: "\<And>x. x \<notin> pa ` {..<n} \<Longrightarrow> m' x = mem s x"
  shows "exec_inv env s0 D (s\<lparr>mem := m'\<rparr>)" "window D to n pa s0 (s\<lparr>mem := m'\<rparr>)" "entry m' D = entry (mem s) D"
    "dir_pages m' D = dir_pages (mem s) D"
proof -
  have x: "x \<in> exec_area env s0 s \<and> page_no x \<notin> dir_pages (mem s) D" if "m' x \<noteq> mem s x" for x
    using w [of x] that W by (auto simp: window_def exec_area_def)
  note E = exec_write [OF I, of m', OF x]
  show "exec_inv env s0 D (s\<lparr>mem := m'\<rparr>)" using E(1) [where t = "temp_pos s" and l = "io_log s"] by simp
  show "entry m' D = entry (mem s) D" by (rule ext) (rule E(2))
  show "dir_pages m' D = dir_pages (mem s) D" by (rule E(3))
  show "window D to n pa s0 (s\<lparr>mem := m'\<rparr>)" using W E(3,4) by (simp add: window_def taken_def)
qed

lemma exec_copy:
  assumes I: "exec_inv env s0 D s" and W: "window D to n pa s0 s" and cr: "page_aligned (cr3_reg s0)"
    and off: "off + unat len \<le> n" and frm: "from \<noteq> 0" "unat from + unat len \<le> 2 ^ 32"
    and src: "\<And>i. i < unat len \<Longrightarrow> vload s (from + of_nat i) = Some (b i) \<and> read_pages s (from + of_nat i) \<inter> page_no ` avail (paddr_alloc s0) = {}"
  obtains m where "memory_copy_uvm_data (to + of_nat off) D from len s = Inr (0, s\<lparr>mem := m\<rparr>)"
    "\<forall>i < unat len. m (pa (off + i)) = b i" "\<forall>x. x \<notin> pa ` {off ..< off + unat len} \<longrightarrow> m x = mem s x"
proof -
  have wf: "dir_wf (mem s) D (paddr_alloc s)" using I by (simp add: exec_inv_def vm_ok_def)
  have tk: "page_no ` taken s0 s \<subseteq> page_no ` avail (paddr_alloc s0)" by (auto simp: taken_def)
  have sh: "to + of_nat off + of_nat i = to + of_nat (off + i)" for i by simp
  have pg: "page_no (pa (off + j)) \<notin> read_pages s (from + of_nat i)" if "i < unat len" "j < unat len" for i j
  proof -
    have "off + j < n" using that(2) off by simp
    then have "page_no (pa (off + j)) \<in> page_no ` avail (paddr_alloc s0)" using W tk unfolding window_def by blast
    then show ?thesis using src [OF that(1)] by blast
  qed
  have inj: "inj_on (\<lambda>i. pa (off + i)) {..<unat len}"
  proof (rule inj_onI)
    fix x y assume xy: "x \<in> {..<unat len}" "y \<in> {..<unat len}" "pa (off + x) = pa (off + y)"
    have "inj_on pa {..<n}" using W by (simp add: window_def)
    from inj_onD [OF this xy(3)] show "x = y" using xy(1,2) off by simp
  qed
  have ac: "page_aligned (cr3_reg s)" using cr exec_inv_fields(1) [OF I] by simp
  have "can_copy (to + of_nat off) D from (unat len) (\<lambda>i. pa (off + i)) b s"
    unfolding can_copy_def sh
  proof (intro conjI allI impI)
    fix i assume i: "i < unat len"
    then have "off + i < n" using off by simp
    then show "translate (mem s) D (to + of_nat (off + i)) = Some (pa (off + i))" "pa (off + i) \<noteq> 0"
      "page_no (pa (off + i)) \<notin> dir_pages (mem s) D" using W by (simp_all add: window_def del: of_nat_add)
    show "vload s (from + of_nat i) = Some (b i)" using src [OF i] by simp
    show "page_no (pa (off + j)) \<notin> read_pages s (from + of_nat i)" if "j < unat len" for j using pg [OF i that] .
  qed (use wf ac frm inj in simp_all)
  from memory_copy_uvm_data_effect [OF this] obtain m where m: "memory_copy_uvm_data (to + of_nat off) D from len s = Inr (0, s\<lparr>mem := m\<rparr>)"
    "\<forall>i < unat len. m (pa (off + i)) = b i" "\<forall>x. x \<notin> (\<lambda>i. pa (off + i)) ` {..<unat len} \<longrightarrow> m x = mem s x" by blast
  have "(\<lambda>i. pa (off + i)) ` {..<unat len} = pa ` {off ..< off + unat len}"
  proof -
    have "(+) off ` {..<unat len} = {off ..< off + unat len}" by (simp add: lessThan_atLeast0 image_add_atLeastLessThan add.commute)
    then show ?thesis by (metis image_image)
  qed
  then show thesis using that m by simp
qed

text \<open>
  The arguments of the caller: \<open>argv\<close> is an array of pointers to strings with a null pointer at its end.
\<close>

definition string_source :: "exec_env \<Rightarrow> 's kmem_scheme \<Rightarrow> addr \<Rightarrow> u8 list \<Rightarrow> bool" where
  "string_source env s a xs \<longleftrightarrow> a \<noteq> 0 \<and> unat a + length xs + 1 \<le> 2 ^ 32 \<and> cstring (vbytes s) a xs
     \<and> (\<forall>x \<in> region a (length xs + 1). quiet env s x)"

definition argv_source :: "exec_env \<Rightarrow> 's kmem_scheme \<Rightarrow> addr \<Rightarrow> u8 list list \<Rightarrow> bool" where
  "argv_source env s argv args \<longleftrightarrow> argv \<noteq> 0
     \<and> (\<forall>i \<le> length args. \<forall>x \<in> region (argv + 4 * of_nat i) 4. quiet env s x)
     \<and> (\<forall>i < length args. string_source env s (load32 (vbytes s) (argv + 4 * of_nat i)) (args ! i))
     \<and> load32 (vbytes s) (argv + 4 * of_nat (length args)) = 0"

text \<open>Where the arguments are put: behind the header and the table of pointers, one string after the other.\<close>

definition arg_off :: "u8 list list \<Rightarrow> nat \<Rightarrow> nat" where
  "arg_off args i = 12 + 4 * length args + sum_list (map (\<lambda>xs. length xs + 1) (take i args))"

definition args_fit :: "u8 list list \<Rightarrow> bool" where
  "args_fit args \<longleftrightarrow> 12 + 4 * length args \<le> 4096 \<and> arg_off args (length args) \<le> 16 * 4096"

lemma arg_off_Suc: "i < length args \<Longrightarrow> arg_off args (Suc i) = arg_off args i + length (args ! i) + 1"
  by (simp add: arg_off_def take_Suc_conv_app_nth)

lemma arg_off_mono: "i \<le> j \<Longrightarrow> j \<le> length args \<Longrightarrow> arg_off args i \<le> arg_off args j"
proof (induction j)
  case (Suc j)
  then show ?case using arg_off_Suc [of j args] by (auto simp: le_Suc_eq)
qed simp

lemma arg_off_low: "12 + 4 * length args \<le> arg_off args i"
  by (simp add: arg_off_def)

lemma vload_vbytes: "vload s a \<noteq> None \<Longrightarrow> vload s a = Some (vbytes s a)"
  by (auto simp: vbytes_def)

lemma vmapped_quiet:
  assumes "exec_inv env s0 D s" "page_aligned (cr3_reg s0)" "\<forall>x \<in> region a n. quiet env s0 x"
  shows "vmapped s a n"
  using assms(3) quiet_same(1) [OF assms(1) _ assms(2)] in_regionI [of _ n a]
  by (auto simp: vmapped_def list_all_iff quiet_def)

lemma string_source_read:
  assumes I: "exec_inv env s0 D s" and cr: "page_aligned (cr3_reg s0)" and S: "string_source env s0 a xs"
  shows "kstrlen a (vbytes s) = Some (of_nat (length xs))" "vmapped s a (length xs + 1)"
    "\<And>i. i < length xs + 1 \<Longrightarrow> vload s (a + of_nat i) = Some ((xs @ [0]) ! i) \<and> read_pages s (a + of_nat i) \<inter> page_no ` avail (paddr_alloc s0) = {}"
proof -
  have q: "quiet env s0 x" if "x \<in> region a (length xs + 1)" for x using S that by (simp add: string_source_def)
  have c0: "cstring (vbytes s0) a xs" and a: "a \<noteq> 0" using S by (simp_all add: string_source_def)
  then have "cstring (vbytes s) a xs"
    using quiet_same(2) [OF I q cr] by (intro cstring_cong [OF c0]) simp
  then show "kstrlen a (vbytes s) = Some (of_nat (length xs))" using a by (rule kstrlen_eq)
  show "vmapped s a (length xs + 1)" using q by (intro vmapped_quiet [OF I cr]) blast
  show "vload s (a + of_nat i) = Some ((xs @ [0]) ! i) \<and> read_pages s (a + of_nat i) \<inter> page_no ` avail (paddr_alloc s0) = {}"
    if i: "i < length xs + 1" for i
  proof -
    note qi = q [OF in_regionI [OF i]]
    have "vload s0 (a + of_nat i) = Some (vbytes s0 (a + of_nat i))" using qi by (intro vload_vbytes) (simp add: quiet_def)
    moreover have "vbytes s0 (a + of_nat i) = (xs @ [0]) ! i"
    proof (cases "i = length xs")
      case False
      then have "i < length xs" using i by simp
      then show ?thesis using c0 by (metis cstring_def load_bytes_nth nth_append)
    qed (use c0 in \<open>simp add: cstring_def\<close>)
    ultimately show ?thesis using quiet_same(1,3) [OF I qi cr] by simp
  qed
qed

text \<open>The area for the arguments, with its first page in one frame.\<close>

definition arg_window :: "addr \<Rightarrow> addr \<Rightarrow> (nat \<Rightarrow> addr) \<Rightarrow> 's kmem_scheme \<Rightarrow> 's kmem_scheme \<Rightarrow> bool" where
  "arg_window D to pa s0 s \<longleftrightarrow> window D to (16 * 4096) pa s0 s \<and> (\<forall>j < 4096. pa j = pa 0 + of_nat j)"

lemma arg_window_run:
  assumes "arg_window D to pa s0 s" "j + n \<le> 4096"
  shows "region (pa j) n = pa ` {j ..< j + n}" and "k < n \<Longrightarrow> pa j + of_nat k = pa (j + k)"
proof -
  have p: "pa j + of_nat k = pa (j + k)" if "k < n" for k
  proof -
    have w: "\<forall>j < 4096. pa j = pa 0 + of_nat j" using assms(1) unfolding arg_window_def by (rule conjunct2)
    have l: "j < 4096" "j + k < 4096" using assms(2) that by simp_all
    have "pa j = pa 0 + of_nat j" "pa (j + k) = pa 0 + of_nat (j + k)"
      by (rule w [rule_format], rule l)+
    then show ?thesis by (simp only: of_nat_add add.assoc)
  qed
  then show "k < n \<Longrightarrow> pa j + of_nat k = pa (j + k)" .
  have "region (pa j) n = (\<lambda>k. pa j + of_nat k) ` {..<n}" by (auto simp: region_def)
  also have "\<dots> = (\<lambda>k. pa (j + k)) ` {..<n}" using p by (intro image_cong) simp_all
  also have "\<dots> = pa ` ((+) j ` {..<n})" by (simp add: image_image)
  also have "(+) j ` {..<n} = {j ..< j + n}" by (simp add: lessThan_atLeast0 image_add_atLeastLessThan add.commute)
  finally show "region (pa j) n = pa ` {j ..< j + n}" .
qed

lemma arg_window_inj:
  assumes "arg_window D to pa s0 s" "A \<subseteq> {..<16 * 4096}" "j < 16 * 4096" "j \<notin> A"
  shows "pa j \<notin> pa ` A"
proof
  assume "pa j \<in> pa ` A"
  then obtain k where k: "k \<in> A" "pa j = pa k" by blast
  have "inj_on pa {..<16 * 4096}" using assms(1) by (simp add: arg_window_def window_def)
  from inj_onD [OF this k(2)] have "j = k" using assms(2,3) k(1) by auto
  then show False using k(1) assms(4) by simp
qed

lemma exec_arg_write:
  assumes "exec_inv env s0 D s" "arg_window D to pa s0 s" "A \<subseteq> {..<16 * 4096}" "\<And>x. x \<notin> pa ` A \<Longrightarrow> m' x = mem s x"
  shows "exec_inv env s0 D (s\<lparr>mem := m'\<rparr>)" "arg_window D to pa s0 (s\<lparr>mem := m'\<rparr>)" "entry m' D = entry (mem s) D"
    "dir_pages m' D = dir_pages (mem s) D"
proof -
  have w: "window D to (16 * 4096) pa s0 s" using assms(2) by (simp add: arg_window_def)
  have m: "m' x = mem s x" if "x \<notin> pa ` {..<16 * 4096}" for x using assms(3,4) that by blast
  note E = exec_window_write [OF assms(1) w m]
  show "exec_inv env s0 D (s\<lparr>mem := m'\<rparr>)" "arg_window D to pa s0 (s\<lparr>mem := m'\<rparr>)" "entry m' D = entry (mem s) D"
    "dir_pages m' D = dir_pages (mem s) D"
    using E assms(2) unfolding arg_window_def by blast+
qed

lemma argv_word:
  assumes I: "exec_inv env s0 D s" and cr: "page_aligned (cr3_reg s0)" and A: "argv_source env s0 argv args" and i: "i \<le> length args"
  shows "vmapped s (argv + 4 * of_nat i) 4" "load32 (vbytes s) (argv + 4 * of_nat i) = load32 (vbytes s0) (argv + 4 * of_nat i)"
proof -
  have q: "\<forall>x \<in> region (argv + 4 * of_nat i) 4. quiet env s0 x" using A i by (simp add: argv_source_def)
  then show "vmapped s (argv + 4 * of_nat i) 4" by (rule vmapped_quiet [OF I cr])
  show "load32 (vbytes s) (argv + 4 * of_nat i) = load32 (vbytes s0) (argv + 4 * of_nat i)"
    using q quiet_same(2) [OF I _ cr] by (intro load32_cong) simp
qed

text \<open>One round of the loop of \<^verbatim>\<open>copy_args\<close>.\<close>

lemma copy_arg_round:
  assumes I: "exec_inv env s0 D s" and W: "arg_window D to pa s0 s" and cr: "page_aligned (cr3_reg s0)"
    and A: "argv_source env s0 argv args" and F: "args_fit args" and i: "i < length args"
  obtains m where "\<And>n. copy_arg_strings (Suc n) i (pa 12) (to + of_nat (arg_off args i)) D argv s =
      copy_arg_strings n (Suc i) (pa 12) (to + of_nat (arg_off args (Suc i))) D argv (s\<lparr>mem := m\<rparr>)"
    "load32 m (pa (12 + 4 * i)) = to + of_nat (arg_off args i)"
    "\<forall>l < length (args ! i) + 1. m (pa (arg_off args i + l)) = (args ! i @ [0]) ! l"
    "\<forall>x. x \<notin> pa ` ({12 + 4 * i ..< 16 + 4 * i} \<union> {arg_off args i ..< arg_off args (Suc i)}) \<longrightarrow> m x = mem s x"
proof -
  let ?xs = "args ! i" and ?o = "arg_off args i" and ?frm = "load32 (vbytes s0) (argv + 4 * of_nat i)"
  have S: "string_source env s0 ?frm ?xs" using A i by (simp add: argv_source_def)
  note r = string_source_read [OF I cr S]
  note a = argv_word [OF I cr A, of i]
  have oS: "arg_off args (Suc i) = ?o + (length ?xs + 1)" using arg_off_Suc [OF i] by simp
  have top: "?o + (length ?xs + 1) \<le> 16 * 4096"
    using arg_off_mono [of "Suc i" "length args" args] i F oS by (simp add: args_fit_def)
  let ?len = "of_nat (length ?xs) + 1 :: u32"
  have ul: "unat ?len = length ?xs + 1"
  proof -
    have "?len = of_nat (length ?xs + 1)" by simp
    moreover have "length ?xs + 1 < 2 ^ 32" using top by simp
    ultimately show ?thesis by (metis unat_of_nat_u32)
  qed
  have ub: "unat (of_nat (length ?xs) :: u32) = length ?xs" using unat_of_nat_u32 [of "length ?xs"] top by simp
  have nz: "?frm \<noteq> 0" "unat ?frm + unat ?len \<le> 2 ^ 32" using S ul by (simp_all add: string_source_def)
  have w: "window D to (16 * 4096) pa s0 s" using W by (simp add: arg_window_def)
  have ol: "?o + unat ?len \<le> 16 * 4096" using top ul by simp
  have src: "vload s (?frm + of_nat k) = Some ((?xs @ [0]) ! k) \<and> read_pages s (?frm + of_nat k) \<inter> page_no ` avail (paddr_alloc s0) = {}"
    if "k < unat ?len" for k using r(3) [of k] that ul by simp
  obtain m1 where c: "memory_copy_uvm_data (to + of_nat ?o) D ?frm ?len s = Inr (0, s\<lparr>mem := m1\<rparr>)"
    "\<forall>k < unat ?len. m1 (pa (?o + k)) = (?xs @ [0]) ! k" "\<forall>x. x \<notin> pa ` {?o ..< ?o + unat ?len} \<longrightarrow> m1 x = mem s x"
    by (rule exec_copy [OF I w cr ol nz src])
  let ?d = "to + of_nat ?o" and ?m = "store32 (pa (12 + 4 * i)) (to + of_nat (arg_off args i)) m1"
  have tb: "12 + 4 * i + 4 \<le> 4096" using F i by (simp add: args_fit_def)
  have pt: "pa 12 + 4 * of_nat i = pa (12 + 4 * i)" using arg_window_run(2) [OF W, of 12 "4 * i + 4" "4 * i"] tb by simp
  have rg: "region (pa (12 + 4 * i)) 4 = pa ` {12 + 4 * i ..< 16 + 4 * i}" using arg_window_run(1) [OF W tb] by (simp add: add.commute)
  have dl: "?d + ?len = to + of_nat (arg_off args (Suc i))" unfolding oS by simp
  have "copy_arg_strings (Suc n) i (pa 12) ?d D argv s =
      copy_arg_strings n (Suc i) (pa 12) (to + of_nat (arg_off args (Suc i))) D argv (s\<lparr>mem := ?m\<rparr>)" for n
    using a i r(1,2) c(1) ub by (simp add: Let_def bindO_def store_word_def pt dl [symmetric] del: of_nat_add)
  moreover have "?m (pa (?o + l)) = (?xs @ [0]) ! l" if "l < length ?xs + 1" for l
  proof -
    have "?o + l \<notin> {12 + 4 * i ..< 16 + 4 * i}" using arg_off_low [of args i] i by simp
    then have "pa (?o + l) \<notin> region (pa (12 + 4 * i)) 4"
      unfolding rg using that top tb by (intro arg_window_inj [OF W]) auto
    then show ?thesis using c(2) that ul by (simp add: store32_other)
  qed
  moreover have "?m x = mem s x" if "x \<notin> pa ` ({12 + 4 * i ..< 16 + 4 * i} \<union> {?o ..< arg_off args (Suc i)})" for x
  proof -
    have "x \<notin> region (pa (12 + 4 * i)) 4" "x \<notin> pa ` {?o ..< ?o + unat ?len}" using that unfolding rg oS ul by blast+
    then show ?thesis using c(3) by (simp add: store32_other)
  qed
  ultimately show thesis using that [of ?m] by simp
qed

text \<open>The loop: each pointer of the table points to its string.\<close>

definition arg_placed :: "addr \<Rightarrow> (nat \<Rightarrow> addr) \<Rightarrow> u8 list list \<Rightarrow> nat \<Rightarrow> bytes \<Rightarrow> bool" where
  "arg_placed to pa args k m \<longleftrightarrow> load32 m (pa (12 + 4 * k)) = to + of_nat (arg_off args k)
     \<and> (\<forall>l < length (args ! k) + 1. m (pa (arg_off args k + l)) = (args ! k @ [0]) ! l)"

lemma arg_placed_cong:
  assumes W: "arg_window D to pa s0 s" and F: "args_fit args" and k: "k < length args" and P: "arg_placed to pa args k m"
    and e: "\<And>j. j \<in> {12 + 4 * k ..< 16 + 4 * k} \<union> {arg_off args k ..< arg_off args (Suc k)} \<Longrightarrow> m' (pa j) = m (pa j)"
  shows "arg_placed to pa args k m'"
proof -
  have tb: "12 + 4 * k + 4 \<le> 4096" using F k by (simp add: args_fit_def)
  have rg: "region (pa (12 + 4 * k)) 4 = pa ` {12 + 4 * k ..< 16 + 4 * k}" using arg_window_run(1) [OF W tb] by (simp add: add.commute)
  have "load32 m' (pa (12 + 4 * k)) = load32 m (pa (12 + 4 * k))"
    by (intro load32_cong) (use e in \<open>auto simp: rg\<close>)
  moreover have "m' (pa (arg_off args k + l)) = m (pa (arg_off args k + l))" if "l < length (args ! k) + 1" for l
    using that arg_off_Suc [OF k] by (intro e) simp
  ultimately show ?thesis using P by (simp add: arg_placed_def)
qed

lemma copy_arg_strings_effect:
  assumes "exec_inv env s0 D s" "arg_window D to pa s0 s" "page_aligned (cr3_reg s0)"
    and "argv_source env s0 argv args" "args_fit args" "i + n = length args"
  shows "\<exists>m. copy_arg_strings n i (pa 12) (to + of_nat (arg_off args i)) D argv s = Some (Inr ((), s\<lparr>mem := m\<rparr>))
    \<and> (\<forall>k. i \<le> k \<and> k < length args \<longrightarrow> arg_placed to pa args k m)
    \<and> (\<forall>x. x \<notin> pa ` ({12 + 4 * i ..< 12 + 4 * length args} \<union> {arg_off args i ..< arg_off args (length args)}) \<longrightarrow> m x = mem s x)"
  using assms
proof (induction n arbitrary: i s)
  case 0
  then show ?case by (intro exI [of _ "mem s"]) auto
next
  case (Suc n)
  have i: "i < length args" using Suc.prems(6) by simp
  obtain m where m: "\<And>n. copy_arg_strings (Suc n) i (pa 12) (to + of_nat (arg_off args i)) D argv s =
      copy_arg_strings n (Suc i) (pa 12) (to + of_nat (arg_off args (Suc i))) D argv (s\<lparr>mem := m\<rparr>)"
    "load32 m (pa (12 + 4 * i)) = to + of_nat (arg_off args i)"
    "\<forall>l < length (args ! i) + 1. m (pa (arg_off args i + l)) = (args ! i @ [0]) ! l"
    "\<forall>x. x \<notin> pa ` ({12 + 4 * i ..< 16 + 4 * i} \<union> {arg_off args i ..< arg_off args (Suc i)}) \<longrightarrow> m x = mem s x"
    using copy_arg_round [OF Suc.prems(1-5) i] by blast
  have fit: "12 + 4 * length args \<le> 4096" "arg_off args (length args) \<le> 16 * 4096" using Suc.prems(5) by (simp_all add: args_fit_def)
  have up: "arg_off args i \<le> arg_off args (Suc i)" "arg_off args (Suc i) \<le> arg_off args (length args)"
    using arg_off_mono [of i "Suc i" args] arg_off_mono [of "Suc i" "length args" args] i by simp_all
  note low = arg_off_low [of args]
  let ?A = "{12 + 4 * i ..< 16 + 4 * i} \<union> {arg_off args i ..< arg_off args (Suc i)}"
  have A: "?A \<subseteq> {..<16 * 4096}" using fit up i by auto
  have nA: "m x = mem s x" if "x \<notin> pa ` ?A" for x using m(4) that by blast
  note E = exec_arg_write [OF Suc.prems(1,2) A nA]
  have ni: "Suc i + n = length args" using Suc.prems(6) by simp
  obtain m2 where r: "copy_arg_strings n (Suc i) (pa 12) (to + of_nat (arg_off args (Suc i))) D argv (s\<lparr>mem := m\<rparr>) = Some (Inr ((), s\<lparr>mem := m2\<rparr>))"
    "\<forall>k. Suc i \<le> k \<and> k < length args \<longrightarrow> arg_placed to pa args k m2"
    "\<forall>x. x \<notin> pa ` ({12 + 4 * Suc i ..< 12 + 4 * length args} \<union> {arg_off args (Suc i) ..< arg_off args (length args)}) \<longrightarrow> m2 x = m x"
    using Suc.IH [OF E(1,2) Suc.prems(3-5) ni] by auto
  let ?R = "{12 + 4 * Suc i ..< 12 + 4 * length args} \<union> {arg_off args (Suc i) ..< arg_off args (length args)}"
  have R: "?R \<subseteq> {..<16 * 4096}" using fit by auto
  have "arg_placed to pa args i m2"
  proof (rule arg_placed_cong [OF Suc.prems(2,5) i])
    show "arg_placed to pa args i m" using m(2,3) by (simp add: arg_placed_def)
    show "m2 (pa j) = m (pa j)" if "j \<in> ?A" for j
    proof -
      have "j < 16 * 4096" "j \<notin> ?R" using that A low [of i] low [of "Suc i"] i up by auto
      from arg_window_inj [OF Suc.prems(2) R this] show ?thesis using r(3) by blast
    qed
  qed
  then have P: "\<forall>k. i \<le> k \<and> k < length args \<longrightarrow> arg_placed to pa args k m2" using r(2) by (metis Suc_leI le_neq_implies_less)
  have "m2 x = mem s x" if "x \<notin> pa ` ({12 + 4 * i ..< 12 + 4 * length args} \<union> {arg_off args i ..< arg_off args (length args)})" for x
  proof -
    have "?R \<subseteq> {12 + 4 * i ..< 12 + 4 * length args} \<union> {arg_off args i ..< arg_off args (length args)}"
      "?A \<subseteq> {12 + 4 * i ..< 12 + 4 * length args} \<union> {arg_off args i ..< arg_off args (length args)}" using up i by auto
    then have "x \<notin> pa ` ?R" "x \<notin> pa ` ?A" using that by blast+
    then show ?thesis using r(3) nA by simp
  qed
  then show ?case using m(1) r(1) P by (intro exI [of _ m2]) simp
qed

text \<open>Memory as a program sees it in the address space of a directory.\<close>

definition ubytes :: "bytes \<Rightarrow> addr \<Rightarrow> bytes" where
  "ubytes m dir a = (case translate m dir a of None \<Rightarrow> 0 | Some p \<Rightarrow> m p)"

text \<open>The arguments of a program: their number, the address of the table of pointers, and the strings it points to.\<close>

definition args_at :: "addr \<Rightarrow> u8 list list \<Rightarrow> bytes \<Rightarrow> bool" where
  "args_at to args v \<longleftrightarrow> load32 v (to + 4) = of_nat (length args) \<and> load32 v (to + 8) = to + task_args_size
     \<and> (\<forall>k < length args. cstring v (load32 v (to + task_args_size + 4 * of_nat k)) (args ! k))"

lemma arg_window_keep:
  assumes "arg_window D to pa s0 s" "dir_pages (mem s') D = dir_pages (mem s) D"
    "\<And>a. translate (mem s') D a = translate (mem s) D a" "paddr_alloc s' = paddr_alloc s"
  shows "arg_window D to pa s0 s'"
proof -
  have "window D to (16 * 4096) pa s0 s" using assms(1) unfolding arg_window_def by (rule conjunct1)
  then have "window D to (16 * 4096) pa s0 s'" using assms(2-4) by (simp add: window_def taken_def)
  then show ?thesis using assms(1) unfolding arg_window_def by blast
qed

text \<open>The header of the arguments: their number and the address of the table of pointers, in a variable of \<^verbatim>\<open>copy_args\<close>.\<close>

lemma args_header:
  assumes m: "m = store32 (task_args_at env + 8) v (store32 (task_args_at env + 4) n m')"
  shows "load32 m (task_args_at env + 4) = n" and "load32 m (task_args_at env + 8) = v" and "x \<notin> buffers env \<Longrightarrow> m x = m' x"
proof -
  let ?ta = "task_args_at env"
  have r4: "region (?ta + 4) 4 \<subseteq> region ?ta 12" "region (?ta + 8) 4 \<subseteq> region ?ta 12"
    using region_sub [of 4 4 12 ?ta] region_sub [of 8 4 12 ?ta] by simp_all
  have tb: "region ?ta 12 \<subseteq> buffers env" by (auto simp: buffers_def)
  show "m x = m' x" if "x \<notin> buffers env"
  proof -
    have "x \<notin> region (?ta + 4) 4" "x \<notin> region (?ta + 8) 4" using that r4 tb by blast+
    then show ?thesis by (simp add: m store32_other)
  qed
  show "load32 m (?ta + 8) = v" unfolding m by (rule load32_store32)
  have "region (?ta + of_nat 4) 4 \<inter> region (?ta + of_nat 8) 4 = {}"
  proof (rule ccontr)
    assume "region (?ta + of_nat 4) 4 \<inter> region (?ta + of_nat 8) 4 \<noteq> {}"
    then obtain i j where "i < 4" "j < 4" "?ta + of_nat 4 + of_nat i = ?ta + of_nat 8 + of_nat j" by (auto simp: region_def)
    then have "(of_nat (4 + i) :: u32) = of_nat (8 + j)" "4 + i < 2 ^ 32" "8 + j < 2 ^ 32" by simp_all
    then have "4 + i = 8 + j" by (metis unat_of_nat_u32)
    then show False using \<open>i < 4\<close> by simp
  qed
  then have "load32 m (?ta + 4) = load32 (store32 (?ta + 4) n m') (?ta + 4)"
    unfolding m by (intro load32_cong store32_other) auto
  then show "load32 m (?ta + 4) = n" by simp
qed

text \<open>It is copied to the start of the area.\<close>

lemma copy_args_header:
  assumes I: "exec_inv env s0 D s" and B: "exec_buffers env s0" and W: "arg_window D to pa s0 s" and cr: "page_aligned (cr3_reg s0)"
  obtains m where "memory_copy_uvm_data to D (task_args_at env) 12 s = Inr (0, s\<lparr>mem := m\<rparr>)"
    "\<forall>j \<le> 8. load32 m (pa j) = load32 (mem s) (task_args_at env + of_nat j)"
    "\<forall>x. x \<notin> pa ` {0..<12} \<longrightarrow> m x = mem s x"
proof -
  let ?ta = "task_args_at env"
  have uta: "unat (?ta + of_nat k) = unat ?ta + k" "unat ?ta + 12 \<le> 2 ^ 31" "?ta \<noteq> 0" if "k < 12" for k
    using B that by (auto simp: exec_buffers_def exec_linked_def intro!: unat_add_lt)
  have src: "vload s (?ta + of_nat k) = Some (mem s (?ta + of_nat k)) \<and> read_pages s (?ta + of_nat k) \<inter> page_no ` avail (paddr_alloc s0) = {}"
    if "k < unat (12 :: u32)" for k
  proof -
    have k: "k < 12" using that by simp
    have b: "?ta + of_nat k \<in> buffers env" using in_regionI [OF k, of ?ta] by (simp add: buffers_def)
    have "?ta + of_nat k < MEMORY_TASK_BASE" using uta [OF k] k by (simp add: word_less_nat_alt MEMORY_TASK_BASE_def)
    then show ?thesis using buffers_apart(3) [OF I B b] by (simp add: vload_def read_pages_def)
  qed
  have w: "window D to (16 * 4096) pa s0 s" using W unfolding arg_window_def by (rule conjunct1)
  have ln: "0 + unat (12 :: u32) \<le> 16 * 4096" "?ta \<noteq> 0" "unat ?ta + unat (12 :: u32) \<le> 2 ^ 32" using uta [of 0] by simp_all
  obtain m where c: "memory_copy_uvm_data (to + of_nat 0) D ?ta 12 s = Inr (0, s\<lparr>mem := m\<rparr>)"
    "\<forall>i < unat (12 :: u32). m (pa (0 + i)) = mem s (?ta + of_nat i)" "\<forall>x. x \<notin> pa ` {0 ..< 0 + unat (12 :: u32)} \<longrightarrow> m x = mem s x"
    by (rule exec_copy [OF I w cr ln src])
  have "load32 m (pa j) = load32 (mem s) (?ta + of_nat j)" if j: "j \<le> 8" for j
  proof -
    have j12: "j + 4 \<le> 12" using j by simp
    have "load32 m (pa 0 + of_nat j) = load32 (mem s) (?ta + of_nat j)"
    proof (rule load32_shift [OF _ j12])
      show "m (pa 0 + of_nat i) = mem s (?ta + of_nat i)" if "i < 12" for i
        using c(2) that arg_window_run(2) [OF W, of 0 12 i] by simp
    qed
    then show ?thesis using arg_window_run(2) [OF W, of 0 12 j] j by simp
  qed
  then show thesis using that [of m] c by simp
qed

lemma copy_args_effect:
  assumes I: "exec_inv env s0 D s" and B: "exec_buffers env s0" and W: "arg_window D to pa s0 s" and cr: "page_aligned (cr3_reg s0)"
    and A: "argv_source env s0 argv args" and F: "args_fit args"
  obtains s' where "copy_args env to D (of_nat (length args)) argv s = Some (Inr (0, s'))" "exec_inv env s0 D s'" "arg_window D to pa s0 s'"
    "entry (mem s') D = entry (mem s) D" "dir_pages (mem s') D = dir_pages (mem s) D" "paddr_alloc s' = paddr_alloc s"
    "load32 (mem s') (pa 4) = of_nat (length args)" "load32 (mem s') (pa 8) = to + task_args_size"
    "\<forall>k < length args. arg_placed to pa args k (mem s')"
    "\<forall>x. x \<notin> buffers env \<union> pa ` {..<16 * 4096} \<longrightarrow> mem s' x = mem s x"
proof -
  let ?n = "length args" and ?ta = "task_args_at env"
  have fit: "12 + 4 * ?n \<le> 4096" "arg_off args ?n \<le> 16 * 4096" using F by (simp_all add: args_fit_def)
  define m0 where "m0 = store32 (?ta + 8) (to + task_args_size) (store32 (?ta + 4) (of_nat ?n) (mem s))"
  let ?s = "s\<lparr>mem := m0\<rparr>"
  note h = args_header [OF m0_def]
  note E0 = exec_buffer_write [OF I B, where m' = m0 and t = "temp_pos s" and l = "io_log s", OF h(3)]
  have I0: "exec_inv env s0 D ?s" using E0(1) by simp
  have e0: "entry m0 D = entry (mem s) D" "dir_pages m0 D = dir_pages (mem s) D" using E0(2) by (simp_all add: buffered_def)
  have W0: "arg_window D to pa s0 ?s" by (rule arg_window_keep [OF W]) (simp_all add: e0 translate_eq)
  have wf: "dir_wf (mem ?s) D (paddr_alloc ?s)" using I0 by (simp add: exec_inv_def vm_ok_def)
  have w0: "window D to (16 * 4096) pa s0 ?s" using W0 unfolding arg_window_def by (rule conjunct1)
  then have p12: "translate (mem ?s) D (to + of_nat 12) = Some (pa 12)" "pa 12 \<noteq> 0" by (simp_all add: window_def del: of_nat_numeral)
  then have gp: "memory_get_paddr D (to + 12) ?s = Inr (pa 12, ?s)" using memory_get_paddr_mapped [OF wf, of "to + of_nat 12" "pa 12"] by simp
  have ni: "0 + ?n = length args" by simp
  let ?A = "{12 + 4 * 0 ..< 12 + 4 * ?n} \<union> {arg_off args 0 ..< arg_off args ?n}"
  obtain m where m: "copy_arg_strings ?n 0 (pa 12) (to + of_nat (arg_off args 0)) D argv ?s = Some (Inr ((), ?s\<lparr>mem := m\<rparr>))"
    "\<forall>k. 0 \<le> k \<and> k < length args \<longrightarrow> arg_placed to pa args k m" "\<forall>x. x \<notin> pa ` ?A \<longrightarrow> m x = mem ?s x"
    using copy_arg_strings_effect [OF I0 W0 cr A F ni] by blast
  let ?s1 = "s\<lparr>mem := m\<rparr>"
  have A1: "?A \<subseteq> {..<16 * 4096}" using fit by auto
  have w1: "m x = mem ?s x" if "x \<notin> pa ` ?A" for x using m(3) that by blast
  note E1 = exec_arg_write [OF I0 W0 A1 w1]
  have I1: "exec_inv env s0 D ?s1" and W1: "arg_window D to pa s0 ?s1" using E1(1,2) by simp_all
  have bm: "load32 m (?ta + of_nat j) = load32 m0 (?ta + of_nat j)" if "j \<le> 8" for j
  proof (rule load32_cong)
    fix x assume x: "x \<in> region (?ta + of_nat j) 4"
    have "region (?ta + of_nat j) 4 \<subseteq> region ?ta 12" using that by (intro region_sub) simp
    then have "x \<in> buffers env" using x by (auto simp: buffers_def)
    then have "page_no x \<notin> page_no ` avail (paddr_alloc s0)" using B by (auto simp: exec_buffers_def)
    moreover have "page_no y \<in> page_no ` avail (paddr_alloc s0)" if y: "y \<in> pa ` ?A" for y
    proof -
      obtain i where "i < 16 * 4096" "y = pa i" using y A1 by blast
      then have "page_no y \<in> page_no ` taken s0 ?s" using w0 unfolding window_def by blast
      then show ?thesis by (auto simp: taken_def)
    qed
    ultimately have "x \<notin> pa ` ?A" by blast
    then show "m x = m0 x" using w1 by simp
  qed
  obtain m' where c: "memory_copy_uvm_data to D ?ta 12 ?s1 = Inr (0, ?s1\<lparr>mem := m'\<rparr>)"
    "\<forall>j \<le> 8. load32 m' (pa j) = load32 (mem ?s1) (?ta + of_nat j)" "\<forall>x. x \<notin> pa ` {0..<12} \<longrightarrow> m' x = mem ?s1 x"
    by (rule copy_args_header [OF I1 B W1 cr])
  let ?s2 = "s\<lparr>mem := m'\<rparr>"
  have A2: "{0..<12} \<subseteq> {..<16 * 4096 :: nat}" by auto
  have w2: "m' x = mem ?s1 x" if "x \<notin> pa ` {0..<12}" for x using c(3) that by simp
  note E2 = exec_arg_write [OF I1 W1 A2 w2]
  have "?n < 2 ^ 31" using fit(1) by simp
  then have sc: "nat (sint (of_nat ?n :: u32)) = ?n" by (simp add: signed_of_nat signed_take_bit_int_eq_self)
  have dl: "to + task_args_size + 4 * of_nat ?n = to + of_nat (arg_off args 0)" by (simp add: arg_off_def)
  have e: "copy_args env to D (of_nat ?n) argv s = Some (Inr (0, ?s2))"
    using gp p12(2) m(1) c(1) unfolding copy_args_def store_word_def
    by (simp add: Let_def bindO_def sc dl m0_def [symmetric] del: of_nat_add)
  have P: "arg_placed to pa args k m'" if k: "k < ?n" for k
  proof (rule arg_placed_cong [OF W F k])
    show "arg_placed to pa args k m" using m(2) k by simp
    show "m' (pa j) = m (pa j)" if "j \<in> {12 + 4 * k ..< 16 + 4 * k} \<union> {arg_off args k ..< arg_off args (Suc k)}" for j
    proof -
      have "arg_off args (Suc k) \<le> 16 * 4096" using arg_off_mono [of "Suc k" ?n args] k fit by simp
      then have "j < 16 * 4096" "j \<notin> {0..<12}" using that arg_off_low [of args k] k fit by auto
      from arg_window_inj [OF W A2 this] show ?thesis using w2 by simp
    qed
  qed
  have O: "mem ?s2 x = mem s x" if "x \<notin> buffers env \<union> pa ` {..<16 * 4096}" for x
  proof -
    have "x \<notin> pa ` {0..<12}" "x \<notin> pa ` ?A" using that A1 A2 by blast+
    then show ?thesis using w2 w1 h(3) that by simp
  qed
  have w: "load32 m' (pa 4) = of_nat ?n" "load32 m' (pa 8) = to + task_args_size"
    using c(2) bm [of 4] bm [of 8] h(1,2) by simp_all
  have e1: "entry m D = entry (mem s) D" "dir_pages m D = dir_pages (mem s) D" using E1(3,4) e0 by simp_all
  show thesis by (rule that [OF e]) (use E2 e1 w P O in simp_all)
qed

text \<open>The same in the view of the program.\<close>

lemma window_bytes: "window D to n pa s0 s \<Longrightarrow> j < n \<Longrightarrow> ubytes (mem s) D (to + of_nat j) = mem s (pa j)"
  by (simp add: window_def ubytes_def)

lemma args_at_window:
  assumes W: "arg_window D to pa s0 s" and F: "args_fit args" and z: "\<forall>k < length args. 0 \<notin> set (args ! k)"
    and h: "load32 (mem s) (pa 4) = of_nat (length args)" "load32 (mem s) (pa 8) = to + task_args_size"
    and P: "\<forall>k < length args. arg_placed to pa args k (mem s)"
  shows "args_at to args (ubytes (mem s) D)"
proof -
  let ?v = "ubytes (mem s) D"
  have w: "window D to (16 * 4096) pa s0 s" using W by (simp add: arg_window_def)
  note vb = window_bytes [OF w]
  have word: "load32 ?v (to + of_nat j) = load32 (mem s) (pa j)" if "j + 4 \<le> 4096" for j
  proof -
    have "load32 ?v (to + of_nat j + of_nat 0) = load32 (mem s) (pa j + of_nat 0)"
    proof (rule load32_shift [where l = 4])
      show "?v (to + of_nat j + of_nat i) = mem s (pa j + of_nat i)" if "i < 4" for i
        using vb [of "j + i"] \<open>i < 4\<close> \<open>j + 4 \<le> 4096\<close> arg_window_run(2) [OF W \<open>j + 4 \<le> 4096\<close> \<open>i < 4\<close>] by (simp add: add.assoc)
    qed simp
    then show ?thesis by simp
  qed
  have fit: "12 + 4 * length args \<le> 4096" "arg_off args (length args) \<le> 16 * 4096" using F by (simp_all add: args_fit_def)
  have s: "cstring ?v (load32 ?v (to + task_args_size + 4 * of_nat k)) (args ! k)" if k: "k < length args" for k
  proof -
    have "to + task_args_size + 4 * of_nat k = to + of_nat (12 + 4 * k)" by simp
    then have p: "load32 ?v (to + task_args_size + 4 * of_nat k) = to + of_nat (arg_off args k)"
      using word [of "12 + 4 * k"] P k fit(1) by (simp add: arg_placed_def add.assoc)
    have tp: "arg_off args k + length (args ! k) + 1 \<le> 16 * 4096"
      using arg_off_mono [of "Suc k" "length args" args] arg_off_Suc [OF k] k fit by simp
    have b: "?v (to + of_nat (arg_off args k) + of_nat l) = (args ! k @ [0]) ! l" if "l < length (args ! k) + 1" for l
    proof -
      have "?v (to + of_nat (arg_off args k + l)) = mem s (pa (arg_off args k + l))" using that tp by (intro vb) simp
      then show ?thesis using P k that by (simp add: arg_placed_def add.assoc)
    qed
    have "load_bytes ?v (to + of_nat (arg_off args k)) (length (args ! k)) = args ! k"
      by (rule nth_equalityI) (use b in \<open>simp_all add: nth_append\<close>)
    then show ?thesis unfolding p cstring_def using b [of "length (args ! k)"] z k by simp
  qed
  show ?thesis unfolding args_at_def using word [of 4] word [of 8] h s by simp
qed

end
