(* ===== verification/Exec.thy ===== *)
theory Exec
  imports Args
begin

text \<open>
  \<^verbatim>\<open>sys_execve\<close> of \<^verbatim>\<open>source/kernel/core/task.c\<close> as a whole (the definition is in Task): its stages one after the
  other, the frame for the return to user mode, what the old directory leaves behind, and the
  theorems on what a program finds when it starts, on the frames that are then free, and on a file that is not a program.
\<close>

subsection \<open>The frame of the system call\<close>

lemma word_aligned_add: "word_aligned a \<Longrightarrow> 4 dvd unat b \<Longrightarrow> word_aligned (a + b)"
  by (simp add: word_aligned_mod unat_word_ariths dvd_mod_iff)

lemma exec_frame_other: "x \<notin> region a 88 \<Longrightarrow> exec_frame a ent esp m x = m x"
proof -
  assume x: "x \<notin> region a 88"
  have "x \<notin> region (a + of_nat k) 4" if "k + 4 \<le> 88" for k using region_sub [OF that, of a] x by blast
  from this [of 0] this [of 20] this [of 24] this [of 28] this [of 36] this [of 40] this [of 44] this [of 48] this [of 52] this [of 80]
  show ?thesis by (simp add: exec_frame_def store32_other)
qed

text \<open>All registers are cleared except for the segments; the program starts at its entry with its stack.\<close>

definition exec_regs :: "u32 \<Rightarrow> u32 \<Rightarrow> syscall_frame_t \<Rightarrow> syscall_frame_t" where
  "exec_regs ent esp fr = fr\<lparr>sf_eip := ent, sf_eax := 0, sf_ebx := 0, sf_ecx := 0, sf_edx := 0, sf_esi := 0, sf_edi := 0, sf_ebp := 0,
     sf_eflags := EFLAGS_DEFAULT OR EFLAGS_IF, sf_esp := esp\<rparr>"

lemma exec_frame_regs:
  assumes "word_aligned a"
  shows "read_frame (exec_frame a ent esp m) a = exec_regs ent esp (read_frame m a)"
proof -
  have al: "word_aligned (a + k)" if "4 dvd unat k" for k using word_aligned_add [OF assms that] .
  show ?thesis
    by (simp add: exec_frame_def read_frame_def exec_regs_def Let_def load32_store32_if al assms add.assoc)
qed

subsection \<open>Name and number of arguments\<close>

lemma strings_count_loop_eq:
  assumes "\<And>i. i < n \<Longrightarrow> load32 m (a + 4 * of_nat i) \<noteq> 0" "load32 m (a + 4 * of_nat n) = 0"
  shows "strings_count_loop a c m = Some (c + of_nat n)"
  using assms
proof (induction n arbitrary: a c)
  case 0
  then show ?case by (subst strings_count_loop.simps) simp
next
  case (Suc n)
  have sh: "a + 4 + 4 * of_nat i = a + 4 * of_nat (Suc i)" for i by (simp add: algebra_simps)
  have "strings_count_loop (a + 4) (c + 1) m = Some (c + 1 + of_nat n)"
    by (rule Suc.IH) (use Suc.prems in \<open>simp_all only: sh Suc_less_eq not_False_eq_True\<close>)
  moreover have "load32 m a \<noteq> 0" using Suc.prems(1) [of 0] by simp
  ultimately show ?case by (subst strings_count_loop.simps) simp
qed

lemma exec_argc_eq:
  assumes I: "exec_inv env s0 D s" and cr: "page_aligned (cr3_reg s0)" and A: "argv_source env s0 argv args" and n: "length args < 2 ^ 30"
  shows "exec_argc argv s = Some (Inr (of_nat (length args), s))"
proof -
  let ?n = "length args"
  have w: "load32 (vbytes s) (argv + 4 * of_nat i) = load32 (vbytes s0) (argv + 4 * of_nat i)" if "i \<le> ?n" for i
    by (rule argv_word(2) [OF I cr A that])
  have "strings_count_loop argv 0 (vbytes s) = Some (0 + of_nat ?n)"
  proof (rule strings_count_loop_eq)
    show "load32 (vbytes s) (argv + 4 * of_nat i) \<noteq> 0" if "i < ?n" for i
      using A w [of i] that by (simp add: argv_source_def string_source_def)
    show "load32 (vbytes s) (argv + 4 * of_nat ?n) = 0" using A w [of ?n] by (simp add: argv_source_def)
  qed
  then have c: "strings_count argv (vbytes s) = Some (of_nat ?n)" using A by (simp add: strings_count_def argv_source_def)
  have "quiet env s0 x" if x: "x \<in> region argv (4 * (?n + 1))" for x
  proof -
    obtain j where j: "j < 4 * (?n + 1)" "x = argv + of_nat j" using x unfolding region_def by blast
    have "argv + of_nat j = argv + 4 * of_nat (j div 4) + of_nat (j mod 4)"
    proof -
      have "(of_nat j :: u32) = of_nat (4 * (j div 4) + j mod 4)" by simp
      then show ?thesis by (simp only: of_nat_add of_nat_mult of_nat_numeral add.assoc)
    qed
    then have "x \<in> region (argv + 4 * of_nat (j div 4)) 4" using j(2) in_regionI [of "j mod 4" 4 "argv + 4 * of_nat (j div 4)"] by (simp add: add.assoc)
    moreover have "j div 4 \<le> ?n" using j(1) by (simp add: less_mult_imp_div_less less_Suc_eq_le [symmetric] mult.commute)
    ultimately show ?thesis using A unfolding argv_source_def by blast
  qed
  then have v: "vmapped s argv (4 * (?n + 1))" by (intro vmapped_quiet [OF I cr]) blast
  have "unat (of_nat ?n :: u32) = ?n" using n by (intro unat_of_nat_u32) simp
  then show ?thesis using c v by (simp add: exec_argc_def)
qed

lemma exec_name_eq:
  assumes c: "cstring (vbytes s) name (47 # path)" and nz: "name \<noteq> 0" "unat name + length path + 2 \<le> 2 ^ 32"
    and v: "\<forall>x \<in> region name (length path + 2). vload s x \<noteq> None"
  obtains f where "get_file_name name (vbytes s) = Some f"
    "exec_name task name s = Some (Inr ((), upd_task task (set_task_name task f (vbytes s)) s))"
proof -
  let ?xs = "47 # path"
  have l: "unat name + length ?xs < 2 ^ 32" using nz(2) by simp
  obtain k where k: "k \<le> length ?xs" "get_file_name name (vbytes s) = Some (name + of_nat k)" "\<forall>c \<in> set (drop k ?xs). \<not> is_sep c"
    using get_file_name_behind_separator [OF c nz(1) l] by blast
  have "k \<noteq> 0"
  proof
    assume "k = 0"
    then show False using k(3) by (simp add: is_sep_def)
  qed
  then obtain j where j: "k = Suc j" by (cases k) auto
  let ?f = "name + of_nat k" and ?e = "name + of_nat (length ?xs)"
  have fe: "file_name_end name (vbytes s) = Some ?e" by (rule file_name_end_eq [OF c])
  have f1: "?f - 1 = name + of_nat j" using j by simp
  have ue: "unat (?e - ?f) = length ?xs - k"
  proof -
    have "?e - ?f = of_nat (length ?xs - k)" using k(1) by (simp add: of_nat_diff)
    moreover have "length ?xs - k < 2 ^ 32" using l by linarith
    ultimately show ?thesis by (metis unat_of_nat_u32)
  qed
  have "region (name + of_nat j) (length ?xs - k + 2) \<subseteq> region name (length path + 2)"
    using k(1) j by (intro region_sub) simp
  then have vl: "vload s (name + of_nat j + of_nat i) \<noteq> None" if "i < length ?xs - k + 2" for i
    using v in_regionI [OF that, of "name + of_nat j"] by blast
  have "vmapped s (?f - 1) (unat (?e - ?f) + 2)" unfolding f1 ue vmapped_def list_all_iff set_upt using vl by auto
  then show thesis using that [OF k(2)] fe k(2) by (simp add: exec_name_def)
qed

text \<open>What depends on memory, the allocator and the page directory only does not change when a task is written.\<close>

lemma upd_task_same [simp]:
  "quiet env (upd_task t f s) a = quiet env s a" "vbytes (upd_task t f s) = vbytes s" "vload (upd_task t f s) a = vload s a"
  "exec_buffers env (upd_task t f s) = exec_buffers env s"
  by (simp_all add: quiet_def vbytes_def vload_def read_pages_def exec_buffers_def exec_linked_def upd_task_def fun_eq_iff)

lemma upd_task_sources [simp]:
  "string_source env (upd_task t f s) a xs = string_source env s a xs" "argv_source env (upd_task t f s) argv args = argv_source env s argv args"
  by (simp_all add: string_source_def argv_source_def)

lemma page_no_avail:
  assumes "alloc_wf al" "p \<in> frames al" "page_no p \<in> page_no ` avail al"
  shows "p \<in> avail al"
proof -
  obtain q where q: "q \<in> avail al" "page_no q = page_no p" using assms(3) by auto
  have "page_aligned q" "page_aligned p" using avail_aligned [OF assms(1) q(1)] frames_valid(1) [OF assms(1,2)] by simp_all
  then have "q = p" using q(2) page_no_inj by blast
  then show ?thesis using q(1) by simp
qed

text \<open>What is loaded stays loaded.\<close>

lemma new_pages_later:
  assumes NP: "new_pages D va N f s0 s" and I: "exec_inv env s0 D s" and L: "later env D s s'"
  shows "new_pages D va N f s0 s'"
proof -
  have aw: "alloc_wf (paddr_alloc s)" and fr: "frames (paddr_alloc s) = frames (paddr_alloc s0)"
    using I by (simp_all add: exec_inv_def vm_ok_def)
  have "page_no (f k) \<notin> dir_pages (mem s') D" if k: "k < N" for k
  proof -
    have f: "f k \<in> taken s0 s" "page_no (f k) \<notin> dir_pages (mem s) D" using NP k by (simp_all add: new_pages_def)
    then have "f k \<in> frames (paddr_alloc s)" "f k \<notin> avail (paddr_alloc s)"
      using avail_frames [of "paddr_alloc s0"] unfolding fr by (auto simp: taken_def)
    then have "page_no (f k) \<notin> page_no ` avail (paddr_alloc s)" using page_no_avail [OF aw] by blast
    then show ?thesis using f(2) L unfolding later_def by blast
  qed
  moreover have "taken s0 s \<subseteq> taken s0 s'" using L by (auto simp: taken_def later_def)
  moreover have "translate (mem s') D a = translate (mem s) D a" if "translate (mem s) D a \<noteq> None" for a
    using L that by (auto simp: translate_eq later_def)
  ultimately show ?thesis using NP by (auto simp: new_pages_def)
qed

lemma new_pages_bytes_later:
  assumes NP: "new_pages D va N f s0 s" and I: "exec_inv env s0 D s" and B: "exec_buffers env s0" and L: "later env D s s'" and i: "i < N * 4096"
  shows "mem s' (placed_at f i) = mem s (placed_at f i)"
proof -
  have aw: "alloc_wf (paddr_alloc s)" and fr: "frames (paddr_alloc s) = frames (paddr_alloc s0)"
    using I by (simp_all add: exec_inv_def vm_ok_def)
  have k: "i div 4096 < N" using i by (simp add: less_mult_imp_div_less)
  have f: "f (i div 4096) \<in> taken s0 s" "page_aligned (f (i div 4096))" using NP k by (simp_all add: new_pages_def)
  then have "f (i div 4096) \<in> frames (paddr_alloc s)" "f (i div 4096) \<notin> avail (paddr_alloc s)"
    using avail_frames [of "paddr_alloc s0"] unfolding fr by (auto simp: taken_def)
  then have "page_no (f (i div 4096)) \<notin> page_no ` avail (paddr_alloc s)" using page_no_avail [OF aw] by blast
  then have "page_no (placed_at f i) \<notin> dir_pages (mem s) D \<union> page_no ` avail (paddr_alloc s)"
    using new_pages_at(3) [OF NP i] placed_at_page(1) [of f i, OF f(2)] by simp
  then show ?thesis using L buffers_new_pages [OF B NP i] unfolding later_def by blast
qed

lemma segment_later:
  assumes "segment_at disk ph D f s0 s" "exec_inv env s0 D s" "exec_buffers env s0" "later env D s s'"
  shows "segment_at disk ph D f s0 s'"
proof -
  have np: "new_pages D (p_vaddr ph) (seg_pages ph) f s0 s" using assms(1) by (simp add: segment_at_def)
  have "mem s' (placed_at f i) = mem s (placed_at f i)" if "i < seg_pages ph * 4096" for i
    by (rule new_pages_bytes_later [OF np assms(2-4) that])
  then show ?thesis using assms(1) new_pages_later [OF np assms(2,4)] by (simp add: segment_at_def)
qed

text \<open>The stack.\<close>

definition stack_top :: addr where
  "stack_top = MEM_TASK_STACK_TOP - MEM_TASK_ARG_SIZE"

abbreviation stack_pages :: nat where "stack_pages \<equiv> 500"
abbreviation arg_at :: "(nat \<Rightarrow> addr) \<Rightarrow> nat \<Rightarrow> addr" where "arg_at g j \<equiv> placed_at g (484 * 4096 + j)"

lemma stack_consts:
  "MEM_TASK_STACK_TOP - MEM_TASK_STACK_SIZE = stack_bottom" "MEM_TASK_STACK_TOP - MEM_TASK_ARG_SIZE = stack_top"
  "unat MEM_TASK_STACK_SIZE + 4095 < 2 ^ 32" "stack_pages = (unat MEM_TASK_STACK_SIZE + 4095) div 4096"
  "unat stack_bottom + stack_pages * 4096 \<le> 2 ^ 32" "MEMORY_TASK_BASE \<le> stack_bottom"
  "stack_bottom + of_nat (484 * 4096 + j) = stack_top + of_nat j" "page_tables (page_no stack_bottom) stack_pages = {895}"
  by (simp_all add: stack_bottom_def stack_top_def MEM_TASK_STACK_TOP_def MEM_TASK_STACK_SIZE_def MEM_TASK_ARG_SIZE_def MEM_PAGE_SIZE_def
      MEMORY_TASK_BASE_def page_tables_def page_no_def)

lemma stack_arg_window:
  assumes "new_pages D stack_bottom stack_pages g s0 s"
  shows "arg_window D stack_top (arg_at g) s0 s"
proof -
  have j: "484 * 4096 + j < stack_pages * 4096" if "j < 16 * 4096" for j using that by simp
  have "inj_on (placed_at g) {..<stack_pages * 4096}" by (rule new_pages_inj [OF assms])
  then have "inj_on (arg_at g) {..<16 * 4096}"
  proof (intro inj_onI)
    fix x y assume i: "inj_on (placed_at g) {..<stack_pages * 4096}" "x \<in> {..<16 * 4096}" "y \<in> {..<16 * 4096}" "arg_at g x = arg_at g y"
    from inj_onD [OF i(1,4)] show "x = y" using i(2,3) by simp
  qed
  moreover have "translate (mem s) D (stack_top + of_nat j) = Some (arg_at g j) \<and> arg_at g j \<noteq> 0
      \<and> page_no (arg_at g j) \<notin> dir_pages (mem s) D \<and> page_no (arg_at g j) \<in> page_no ` taken s0 s" if "j < 16 * 4096" for j
    using new_pages_at [OF assms j [OF that]] by (simp only: stack_consts(7)) simp
  moreover have "arg_at g j = arg_at g 0 + of_nat j" if "j < 4096" for j
    using placed_at_run [OF that, of g 484] placed_at_run [of 0 g 484] by simp
  ultimately show ?thesis unfolding arg_window_def window_def by blast
qed

text \<open>The stack with the arguments in the new address space.\<close>

lemma exec_stack:
  assumes I: "exec_inv env s0 D s2" and B: "exec_buffers env s0" and u: "0 \<le> sint (undef_ret s0)" and cr: "page_aligned (cr3_reg s0)"
    and A: "argv_source env s0 argv args" and F: "args_fit args"
    and none: "\<And>k. k < stack_pages \<Longrightarrow> entry (mem s2) D (page_no stack_bottom + k) = None" and room: "501 \<le> card (avail (paddr_alloc s2))"
  obtains s3 s4 g where
    "memory_alloc_for_page_dir D stack_bottom MEM_TASK_STACK_SIZE (PTE_P OR PTE_U OR PTE_W) s2 = Inr (0, s3)"
    "exec_argc argv s3 = Some (Inr (of_nat (length args), s3))"
    "copy_args env stack_top D (of_nat (length args)) argv s3 = Some (Inr (0, s4))"
    "exec_inv env s0 D s4" "later env D s2 s4" "new_pages D stack_bottom stack_pages g s2 s4"
    "load32 (mem s4) (arg_at g 4) = of_nat (length args)" "load32 (mem s4) (arg_at g 8) = stack_top + task_args_size"
    "\<forall>k < length args. arg_placed stack_top (arg_at g) args k (mem s4)"
    "\<forall>n. \<not> (page_no stack_bottom \<le> n \<and> n < page_no stack_bottom + stack_pages) \<longrightarrow> entry (mem s4) D n = entry (mem s2) D n"
proof -
  have rm: "card (page_tables (page_no stack_bottom) stack_pages) + stack_pages \<le> card (avail (paddr_alloc s2))"
    using room unfolding stack_consts(8) by simp
  obtain s3 g where a: "memory_alloc_for_page_dir D stack_bottom MEM_TASK_STACK_SIZE (PTE_P OR PTE_U OR PTE_W) s2 = Inr (0, s3)" "exec_inv env s0 D s3"
    "later env D s2 s3" "new_pages D stack_bottom stack_pages g s2 s3"
    "card (avail (paddr_alloc s2)) \<le> card (avail (paddr_alloc s3)) + stack_pages + card (page_tables (page_no stack_bottom) stack_pages)"
    "\<forall>n. \<not> (page_no stack_bottom \<le> n \<and> n < page_no stack_bottom + stack_pages) \<longrightarrow> entry (mem s3) D n = entry (mem s2) D n"
    "\<forall>x. page_no x \<notin> user_tables (mem s3) D \<longrightarrow> mem s3 x = mem s2 x" "temp_pos s3 = temp_pos s2"
    by (rule exec_alloc [OF I u stack_bottom_page(2) stack_consts(6,5,3,4) none rm])
  have "avail (paddr_alloc s2) \<subseteq> avail (paddr_alloc s0)" using I by (simp add: exec_inv_def)
  from stack_arg_window [OF new_pages_sub [OF a(4) this]] have W: "arg_window D stack_top (arg_at g) s0 s3" .
  have ln: "length args < 2 ^ 30" using F by (simp add: args_fit_def)
  obtain s4 where ca: "copy_args env stack_top D (of_nat (length args)) argv s3 = Some (Inr (0, s4))" "exec_inv env s0 D s4" "arg_window D stack_top (arg_at g) s0 s4"
    "entry (mem s4) D = entry (mem s3) D" "dir_pages (mem s4) D = dir_pages (mem s3) D" "paddr_alloc s4 = paddr_alloc s3"
    "load32 (mem s4) (arg_at g 4) = of_nat (length args)" "load32 (mem s4) (arg_at g 8) = stack_top + task_args_size"
    "\<forall>k < length args. arg_placed stack_top (arg_at g) args k (mem s4)"
    "\<forall>x. x \<notin> buffers env \<union> arg_at g ` {..<16 * 4096} \<longrightarrow> mem s4 x = mem s3 x"
    by (rule copy_args_effect [OF a(2) B W cr A F])
  have pg: "page_no x \<in> page_no ` avail (paddr_alloc s2)" if x: "x \<in> arg_at g ` {..<16 * 4096}" for x
  proof -
    obtain j where j: "j < 16 * 4096" "x = arg_at g j" using x by auto
    then have "484 * 4096 + j < stack_pages * 4096" by simp
    from new_pages_at(2) [OF a(4) this] show ?thesis using j(2) by (auto simp: taken_def)
  qed
  have L: "later env D s2 s4" by (rule later_write [OF a(3) ca(4,5,6)]) (use ca(10) pg in blast)
  have np: "new_pages D stack_bottom stack_pages g s2 s4" by (rule new_pages_keep [OF a(4) ca(5) _ ca(6)]) (simp add: translate_eq ca(4))
  show thesis by (rule that [OF a(1) exec_argc_eq [OF a(2) cr A ln] ca(1,2) L np ca(7-9)]) (use a(6) ca(4) in simp)
qed

text \<open>Filling the new address space: the stages of \<^verbatim>\<open>sys_execve\<close> up to the point of no return.\<close>

lemma exec_fill:
  fixes s0 :: "'s kernel_scheme"
  assumes aw: "alloc_wf (paddr_alloc s0)" "dir_wf (mem s0) (kernel_page_dir s0) (paddr_alloc s0)" and B: "exec_buffers env s0"
    and u: "0 \<le> sint (undef_ret s0)" and cr: "page_aligned (cr3_reg s0)" and dev: "ata_ok disk dev"
    and nm: "vload s0 name = Some 47" "quiet env s0 name" and prog: "exec_program disk ph"
    and A: "argv_source env s0 argv args" and F: "args_fit args"
    and room: "seg_pages ph + seg_pages ph div 1024 + 504 \<le> card (avail (paddr_alloc s0))"
  obtains D s1 s2 s3 s4 f g where "memory_create_uvm s0 = Inr (D, s1)" "D \<in> avail (paddr_alloc s0)"
    "\<And>task. load_elf_file dev env task name D s1 = Some (Inr (e_entry (exec_header disk), s2))"
    "memory_alloc_for_page_dir D stack_bottom MEM_TASK_STACK_SIZE (PTE_P OR PTE_U OR PTE_W) s2 = Inr (0, s3)"
    "exec_argc argv s3 = Some (Inr (of_nat (length args), s3))"
    "copy_args env stack_top D (of_nat (length args)) argv s3 = Some (Inr (0, s4))"
    "exec_inv env s0 D s4" "segment_at disk ph D f s0 s4" "new_pages D stack_bottom stack_pages g s0 s4"
    "\<forall>k < seg_pages ph. \<forall>j < stack_pages. f k \<noteq> g j"
    "load32 (mem s4) (arg_at g 4) = of_nat (length args)" "load32 (mem s4) (arg_at g 8) = stack_top + task_args_size"
    "\<forall>k < length args. arg_placed stack_top (arg_at g) args k (mem s4)"
    "\<forall>n. 2 ^ 19 \<le> n \<longrightarrow> entry (mem s4) D n \<noteq> None \<longrightarrow> (page_no (p_vaddr ph) \<le> n \<and> n < page_no (p_vaddr ph) + seg_pages ph)
       \<or> (page_no stack_bottom \<le> n \<and> n < page_no stack_bottom + stack_pages)"
proof -
  have ne: "avail (paddr_alloc s0) \<noteq> {}" using room by auto
  obtain D s1 where c: "memory_create_uvm s0 = Inr (D, s1)" "exec_inv env s0 D s1" "D \<in> avail (paddr_alloc s0)"
    "\<And>n. 2 ^ 19 \<le> n \<Longrightarrow> entry (mem s1) D n = None" "card (avail (paddr_alloc s0)) = Suc (card (avail (paddr_alloc s1)))"
    using exec_create [OF aw ne] by metis
  have nm1: "vload s1 name = Some 47" using quiet_same(1) [OF c(2) nm(2) cr] nm(1) by simp
  have none1: "\<forall>n. 2 ^ 19 \<le> n \<longrightarrow> entry (mem s1) D n = None" using c(4) by blast
  have rm1: "seg_pages ph + seg_pages ph div 1024 + 2 \<le> card (avail (paddr_alloc s1))" using room c(5) by simp
  obtain s2 f where l: "load_elf_file dev env 0 name D s1 = Some (Inr (e_entry (exec_header disk), s2))" "exec_inv env s0 D s2"
    "segment_at disk ph D f s0 s2"
    "\<forall>n. \<not> (page_no (p_vaddr ph) \<le> n \<and> n < page_no (p_vaddr ph) + seg_pages ph) \<longrightarrow> entry (mem s2) D n = entry (mem s1) D n"
    "card (avail (paddr_alloc s1)) \<le> card (avail (paddr_alloc s2)) + seg_pages ph + seg_pages ph div 1024 + 2"
    by (rule load_elf_file_loads [OF c(2) B u dev nm1 prog none1 rm1])
  have lt: "load_elf_file dev env task name D s1 = Some (Inr (e_entry (exec_header disk), s2))" for task
    using l(1) by (simp add: load_elf_file_def)
  have so: "segment_ok ph" using prog by (simp add: exec_program_def)
  note sp = segment_pages(3) [OF so]
  have sb: "2 ^ 19 \<le> page_no stack_bottom" by (simp add: stack_bottom_page(3))
  have none2: "entry (mem s2) D (page_no stack_bottom + k) = None" if "k < stack_pages" for k
    using l(4) [rule_format, of "page_no stack_bottom + k"] none1 sp sb by simp
  have rm2: "501 \<le> card (avail (paddr_alloc s2))" using room c(5) l(5) by simp
  obtain s3 s4 g where st: "memory_alloc_for_page_dir D stack_bottom MEM_TASK_STACK_SIZE (PTE_P OR PTE_U OR PTE_W) s2 = Inr (0, s3)"
    "exec_argc argv s3 = Some (Inr (of_nat (length args), s3))" "copy_args env stack_top D (of_nat (length args)) argv s3 = Some (Inr (0, s4))"
    "exec_inv env s0 D s4" "later env D s2 s4" "new_pages D stack_bottom stack_pages g s2 s4"
    "load32 (mem s4) (arg_at g 4) = of_nat (length args)" "load32 (mem s4) (arg_at g 8) = stack_top + task_args_size"
    "\<forall>k < length args. arg_placed stack_top (arg_at g) args k (mem s4)"
    "\<forall>n. \<not> (page_no stack_bottom \<le> n \<and> n < page_no stack_bottom + stack_pages) \<longrightarrow> entry (mem s4) D n = entry (mem s2) D n"
    by (rule exec_stack [OF l(2) B u cr A F none2 rm2])
  have "avail (paddr_alloc s2) \<subseteq> avail (paddr_alloc s0)" using l(2) by (simp add: exec_inv_def)
  from new_pages_sub [OF st(6) this] have np: "new_pages D stack_bottom stack_pages g s0 s4" .
  have seg: "segment_at disk ph D f s0 s4" by (rule segment_later [OF l(3,2) B st(5)])
  have ent: "\<forall>n. 2 ^ 19 \<le> n \<longrightarrow> entry (mem s4) D n \<noteq> None \<longrightarrow> (page_no (p_vaddr ph) \<le> n \<and> n < page_no (p_vaddr ph) + seg_pages ph)
       \<or> (page_no stack_bottom \<le> n \<and> n < page_no stack_bottom + stack_pages)"
    using st(10) l(4) none1 by metis
  have fg: "\<forall>k < seg_pages ph. \<forall>j < stack_pages. f k \<noteq> g j"
    using l(3) st(6) by (auto simp: segment_at_def new_pages_def taken_def)
  show thesis by (rule that [OF c(1,3) lt st(1-4) seg np fg st(7-9) ent])
qed

text \<open>
  The running task may start a program: the kernel directory and the allocator are in order, the buffers are in their
  place, and the frame of the system call lies at the end of the kernel stack of the task, apart from the buffers
  and the page tables.
\<close>

definition exec_ready :: "exec_env \<Rightarrow> 's kernel_scheme \<Rightarrow> bool" where
  "exec_ready env s \<longleftrightarrow> alloc_wf (paddr_alloc s) \<and> dir_wf (mem s) (kernel_page_dir s) (paddr_alloc s) \<and> 0 \<le> sint (undef_ret s)
     \<and> page_aligned (cr3_reg s) \<and> page_aligned (parent_dir s) \<and> parent_dir s \<noteq> 0 \<and> exec_buffers env s
     \<and> (\<exists>ks. page_aligned ks \<and> tss_esp0 (t_tss (tasks s (curr_task s))) = ks + MEM_PAGE_SIZE
          \<and> page_no ks \<notin> page_no ` avail (paddr_alloc s) \<union> dir_pages (mem s) (kernel_page_dir s)
          \<and> region (ks + MEM_PAGE_SIZE - frame_size) 88 \<inter> buffers env = {})"

text \<open>The call names a file and arguments that can be read and fit in the area for them.\<close>

definition can_call :: "exec_env \<Rightarrow> addr \<Rightarrow> u8 list \<Rightarrow> addr \<Rightarrow> u8 list list \<Rightarrow> 's kernel_scheme \<Rightarrow> bool" where
  "can_call env name path argv args s \<longleftrightarrow> string_source env s name (47 # path) \<and> argv_source env s argv args \<and> args_fit args"

text \<open>With a program on disk that fits into the free frames.\<close>

definition can_exec :: "(nat \<Rightarrow> u8) \<Rightarrow> exec_env \<Rightarrow> addr \<Rightarrow> u8 list \<Rightarrow> addr \<Rightarrow> u8 list list \<Rightarrow> Elf32_Phdr \<Rightarrow> 's kernel_scheme \<Rightarrow> bool" where
  "can_exec disk env name path argv args ph s \<longleftrightarrow> can_call env name path argv args s \<and> exec_program disk ph
     \<and> seg_pages ph + seg_pages ph div 1024 + 504 \<le> card (avail (paddr_alloc s))"

text \<open>The frame of the call is the only thing written outside of the new address space and the buffers.\<close>

lemma exec_frame_aligned:
  assumes "page_aligned ks"
  shows "word_aligned (ks + MEM_PAGE_SIZE - frame_size)"
proof -
  have e: "ks + MEM_PAGE_SIZE - frame_size = ks + of_nat 4008" by (simp add: MEM_PAGE_SIZE_def)
  have "4 dvd unat ks" using assms by (auto simp: page_aligned_def)
  then show ?thesis unfolding e by (intro word_aligned_add) (simp_all add: word_aligned_mod)
qed

lemma exec_frame_page:
  assumes "page_aligned ks" "page_no x \<noteq> page_no ks"
  shows "exec_frame (ks + MEM_PAGE_SIZE - frame_size) ent esp m x = m x"
proof -
  have e: "ks + MEM_PAGE_SIZE - frame_size = ks + of_nat 4008" by (simp add: MEM_PAGE_SIZE_def)
  have "x \<notin> region (ks + of_nat 4008) 88"
  proof
    assume "x \<in> region (ks + of_nat 4008) 88"
    then obtain i where "i < 88" "x = ks + of_nat (4008 + i)" unfolding region_def by (auto simp: add.assoc)
    then show False using page_no_offset [OF assms(1), of "4008 + i"] assms(2) by simp
  qed
  then show ?thesis unfolding e by (rule exec_frame_other)
qed

text \<open>The arguments stay where they are when memory changes elsewhere.\<close>

lemma args_at_keep:
  assumes W: "arg_window D to pa s0 s" and F: "args_fit args" and z: "\<forall>k < length args. 0 \<notin> set (args ! k)"
    and h: "load32 (mem s) (pa 4) = of_nat (length args)" "load32 (mem s) (pa 8) = to + task_args_size"
    and P: "\<forall>k < length args. arg_placed to pa args k (mem s)"
    and W': "arg_window D to pa s0 s'" and e: "\<And>j. j < 16 * 4096 \<Longrightarrow> mem s' (pa j) = mem s (pa j)"
  shows "args_at to args (ubytes (mem s') D)"
proof (rule args_at_window [OF W' F z])
  have w: "load32 (mem s') (pa j) = load32 (mem s) (pa j)" if "j + 4 \<le> 4096" for j
    by (rule load32_cong) (use e that in \<open>auto simp: arg_window_run(1) [OF W that]\<close>)
  show "load32 (mem s') (pa 4) = of_nat (length args)" "load32 (mem s') (pa 8) = to + task_args_size"
    using w [of 4] w [of 8] h by simp_all
  have "arg_placed to pa args k (mem s')" if k: "k < length args" for k
  proof (rule arg_placed_cong [OF W F k])
    show "arg_placed to pa args k (mem s)" using P k by blast
    fix j assume j: "j \<in> {12 + 4 * k ..< 16 + 4 * k} \<union> {arg_off args k ..< arg_off args (Suc k)}"
    have "arg_off args (Suc k) \<le> arg_off args (length args)" using k by (intro arg_off_mono) simp_all
    then have "j < 16 * 4096" using j k F by (auto simp: args_fit_def)
    then show "mem s' (pa j) = mem s (pa j)" by (rule e)
  qed
  then show "\<forall>k < length args. arg_placed to pa args k (mem s')" by blast
qed

text \<open>Naming the task: only its name changes.\<close>

lemma exec_begin:
  assumes R: "exec_ready env s" and C: "can_call env name path argv args s"
  obtains s0 where "exec_name (curr_task s) name s = Some (Inr ((), s0))"
    "mem s0 = mem s" "paddr_alloc s0 = paddr_alloc s" "kernel_page_dir s0 = kernel_page_dir s" "undef_ret s0 = undef_ret s"
    "cr3_reg s0 = cr3_reg s" "curr_task s0 = curr_task s" "t_tss (tasks s0 (curr_task s)) = t_tss (tasks s (curr_task s))"
    "exec_buffers env s0" "argv_source env s0 argv args" "quiet env s0 name" "vload s0 name = Some 47"
proof -
  let ?t = "curr_task s"
  note r = R [unfolded exec_ready_def] and c = C [unfolded can_call_def]
  have ss: "cstring (vbytes s) name (47 # path)" "name \<noteq> 0" "unat name + length path + 2 \<le> 2 ^ 32"
    "\<forall>x \<in> region name (length path + 2). quiet env s x" using c by (simp_all add: string_source_def)
  have vl: "\<forall>x \<in> region name (length path + 2). vload s x \<noteq> None" using ss(4) by (simp add: quiet_def)
  obtain fn where nm: "exec_name ?t name s = Some (Inr ((), upd_task ?t (set_task_name ?t fn (vbytes s)) s))"
    by (rule exec_name_eq [OF ss(1-3) vl])
  let ?s0 = "upd_task ?t (set_task_name ?t fn (vbytes s)) s"
  have n: "name \<in> region name (length path + 2)" using in_regionI [of 0 "length path + 2" name] by simp
  then have "quiet env s name" using ss(4) by blast
  moreover have "vload s name = Some (vbytes s name)" using vl n vload_vbytes by blast
  moreover have "vbytes s name = 47" using ss(1) by (simp add: cstring_Cons)
  ultimately have b: "exec_buffers env ?s0" "argv_source env ?s0 argv args" "quiet env ?s0 name" "vload ?s0 name = Some 47"
    using r c by simp_all
  have "mem ?s0 = mem s" "paddr_alloc ?s0 = paddr_alloc s" "kernel_page_dir ?s0 = kernel_page_dir s" "undef_ret ?s0 = undef_ret s"
    "cr3_reg ?s0 = cr3_reg s" "curr_task ?s0 = ?t" "t_tss (tasks ?s0 ?t) = t_tss (tasks s ?t)"
    by (simp_all add: upd_task_def set_task_name_def Let_def)
  then show thesis by (rule that [OF nm]) (rule b)+
qed

text \<open>The new frame for the return from the call, on the kernel stack.\<close>

lemma exec_frame_write:
  assumes I: "exec_inv env s0 D s" and ks: "page_aligned ks" "page_no ks \<notin> page_no ` avail (paddr_alloc s0) \<union> dir_pages (mem s0) (kernel_page_dir s0)"
    "region (ks + MEM_PAGE_SIZE - frame_size) 88 \<inter> buffers env = {}"
    and m: "m = exec_frame (ks + MEM_PAGE_SIZE - frame_size) ent esp (mem s)"
  shows "page_no x \<noteq> page_no ks \<Longrightarrow> m x = mem s x" and "page_no x \<in> page_no ` taken s0 s \<Longrightarrow> m x = mem s x"
    and "x \<notin> buffers env \<Longrightarrow> page_no x \<notin> page_no ` avail (paddr_alloc s0) \<Longrightarrow> mem s x = mem s0 x"
    and "entry m D n = entry (mem s) D n" and "dir_pages m D = dir_pages (mem s) D" and "translate m D a = translate (mem s) D a"
    and "read_frame m (ks + MEM_PAGE_SIZE - frame_size) = exec_regs ent esp (read_frame (mem s0) (ks + MEM_PAGE_SIZE - frame_size))"
proof -
  let ?fr = "ks + MEM_PAGE_SIZE - frame_size"
  note iv = I [unfolded exec_inv_def]
  show m5: "m x = mem s x" if "page_no x \<noteq> page_no ks" for x unfolding m by (rule exec_frame_page [OF ks(1) that])
  have tk: "page_no ` taken s0 s \<subseteq> page_no ` avail (paddr_alloc s0)" by (auto simp: taken_def)
  have "dir_pages (mem s) D \<subseteq> dir_pages (mem s0) (kernel_page_dir s0) \<union> page_no ` taken s0 s" using iv by blast
  then have nks: "page_no ks \<notin> dir_pages (mem s) D" "page_no ks \<notin> page_no ` avail (paddr_alloc s0)" using ks(2) tk by blast+
  show "m x = mem s x" if "page_no x \<in> page_no ` taken s0 s"
  proof (rule m5)
    have "page_no x \<in> page_no ` avail (paddr_alloc s0)" using tk that by (rule subsetD)
    then show "page_no x \<noteq> page_no ks" using nks(2) by (intro notI) simp
  qed
  have D: "m x = mem s x" if "page_no x \<in> dir_pages (mem s) D" for x using m5 nks(1) that by metis
  have al: "page_aligned D" using iv by (simp add: vm_ok_def dir_wf_def)
  note dc = dir_cong [OF al, of "mem s" m, OF D]
  show "entry m D n = entry (mem s) D n" by (rule dc(3))
  show "dir_pages m D = dir_pages (mem s) D" using dc(1,2) by (intro dir_pages_same) (auto simp: has_pt_def)
  show "translate m D a = translate (mem s) D a" by (simp add: translate_eq dc(3))
  show out: "mem s x = mem s0 x" if "x \<notin> buffers env" "page_no x \<notin> page_no ` avail (paddr_alloc s0)" for x
  proof -
    have "x \<notin> exec_area env s0 s" using that tk by (auto simp: exec_area_def)
    then show ?thesis using iv by simp
  qed
  have "mem s (?fr + of_nat i) = mem s0 (?fr + of_nat i)" if i: "i < 88" for i
  proof (rule out)
    show "?fr + of_nat i \<notin> buffers env" using ks(3) in_regionI [OF i, of ?fr] by blast
    have "page_no (ks + of_nat (4008 + i)) = page_no ks" by (rule page_no_offset [OF ks(1)]) (use i in simp)
    moreover have q: "?fr + of_nat i = ks + of_nat (4008 + i)" by (simp add: MEM_PAGE_SIZE_def algebra_simps)
    ultimately show "page_no (?fr + of_nat i) \<notin> page_no ` avail (paddr_alloc s0)" using nks(2) by (simp only: q not_False_eq_True)
  qed
  then have "read_frame (mem s) ?fr = read_frame (mem s0) ?fr" by (rule read_frame_cong)
  then show "read_frame m ?fr = exec_regs ent esp (read_frame (mem s0) ?fr)"
    unfolding m exec_frame_regs [OF exec_frame_aligned [OF ks(1)]] by simp
qed

text \<open>
  The end of the call. Once the new address space is filled, only the frame on the kernel stack is written; the task
  is switched to the new directory, and what the old one maps from its own index on is given back.
\<close>

lemma exec_finish:
  assumes loc: "env = exec_locals kenv s"
    and R: "exec_ready env s" and s0: "exec_name (curr_task s) name s = Some (Inr ((), s0))" and f0: "mem s0 = mem s" "paddr_alloc s0 = paddr_alloc s"
      "kernel_page_dir s0 = kernel_page_dir s" "curr_task s0 = curr_task s" "t_tss (tasks s0 (curr_task s)) = t_tss (tasks s (curr_task s))"
    and e: "memory_create_uvm s0 = Inr (D, s1)" "load_elf_file dev env (curr_task s) name D s1 = Some (Inr (ent, s2))" "ent \<noteq> 0"
      "memory_alloc_for_page_dir D stack_bottom MEM_TASK_STACK_SIZE (PTE_P OR PTE_U OR PTE_W) s2 = Inr (0, s3)"
      "exec_argc argv s3 = Some (Inr (n, s3))" "copy_args env stack_top D n argv s3 = Some (Inr (0, s4))"
    and I: "exec_inv env s0 D s4"
  obtains s' where "sys_execve dev kenv name argv envp s = Some (Inr (0, s'))" "cr3_reg s' = D" "parent_dir s' = D" "curr_task s' = curr_task s"
    "frames (paddr_alloc s') = frames (paddr_alloc s)" "avail (paddr_alloc s4) \<subseteq> avail (paddr_alloc s')" "avail (paddr_alloc s4) \<subseteq> avail (paddr_alloc s)"
    "parent_frame s' = exec_regs ent (stack_top - 4 * ucast SYSCALL_PARAM_COUNT) (parent_frame s)"
    "entry (mem s') D = entry (mem s4) D" "dir_pages (mem s') D = dir_pages (mem s4) D"
    "\<forall>x. page_no x \<in> page_no ` taken s0 s4 \<longrightarrow> mem s' x = mem s4 x"
    "\<forall>x. x \<notin> buffers env \<longrightarrow> page_no x \<notin> page_no ` avail (paddr_alloc s) \<longrightarrow> page_no x \<noteq> page_no (tss_esp0 (t_tss (tasks s (curr_task s))) - MEM_PAGE_SIZE)
       \<longrightarrow> mem s' x = mem s x"
    "\<forall>va pte. pt_entry (mem s') (parent_dir s) va = Some pte \<longrightarrow> pde_index (parent_dir s) \<le> pde_index va
       \<longrightarrow> pte_paddr pte \<in> frames (paddr_alloc s) \<longrightarrow> pte_paddr pte \<in> avail (paddr_alloc s')"
proof -
  let ?t = "curr_task s" and ?esp = "stack_top - 4 * ucast SYSCALL_PARAM_COUNT"
  note r = R [unfolded exec_ready_def] and iv = I [unfolded exec_inv_def]
  obtain ks where ks: "page_aligned ks" "tss_esp0 (t_tss (tasks s ?t)) = ks + MEM_PAGE_SIZE"
    "page_no ks \<notin> page_no ` avail (paddr_alloc s) \<union> dir_pages (mem s) (kernel_page_dir s)"
    "region (ks + MEM_PAGE_SIZE - frame_size) 88 \<inter> buffers env = {}" using r by blast
  let ?fr = "ks + MEM_PAGE_SIZE - frame_size"
  define m5 where "m5 = exec_frame ?fr ent ?esp (mem s4)"
  define s5 where "s5 = (upd_task ?t (t_tss_update (tss_cr3_update (\<lambda>_. D))) (s4\<lparr>mem := m5\<rparr>))\<lparr>cr3_reg := D\<rparr>"
  have f4: "tasks s4 = tasks s0" "curr_task s4 = ?t" using exec_inv_fields [OF I] by (simp_all add: f0)
  have f5: "mem s5 = m5" "paddr_alloc s5 = paddr_alloc s4" "cr3_reg s5 = D" "curr_task s5 = ?t" "parent_dir s5 = D"
    "tss_esp0 (t_tss (tasks s5 ?t)) = ks + MEM_PAGE_SIZE"
    by (simp_all add: s5_def upd_task_def parent_dir_def f4 f0 ks(2))
  note w = exec_frame_write [OF I ks(1) _ ks(4) m5_def, unfolded f0, OF ks(3)]
  have aw: "alloc_wf (paddr_alloc s5)" using iv by (simp add: f5 vm_ok_def)
  obtain s' where d: "memory_destroy_uvm (parent_dir s) s5 = Inr ((), s')"
    "frees s5 s' (insert (parent_dir s) (dir_frames (mem s5) (page_word (parent_dir s) (page_no (parent_dir s) div 1024)) (1024 - page_no (parent_dir s) div 1024)))"
    using memory_destroy_uvm_frees [OF aw] r by blast
  have s': "s' = s5\<lparr>paddr_alloc := paddr_alloc s'\<rparr>" using d(2) by (simp add: frees_def)
  have f': "mem s' = m5" "cr3_reg s' = D" "curr_task s' = ?t" "tasks s' = tasks s5" by (subst s', simp add: f5)+
  have p': "parent_dir s' = D" using f5(5) by (simp add: parent_dir_def f' f5(4))
  have x: "sys_execve dev kenv name argv envp s = Some (Inr (0, s'))"
    using iv e d(1) s0 f4
    by (simp add: sys_execve_def loc [symmetric] task_current_def Let_def bindO_def stack_consts(1,2) f0 parent_dir_def [symmetric]
        ks(2) mmu_set_page_dir_def write_cr3_def)
      (simp add: s5_def [symmetric] m5_def [symmetric] d(1))
  have av: "avail (paddr_alloc s4) \<subseteq> avail (paddr_alloc s')" "avail (paddr_alloc s4) \<subseteq> avail (paddr_alloc s)" "frames (paddr_alloc s') = frames (paddr_alloc s)"
    using d(2) iv by (auto simp: frees_def f5 f0)
  have fr: "parent_frame s' = exec_regs ent ?esp (parent_frame s)" using w(7) ks(2) f5(6) by (simp add: parent_frame_def f')
  have mo: "mem s' x = mem s x" if "x \<notin> buffers env" "page_no x \<notin> page_no ` avail (paddr_alloc s)"
    "page_no x \<noteq> page_no (tss_esp0 (t_tss (tasks s ?t)) - MEM_PAGE_SIZE)" for x
    using w(3) [OF that(1,2)] w(1) [of x] that(3) ks(2) by (simp add: f')
  have old: "pte_paddr pte \<in> avail (paddr_alloc s')"
    if "pt_entry (mem s') (parent_dir s) va = Some pte" "pde_index (parent_dir s) \<le> pde_index va" "pte_paddr pte \<in> frames (paddr_alloc s)" for va pte
  proof -
    have "pte_paddr pte \<in> dir_frames m5 (page_word (parent_dir s) (page_no (parent_dir s) div 1024)) (1024 - page_no (parent_dir s) div 1024)"
      using that(1,2) by (intro mapped_in_dir_frames(1)) (simp_all add: pt_entry_eq f' word_le_nat_alt unat_pde_index)
    moreover have "pte_paddr pte \<in> frames (paddr_alloc s5)" using that(3) iv by (simp add: f5 f0)
    ultimately show ?thesis using d(2) by (simp add: frees_def f5)
  qed
  have en: "entry (mem s') D = entry (mem s4) D" by (rule ext) (simp add: f'(1) w(4))
  have dp: "dir_pages (mem s') D = dir_pages (mem s4) D" by (simp add: f'(1) w(5))
  have tk: "\<forall>x. page_no x \<in> page_no ` taken s0 s4 \<longrightarrow> mem s' x = mem s4 x" by (simp add: f'(1) w(2))
  show thesis by (rule that [OF x f'(2) p' f'(3) av(3,1,2) fr en dp tk]) (use mo old in blast)+
qed

text \<open>The arguments in the view of the program that starts.\<close>

lemma exec_args_at:
  assumes F: "args_fit args" and A: "argv_source env s argv args" and g: "new_pages D stack_bottom stack_pages g s0 s4"
    and h: "load32 (mem s4) (arg_at g 4) = of_nat (length args)" "load32 (mem s4) (arg_at g 8) = stack_top + task_args_size"
      "\<forall>k < length args. arg_placed stack_top (arg_at g) args k (mem s4)"
    and m: "entry m D = entry (mem s4) D" "dir_pages m D = dir_pages (mem s4) D" "\<forall>x. page_no x \<in> page_no ` taken s0 s4 \<longrightarrow> m x = mem s4 x"
  shows "args_at stack_top args (ubytes m D)"
proof -
  have W: "arg_window D stack_top (arg_at g) s0 s4" by (rule stack_arg_window [OF g])
  have W5: "arg_window D stack_top (arg_at g) s0 (s4\<lparr>mem := m\<rparr>)" by (rule arg_window_keep [OF W]) (simp_all add: m(1,2) translate_eq)
  have z: "\<forall>k < length args. 0 \<notin> set (args ! k)" using A by (auto simp: argv_source_def string_source_def cstring_def)
  have "args_at stack_top args (ubytes (mem (s4\<lparr>mem := m\<rparr>)) D)"
  proof (rule args_at_keep [OF W F z h W5])
    fix j :: nat assume "j < 16 * 4096"
    then have "484 * 4096 + j < stack_pages * 4096" by simp
    from new_pages_at(2) [OF g this] show "mem (s4\<lparr>mem := m\<rparr>) (arg_at g j) = mem s4 (arg_at g j)" using m(3) by simp
  qed
  then show ?thesis by simp
qed

lemma sys_execve_eq:
  assumes loc: "env = exec_locals kenv s" and R: "exec_ready env s" and dev: "ata_ok disk dev" and C: "can_exec disk env name path argv args ph s"
  obtains D s' f g F where "sys_execve dev kenv name argv envp s = Some (Inr (0, s'))" "D \<in> avail (paddr_alloc s)"
    "cr3_reg s' = D" "parent_dir s' = D" "curr_task s' = curr_task s" "frames (paddr_alloc s') = frames (paddr_alloc s)"
    "parent_frame s' = exec_regs (e_entry (exec_header disk)) (stack_top - 4 * ucast SYSCALL_PARAM_COUNT) (parent_frame s)"
    "\<forall>n < 2 ^ 19. entry (mem s') D n = entry (mem s) (kernel_page_dir s) n"
    "new_pages D (p_vaddr ph) (seg_pages ph) f s (s'\<lparr>paddr_alloc := F\<rparr>)"
    "\<forall>i < seg_pages ph * 4096. mem s' (placed_at f i) =
       (if i < unat (p_filesz ph) then exec_image disk (of_nat (unat (p_offset ph) + i)) else mem s (placed_at f i))"
    "new_pages D stack_bottom stack_pages g s (s'\<lparr>paddr_alloc := F\<rparr>)"
    "\<forall>k < seg_pages ph. \<forall>j < stack_pages. f k \<noteq> g j" "args_at stack_top args (ubytes (mem s') D)"
    "\<forall>n. 2 ^ 19 \<le> n \<longrightarrow> entry (mem s') D n \<noteq> None \<longrightarrow> (page_no (p_vaddr ph) \<le> n \<and> n < page_no (p_vaddr ph) + seg_pages ph)
       \<or> (page_no stack_bottom \<le> n \<and> n < page_no stack_bottom + stack_pages)"
    "\<forall>x. x \<notin> buffers env \<longrightarrow> page_no x \<notin> page_no ` avail (paddr_alloc s) \<longrightarrow> page_no x \<noteq> page_no (tss_esp0 (t_tss (tasks s (curr_task s))) - MEM_PAGE_SIZE)
       \<longrightarrow> mem s' x = mem s x"
    "avail F \<subseteq> avail (paddr_alloc s')" "avail F \<subseteq> avail (paddr_alloc s)"
    "\<forall>va pte. pt_entry (mem s') (parent_dir s) va = Some pte \<longrightarrow> pde_index (parent_dir s) \<le> pde_index va
       \<longrightarrow> pte_paddr pte \<in> frames (paddr_alloc s) \<longrightarrow> pte_paddr pte \<in> avail (paddr_alloc s')"
proof -
  let ?ent = "e_entry (exec_header disk)"
  note r = R [unfolded exec_ready_def] and c = C [unfolded can_exec_def] and cc = C [unfolded can_exec_def can_call_def]
  obtain s0 where s0: "exec_name (curr_task s) name s = Some (Inr ((), s0))" and f0: "mem s0 = mem s" "paddr_alloc s0 = paddr_alloc s"
    "kernel_page_dir s0 = kernel_page_dir s" "undef_ret s0 = undef_ret s" "cr3_reg s0 = cr3_reg s" "curr_task s0 = curr_task s"
    "t_tss (tasks s0 (curr_task s)) = t_tss (tasks s (curr_task s))"
    and same: "exec_buffers env s0" "argv_source env s0 argv args" "quiet env s0 name" "vload s0 name = Some 47"
    by (rule exec_begin [OF R conjunct1 [OF c]])
  have k0: "alloc_wf (paddr_alloc s0)" "dir_wf (mem s0) (kernel_page_dir s0) (paddr_alloc s0)" "0 \<le> sint (undef_ret s0)" "page_aligned (cr3_reg s0)"
    "exec_program disk ph" "args_fit args" "seg_pages ph + seg_pages ph div 1024 + 504 \<le> card (avail (paddr_alloc s0))"
    using r cc by (simp_all add: f0)
  show thesis
  proof (rule exec_fill [OF k0(1,2) same(1) k0(3,4) dev same(4,3) k0(5) same(2) k0(6,7)], goal_cases)
    case (1 D s1 s2 s3 s4 f g)
    note e = this
    have e0: "?ent \<noteq> 0" using k0(5) by (simp add: exec_program_def)
    show thesis
    proof (rule exec_finish [OF loc R s0 f0(1-3,6,7) e(1,3) e0 e(4-7), of envp], goal_cases)
      case (1 s')
      note q = this
      have tr: "translate (mem s') D a = translate (mem s4) D a" for a by (simp add: translate_eq q(9))
      have np: "new_pages D va N h s (s'\<lparr>paddr_alloc := paddr_alloc s4\<rparr>)" if "new_pages D va N h s0 s4" for va N h
        using that f0(2) q(10) tr by (simp add: new_pages_def taken_def)
      have seg: "new_pages D (p_vaddr ph) (seg_pages ph) f s0 s4"
        "\<forall>i < seg_pages ph * 4096. mem s4 (placed_at f i) =
           (if i < unat (p_filesz ph) then exec_image disk (of_nat (unat (p_offset ph) + i)) else mem s (placed_at f i))"
        using e(8) by (simp_all add: segment_at_def f0)
      have sb: "mem s' (placed_at f i) = (if i < unat (p_filesz ph) then exec_image disk (of_nat (unat (p_offset ph) + i)) else mem s (placed_at f i))"
        if i: "i < seg_pages ph * 4096" for i
        using seg(2) i q(11) new_pages_at(2) [OF seg(1) i] by simp
      have aa: "args_at stack_top args (ubytes (mem s') D)"
        by (rule exec_args_at [OF k0(6) same(2) e(9,11-13) q(9-11)])
      have ent: "entry (mem s') D n = entry (mem s) (kernel_page_dir s) n" if "n < 2 ^ 19" for n
        using e(7) that by (simp add: exec_inv_def q(9) f0)
      have rest: "entry (mem s') D n \<noteq> None \<longrightarrow> (page_no (p_vaddr ph) \<le> n \<and> n < page_no (p_vaddr ph) + seg_pages ph)
         \<or> (page_no stack_bottom \<le> n \<and> n < page_no stack_bottom + stack_pages)" if "2 ^ 19 \<le> n" for n
        using e(14) [THEN spec, THEN mp, OF that] by (simp only: q(9))
      show thesis
        by (rule that [OF q(1) _ q(2-5,8) _ np [OF seg(1)] _ np [OF e(9)] e(10) aa _ q(12,6,7,13)])
          (use e(2) f0 ent sb rest in simp_all)
    qed
  qed
qed

text \<open>The addresses of a run of pages.\<close>

lemma in_pages:
  assumes "page_aligned b" "page_no b \<le> page_no va" "page_no va < page_no b + N"
  shows "\<exists>i < N * 4096. va = b + of_nat i"
proof -
  let ?i = "unat va - unat b"
  have ub: "unat b = 4096 * page_no b" using assms(1) by (auto simp: page_aligned_def page_no_def)
  obtain r where uv: "unat va = 4096 * page_no va + r" and m: "r < 4096"
    by (rule that [of "unat va mod 4096"]) (simp_all add: page_no_def)
  have le: "unat b \<le> unat va" using assms(2) ub uv by linarith
  have "Suc (page_no va) * 4096 \<le> (page_no b + N) * 4096" using assms(3) by (intro mult_right_mono) simp_all
  then have "unat va < unat b + N * 4096" using m unfolding ub uv by (simp add: algebra_simps)
  then have lt: "?i < N * 4096" using le by linarith
  have "b + of_nat ?i = va" using le by (simp add: of_nat_diff)
  then show ?thesis using lt by (intro exI [of _ ?i]) simp
qed

lemma page_of_new:
  assumes "new_pages D b N f s s'" "i < N * 4096"
  shows "\<exists>k < N. page_no (placed_at f i) = page_no (f k) \<and> page_aligned (f k)"
proof -
  have k: "i div 4096 < N" using assms(2) by (simp add: less_mult_imp_div_less)
  then have "page_aligned (f (i div 4096))" using assms(1) by (simp add: new_pages_def)
  then show ?thesis using k placed_at_page(1) by blast
qed

text \<open>Two runs of pages in different frames share no byte, and a frame of a run is mapped once.\<close>

lemma new_pages_two:
  assumes f: "new_pages D b N f s s'" and g: "new_pages D c M g s s'" and fg: "\<forall>k < N. \<forall>j < M. f k \<noteq> g j"
    and i: "i < N * 4096" and j: "j < M * 4096"
  shows "placed_at f i \<noteq> placed_at g j"
proof
  assume e: "placed_at f i = placed_at g j"
  obtain k l where k: "k < N" "page_no (placed_at f i) = page_no (f k)" "page_aligned (f k)"
    and l: "l < M" "page_no (placed_at g j) = page_no (g l)" "page_aligned (g l)"
    using page_of_new [OF f i] page_of_new [OF g j] by blast
  then have "f k = g l" using e page_no_inj by metis
  then show False using fg k(1) l(1) by blast
qed

lemma new_pages_view_inj:
  assumes f: "new_pages D b N f s s'" and g: "new_pages D c M g s s'" and fg: "\<forall>k < N. \<forall>j < M. f k \<noteq> g j"
    and al: "page_aligned b" "page_aligned c"
    and only: "\<And>n. 2 ^ 19 \<le> n \<Longrightarrow> entry (mem s') D n \<noteq> None \<Longrightarrow>
      (page_no b \<le> n \<and> n < page_no b + N) \<or> (page_no c \<le> n \<and> n < page_no c + M)"
    and x: "MEMORY_TASK_BASE \<le> x" "translate (mem s') D x = Some q" and y: "MEMORY_TASK_BASE \<le> y" "translate (mem s') D y = Some q"
  shows "x = y"
proof -
  have P: "(\<exists>i < N * 4096. va = b + of_nat i \<and> q = placed_at f i) \<or> (\<exists>i < M * 4096. va = c + of_nat i \<and> q = placed_at g i)"
    if va: "MEMORY_TASK_BASE \<le> va" "translate (mem s') D va = Some q" for va
  proof -
    have "2 ^ 19 \<le> page_no va" "entry (mem s') D (page_no va) \<noteq> None" using va user_page_no by (auto simp: translate_eq)
    from only [OF this] consider "page_no b \<le> page_no va \<and> page_no va < page_no b + N" | "page_no c \<le> page_no va \<and> page_no va < page_no c + M"
      by blast
    then show ?thesis
    proof cases
      case 1
      then obtain i where i: "i < N * 4096" "va = b + of_nat i" using in_pages [OF al(1)] by blast
      then show ?thesis using new_pages_at(1) [OF f i(1)] va(2) by auto
    next
      case 2
      then obtain i where i: "i < M * 4096" "va = c + of_nat i" using in_pages [OF al(2)] by blast
      then show ?thesis using new_pages_at(1) [OF g i(1)] va(2) by auto
    qed
  qed
  have I: "i = j" if "i < N * 4096" "j < N * 4096" "placed_at f i = placed_at f j" for i j
    using inj_onD [OF new_pages_inj [OF f] that(3)] that(1,2) by simp
  have J: "i = j" if "i < M * 4096" "j < M * 4096" "placed_at g i = placed_at g j" for i j
    using inj_onD [OF new_pages_inj [OF g] that(3)] that(1,2) by simp
  show ?thesis
    using P [OF x] P [OF y] I J new_pages_two [OF f g fg] by (elim disjE exE conjE) metis+
qed

lemma new_pages_byte:
  assumes "new_pages D b N f s s'" "i < N * 4096"
  shows "\<exists>q. translate (mem s') D (b + of_nat i) = Some q \<and> page_no q \<in> page_no ` avail (paddr_alloc s) \<and> q = placed_at f i"
  using new_pages_at(1,2) [OF assms] by (auto simp: taken_def)

text \<open>C3: Starting a program. When the running task names a program on disk and its arguments, and the frames suffice,
  \<^verbatim>\<open>sys_execve\<close> returns 0 and the task runs in a new directory. From the page of the segment on it maps the
  bytes of the file, and behind them whatever the frames held before (the rest of the segment is not cleared); it
  maps the stack, with the number of arguments, the pointers to them and the strings themselves at its top, and the
  kernel half of the kernel. Nothing else is mapped in the user half, and no frame twice. On return from the call the
  registers are cleared and the program starts at its entry, with its stack below the arguments. Outside of the
  buffers, the free frames and the kernel stack no memory has changed. (\<open>exec_ready\<close> has the hypothesis that the
  indeterminate result of \<^verbatim>\<open>memory_create_map\<close> is not negative.)\<close>

theorem sys_execve_starts_program:
  assumes "exec_ready (exec_locals env s) s" "ata_ok disk dev" "can_exec disk (exec_locals env s) name path argv args ph s"
  shows "\<exists>s' D. sys_execve dev env name argv envp s = Some (Inr (0, s')) \<and> curr_task s' = curr_task s
    \<and> D \<in> avail (paddr_alloc s) \<and> cr3_reg s' = D \<and> parent_dir s' = D
    \<and> parent_frame s' = exec_regs (e_entry (exec_header disk)) (stack_top - 4 * ucast SYSCALL_PARAM_COUNT) (parent_frame s)
    \<and> (\<forall>va < MEMORY_TASK_BASE. pt_entry (mem s') D va = pt_entry (mem s) (kernel_page_dir s) va)
    \<and> (\<forall>i < seg_pages ph * 4096. \<exists>q. translate (mem s') D (p_vaddr ph + of_nat i) = Some q \<and> page_no q \<in> page_no ` avail (paddr_alloc s)
         \<and> mem s' q = (if i < unat (p_filesz ph) then exec_image disk (of_nat (unat (p_offset ph) + i)) else mem s q))
    \<and> (\<forall>i < stack_pages * 4096. \<exists>q. translate (mem s') D (stack_bottom + of_nat i) = Some q \<and> page_no q \<in> page_no ` avail (paddr_alloc s))
    \<and> args_at stack_top args (ubytes (mem s') D)
    \<and> (\<forall>va \<ge> MEMORY_TASK_BASE. translate (mem s') D va \<noteq> None \<longrightarrow>
         va \<in> region (p_vaddr ph) (seg_pages ph * 4096) \<union> region stack_bottom (stack_pages * 4096))
    \<and> (\<forall>x \<ge> MEMORY_TASK_BASE. \<forall>y \<ge> MEMORY_TASK_BASE. \<forall>q. translate (mem s') D x = Some q \<longrightarrow> translate (mem s') D y = Some q \<longrightarrow> x = y)
    \<and> (\<forall>x. x \<notin> buffers (exec_locals env s) \<longrightarrow> page_no x \<notin> page_no ` avail (paddr_alloc s)
         \<longrightarrow> page_no x \<noteq> page_no (tss_esp0 (t_tss (tasks s (curr_task s))) - MEM_PAGE_SIZE) \<longrightarrow> mem s' x = mem s x)"
proof (rule sys_execve_eq [OF refl assms, of envp], goal_cases)
  case (1 D s' f g F)
  note r = this
  have so: "page_aligned (p_vaddr ph)" using assms(3) by (simp add: can_exec_def exec_program_def segment_ok_def)
  have kern: "pt_entry (mem s') D va = pt_entry (mem s) (kernel_page_dir s) va" if "va < MEMORY_TASK_BASE" for va
    using r(8) that user_page_no [of va] by (simp add: pt_entry_eq not_le [symmetric])
  have seg: "\<exists>q. translate (mem s') D (p_vaddr ph + of_nat i) = Some q \<and> page_no q \<in> page_no ` avail (paddr_alloc s)
         \<and> mem s' q = (if i < unat (p_filesz ph) then exec_image disk (of_nat (unat (p_offset ph) + i)) else mem s q)"
    if "i < seg_pages ph * 4096" for i
    using new_pages_byte [OF r(9) that] r(10) that by auto
  have st: "\<exists>q. translate (mem s') D (stack_bottom + of_nat i) = Some q \<and> page_no q \<in> page_no ` avail (paddr_alloc s)"
    if "i < stack_pages * 4096" for i
    using new_pages_byte [OF r(11) that] by auto
  have only: "(page_no (p_vaddr ph) \<le> n \<and> n < page_no (p_vaddr ph) + seg_pages ph) \<or> (page_no stack_bottom \<le> n \<and> n < page_no stack_bottom + stack_pages)"
    if "2 ^ 19 \<le> n" "entry (mem s') D n \<noteq> None" for n using r(14) that by blast
  have dom: "va \<in> region (p_vaddr ph) (seg_pages ph * 4096) \<union> region stack_bottom (stack_pages * 4096)"
    if va: "MEMORY_TASK_BASE \<le> va" "translate (mem s') D va \<noteq> None" for va
  proof -
    have "2 ^ 19 \<le> page_no va" "entry (mem s') D (page_no va) \<noteq> None" using va user_page_no by (auto simp: translate_eq)
    from only [OF this] show ?thesis
      using in_pages [OF so, of va] in_pages [OF stack_bottom_page(2), of va] in_regionI by blast
  qed
  have inj: "x = y" if "MEMORY_TASK_BASE \<le> x" "MEMORY_TASK_BASE \<le> y" "translate (mem s') D x = Some q" "translate (mem s') D y = Some q" for x y q
    using new_pages_view_inj [OF r(9,11,12) so stack_bottom_page(2), of x q y] only that by simp
  show ?case
    by (rule exI [of _ s'], rule exI [of _ D], intro conjI r(1-5,7,13,15))
      (use kern seg st dom inj in blast)+
qed

text \<open>
  The task that calls runs in a directory of its own with the kernel half of the kernel, which maps all the
  frames to themselves; and the frames do not lie below the index at which \<^verbatim>\<open>memory_destroy_uvm\<close> begins.
\<close>

definition on_kernel_half :: "exec_env \<Rightarrow> 's kernel_scheme \<Rightarrow> bool" where
  "on_kernel_half env s \<longleftrightarrow> dir_wf (mem s) (parent_dir s) (paddr_alloc s)
     \<and> page_no ` buffers env \<inter> dir_pages (mem s) (parent_dir s) = {}
     \<and> page_no (tss_esp0 (t_tss (tasks s (curr_task s))) - MEM_PAGE_SIZE) \<notin> dir_pages (mem s) (parent_dir s)
     \<and> (\<forall>va < MEMORY_TASK_BASE. pt_entry (mem s) (parent_dir s) va = pt_entry (mem s) (kernel_page_dir s) va)
     \<and> (\<forall>p \<in> frames (paddr_alloc s). translate (mem s) (kernel_page_dir s) p = Some p \<and> pde_index (parent_dir s) \<le> pde_index p)"

lemma sys_execve_frees_all:
  assumes loc: "env = exec_locals kenv s" and "exec_ready env s" "ata_ok disk dev" "can_exec disk env name path argv args ph s" "on_kernel_half env s"
  obtains D s' f F where "sys_execve dev kenv name argv envp s = Some (Inr (0, s'))" "cr3_reg s' = D" "curr_task s' = curr_task s"
    "parent_frame s' = exec_regs (e_entry (exec_header disk)) (stack_top - 4 * ucast SYSCALL_PARAM_COUNT) (parent_frame s)"
    "new_pages D (p_vaddr ph) (seg_pages ph) f s (s'\<lparr>paddr_alloc := F\<rparr>)" "args_at stack_top args (ubytes (mem s') D)"
    "avail (paddr_alloc s') = frames (paddr_alloc s)" "frames (paddr_alloc s') = frames (paddr_alloc s)" "D \<in> avail (paddr_alloc s')"
    "avail (paddr_alloc s) \<subseteq> avail (paddr_alloc s')"
proof -
  show thesis
  proof (rule sys_execve_eq [OF assms(1-4), of envp], goal_cases)
    case (1 D s' f g F)
    note r = this
    note h = assms(5) [unfolded on_kernel_half_def]
    have aw: "alloc_wf (paddr_alloc s)" using assms(2) by (simp add: exec_ready_def)
    have al: "page_aligned (parent_dir s)" and wf: "dir_wf (mem s) (parent_dir s) (paddr_alloc s)" using h by (simp_all add: dir_wf_def)
    have same: "mem s' x = mem s x" if x: "page_no x \<in> dir_pages (mem s) (parent_dir s)" for x
    proof -
      have "page_no x \<notin> page_no ` avail (paddr_alloc s)" using dir_pages_apart [OF wf aw] x by auto
      moreover have "x \<notin> buffers env" using h x by blast
      moreover have "page_no x \<noteq> page_no (tss_esp0 (t_tss (tasks s (curr_task s))) - MEM_PAGE_SIZE)" using h x by auto
      ultimately show ?thesis using r(15) by blast
    qed
    have en: "entry (mem s') (parent_dir s) n = entry (mem s) (parent_dir s) n" for n by (rule dir_cong(3) [OF al same])
    have fr: "p \<in> avail (paddr_alloc s')" if p: "p \<in> frames (paddr_alloc s)" for p
    proof -
      have P: "p < MEMORY_TASK_BASE" "translate (mem s) (kernel_page_dir s) p = Some p" "pde_index (parent_dir s) \<le> pde_index p"
        using h p frames_valid(3) [OF aw p] by simp_all
      obtain pte where e: "entry (mem s) (kernel_page_dir s) (page_no p) = Some pte" "p = pte_paddr pte + of_nat (page_off p)"
        using P(2) by (rule translate_SomeE)
      have "page_off p = 0" using frames_valid(1) [OF aw p] by (auto simp: page_off_def page_aligned_def)
      then have "pte_paddr pte = p" using e(2) by simp
      moreover have "pt_entry (mem s) (parent_dir s) p = Some pte" using h P(1) e(1) by (simp add: pt_entry_eq)
      then have "pt_entry (mem s') (parent_dir s) p = Some pte" using en by (simp add: pt_entry_eq)
      ultimately show ?thesis using r(18) P(3) p by metis
    qed
    have full: "avail (paddr_alloc s') = frames (paddr_alloc s)" using fr avail_frames [of "paddr_alloc s'"] unfolding r(6) by blast
    have sub: "avail (paddr_alloc s) \<subseteq> avail (paddr_alloc s')" using avail_frames [of "paddr_alloc s"] fr by blast
    then have "D \<in> avail (paddr_alloc s')" using r(2) by blast
    then show ?case by (rule that [OF r(1,3,5,7,9,13) full r(6) _ sub])
  qed
qed

text \<open>C5: After a program has been started no frame is in use any more. \<^verbatim>\<open>sys_execve\<close> destroys the old directory with
  \<^verbatim>\<open>memory_destroy_uvm\<close>, which takes the index of the directory itself for the first index of the user half. When the
  kernel half maps the frames to themselves, from that index on, the call returns 0 and every frame of the
  allocator is free: the directory in CR3, its page tables and all the pages of the program that is about to run.\<close>

theorem sys_execve_frees_running_program:
  assumes "exec_ready (exec_locals env s) s" "ata_ok disk dev" "can_exec disk (exec_locals env s) name path argv args ph s"
    "on_kernel_half (exec_locals env s) s"
  shows "\<exists>s'. sys_execve dev env name argv envp s = Some (Inr (0, s')) \<and> avail (paddr_alloc s') = frames (paddr_alloc s')
    \<and> cr3_reg s' \<in> avail (paddr_alloc s')
    \<and> (\<forall>i < seg_pages ph * 4096. \<exists>q. translate (mem s') (cr3_reg s') (p_vaddr ph + of_nat i) = Some q \<and> page_no q \<in> page_no ` avail (paddr_alloc s'))"
proof (rule sys_execve_frees_all [OF refl assms, of envp], goal_cases)
  case (1 D s' f F)
  note r = this
  have seg: "\<exists>q. translate (mem s') D (p_vaddr ph + of_nat i) = Some q \<and> page_no q \<in> page_no ` avail (paddr_alloc s')"
    if "i < seg_pages ph * 4096" for i
    using new_pages_byte [OF r(5) that] r(10) by auto
  show ?case by (intro exI [of _ s'] conjI r(1)) (use seg r(2,7-9) in simp_all)
qed

text \<open>The header of the file.\<close>

lemma exec_read_header:
  assumes I: "exec_inv env s0 D s" and B: "exec_buffers env s0" and P: "prog_open env disk s" and tp: "temp_pos s = temp_at env"
  obtains s' where "sys_read TEMP_FD (elf_hdr_at env) 52 s = (52, s')" "exec_inv env s0 D s'" "buffered env D s s'" "header_read env disk s'"
    "prog_open env disk s'"
proof -
  have tp0: "temp_pos s = temp_at env + of_nat 0" using tp by simp
  have ln: "0 + unat (52 :: u32) \<le> FILE_SIZE" "(52 :: u32) \<noteq> 0" by (simp_all add: file_size)
  have pt: "elf_hdr_at env \<noteq> 0" "region (elf_hdr_at env) (unat (52 :: u32)) \<inter> region (temp_at env) FILE_SIZE = {}"
    "region (elf_hdr_at env) (unat (52 :: u32)) \<subseteq> buffers env"
    using B by (simp_all add: exec_buffers_def exec_linked_def buffers_def) blast
  obtain s' where r: "sys_read TEMP_FD (elf_hdr_at env) 52 s = (52, s')" "exec_inv env s0 D s'" "buffered env D s s'" "prog_open env disk s'"
    "\<forall>i < unat (52 :: u32). mem s' (elf_hdr_at env + of_nat i) = exec_image disk (of_nat (0 + i))"
    "\<forall>x. x \<notin> region (elf_hdr_at env) (unat (52 :: u32)) \<longrightarrow> mem s' x = mem s x" "temp_pos s' = temp_at env + of_nat (0 + unat (52 :: u32))"
    by (rule exec_read_var [OF I B P tp0 ln pt])
  have "header_read env disk s'" using r(5) by (simp add: header_read_def)
  then show thesis using that r(1-4) by blast
qed

text \<open>
  A file that is not a program: no ELF header, or one without program headers.
\<close>

definition broken_file :: "(nat \<Rightarrow> u8) \<Rightarrow> bool" where
  "broken_file disk \<longleftrightarrow> \<not> elf_ident_ok (e_ident (exec_header disk)) \<or> e_phentsize (exec_header disk) = 0 \<or> e_phoff (exec_header disk) = 0"

lemma load_elf_file_fails:
  assumes I: "exec_inv env s0 D s" and B: "exec_buffers env s0" and dev: "ata_ok disk dev"
    and nm: "vload s name = Some 47" and bad: "broken_file disk"
  obtains s' where "\<forall>task. load_elf_file dev env task name D s = Some (Inr (-1, s'))" "exec_inv env s0 D s'" "buffered env D s s'"
proof -
  obtain s1 where o: "sys_open dev (temp_at env) name 0 s = Some (Inr (TEMP_FD, s1))" "exec_inv env s0 D s1"
    "buffered env D s s1" "prog_open env disk s1" "temp_pos s1 = temp_at env"
    by (rule exec_open [OF I B dev nm])
  obtain s2 where r: "sys_read TEMP_FD (elf_hdr_at env) 52 s1 = (52, s2)" "exec_inv env s0 D s2" "buffered env D s1 s2" "header_read env disk s2"
    by (rule exec_read_header [OF o(2) B o(4,5)])
  have "load_elf_file dev env task name D s = Some (Inr (-1, s2))" for task
    using o(1) r(1) bad by (auto simp: load_elf_file_def bindO_def header_read_eq [OF r(4)] broken_file_def TEMP_FD_def Let_def sys_close_def)
  then show thesis using that r(2) buffered_trans [OF o(3) r(3)] by blast
qed

text \<open>The stages of the call for such a file: only the stack is mapped.\<close>

lemma exec_fill_broken:
  fixes s0 :: "'s kernel_scheme"
  assumes aw: "alloc_wf (paddr_alloc s0)" "dir_wf (mem s0) (kernel_page_dir s0) (paddr_alloc s0)" and B: "exec_buffers env s0"
    and u: "0 \<le> sint (undef_ret s0)" and cr: "page_aligned (cr3_reg s0)" and dev: "ata_ok disk dev"
    and nm: "vload s0 name = Some 47" "quiet env s0 name" and bad: "broken_file disk"
    and A: "argv_source env s0 argv args" and F: "args_fit args" and room: "502 \<le> card (avail (paddr_alloc s0))"
  obtains D s1 s2 s3 s4 g where "memory_create_uvm s0 = Inr (D, s1)" "D \<in> avail (paddr_alloc s0)"
    "\<forall>task. load_elf_file dev env task name D s1 = Some (Inr (-1, s2))"
    "memory_alloc_for_page_dir D stack_bottom MEM_TASK_STACK_SIZE (PTE_P OR PTE_U OR PTE_W) s2 = Inr (0, s3)"
    "exec_argc argv s3 = Some (Inr (of_nat (length args), s3))"
    "copy_args env stack_top D (of_nat (length args)) argv s3 = Some (Inr (0, s4))"
    "exec_inv env s0 D s4" "new_pages D stack_bottom stack_pages g s0 s4"
    "load32 (mem s4) (arg_at g 4) = of_nat (length args)" "load32 (mem s4) (arg_at g 8) = stack_top + task_args_size"
    "\<forall>k < length args. arg_placed stack_top (arg_at g) args k (mem s4)"
    "\<forall>n. 2 ^ 19 \<le> n \<longrightarrow> entry (mem s4) D n \<noteq> None \<longrightarrow> page_no stack_bottom \<le> n \<and> n < page_no stack_bottom + stack_pages"
proof -
  have ne: "avail (paddr_alloc s0) \<noteq> {}" using room by auto
  obtain D s1 where c: "memory_create_uvm s0 = Inr (D, s1)" "exec_inv env s0 D s1" "D \<in> avail (paddr_alloc s0)"
    "\<And>n. 2 ^ 19 \<le> n \<Longrightarrow> entry (mem s1) D n = None" "card (avail (paddr_alloc s0)) = Suc (card (avail (paddr_alloc s1)))"
    using exec_create [OF aw ne] by metis
  have nm1: "vload s1 name = Some 47" using quiet_same(1) [OF c(2) nm(2) cr] nm(1) by simp
  obtain s2 where l: "\<forall>task. load_elf_file dev env task name D s1 = Some (Inr (-1, s2))" "exec_inv env s0 D s2" "buffered env D s1 s2"
    by (rule load_elf_file_fails [OF c(2) B dev nm1 bad])
  have none: "entry (mem s2) D n = None" if "2 ^ 19 \<le> n" for n using l(3) c(4) [OF that] by (simp add: buffered_def)
  have none2: "entry (mem s2) D (page_no stack_bottom + k) = None" if "k < stack_pages" for k using none by (simp add: stack_bottom_page(3))
  have rm: "501 \<le> card (avail (paddr_alloc s2))" using l(3) c(5) room by (simp add: buffered_def)
  obtain s3 s4 g where st: "memory_alloc_for_page_dir D stack_bottom MEM_TASK_STACK_SIZE (PTE_P OR PTE_U OR PTE_W) s2 = Inr (0, s3)"
    "exec_argc argv s3 = Some (Inr (of_nat (length args), s3))" "copy_args env stack_top D (of_nat (length args)) argv s3 = Some (Inr (0, s4))"
    "exec_inv env s0 D s4" "later env D s2 s4" "new_pages D stack_bottom stack_pages g s2 s4"
    "load32 (mem s4) (arg_at g 4) = of_nat (length args)" "load32 (mem s4) (arg_at g 8) = stack_top + task_args_size"
    "\<forall>k < length args. arg_placed stack_top (arg_at g) args k (mem s4)"
    "\<forall>n. \<not> (page_no stack_bottom \<le> n \<and> n < page_no stack_bottom + stack_pages) \<longrightarrow> entry (mem s4) D n = entry (mem s2) D n"
    by (rule exec_stack [OF l(2) B u cr A F none2 rm])
  have "avail (paddr_alloc s2) \<subseteq> avail (paddr_alloc s0)" using l(2) by (simp add: exec_inv_def)
  from new_pages_sub [OF st(6) this] have np: "new_pages D stack_bottom stack_pages g s0 s4" .
  show thesis by (rule that [OF c(1,3) l(1) st(1-4) np st(7-9)]) (use st(10) none in metis)
qed

text \<open>C6: Starting a file that is not a program does not fail. When the file has no ELF header, or one without program
  headers, \<^verbatim>\<open>load_elf_file\<close> returns -1, \<^verbatim>\<open>sys_execve\<close> takes this for an entry point and returns 0: the task has lost its
  old address space, and in the new one only the stack with the arguments is mapped in the user half. It continues at address
  0xffffffff, where nothing is mapped.\<close>

theorem sys_execve_runs_broken_file:
  assumes R: "exec_ready (exec_locals env s) s" and dev: "ata_ok disk dev" and C: "can_call (exec_locals env s) name path argv args s" and bad: "broken_file disk"
    and room: "502 \<le> card (avail (paddr_alloc s))"
  shows "\<exists>s' D. sys_execve dev env name argv envp s = Some (Inr (0, s')) \<and> curr_task s' = curr_task s
    \<and> D \<in> avail (paddr_alloc s) \<and> cr3_reg s' = D \<and> parent_dir s' = D
    \<and> parent_frame s' = exec_regs 0xFFFFFFFF (stack_top - 4 * ucast SYSCALL_PARAM_COUNT) (parent_frame s)
    \<and> args_at stack_top args (ubytes (mem s') D)
    \<and> (\<forall>va \<ge> MEMORY_TASK_BASE. translate (mem s') D va \<noteq> None \<longleftrightarrow> va \<in> region stack_bottom (stack_pages * 4096))
    \<and> translate (mem s') D 0xFFFFFFFF = None"
proof -
  let ?loc = "exec_locals env s"
  note r = R [unfolded exec_ready_def] and c = C [unfolded can_call_def]
  obtain s0 where s0: "exec_name (curr_task s) name s = Some (Inr ((), s0))" and f0: "mem s0 = mem s" "paddr_alloc s0 = paddr_alloc s"
    "kernel_page_dir s0 = kernel_page_dir s" "undef_ret s0 = undef_ret s" "cr3_reg s0 = cr3_reg s" "curr_task s0 = curr_task s"
    "t_tss (tasks s0 (curr_task s)) = t_tss (tasks s (curr_task s))"
    and same: "exec_buffers ?loc s0" "argv_source ?loc s0 argv args" "quiet ?loc s0 name" "vload s0 name = Some 47"
    by (rule exec_begin [OF R C])
  have k0: "alloc_wf (paddr_alloc s0)" "dir_wf (mem s0) (kernel_page_dir s0) (paddr_alloc s0)" "502 \<le> card (avail (paddr_alloc s0))"
    "0 \<le> sint (undef_ret s0)" "page_aligned (cr3_reg s0)" "args_fit args"
    using r c room by (simp_all add: f0)
  obtain D s1 s2 s3 s4 g where e: "memory_create_uvm s0 = Inr (D, s1)" "D \<in> avail (paddr_alloc s0)"
    "\<forall>task. load_elf_file dev ?loc task name D s1 = Some (Inr (-1, s2))"
    "memory_alloc_for_page_dir D stack_bottom MEM_TASK_STACK_SIZE (PTE_P OR PTE_U OR PTE_W) s2 = Inr (0, s3)"
    "exec_argc argv s3 = Some (Inr (of_nat (length args), s3))" "copy_args ?loc stack_top D (of_nat (length args)) argv s3 = Some (Inr (0, s4))"
    "exec_inv ?loc s0 D s4" "new_pages D stack_bottom stack_pages g s0 s4"
    "load32 (mem s4) (arg_at g 4) = of_nat (length args)" "load32 (mem s4) (arg_at g 8) = stack_top + task_args_size"
    "\<forall>k < length args. arg_placed stack_top (arg_at g) args k (mem s4)"
    "\<forall>n. 2 ^ 19 \<le> n \<longrightarrow> entry (mem s4) D n \<noteq> None \<longrightarrow> page_no stack_bottom \<le> n \<and> n < page_no stack_bottom + stack_pages"
    by (rule exec_fill_broken [OF k0(1,2) same(1) k0(4,5) dev same(4,3) bad same(2) k0(6,3)])
  have e0: "(-1 :: u32) \<noteq> 0" by simp
  show ?thesis
  proof (rule exec_finish [OF refl R s0 f0(1-3,6,7) e(1) e(3) [THEN spec] e0 e(4-7), of envp], goal_cases)
    case (1 s')
    note q = this
    have tr: "translate (mem s') D a = translate (mem s4) D a" for a by (simp add: translate_eq q(9))
    have aa: "args_at stack_top args (ubytes (mem s') D)" by (rule exec_args_at [OF k0(6) same(2) e(8-11) q(9-11)])
    have dom: "translate (mem s') D va \<noteq> None \<longleftrightarrow> va \<in> region stack_bottom (stack_pages * 4096)" if va: "MEMORY_TASK_BASE \<le> va" for va
    proof
      assume n: "translate (mem s') D va \<noteq> None"
      have pn: "2 ^ 19 \<le> page_no va" using va user_page_no by blast
      have "entry (mem s4) D (page_no va) \<noteq> None" using n [unfolded tr] by (auto simp: translate_eq)
      then have "page_no stack_bottom \<le> page_no va \<and> page_no va < page_no stack_bottom + stack_pages"
        using e(12) pn by blast
      then show "va \<in> region stack_bottom (stack_pages * 4096)" using in_pages [OF stack_bottom_page(2), of va] in_regionI by blast
    next
      assume "va \<in> region stack_bottom (stack_pages * 4096)"
      then obtain i where "i < stack_pages * 4096" "va = stack_bottom + of_nat i" by (auto simp: region_def)
      then show "translate (mem s') D va \<noteq> None" using new_pages_at(1) [OF e(8)] by (auto simp: tr)
    qed
    have "(0xFFFFFFFF :: addr) \<notin> region stack_bottom (stack_pages * 4096)"
      using region_unat [of stack_bottom "stack_pages * 4096" "0xFFFFFFFF"] by (auto simp: stack_bottom_page(1))
    then have top: "translate (mem s') D 0xFFFFFFFF = None"
      using dom [of "0xFFFFFFFF"] by (simp add: MEMORY_TASK_BASE_def)
    have m1: "(-1 :: u32) = 0xFFFFFFFF" by (simp add: word_unat_eq_iff unsigned_minus_1_eq_mask mask_eq_exp_minus_1)
    have fr: "parent_frame s' = exec_regs 0xFFFFFFFF (stack_top - 4 * ucast SYSCALL_PARAM_COUNT) (parent_frame s)"
      using q(8) unfolding m1 .
    have av: "D \<in> avail (paddr_alloc s)" using e(2) f0(2) by simp
    show ?case by (rule exI [of _ s'], rule exI [of _ D], intro conjI q(1-4) fr av aa top) (use dom in blast)
  qed
qed

end
