(* ===== verification/Init.thy ===== *)
theory Init
  imports Syscall
begin

text \<open>
  Starting the kernel, \<^verbatim>\<open>src/source/kernel/init/init.c\<close>: \<^verbatim>\<open>kernel_init\<close> sets the parts up
  in order, \<^verbatim>\<open>init_main\<close> creates the first task and enters it. The test functions of the file are
  not called and not modelled.
\<close>

text \<open>Addresses of the static objects that the start-up code initialises.\<close>

record init_env = kernel_env +
  gdt_mutex_at :: addr
  gdt_at :: addr
  syscall_entry :: addr
  log_mutex_at :: addr
  alloc_mutex_at :: addr
  idt_at :: addr
  log_buf :: addr

definition OS_VERSION :: string where "OS_VERSION = ''1.0.0''"

definition kernel_init ::
    "device \<Rightarrow> init_env \<Rightarrow> kernel_symbols \<Rightarrow> handlers \<Rightarrow> boot_info_t \<Rightarrow> 's kernel_scheme \<Rightarrow> ('s, unit) tres" where
  "kernel_init dev env syms h boot_info s =
     (if ram_region_count boot_info = 0 then Inl (Panic s)
      else bindR (cpu_init (gdt_mutex_at env) (lit env ''cpu: gdt'') (gdt_at env) (syscall_entry env) s) (\<lambda>_ s.
      case log_init (log_mutex_at env) (lit env ''log'') s of
        None \<Rightarrow> Inl (Fault s)
      | Some s \<Rightarrow>
          bindR (memory_init (alloc_mutex_at env) (lit env ''addr_alloc_t'') syms boot_info s) (\<lambda>_ s.
          bindR (irq_init (idt_at env) h s) (\<lambda>_ s.
          bindR (timer_init dev h s) (\<lambda>_ s.
          task_manager_init (kernel_env.truncate env) s)))))"

text \<open>The registers that the return from interrupt loads.\<close>

record iret_frame =
  ir_ss :: u32
  ir_esp :: u32
  ir_eflags :: u32
  ir_cs :: u32
  ir_eip :: u32

definition move_to_first_task :: "'s kernel_scheme \<Rightarrow> ('s, iret_frame) tres" where
  "move_to_first_task s =
     (let cur = task_current s
      in if cur = 0 then Inl (Panic s)
         else let tss = t_tss (tasks s cur)
           in Inr (\<lparr>ir_ss = tss_ss tss, ir_esp = tss_esp tss, ir_eflags = tss_eflags tss, ir_cs = tss_cs tss,
                    ir_eip = tss_eip tss\<rparr>, write_eflags (tss_eflags tss) s))"

definition init_main :: "device \<Rightarrow> init_env \<Rightarrow> 's kernel_scheme \<Rightarrow> ('s, iret_frame) tres option" where
  "init_main dev env s =
     bindO (log_lines dev (lit env) (log_buf env)
       [(''Kernel is running ...'', []),
        (''Version: %s %s'', [lit env OS_VERSION, lit env ''test'']),
        (''%d %d %x %c'', [12345, - 123, 0x123456, 97])] s) (\<lambda>_ s.
     bindO (Some (returned 0 (sys_sched_yield s))) (\<lambda>_ s.
     bindO (Some (task_first_init (kernel_env.truncate env) s)) (\<lambda>_ s.
     Some (move_to_first_task s))))"

end
