(* ===== verification/Boot.thy ===== *)
theory Boot
  imports Init Fork Identity
begin

text \<open>
  The initialisation of the kernel, \<^verbatim>\<open>kernel_init\<close> of \<^verbatim>\<open>source/kernel/init/init.c\<close> (the definitions are in
  Init and Task): the effect of each step on a state that is zero where the image of the kernel is, up to the
  state in which the tasks can run.
\<close>

text \<open>Clearing the table of tasks.\<close>

lemma clear_task_eq:
  "\<exists>h. clear_task t s = s\<lparr>tasks := (tasks s)(t := task_zero), nodes := h\<rparr>"
  by (simp add: clear_task_def upd_task_def) blast

lemma clear_table_eq:
  "\<exists>h ts. clear_table n cur s = s\<lparr>tasks := ts, nodes := h\<rparr> \<and> (\<forall>i < n. ts (cur + of_nat i * task_t_size) = task_zero)
     \<and> (\<forall>t. ts t = task_zero \<or> ts t = tasks s t)"
proof (induction n arbitrary: cur s)
  case 0
  show ?case by (intro exI [of _ "nodes s"] exI [of _ "tasks s"]) simp
next
  case (Suc n)
  obtain h where h: "clear_task cur s = s\<lparr>tasks := (tasks s)(cur := task_zero), nodes := h\<rparr>" using clear_task_eq by blast
  obtain h' ts where r: "clear_table n (cur + task_t_size) (clear_task cur s) = (clear_task cur s)\<lparr>tasks := ts, nodes := h'\<rparr>"
    "\<forall>i < n. ts (cur + task_t_size + of_nat i * task_t_size) = task_zero"
    "\<forall>t. ts t = task_zero \<or> ts t = tasks (clear_task cur s) t" using Suc.IH by blast
  have "ts (cur + of_nat i * task_t_size) = task_zero" if "i < Suc n" for i
  proof (cases i)
    case 0
    then show ?thesis using r(3) [rule_format, of cur] h by auto
  next
    case (Suc j)
    then show ?thesis using r(2) that by (auto simp: algebra_simps)
  qed
  moreover have "ts t = task_zero \<or> ts t = tasks s t" for t using r(3) [rule_format, of t] h by (auto split: if_splits)
  ultimately show ?case using r(1) h by (intro exI [of _ h'] exI [of _ ts]) simp
qed

text \<open>The segments of the applications: the first two free descriptors.\<close>

lemma app_segment_eq:
  assumes "gdt_ready s" "gdt_find_free 1 (gdt_table s) = Some i"
  obtains mx where "app_segment attr s = Inr (of_nat i * 8, s\<lparr>gdt_mutex := mx, gdt_table := (gdt_table s)[i := make_segment_desc 0 0xFFFFFFFF attr]\<rparr>)"
    "mutex_free mx"
proof -
  obtain mx where g: "mutex_free mx" "gdt_alloc_desc s = Inr (of_nat i * 8, s\<lparr>gdt_mutex := mx\<rparr>)"
    using gdt_alloc_desc_eq [OF assms(1)] assms(2) by auto
  have i: "i < GDT_TABLE_SIZE" using gdt_find_free_Some [OF assms(2)] by simp
  have "segment_desc_set (of_nat i * 8) 0 0xFFFFFFFF attr (s\<lparr>gdt_mutex := mx\<rparr>) =
      Inr ((), s\<lparr>gdt_mutex := mx, gdt_table := (gdt_table s)[i := make_segment_desc 0 0xFFFFFFFF attr]\<rparr>)"
    using segment_desc_set_eq [of "s\<lparr>gdt_mutex := mx\<rparr>" "of_nat i * 8"] assms(1) i selector_of_index [OF i] by (simp add: gdt_ready_def)
  then show thesis using g by (intro that [of mx]) (simp_all add: app_segment_def)
qed

text \<open>The first free descriptor of a table in which the descriptors up to \<open>i\<close> are in use.\<close>

lemma gdt_find_free_first:
  assumes "\<And>k. 1 \<le> k \<Longrightarrow> k < i \<Longrightarrow> sd_attr (gt ! k) \<noteq> 0" "1 \<le> i" "i < GDT_TABLE_SIZE" "sd_attr (gt ! i) = 0"
  shows "gdt_find_free 1 gt = Some i"
proof -
  have "gdt_find_free 1 gt \<noteq> None" using assms(2-4) unfolding gdt_find_free_None by blast
  then obtain j where j: "gdt_find_free 1 gt = Some j" by blast
  note f = gdt_find_free_Some [OF j]
  have "\<not> j < i" using f assms(1) by auto
  moreover have "\<not> i < j" using f assms(2,4) by auto
  ultimately show ?thesis using j by simp
qed

text \<open>The state when the idle task is initialised.\<close>

definition app_gdt :: "segment_desc_t list \<Rightarrow> segment_desc_t list" where
  "app_gdt gt = gt[4 := make_segment_desc 0 0xFFFFFFFF (SEG_P_PRESENT OR SEG_DPL3 OR SEG_S_NORMAL OR SEG_TYPE_DATA OR SEG_TYPE_RW OR SEG_D),
     5 := make_segment_desc 0 0xFFFFFFFF (SEG_P_PRESENT OR SEG_DPL3 OR SEG_S_NORMAL OR SEG_TYPE_CODE OR SEG_TYPE_RW OR SEG_D)]"

lemma make_flat_used: "sd_attr (make_segment_desc 0 0xffffffff a) \<noteq> 0"
proof -
  have "bit (sd_attr (make_segment_desc 0 0xffffffff a)) 15"
    by (simp add: make_segment_desc_def bit_or_iff bit_SEG_G)
  then show ?thesis by (metis bit_0_eq bot_apply bot_bool_def)
qed

lemma task_manager_prefix:
  assumes "gdt_ready s" "\<And>k. k < GDT_TABLE_SIZE \<Longrightarrow> sd_attr (gdt_table s ! k) = 0 \<longleftrightarrow> k = 0 \<or> 3 < k"
    and "mx_name (task_table_mutex s) = replicate MUTEX_NAME_SIZE 0"
  obtains ts h mx gmx where "task_manager_init env s = bindR (task_init (idle_task s) (lit env ''idle_task'') mem TASK_FLAGS_SYSTEM
      (idle_task_entry env) (idle_task_stack env + IDLE_TASK_SIZE)
      (s\<lparr>tasks := ts, nodes := h, task_table_mutex := mx, app_data_sel := 32, gdt_mutex := gmx, gdt_table := app_gdt (gdt_table s),
         app_code_sel := 40, ready_list := list_init, task_list := list_init, sleep_list := list_init, curr_task := 0\<rparr>))
      (\<lambda>_ s. Inr ((), task_start (idle_task s) s))"
    "\<And>i. i < TASK_NR \<Longrightarrow> ts (slot env i) = task_zero" "\<And>t. ts t = task_zero \<or> ts t = tasks s t" "mutex_free mx" "mutex_free gmx"
    "gdt_find_free 1 (app_gdt (gdt_table s)) = Some 6"
proof -
  obtain h ts where ct: "clear_table TASK_NR (task_table env) s = s\<lparr>tasks := ts, nodes := h\<rparr>"
    "\<forall>i < TASK_NR. ts (task_table env + of_nat i * task_t_size) = task_zero" "\<forall>t. ts t = task_zero \<or> ts t = tasks s t"
    using clear_table_eq by blast
  let ?s1 = "s\<lparr>tasks := ts, nodes := h\<rparr>"
  obtain mx where mx: "mutex_init (table_mutex_at env) (lit env ''task_table'') (task_table_mutex ?s1) (mem ?s1) = Some mx" "mutex_free mx"
    by (rule mutex_init_static [of "task_table_mutex ?s1"]) (use assms(3) in simp_all)
  let ?s2 = "?s1\<lparr>task_table_mutex := mx\<rparr>"
  have len: "length (gdt_table s) = 256" using assms(1) by (simp add: gdt_ready_def GDT_TABLE_SIZE_def)
  have f2: "gdt_find_free 1 (gdt_table ?s2) = Some 4"
    by (rule gdt_find_free_first) (use assms(2) in \<open>auto simp: GDT_TABLE_SIZE_def\<close>)
  have r2: "gdt_ready ?s2" using assms(1) by (simp add: gdt_ready_def)
  obtain m1 where a1: "app_segment (SEG_P_PRESENT OR SEG_DPL3 OR SEG_S_NORMAL OR SEG_TYPE_DATA OR SEG_TYPE_RW OR SEG_D) ?s2
      = Inr (of_nat 4 * 8, ?s2\<lparr>gdt_mutex := m1, gdt_table := (gdt_table ?s2)[4 := make_segment_desc 0 0xFFFFFFFF
          (SEG_P_PRESENT OR SEG_DPL3 OR SEG_S_NORMAL OR SEG_TYPE_DATA OR SEG_TYPE_RW OR SEG_D)]\<rparr>)" "mutex_free m1"
    by (rule app_segment_eq [OF r2 f2])
  let ?d = "make_segment_desc 0 0xFFFFFFFF (SEG_P_PRESENT OR SEG_DPL3 OR SEG_S_NORMAL OR SEG_TYPE_DATA OR SEG_TYPE_RW OR SEG_D)"
  let ?s3 = "?s2\<lparr>gdt_mutex := m1, gdt_table := (gdt_table ?s2)[4 := ?d], app_data_sel := of_nat 4 * 8\<rparr>"
  have f3: "gdt_find_free 1 (gdt_table ?s3) = Some 5"
    by (rule gdt_find_free_first)
      (use assms(2) len make_flat_used in \<open>auto simp: GDT_TABLE_SIZE_def nth_list_update\<close>)
  have r3: "gdt_ready ?s3" using assms(1) a1(2) by (simp add: gdt_ready_def)
  obtain m2 where a2: "app_segment (SEG_P_PRESENT OR SEG_DPL3 OR SEG_S_NORMAL OR SEG_TYPE_CODE OR SEG_TYPE_RW OR SEG_D) ?s3
      = Inr (of_nat 5 * 8, ?s3\<lparr>gdt_mutex := m2, gdt_table := (gdt_table ?s3)[5 := make_segment_desc 0 0xFFFFFFFF
          (SEG_P_PRESENT OR SEG_DPL3 OR SEG_S_NORMAL OR SEG_TYPE_CODE OR SEG_TYPE_RW OR SEG_D)]\<rparr>)" "mutex_free m2"
    by (rule app_segment_eq [OF r3 f3])
  have f4: "gdt_find_free 1 (app_gdt (gdt_table s)) = Some 6"
    by (rule gdt_find_free_first)
      (use assms(2) len make_flat_used in \<open>auto simp: GDT_TABLE_SIZE_def nth_list_update app_gdt_def\<close>)
  have e: "task_manager_init env s = bindR (task_init (idle_task s) (lit env ''idle_task'') mem TASK_FLAGS_SYSTEM
      (idle_task_entry env) (idle_task_stack env + IDLE_TASK_SIZE)
      (s\<lparr>tasks := ts, nodes := h, task_table_mutex := mx, app_data_sel := 32, gdt_mutex := m2, gdt_table := app_gdt (gdt_table s),
         app_code_sel := 40, ready_list := list_init, task_list := list_init, sleep_list := list_init, curr_task := 0\<rparr>))
      (\<lambda>_ s. Inr ((), task_start (idle_task s) s))"
    unfolding task_manager_init_def Let_def ct(1) mx(1) option.case a1(1) bindR_Inr a2(1)
    by (simp add: app_gdt_def)
  show thesis by (rule that [OF e]) (use ct mx(2) a2(2) f4 in \<open>simp_all add: slot_def\<close>)
qed

lemma task_start_idle [simp]: "task_start (idle_task s) s = s"
  by (simp add: task_start_def task_set_ready_def irq_defs)

text \<open>The fields that \<^verbatim>\<open>task_manager_init\<close> sets.\<close>

definition tasks_set_up :: "'s kernel_scheme \<Rightarrow> 's kernel_scheme \<Rightarrow> bool" where
  "tasks_set_up s s' \<longleftrightarrow> s' = s\<lparr>tasks := tasks s', nodes := nodes s', task_table_mutex := task_table_mutex s', app_data_sel := 32,
     gdt_mutex := gdt_mutex s', gdt_table := gdt_table s', app_code_sel := 40, ready_list := list_init, task_list := task_list s',
     sleep_list := list_init, curr_task := 0, mem := mem s', paddr_alloc := paddr_alloc s'\<rparr>"

lemma task_manager_init_eq:
  assumes r: "kernel_ready s" "\<And>k. k < GDT_TABLE_SIZE \<Longrightarrow> sd_attr (gdt_table s ! k) = 0 \<longleftrightarrow> k = 0 \<or> 3 < k"
    and "mx_name (task_table_mutex s) = replicate MUTEX_NAME_SIZE 0" and lay: "task_layout T" "idle_task s \<in> T"
    and apart: "\<And>i. i < TASK_NR \<Longrightarrow> slot env i \<noteq> idle_task s" and room: "2 \<le> card (avail (paddr_alloc s))"
  obtains s' ks dir where "task_manager_init env s = Inr ((), s')" "tasks_set_up s s'" "kernel_ready s'"
    "task_lists T s' [] [] [idle_task s]" "mutex_free (task_table_mutex s')"
    "\<And>i. i < TASK_NR \<Longrightarrow> t_name (tasks s' (slot env i)) = replicate TASK_NAME_SIZE 0"
    "gdt_table s' = (app_gdt (gdt_table s))[6 := make_segment_desc (idle_task s + 80) 104 0x89]"
    "t_tss (tasks s' (idle_task s)) = new_tss (idle_task_entry env) (idle_task_stack env + IDLE_TASK_SIZE) ks
       KERNEL_SELECTOR_CS KERNEL_SELECTOR_DS dir"
    "{ks, dir} \<subseteq> avail (paddr_alloc s)" "avail (paddr_alloc s') = avail (paddr_alloc s) - {ks, dir}"
    "\<And>x. page_no x \<noteq> page_no dir \<Longrightarrow> mem s' x = mem s x" "frames (paddr_alloc s') = frames (paddr_alloc s)"
proof -
  have g: "gdt_ready s" and al: "alloc_wf (paddr_alloc s)" and kd: "dir_wf (mem s) (kernel_page_dir s) (paddr_alloc s)"
    using r(1) by (simp_all add: kernel_ready_def)
  let ?i = "idle_task s"
  have idle: "?i \<noteq> 0" "all_node ?i \<noteq> 0" using lay by (auto simp: task_layout_def)
  show thesis
  proof (rule task_manager_prefix [OF g r(2) assms(3), of env], goal_cases)
    case (2 ts h mx gmx)
    note p = this
    let ?s = "s\<lparr>tasks := ts, nodes := h, task_table_mutex := mx, app_data_sel := 32, gdt_mutex := gmx, gdt_table := app_gdt (gdt_table s),
         app_code_sel := 40, ready_list := list_init, task_list := list_init, sleep_list := list_init, curr_task := 0\<rparr>"
    have f: "gdt_find_free 1 (gdt_table ?s) = Some 6" using p(6) by simp
    have rdy: "kernel_ready ?s" using r(1) p(5) by (simp add: kernel_ready_def gdt_ready_def app_gdt_def)
    have l0: "task_lists T ?s [] [] []" using lay by (simp add: task_lists_def sched_rep_def dlist_init)
    show ?case
    proof (rule task_init_full [OF rdy f _ l0 lay(2), of "lit env ''idle_task''" mem TASK_FLAGS_SYSTEM "idle_task_entry env"
        "idle_task_stack env + IDLE_TASK_SIZE"], goal_cases)
      case (3 s2 ks dir)
      note t = this
      have fx: "idle_task s2 = ?i" "kernel_page_dir s2 = kernel_page_dir s" "task_table_mutex s2 = mx"
        "gdt_table s2 = (app_gdt (gdt_table s))[6 := make_segment_desc (?i + 80) 104 0x89]"
        by (subst t(3), simp)+
      have e: "task_manager_init env s = Inr ((), s2)"
        unfolding p(1) t(1) bindR_Inr using task_start_idle [of s2] by (simp add: fx)
      have dir: "{ks, dir} \<subseteq> avail (paddr_alloc s)" "avail (paddr_alloc s2) = avail (paddr_alloc s) - {ks, dir}"
        "\<And>x. page_no x \<noteq> page_no dir \<Longrightarrow> mem s2 x = mem s x" using t(7,10,13) by simp_all
      have nd: "page_no dir \<notin> dir_pages (mem s) (kernel_page_dir s)"
        by (rule dir_pages_apart [OF kd al]) (use dir in simp)
      have "dir_wf (mem s2) (kernel_page_dir s) (paddr_alloc s2)"
      proof (rule dir_wf_cong [OF kd])
        fix x assume "page_no x \<in> dir_pages (mem s) (kernel_page_dir s)"
        then have "page_no x \<noteq> page_no dir" using nd by auto
        then show "mem s2 x = mem s x" by (rule dir(3))
      qed (use dir in auto)
      then have k: "kernel_ready s2" using t(6,17) rdy by (simp add: kernel_ready_def gdt_ready_def fx)
      have n: "t_name (tasks s2 (slot env i)) = replicate TASK_NAME_SIZE 0" if "i < TASK_NR" for i
        using p(2) [OF that] apart [OF that] by (subst t(3)) (simp add: task_zero_def)
      have ts: "tasks s2 = ts(?i := tasks s2 ?i)" by (subst t(3)) simp
      have set: "tasks_set_up s s2" unfolding tasks_set_up_def by (subst t(3)) (simp add: fx flip: ts)
      show ?case
        by (rule that [OF e set k t(2) [unfolded append_Nil] _ n])
          (use p(4) t(4,18) dir fx in \<open>simp_all add: code_selector_def data_selector_def TASK_FLAGS_SYSTEM_def\<close>)
    qed (use room in simp_all)
  qed (use assms in simp_all)
qed

text \<open>
  The tasks of the kernel, and its image at the start: its statically allocated objects are zero, and the
  control blocks of the tasks lie apart.
\<close>

definition kernel_tasks :: "kernel_env \<Rightarrow> 's sched_scheme \<Rightarrow> addr set" where
  "kernel_tasks env s = {idle_task s, first_task s} \<union> slot env ` {..<TASK_NR}"

definition boot_image :: "init_env \<Rightarrow> 's kernel_scheme \<Rightarrow> bool" where
  "boot_image env s \<longleftrightarrow> length (gdt_table s) = GDT_TABLE_SIZE \<and> length (idt_table s) = IDT_TABLE_NO
     \<and> list_all (\<lambda>mx. mx_name mx = replicate MUTEX_NAME_SIZE 0) [gdt_mutex s, log_mutex s, aa_mutex (paddr_alloc s), task_table_mutex s]
     \<and> page_aligned (kernel_page_dir s) \<and> kernel_page_dir s \<noteq> 0 \<and> kernel_page_dir s < MEM_EXT_START
     \<and> task_layout (kernel_tasks (kernel_env.truncate env) s) \<and> first_task s \<noteq> idle_task s
     \<and> (\<forall>i < TASK_NR. slot (kernel_env.truncate env) i \<notin> {idle_task s, first_task s})"

lemma cpu_init_eq:
  assumes "length (gdt_table s) = GDT_TABLE_SIZE" "mx_name (gdt_mutex s) = replicate MUTEX_NAME_SIZE 0"
  obtains mx where "cpu_init a n g e s = Inr ((), lgdt g 2048 (s\<lparr>gdt_mutex := mx, gdt_table := initial_gdt e\<rparr>))" "mutex_free mx"
proof (rule mutex_init_static [OF assms(2), of a n "mem s"])
  fix mx assume "mutex_init a n (gdt_mutex s) (mem s) = Some mx" "mutex_free mx"
  then show thesis using init_gdt_eq [of "s\<lparr>gdt_mutex := mx\<rparr>"] assms(1) by (intro that [of mx]) (simp_all add: cpu_init_def)
qed

lemma log_init_eq:
  assumes "mx_name (log_mutex s) = replicate MUTEX_NAME_SIZE 0"
  obtains mx l where "log_init a n s = Some (s\<lparr>log_mutex := mx, io_log := l\<rparr>)" "mutex_free mx"
proof (rule mutex_init_static [OF assms, of a n "mem s"])
  fix mx assume "mutex_init a n (log_mutex s) (mem s) = Some mx" "mutex_free mx"
  then have "log_init a n s = Some (s\<lparr>log_mutex := mx, io_log := io_log (the (log_init a n s))\<rparr>)" by (simp add: log_init_def outb_def)
  then show thesis using \<open>mutex_free mx\<close> by (rule that)
qed

text \<open>Up to the initialisation of the tasks.\<close>

lemma kernel_init_prefix:
  assumes img: "boot_image env s" and ms: "total_mem_size boot_info = Some ms" "2 ^ 20 + 32 * 4096 \<le> unat ms" "unat ms \<le> 2 ^ 31"
    and sym: "symbols_ok k" and c: "c = (unat ms - 2 ^ 20) div 4096" "unat (mem_free_start k) + (c + 7) div 8 < 2 ^ 19"
    and dev: "pic_ok dev"
  obtains s3 where "kernel_init dev env k h boot_info s = task_manager_init (kernel_env.truncate env) s3" "kernel_ready s3"
    "gdt_table s3 = initial_gdt (syscall_entry env)" "idt_table s3 ! 32 = int_gate (h_timer h)" "sys_tick s3 = 0"
    "\<And>j. j < 16 \<Longrightarrow> line_masked (io_log s3) j \<longleftrightarrow> j \<notin> {0, 2}" "cr3_reg s3 = kernel_page_dir s" "mutex_free (log_mutex s3)"
    "c \<le> card (avail (paddr_alloc s3)) + 32"
    "\<And>n. entry (mem s3) (kernel_page_dir s) n = map_option (\<lambda>p. of_nat (4096 * n) OR p OR PTE_P) (kernel_perm k n)"
    "kernel_page_dir s3 = kernel_page_dir s" "tasks s3 = tasks s" "idle_task s3 = idle_task s" "task_table_mutex s3 = task_table_mutex s"
    "first_task s3 = first_task s" "undef_ret s3 = undef_ret s"
    "\<And>x. x < MEM_EXT_START \<Longrightarrow> page_no x \<noteq> page_no (kernel_page_dir s) \<Longrightarrow> mem s3 x = mem s x"
    "\<And>x. x < MEM_EXT_START \<Longrightarrow> page_no x \<noteq> page_no (kernel_page_dir s) \<Longrightarrow>
       page_no x \<notin> dir_pages (mem s3) (kernel_page_dir s) \<union> page_no ` avail (paddr_alloc s3)"
    "frames (paddr_alloc s3) = (\<lambda>i. MEM_EXT_START + of_nat i * 4096) ` {..<c}"
proof -
  have i: "length (gdt_table s) = GDT_TABLE_SIZE" "length (idt_table s) = 128" "mx_name (gdt_mutex s) = replicate MUTEX_NAME_SIZE 0"
    "mx_name (log_mutex s) = replicate MUTEX_NAME_SIZE 0" "mx_name (aa_mutex (paddr_alloc s)) = replicate MUTEX_NAME_SIZE 0"
    "page_aligned (kernel_page_dir s)" "kernel_page_dir s \<noteq> 0" "kernel_page_dir s < MEM_EXT_START"
    using img by (simp_all add: boot_image_def IDT_TABLE_NO_def)
  have n0: "ram_region_count boot_info \<noteq> 0"
  proof
    assume "ram_region_count boot_info = 0"
    then show False using ms(1,2) by (simp add: total_mem_size_def)
  qed
  obtain m1 where m1: "cpu_init (gdt_mutex_at env) (lit env ''cpu: gdt'') (gdt_at env) (syscall_entry env) s =
      Inr ((), lgdt (gdt_at env) 2048 (s\<lparr>gdt_mutex := m1, gdt_table := initial_gdt (syscall_entry env)\<rparr>))" "mutex_free m1"
    by (rule cpu_init_eq [of s]) (use i in simp_all)
  let ?s1 = "lgdt (gdt_at env) 2048 (s\<lparr>gdt_mutex := m1, gdt_table := initial_gdt (syscall_entry env)\<rparr>)"
  obtain m2 l where m2: "log_init (log_mutex_at env) (lit env ''log'') ?s1 = Some (?s1\<lparr>log_mutex := m2, io_log := l\<rparr>)" "mutex_free m2"
    by (rule log_init_eq [of ?s1]) (use i in \<open>simp_all add: lgdt_def\<close>)
  let ?s2 = "?s1\<lparr>log_mutex := m2, io_log := l\<rparr>"
  have f2: "kernel_page_dir ?s2 = kernel_page_dir s" "paddr_alloc ?s2 = paddr_alloc s" "mem ?s2 = mem s" by (simp_all add: lgdt_def)
  have "mutex_init (alloc_mutex_at env) (lit env ''addr_alloc_t'') (aa_mutex (paddr_alloc ?s2)) (mem ?s2) \<noteq> None"
    by (rule mutex_init_static [of "aa_mutex (paddr_alloc s)" "alloc_mutex_at env" "lit env ''addr_alloc_t''" "mem s"]) (use i f2 in simp_all)
  note mi = memory_init_eq [OF ms sym _ _ _ this c, unfolded f2]
  show thesis
  proof (rule mi, goal_cases)
    case (4 s')
    note r = this
    let ?t = "installed (exception_table h) (replicate 128 (int_gate (h_unknown h)))"
    let ?s4 = "init_pic (lidt (idt_at env) 1024 (s'\<lparr>idt_table := ?t\<rparr>))"
    have idt: "idt_table s' = idt_table s" using arg_cong [OF r(3), of idt_table] by (simp add: lgdt_def)
    then have q: "irq_init (idt_at env) h s' = Inr ((), ?s4)" using irq_init_eq [of s'] i by simp
    have lt: "length (idt_table ?s4) = IDT_TABLE_NO" by (simp add: lidt_def IDT_TABLE_NO_def)
    have e: "kernel_init dev env k h boot_info s = task_manager_init (kernel_env.truncate env) (timer_started dev h ?s4)"
      using n0 by (simp add: kernel_init_def m1(1) m2(1) r(1) q timer_init_eq [OF lt])
    let ?s5 = "timer_started dev h ?s4"
    have io: "?s5 = s'\<lparr>idt_table := ?t[32 := int_gate (h_timer h)], sys_tick := 0, idtr := idtr ?s5, io_log := io_log ?s5\<rparr>"
      by (simp add: timer_started_def lidt_def init_pic_def outb_def Let_def)
    have s': "s' = ?s2\<lparr>mem := mem s', paddr_alloc := paddr_alloc s', cr3_reg := kernel_page_dir s\<rparr>" using r(3) .
    have masks: "line_masked (io_log ?s5) j \<longleftrightarrow> j \<notin> {0, 2}" if "j < 16" for j
      using timer_started_masks(1) [OF dev init_pic_masks(1) [of 0]] init_pic_masks(2) [OF that] by auto
    have f: "gdt_table ?s5 = initial_gdt (syscall_entry env)" "mem ?s5 = mem s'" "paddr_alloc ?s5 = paddr_alloc s'" "cr3_reg ?s5 = kernel_page_dir s"
      "kernel_page_dir ?s5 = kernel_page_dir s" "tasks ?s5 = tasks s" "idle_task ?s5 = idle_task s" "task_table_mutex ?s5 = task_table_mutex s"
      "gdt_mutex ?s5 = m1" "log_mutex ?s5 = m2" "idt_table ?s5 = ?t[32 := int_gate (h_timer h)]" "sys_tick ?s5 = 0"
      "first_task ?s5 = first_task s" "undef_ret ?s5 = undef_ret s"
      by (subst io, subst s', simp add: lgdt_def)+
    have rdy: "kernel_ready ?s5" using r(2) m1(2) by (simp add: kernel_ready_def gdt_ready_def f vm_ok_def initial_gdt_def)
    show ?case
      by (rule that [OF e rdy]) (use masks r(4-9) m2(2) in \<open>simp_all add: f\<close>)
  qed (use i in simp_all)
qed

lemma app_gdt_length [simp]: "length (app_gdt gt) = length gt"
  by (simp add: app_gdt_def)

lemma kernel_init_eq:
  assumes img: "boot_image env s" and ms: "total_mem_size boot_info = Some ms" "2 ^ 20 + 34 * 4096 \<le> unat ms" "unat ms \<le> 2 ^ 31"
    and sym: "symbols_ok k" and c: "c = (unat ms - 2 ^ 20) div 4096" "unat (mem_free_start k) + (c + 7) div 8 < 2 ^ 19"
    and dev: "pic_ok dev"
  obtains s' ks dir where "kernel_init dev env k h boot_info s = Inr ((), s')" "kernel_ready s'"
    "task_lists (kernel_tasks (kernel_env.truncate env) s) s' [] [] [idle_task s]" "mutex_free (task_table_mutex s')" "curr_task s' = 0"
    "\<And>i. i < TASK_NR \<Longrightarrow> t_name (tasks s' (slot (kernel_env.truncate env) i)) = replicate TASK_NAME_SIZE 0"
    "gdt_table s' = (app_gdt (initial_gdt (syscall_entry env)))[6 := make_segment_desc (idle_task s + 80) 104 0x89]"
    "app_code_sel s' = 40" "app_data_sel s' = 32"
    "t_tss (tasks s' (idle_task s)) = new_tss (idle_task_entry env) (idle_task_stack env + IDLE_TASK_SIZE) ks
       KERNEL_SELECTOR_CS KERNEL_SELECTOR_DS dir"
    "c \<le> card (avail (paddr_alloc s')) + 34" "cr3_reg s' = kernel_page_dir s" "kernel_page_dir s' = kernel_page_dir s"
    "\<And>n. entry (mem s') (kernel_page_dir s) n = map_option (\<lambda>p. of_nat (4096 * n) OR p OR PTE_P) (kernel_perm k n)"
    "\<And>j. j < 16 \<Longrightarrow> line_masked (io_log s') j \<longleftrightarrow> j \<notin> {0, 2}" "idt_table s' ! 32 = int_gate (h_timer h)" "sys_tick s' = 0"
    "mutex_free (log_mutex s')" "idle_task s' = idle_task s" "first_task s' = first_task s" "undef_ret s' = undef_ret s"
    "\<And>x. x < MEM_EXT_START \<Longrightarrow> page_no x \<noteq> page_no (kernel_page_dir s) \<Longrightarrow> mem s' x = mem s x"
    "\<And>x. x < MEM_EXT_START \<Longrightarrow> page_no x \<noteq> page_no (kernel_page_dir s) \<Longrightarrow>
       page_no x \<notin> dir_pages (mem s') (kernel_page_dir s) \<union> page_no ` avail (paddr_alloc s')"
    "frames (paddr_alloc s') = (\<lambda>i. MEM_EXT_START + of_nat i * 4096) ` {..<c}"
proof -
  note res = that
  have ms': "2 ^ 20 + 32 * 4096 \<le> unat ms" using ms(2) by simp
  have c34: "34 \<le> c" using ms(2) unfolding c(1) by (simp add: le_div_geq less_eq_div_iff_mult_less_eq)
  let ?T = "kernel_tasks (kernel_env.truncate env) s"
  have apart: "slot (kernel_env.truncate env) i \<noteq> idle_task s" if "i < TASK_NR" for i
    using img that by (auto simp: boot_image_def)
  have nm: "mx_name (task_table_mutex s) = replicate MUTEX_NAME_SIZE 0" and lay: "task_layout ?T"
    using img by (simp_all add: boot_image_def)
  have T: "idle_task s \<in> ?T" by (simp add: kernel_tasks_def)
  show thesis
  proof (rule kernel_init_prefix [OF img ms(1) ms' ms(3) sym c dev, of h], goal_cases)
    case (1 s3)
    note r = this
    show ?case
    proof (rule task_manager_init_eq [where env = "kernel_env.truncate env" and T = ?T, OF r(2)], goal_cases)
      case (1 k) then show ?case unfolding r(3) by (rule initial_gdt_used)
    next
      case 2 show ?case unfolding r(14) by (rule nm)
    next
      case 3 show ?case by (rule lay)
    next
      case 4 show ?case unfolding r(13) by (rule T)
    next
      case (5 i) then show ?case unfolding r(13) by (rule apart)
    next
      case 6 show ?case using r(9) c34 by linarith
    next
      case (7 s' ks dir)
      note t = this
      have set: "s' = s3\<lparr>tasks := tasks s', nodes := nodes s', task_table_mutex := task_table_mutex s', app_data_sel := 32,
          gdt_mutex := gdt_mutex s', gdt_table := gdt_table s', app_code_sel := 40, ready_list := list_init, task_list := task_list s',
          sleep_list := list_init, curr_task := 0, mem := mem s', paddr_alloc := paddr_alloc s'\<rparr>"
        using t(2) by (simp add: tasks_set_up_def)
      have f: "curr_task s' = 0" "app_code_sel s' = 40" "app_data_sel s' = 32" "cr3_reg s' = cr3_reg s3" "kernel_page_dir s' = kernel_page_dir s3"
        "io_log s' = io_log s3" "idt_table s' = idt_table s3" "sys_tick s' = sys_tick s3" "log_mutex s' = log_mutex s3" "idle_task s' = idle_task s3"
        "first_task s' = first_task s3" "undef_ret s' = undef_ret s3"
        by (subst set, simp)+
      have al: "alloc_wf (paddr_alloc s3)" and kd: "dir_wf (mem s3) (kernel_page_dir s) (paddr_alloc s3)"
        using r(2) by (simp_all add: kernel_ready_def r(11))
      have "page_no dir \<notin> dir_pages (mem s3) (kernel_page_dir s)" by (rule dir_pages_apart [OF kd al]) (use t(9) in simp)
      then have D: "mem s' x = mem s3 x" if "page_no x \<in> dir_pages (mem s3) (kernel_page_dir s)" for x using t(11) that by metis
      have ka: "page_aligned (kernel_page_dir s)" using kd by (simp add: dir_wf_def)
      note c3 = dir_cong [OF ka, of "mem s3" "mem s'", OF D]
      have en: "entry (mem s') (kernel_page_dir s) n = entry (mem s3) (kernel_page_dir s) n" for n by (rule c3(3))
      have dp: "dir_pages (mem s') (kernel_page_dir s) = dir_pages (mem s3) (kernel_page_dir s)"
        by (rule dir_pages_same) (use c3 in \<open>auto simp: has_pt_def\<close>)
      have low: "mem s' x = mem s x" "page_no x \<notin> dir_pages (mem s') (kernel_page_dir s) \<union> page_no ` avail (paddr_alloc s')"
        if "x < MEM_EXT_START" "page_no x \<noteq> page_no (kernel_page_dir s)" for x
      proof -
        have o: "page_no x \<notin> dir_pages (mem s3) (kernel_page_dir s) \<union> page_no ` avail (paddr_alloc s3)" by (rule r(18) [OF that])
        then show "page_no x \<notin> dir_pages (mem s') (kernel_page_dir s) \<union> page_no ` avail (paddr_alloc s')" unfolding dp t(10) by blast
        have "page_no x \<noteq> page_no dir" using o t(9) by auto
        then show "mem s' x = mem s x" using t(11) r(17) [OF that] by simp
      qed
      have fin: "finite (avail (paddr_alloc s3))" by (simp add: avail_def)
      have "card {ks, dir} \<le> 2" by (simp add: card_insert_if)
      then have cd: "card (avail (paddr_alloc s3)) \<le> card (avail (paddr_alloc s')) + 2"
        using t(10) diff_card_le_card_Diff [of "{ks, dir}" "avail (paddr_alloc s3)"] by simp
      show ?case
        by (rule res [of s' ks dir], unfold r(1), rule t(1), rule t(3))
          (use t r cd low in \<open>simp_all add: f en kernel_env.defs del: of_nat_mult\<close>)
    qed
  qed
qed

text \<open>C8: Start-up. From an image of the kernel whose statically allocated objects are zero, with the memory that the
  boot loader reports (at least 34 pages above 1 MiB, at most 2 GiB), \<^verbatim>\<open>kernel_init\<close> returns. The kernel runs on its
  own directory, which maps exactly the pages of \<open>kernel_perm\<close>, to themselves; at most 34 of the frames above 1 MiB are in
  use. The descriptor table holds the kernel, system call and application segments and the segment of the idle task, and selector
  56 is the next. The idle task runs in the kernel segments; it is the only task, no task is ready, asleep or
  running, all blocks of the task table are free. Vector 32 leads to the timer and its line is open.\<close>

theorem kernel_init_ready:
  assumes "boot_image env s" "total_mem_size boot_info = Some ms" "2 ^ 20 + 34 * 4096 \<le> unat ms" "unat ms \<le> 2 ^ 31"
    and "symbols_ok k" "c = (unat ms - 2 ^ 20) div 4096" "unat (mem_free_start k) + (c + 7) div 8 < 2 ^ 19" "pic_ok dev"
  shows "\<exists>s' ks dir. kernel_init dev env k h boot_info s = Inr ((), s') \<and> kernel_ready s' \<and> cr3_reg s' = kernel_page_dir s'
    \<and> (\<forall>va. translate (mem s') (kernel_page_dir s') va = (if kernel_perm k (page_no va) = None then None else Some va))
    \<and> c \<le> card (avail (paddr_alloc s')) + 34
    \<and> gdt_table s' = (app_gdt (initial_gdt (syscall_entry env)))[6 := make_segment_desc (idle_task s + 80) 104 0x89]
    \<and> app_code_sel s' = 40 \<and> app_data_sel s' = 32 \<and> gdt_find_free 1 (gdt_table s') = Some 7
    \<and> t_tss (tasks s' (idle_task s)) = new_tss (idle_task_entry env) (idle_task_stack env + IDLE_TASK_SIZE) ks KERNEL_SELECTOR_CS KERNEL_SELECTOR_DS dir
    \<and> task_lists (kernel_tasks (kernel_env.truncate env) s) s' [] [] [idle_task s] \<and> curr_task s' = 0
    \<and> mutex_free (task_table_mutex s') \<and> mutex_free (log_mutex s')
    \<and> (\<forall>i < TASK_NR. t_name (tasks s' (slot (kernel_env.truncate env) i)) ! 0 = 0)
    \<and> idt_table s' ! 32 = int_gate (h_timer h) \<and> sys_tick s' = 0 \<and> (\<forall>j < 16. line_masked (io_log s') j \<longleftrightarrow> j \<notin> {0, 2})"
proof (rule kernel_init_eq [OF assms, of h], goal_cases)
  case (1 s' ks dir)
  note r = this
  have gl: "length (initial_gdt e) = 256" for e by (simp add: initial_gdt_def GDT_TABLE_SIZE_def)
  have "sd_attr (make_segment_desc (idle_task s + 80) 104 0x89) \<noteq> 0" by (simp add: make_segment_desc_def drop_bit_eq_div)
  then have g: "gdt_find_free 1 (gdt_table s') = Some 7"
    unfolding r(7) by (intro gdt_find_free_first)
      (use initial_gdt_used [of _ "syscall_entry env"] make_flat_used gl in \<open>auto simp: GDT_TABLE_SIZE_def app_gdt_def nth_list_update\<close>)
  have nm: "t_name (tasks s' (slot (kernel_env.truncate env) i)) ! 0 = 0" if "i < TASK_NR" for i
    unfolding r(6) [OF that] by (simp add: TASK_NAME_SIZE_def)
  note id = identity_translate(1) [OF r(14)]
  show ?case
    by (rule exI [of _ s'], rule exI [of _ ks], rule exI [of _ dir], intro conjI)
      (use r g nm id in \<open>simp_all del: of_nat_mult\<close>)
qed

text \<open>The blocks of an array of tasks do not overlap.\<close>

lemma task_layout_array:
  assumes "finite T" "card T < 2 ^ 30" "\<And>t. t \<in> T \<Longrightarrow> t \<noteq> 0 \<and> unat t mod 188 = c \<and> unat t + 188 \<le> 2 ^ 32"
  shows "task_layout T"
proof -
  have u: "unat (run_node t) = unat t + 44 \<and> unat (all_node t) = unat t + 52 \<and> unat (wait_node t) = unat t + 60" if "t \<in> T" for t
    using assms(3) [OF that] unat_add_lt [of t 44] unat_add_lt [of t 52] unat_add_lt [of t 60]
    by (simp add: run_node_def all_node_def wait_node_def)
  have d: "unat t + a \<noteq> unat t' + b" if "t \<in> T" "t' \<in> T" "a < b" "b < 188" for t t' a b
  proof
    assume e: "unat t + a = unat t' + b"
    have "(unat t + a) mod 188 = (c + a) mod 188" "(unat t' + b) mod 188 = (c + b) mod 188"
      using assms(3) that(1,2) by (metis mod_add_left_eq)+
    then have "(c + a) mod 188 = (c + b) mod 188" using e by simp
    then have "188 dvd b - a" using that(3) by (metis add_diff_cancel_left le_add1 mod_eq_dvd_iff_nat nat_add_left_cancel_le order_less_imp_le)
    then show False using that(3,4) nat_dvd_not_less [of "b - a" 188] by simp
  qed
  have "run_node t \<noteq> 0 \<and> all_node t \<noteq> 0 \<and> wait_node t \<noteq> 0" if "t \<in> T" for t
    using u [OF that] unat_gt_0 by fastforce
  moreover have "run_node t \<noteq> all_node t' \<and> run_node t \<noteq> wait_node t' \<and> all_node t \<noteq> wait_node t'" if "t \<in> T" "t' \<in> T" for t t'
    using u [OF that(1)] u [OF that(2)] d [OF that, of 44 52] d [OF that, of 44 60] d [OF that, of 52 60] by auto
  ultimately show ?thesis using assms by (auto simp: task_layout_def)
qed

text \<open>A machine at its start: two tasks of the kernel and the task table in an array, 16 MiB of memory.\<close>

definition demo_init_env :: init_env where
  "demo_init_env = kernel_env.extend demo_env (init_env.fields 0x18100 0x18000 0x10100 0x5000 0x6000 0x7000 0x19000)"

definition demo_boot :: kernel where
  "demo_boot = demo_kernel\<lparr>gdt_table := replicate 256 (make_segment_desc 0 0 0), idle_task := 0x3ff44, first_task := 0x3fe88,
     paddr_alloc := demo_alloc\<lparr>aa_mutex := mutex_zero\<rparr>, mem := (\<lambda>_. 0)(0x60000 := 0xcd)\<rparr>"

lemma demo_boot_fields [simp]:
  "mem demo_boot = (\<lambda>_. 0)(0x60000 := 0xcd)" "kernel_page_dir demo_boot = 0x10000" "idle_task demo_boot = 0x3ff44"
  "first_task demo_boot = 0x3fe88" "undef_ret demo_boot = undef_ret demo_kernel"
  by (simp_all add: demo_boot_def)

lemma demo_init_env_fields:
  "kernel_env.truncate demo_init_env = demo_env"
  by (simp add: demo_init_env_def kernel_env.defs init_env.defs)

lemma demo_boot_image: "boot_image demo_init_env demo_boot"
proof -
  have l: "idt_table demo_kernel = replicate 128 (gate_desc_set 0 0 0)" "log_mutex demo_kernel = mutex_zero"
    by (simp_all add: demo_kernel_def demo_fs_def fs_state.defs kernel.defs irq_state.defs demo_irq_def demo_log_def log_state.defs kmem.defs)
  have s: "slot demo_env i = 0x40000 + of_nat (188 * i)" for i by (simp add: slot_def demo_env_def mult.commute)
  have us: "unat (slot demo_env i) = 0x40000 + 188 * i" if "i < 128" for i
    unfolding s using unat_add_lt [of "0x40000" "188 * i"] that by (simp del: of_nat_mult)
  let ?T = "kernel_tasks demo_env demo_boot"
  have T: "?T = {0x3ff44, 0x3fe88} \<union> slot demo_env ` {..<128}" by (simp add: kernel_tasks_def TASK_NR_def)
  have "card ?T \<le> card {0x3ff44, 0x3fe88 :: addr} + card (slot demo_env ` {..<128})" unfolding T by (rule card_Un_le)
  also have "card (slot demo_env ` {..<128}) \<le> 128" using card_image_le [of "{..<128 :: nat}" "slot demo_env"] by simp
  finally have card: "card ?T < 2 ^ 30" by (simp add: card_insert_if)
  have "task_layout ?T"
  proof (rule task_layout_array [OF _ card, of 72])
    show "finite ?T" unfolding T by simp
    fix t assume "t \<in> ?T"
    then consider "t = 0x3ff44 \<or> t = 0x3fe88" | i where "i < 128" "t = slot demo_env i" unfolding T by auto
    then show "t \<noteq> 0 \<and> unat t mod 188 = 72 \<and> unat t + 188 \<le> 2 ^ 32"
    proof cases
      case 2
      then have "unat t = 0x40000 + 188 * i" "i < 128" using us by simp_all
      moreover have "(0x40000 + 188 * i) mod 188 = (72 :: nat)" by simp
      ultimately show ?thesis using unat_gt_0 [of t] by auto
    qed auto
  qed
  moreover have "slot demo_env i \<notin> {0x3ff44, 0x3fe88}" if "i < TASK_NR" for i
    using us [of i] that by (auto simp: TASK_NR_def)
  ultimately show ?thesis
    by (simp add: boot_image_def demo_init_env_fields demo_boot_def l mutex_zero_def GDT_TABLE_SIZE_def IDT_TABLE_NO_def
        page_aligned_def MEM_EXT_START_def)
qed

lemma demo_boot_memory:
  "total_mem_size demo_boot_info = Some 0x1000000" "unat (0x1000000 :: u32) \<le> 2 ^ 31"
  "(3840 :: nat) = (unat (0x1000000 :: u32) - 2 ^ 20) div 4096" "unat (mem_free_start demo_symbols) + (3840 + 7) div 8 < 2 ^ 19"
  by (simp_all add: total_mem_size_def demo_boot_info_def demo_symbols_def)

theorem kernel_init_ready_witness:
  "\<exists>s'. kernel_init demo_device demo_init_env demo_symbols demo_handlers demo_boot_info demo_boot = Inr ((), s')
    \<and> app_code_sel s' = 40 \<and> curr_task s' = 0 \<and> 3806 \<le> card (avail (paddr_alloc s'))"
proof -
  have m: "2 ^ 20 + 34 * 4096 \<le> unat (0x1000000 :: u32)" by simp
  from kernel_init_ready [OF demo_boot_image demo_boot_memory(1) m demo_boot_memory(2) demo_symbols_ok demo_boot_memory(3,4)
      demo_device_ok(1), of demo_handlers]
  show ?thesis by (elim exE conjE) (rule exI, (rule conjI, assumption)+, simp)
qed

end
