(* ===== verification/Start.thy ===== *)
theory Start
  imports Boot Place
begin

text \<open>
  The first task, \<^verbatim>\<open>task_first_init\<close> of \<^verbatim>\<open>source/kernel/core/task.c\<close> and \<^verbatim>\<open>move_to_first_task\<close> of
  \<^verbatim>\<open>source/kernel/init/init.c\<close>: memory of its own with its code, and the return to user mode; and the way from the
  boot loader to there.
\<close>

text \<open>Copying the code of the first task to its address space.\<close>

lemma copy_to_virt_effect:
  assumes "page_aligned (cr3_reg s)" "inj_on dst {..<n}" "\<And>i j. i < n \<Longrightarrow> j < n \<Longrightarrow> a + of_nat i \<noteq> dst j"
    and "\<And>i. i < n \<Longrightarrow> MEMORY_TASK_BASE \<le> d + of_nat i \<and> translate (mem s) (cr3_reg s) (d + of_nat i) = Some (dst i)
      \<and> page_no (dst i) \<notin> dir_pages (mem s) (cr3_reg s)"
  shows "\<exists>m. copy_to_virt n d a s = Inr ((), s\<lparr>mem := m\<rparr>) \<and> (\<forall>i < n. m (dst i) = mem s (a + of_nat i))
    \<and> (\<forall>x. x \<notin> dst ` {..<n} \<longrightarrow> m x = mem s x)"
  using assms
proof (induction n arbitrary: d a s dst)
  case 0
  show ?case by (intro exI [of _ "mem s"]) simp
next
  case (Suc n)
  let ?s = "s\<lparr>mem := (mem s)(dst 0 := mem s a)\<rparr>"
  note z = Suc.prems(4) [of 0, simplified]
  have "\<not> d < MEMORY_TASK_BASE" using z by (simp add: not_less)
  then have v: "vstore d (mem s a) s = Some ?s" using z by (simp add: vstore_def)
  have D: "mem ?s x = mem s x" if "page_no x \<in> dir_pages (mem s) (cr3_reg s)" for x using z that by auto
  have tr: "translate (mem ?s) (cr3_reg s) y = translate (mem s) (cr3_reg s) y" for y
    unfolding translate_eq using dir_cong(3) [OF Suc.prems(1), of "mem s" "mem ?s", OF D] by simp
  note c = dir_cong(1,2) [OF Suc.prems(1), of "mem s" "mem ?s", OF D]
  have dp: "dir_pages (mem ?s) (cr3_reg s) = dir_pages (mem s) (cr3_reg s)"
    by (rule dir_pages_same) (use c in \<open>auto simp: has_pt_def\<close>)
  have sh: "b + 1 + of_nat i = b + of_nat (Suc i)" for b :: addr and i by simp
  have "\<exists>m. copy_to_virt n (d + 1) (a + 1) ?s = Inr ((), ?s\<lparr>mem := m\<rparr>) \<and> (\<forall>i < n. m (dst (Suc i)) = mem ?s (a + 1 + of_nat i))
      \<and> (\<forall>x. x \<notin> (\<lambda>i. dst (Suc i)) ` {..<n} \<longrightarrow> m x = mem ?s x)"
  proof (rule Suc.IH)
    show "inj_on (\<lambda>i. dst (Suc i)) {..<n}" using Suc.prems(2) by (auto simp: inj_on_def)
    show "a + 1 + of_nat i \<noteq> dst (Suc j)" if "i < n" "j < n" for i j
      unfolding sh using Suc.prems(3) that by blast
    show "MEMORY_TASK_BASE \<le> d + 1 + of_nat i \<and> translate (mem ?s) (cr3_reg ?s) (d + 1 + of_nat i) = Some (dst (Suc i))
      \<and> page_no (dst (Suc i)) \<notin> dir_pages (mem ?s) (cr3_reg ?s)" if "i < n" for i
      unfolding sh using Suc.prems(4) [of "Suc i"] that tr dp by simp
  qed (use Suc.prems(1) in simp)
  then obtain m where m: "copy_to_virt n (d + 1) (a + 1) ?s = Inr ((), s\<lparr>mem := m\<rparr>)"
    "\<forall>i < n. m (dst (Suc i)) = mem ?s (a + of_nat (Suc i))" "\<forall>x. x \<notin> (\<lambda>i. dst (Suc i)) ` {..<n} \<longrightarrow> m x = mem ?s x"
    unfolding sh by auto
  have "dst 0 \<notin> (\<lambda>i. dst (Suc i)) ` {..<n}" using Suc.prems(2) by (auto simp: inj_on_def)
  then have "m (dst 0) = mem s a" using m(3) by simp
  moreover have "mem ?s (a + of_nat (Suc i)) = mem s (a + of_nat (Suc i))" if "i < n" for i
    using Suc.prems(3) [of "Suc i" 0] that by (simp add: add.assoc)
  ultimately show ?case using v m
    by (intro exI [of _ m]) (auto simp: All_less_Suc2 lessThan_Suc_eq_insert_0 image_image simp del: of_nat_Suc)
qed

text \<open>
  The code of the first task: \<open>n\<close> bytes, linked for the start of a page in the user half. They lie in the
  image of the kernel, outside of the memory that the allocator gives out and of the page tables.
\<close>

definition first_linked :: "kernel_env \<Rightarrow> nat \<Rightarrow> bool" where
  "first_linked env n \<longleftrightarrow> unat (e_first_task env - s_first_task env) = n \<and> n < 10 * 4096 \<and> s_first_task env \<noteq> 0
     \<and> page_aligned (first_task_entry env) \<and> MEMORY_TASK_BASE \<le> first_task_entry env
     \<and> unat (first_task_entry env) + 10 * 4096 \<le> 2 ^ 32"

definition first_image :: "kernel_env \<Rightarrow> nat \<Rightarrow> 's kernel_scheme \<Rightarrow> bool" where
  "first_image env n s \<longleftrightarrow> first_linked env n
     \<and> (\<forall>i < n. page_no (s_first_task env + of_nat i) \<notin> dir_pages (mem s) (kernel_page_dir s) \<union> page_no ` avail (paddr_alloc s))"

text \<open>
  What such an allocation leaves: the address space is in order, at most \<open>n\<close> frames are gone, and memory has
  changed only in the page of the directory and in frames that were free.
\<close>

definition own_pages :: "nat \<Rightarrow> addr \<Rightarrow> 's kmem_scheme \<Rightarrow> 's kmem_scheme \<Rightarrow> bool" where
  "own_pages n dir s s' \<longleftrightarrow> vm_ok dir s' \<and> frames (paddr_alloc s') = frames (paddr_alloc s) \<and> avail (paddr_alloc s') \<subseteq> avail (paddr_alloc s)
     \<and> card (avail (paddr_alloc s)) \<le> card (avail (paddr_alloc s')) + n
     \<and> (\<forall>x. page_no x \<noteq> page_no dir \<longrightarrow> page_no x \<notin> page_no ` avail (paddr_alloc s) \<longrightarrow> mem s' x = mem s x)
     \<and> dir_pages (mem s') dir \<subseteq> dir_pages (mem s) dir \<union> page_no ` avail (paddr_alloc s)"

text \<open>Ten pages for the first task, and the copy of its code.\<close>

lemma first_task_pages:
  assumes ok: "vm_ok dir s" "0 \<le> sint (undef_ret s)" "\<And>j. has_pt (mem s) dir j \<Longrightarrow> j < 512"
    and cur: "tss_cr3 (t_tss (tasks s (curr_task s))) = dir" "cr3_reg s = dir" and im: "first_image env n s0"
    and src: "\<And>i. i < n \<Longrightarrow> page_no (s_first_task env + of_nat i) \<notin> dir_pages (mem s) dir \<union> page_no ` avail (paddr_alloc s)"
    and room: "12 \<le> card (avail (paddr_alloc s))"
  obtains s' s'' where "memory_alloc_page_for (first_task_entry env) (10 * MEM_PAGE_SIZE) (PTE_P OR PTE_W OR PTE_U) s = Inr (0, s')"
    "copy_to_virt n (first_task_entry env) (s_first_task env) s' = Inr ((), s'')"
    "s'' = s\<lparr>mem := mem s'', paddr_alloc := paddr_alloc s''\<rparr>" "own_pages 12 dir s s''"
    "\<And>n. n < 2 ^ 19 \<Longrightarrow> entry (mem s'') dir n = entry (mem s) dir n"
    "\<And>i. i < 10 * 4096 \<Longrightarrow> \<exists>p. translate (mem s'') dir (first_task_entry env + of_nat i) = Some p \<and> (i < n \<longrightarrow> mem s'' p = mem s (s_first_task env + of_nat i))"
proof -
  let ?b = "first_task_entry env" and ?a = "s_first_task env" and ?pf = "PTE_P OR PTE_W OR PTE_U"
  note im = im [unfolded first_image_def first_linked_def]
  have b: "page_aligned ?b" "unat ?b + 10 * 4096 \<le> 2 ^ 32" "2 ^ 31 \<le> unat ?b" and n: "n < 10 * 4096"
    using im by (simp_all add: MEMORY_TASK_BASE_def word_le_nat_alt)
  have ub: "unat ?b = 4096 * page_no ?b" using b(1) by (auto simp: page_aligned_def page_no_def)
  have pn: "page_no ?b + 10 \<le> 2 ^ 20" "2 ^ 19 \<le> page_no ?b" using b(2,3) unfolding ub by simp_all
  have none: "entry (mem s) dir (page_no ?b + k) = None" for k
  proof -
    have "\<not> (page_no ?b + k) div 1024 < 512" using pn(2) by (simp add: not_less less_eq_div_iff_mult_less_eq)
    then have "\<not> has_pt (mem s) dir ((page_no ?b + k) div 1024)" using ok(3) by blast
    then show ?thesis by (simp add: entry_def)
  qed
  let ?J = "page_tables (page_no ?b) 10"
  have "card (?J - tables (mem s) dir) \<le> card ?J" by (intro card_mono) auto
  then have c: "card (?J - tables (mem s) dir) + 10 \<le> card (avail (paddr_alloc s))"
    using room card_page_tables [of "page_no ?b" 10] by simp
  have w: "unat (?pf OR PTE_P) < 4096" "unat (10 * MEM_PAGE_SIZE) + 4095 < 2 ^ 32" "10 = (unat (10 * MEM_PAGE_SIZE) + 4095) div 4096"
    by (simp_all add: PTE_P_def PTE_W_def PTE_U_def MEM_PAGE_SIZE_def)
  obtain s1 f where r: "memory_alloc_for_page_dir dir ?b (10 * MEM_PAGE_SIZE) ?pf s = Inr (0, s1)" "vm_ok dir s1"
    "grows_in ?J dir s s1" "counted dir 10 s s1" "new_pages dir ?b 10 f s s1"
    "\<forall>n. \<not> (page_no ?b \<le> n \<and> n < page_no ?b + 10) \<longrightarrow> entry (mem s1) dir n = entry (mem s) dir n"
    by (rule memory_alloc_for_page_dir_full [OF ok(1,2) b(1,2) w(2,3) none c w(1)])
  have e1: "memory_alloc_page_for ?b (10 * MEM_PAGE_SIZE) ?pf s = Inr (0, s1)"
    using r(1) by (simp add: memory_alloc_page_for_def task_current_def cur(1))
  note g = grows_in_grows [OF r(3)]
  have gu: "grows_in {512..} dir s s1"
    by (rule grows_in_mono [OF r(3)]) (use pn(2) in \<open>auto simp: page_tables_def less_eq_div_iff_mult_less_eq intro: order_trans\<close>)
  have s1: "s1 = s\<lparr>mem := mem s1, paddr_alloc := paddr_alloc s1\<rparr>" using g by (simp add: grows_def)
  have cr: "cr3_reg s1 = dir" using arg_cong [OF s1, of cr3_reg] cur(2) by simp
  have da: "page_aligned dir" using ok(1) by (simp add: vm_ok_def dir_wf_def)
  let ?dst = "placed_at f"
  note t = new_pages_at [OF r(5)]
  have inj: "inj_on ?dst {..<n}" by (rule inj_on_subset [OF new_pages_inj [OF r(5)]]) (use n in auto)
  have ps: "page_no ` taken s s1 \<subseteq> page_no ` avail (paddr_alloc s)" by (auto simp: taken_def)
  have src1: "mem s1 (?a + of_nat i) = mem s (?a + of_nat i)" if "i < n" for i
    using g src [OF that] unfolding grows_def taken_def by blast
  have "\<exists>m. copy_to_virt n ?b ?a s1 = Inr ((), s1\<lparr>mem := m\<rparr>) \<and> (\<forall>i < n. m (?dst i) = mem s1 (?a + of_nat i))
    \<and> (\<forall>x. x \<notin> ?dst ` {..<n} \<longrightarrow> m x = mem s1 x)"
  proof (rule copy_to_virt_effect [OF _ inj])
    show "page_aligned (cr3_reg s1)" unfolding cr by (rule da)
    show "?a + of_nat i \<noteq> ?dst j" if "i < n" "j < n" for i j
      using src [OF that(1)] t(2) [of j] ps that(2) n by auto
    show "MEMORY_TASK_BASE \<le> ?b + of_nat i \<and> translate (mem s1) (cr3_reg s1) (?b + of_nat i) = Some (?dst i)
      \<and> page_no (?dst i) \<notin> dir_pages (mem s1) (cr3_reg s1)" if "i < n" for i
    proof -
      have i: "i < 10 * 4096" using that n by simp
      have "unat (?b + of_nat i) = unat ?b + i" using unat_add_lt [of ?b i] b(2) i by simp
      then have "MEMORY_TASK_BASE \<le> ?b + of_nat i" using b(3) by (simp add: MEMORY_TASK_BASE_def word_le_nat_alt)
      then show ?thesis unfolding cr using t(1) [OF i] t(3) [OF i] by simp
    qed
  qed
  then obtain m where m: "copy_to_virt n ?b ?a s1 = Inr ((), s1\<lparr>mem := m\<rparr>)" "\<forall>i < n. m (?dst i) = mem s1 (?a + of_nat i)"
    "\<forall>x. x \<notin> ?dst ` {..<n} \<longrightarrow> m x = mem s1 x" by blast
  have D: "m x = mem s1 x" if "page_no x \<in> dir_pages (mem s1) dir" for x
  proof -
    have "x \<notin> ?dst ` {..<n}" using t(3) n that by (metis image_iff lessThan_iff less_trans)
    then show ?thesis using m(3) by blast
  qed
  have en: "entry m dir k = entry (mem s1) dir k" for k by (rule dir_cong(3) [OF da D])
  have tr: "translate m dir x = translate (mem s1) dir x" for x unfolding translate_eq en ..
  have own: "own_pages 12 dir s (s1\<lparr>mem := m\<rparr>)"
  proof -
    have wf: "dir_wf (mem s1) dir (paddr_alloc s1)" and aw: "alloc_wf (paddr_alloc s1)" using r(2) by (simp_all add: vm_ok_def)
    have "dir_wf m dir (paddr_alloc s1)" by (rule dir_wf_cong [OF wf D]) simp_all
    moreover have "dir_pages m dir = dir_pages (mem s1) dir"
      by (rule dir_pages_same) (use dir_cong(1,2) [OF da, of "mem s1" m, OF D] in \<open>auto simp: has_pt_def\<close>)
    moreover have "dir_pages (mem s1) dir \<subseteq> dir_pages (mem s) dir \<union> page_no ` avail (paddr_alloc s)" using g ps unfolding grows_def by blast
    moreover have "m x = mem s x" if x: "page_no x \<noteq> page_no dir" "page_no x \<notin> page_no ` avail (paddr_alloc s)" for x
    proof -
      have "user_tables (mem s) dir = {page_no dir}" using ok(3) by (force simp: table_pages_def)
      then have "user_tables (mem s1) dir \<subseteq> insert (page_no dir) (page_no ` taken s s1)" using gu by (simp add: grows_in_def)
      then have "page_no x \<notin> user_tables (mem s1) dir" using x ps by blast
      moreover have "x \<notin> ?dst ` {..<n}" using t(2) n ps x(2) by (metis image_iff lessThan_iff less_trans subsetD)
      ultimately show ?thesis using m(3) gu by (simp add: grows_in_def)
    qed
    moreover have "card (avail (paddr_alloc s)) \<le> card (avail (paddr_alloc s1)) + 12"
    proof -
      have "card (tables (mem s1) dir) \<le> card (tables (mem s) dir \<union> ?J)" using r(3) by (intro card_mono) (simp_all add: grows_in_def)
      also have "\<dots> \<le> card (tables (mem s) dir) + card ?J" by (rule card_Un_le)
      finally show ?thesis using r(4) card_page_tables [of "page_no ?b" 10] by (simp add: counted_def)
    qed
    ultimately show ?thesis using aw g by (auto simp: own_pages_def vm_ok_def grows_def)
  qed
  show thesis
  proof (rule that [OF e1 m(1)])
    show "s1\<lparr>mem := m\<rparr> = s\<lparr>mem := mem (s1\<lparr>mem := m\<rparr>), paddr_alloc := paddr_alloc (s1\<lparr>mem := m\<rparr>)\<rparr>" by (subst s1) simp
    show "own_pages 12 dir s (s1\<lparr>mem := m\<rparr>)" by (rule own)
    show "entry (mem (s1\<lparr>mem := m\<rparr>)) dir k = entry (mem s) dir k" if "k < 2 ^ 19" for k
      using en r(6) that pn(2) by simp
    show "\<exists>p. translate (mem (s1\<lparr>mem := m\<rparr>)) dir (?b + of_nat i) = Some p \<and> (i < n \<longrightarrow> mem (s1\<lparr>mem := m\<rparr>) p = mem s (?a + of_nat i))"
      if "i < 10 * 4096" for i
      using t(1) [OF that] m(2) src1 by (intro exI [of _ "?dst i"]) (simp add: tr)
  qed
qed

lemma task_start_other [simp]:
  "mem (task_start t s) = mem s" "cr3_reg (task_start t s) = cr3_reg s" "curr_task (task_start t s) = curr_task s"
  "tr_reg (task_start t s) = tr_reg s" "t_tss (tasks (task_start t s) u) = t_tss (tasks s u)"
  "t_tss_sel (tasks (task_start t s) u) = t_tss_sel (tasks s u)" "kernel_page_dir (task_start t s) = kernel_page_dir s"
  "undef_ret (task_start t s) = undef_ret s" "paddr_alloc (task_start t s) = paddr_alloc s"
  by (simp_all add: task_start_def irq_defs task_set_ready_def upd_task_def split: prod.splits)

text \<open>
  The address space of the first task when it runs: it is in order and has the kernel half of the kernel; its directory and
  its kernel stack are frames that were free, at most 14 frames are gone, and memory has changed only in frames
  that were free.
\<close>

definition first_space :: "'s kernel_scheme \<Rightarrow> 's kernel_scheme \<Rightarrow> bool" where
  "first_space s s' \<longleftrightarrow> kernel_page_dir s' = kernel_page_dir s \<and> undef_ret s' = undef_ret s \<and> parent_dir s' = cr3_reg s'
     \<and> vm_ok (cr3_reg s') s' \<and> cr3_reg s' \<in> avail (paddr_alloc s) \<and> frames (paddr_alloc s') = frames (paddr_alloc s)
     \<and> avail (paddr_alloc s') \<subseteq> avail (paddr_alloc s) \<and> card (avail (paddr_alloc s)) \<le> card (avail (paddr_alloc s')) + 14
     \<and> (\<forall>x. page_no x \<notin> page_no ` avail (paddr_alloc s) \<longrightarrow> mem s' x = mem s x)
     \<and> dir_pages (mem s') (cr3_reg s') \<subseteq> dir_pages (mem s) (kernel_page_dir s) \<union> page_no ` avail (paddr_alloc s)
     \<and> (\<forall>n < 2 ^ 19. entry (mem s') (cr3_reg s') n = entry (mem s) (kernel_page_dir s) n)
     \<and> (\<exists>ks \<in> avail (paddr_alloc s). tss_esp0 (t_tss (tasks s' (curr_task s'))) = ks + MEM_PAGE_SIZE
          \<and> page_no ks \<notin> page_no ` avail (paddr_alloc s') \<union> dir_pages (mem s') (cr3_reg s'))"

text \<open>The first task. With a free descriptor and 14 free frames \<^verbatim>\<open>task_first_init\<close> makes the first task
  the running task: the task register names its segment, the processor uses its page directory, and it is
  the last of the ready tasks. Its directory maps the kernel half as the kernel does and ten pages from its entry on,
  which start with its code as it lies in the image of the kernel. \<^verbatim>\<open>move_to_first_task\<close> then
  returns to its entry, in the user segments, with the stack at the end of its pages and interrupts on.\<close>

lemma first_task_starts:
  assumes "kernel_ready s" "0 \<le> sint (undef_ret s)" "gdt_find_free 1 (gdt_table s) \<noteq> None" "14 \<le> card (avail (paddr_alloc s))"
    and "task_lists T s rs ss xs" "first_task s \<in> T" "first_task s \<noteq> idle_task s" "first_task s \<notin> set rs \<union> set ss \<union> set xs"
    and "first_image env n s"
  shows "\<exists>s' dir. task_first_init env s = Inr ((), s') \<and> curr_task s' = first_task s \<and> cr3_reg s' = dir
    \<and> tr_reg s' = ucast (t_tss_sel (tasks s' (first_task s))) \<and> task_lists T s' (rs @ [first_task s]) ss (xs @ [first_task s])
    \<and> (\<forall>va < MEMORY_TASK_BASE. translate (mem s') dir va = translate (mem s) (kernel_page_dir s) va)
    \<and> (\<forall>i < 10 * 4096. \<exists>p. translate (mem s') dir (first_task_entry env + of_nat i) = Some p
         \<and> (i < n \<longrightarrow> mem s' p = mem s (s_first_task env + of_nat i)))
    \<and> move_to_first_task s' = Inr (\<lparr>ir_ss = app_data_sel s OR SEG_RPL3, ir_esp = first_task_entry env + 10 * MEM_PAGE_SIZE,
         ir_eflags = EFLAGS_IF OR EFLAGS_DEFAULT, ir_cs = app_code_sel s OR SEG_RPL3, ir_eip = first_task_entry env\<rparr>,
         write_eflags (EFLAGS_IF OR EFLAGS_DEFAULT) s')
    \<and> first_space s s'"
proof -
  let ?t = "first_task s"
  obtain i where i: "gdt_find_free 1 (gdt_table s) = Some i" using assms(3) by auto
  have t0: "?t \<noteq> 0" using assms(5,6) by (auto simp: task_lists_def sched_rep_def task_layout_def)
  have two: "2 \<le> card (avail (paddr_alloc s))" using assms(4) by simp
  show ?thesis
  proof (rule task_init_full [OF assms(1) i two assms(5,6,8), of "lit env ''first task''" mem TASK_FLAGS_USER
      "first_task_entry env" "first_task_entry env + 10 * MEM_PAGE_SIZE"], goal_cases)
    case (1 s2 ks dir)
    note q = this
    let ?s3 = "s2\<lparr>tr_reg := ucast (t_tss_sel (tasks s2 ?t)), curr_task := ?t, cr3_reg := dir\<rparr>"
    have f2: "first_task s2 = ?t" "undef_ret s2 = undef_ret s" "idle_task s2 = idle_task s" "kernel_page_dir s2 = kernel_page_dir s" by (subst q(3), simp)+
    have sel: "tss_cr3 (t_tss (tasks s2 ?t)) = dir" by (simp add: q(4) new_tss_def)
    have im: "unat (e_first_task env - s_first_task env) = n" "n < 10 * 4096" "s_first_task env \<noteq> 0" "first_task_entry env \<noteq> 0"
      "\<forall>i < n. page_no (s_first_task env + of_nat i) \<notin> dir_pages (mem s) (kernel_page_dir s) \<union> page_no ` avail (paddr_alloc s)"
      using assms(9) by (auto simp: first_image_def first_linked_def MEMORY_TASK_BASE_def)
    have vm: "vm_ok dir ?s3" using q(6,11) by (simp add: vm_ok_def)
    have "finite {ks, dir}" by simp
    then have "card (avail (paddr_alloc s)) \<le> card (avail (paddr_alloc s2)) + card {ks, dir}"
      using diff_card_le_card_Diff [of "{ks, dir}" "avail (paddr_alloc s)"] q(10) by simp
    moreover have "card {ks, dir} \<le> 2" by (simp add: card_insert_if)
    ultimately have gone: "card (avail (paddr_alloc s)) \<le> card (avail (paddr_alloc s2)) + 2" by simp
    then have room: "12 \<le> card (avail (paddr_alloc ?s3))" using assms(4) by simp
    have dd: "dir \<in> avail (paddr_alloc s)" using q(7) by simp
    have src: "page_no (s_first_task env + of_nat i) \<notin> dir_pages (mem ?s3) dir \<union> page_no ` avail (paddr_alloc ?s3)" if "i < n" for i
      using im(5) [rule_format, OF that] q(10,15) dd by auto
    have msrc: "mem s2 (s_first_task env + of_nat i) = mem s (s_first_task env + of_nat i)" if "i < n" for i
      using im(5) [rule_format, OF that] dd by (intro q(13)) auto
    show ?case
    proof (rule first_task_pages [OF vm _ _ _ _ assms(9) src room], goal_cases)
      case 5 then show ?case by assumption
    next
      case (6 s4 s5)
      note p = this
      let ?s' = "task_start ?t s5"
      have cs: "e_first_task env - s_first_task env < 10 * MEM_PAGE_SIZE" using im(1,2) by (simp add: word_less_nat_alt MEM_PAGE_SIZE_def)
      have f5: "first_task s5 = ?t" "idle_task s5 = idle_task s" "tasks s5 = tasks s2" "curr_task s5 = ?t" "cr3_reg s5 = dir"
        "tr_reg s5 = ucast (t_tss_sel (tasks s2 ?t))" "ready_list s5 = ready_list s2" "sleep_list s5 = sleep_list s2" "task_list s5 = task_list s2"
        "nodes s5 = nodes s2" "kernel_page_dir s5 = kernel_page_dir s" "undef_ret s5 = undef_ret s"
        by (subst p(3), simp add: f2)+
      have copy: "(if first_task_entry env = 0 \<or> s_first_task env = 0 \<or> e_first_task env = s_first_task env then Inr ((), s4)
          else copy_to_virt (unat (e_first_task env - s_first_task env)) (first_task_entry env) (s_first_task env) s4) = Inr ((), s5)"
        using p(2) im(1,3,4) by auto
      have e: "task_first_init env s = Inr ((), ?s')"
        using cs by (simp add: task_first_init_def Let_def q(1) f2 sel write_tr_def mmu_set_page_dir_def write_cr3_def p(1) copy f5)
      have l5: "task_lists T s5 rs ss (xs @ [?t])" using q(2) by (simp add: task_lists_def sched_rep_def f5 f2)
      have l: "task_lists T ?s' (rs @ [?t]) ss (xs @ [?t])"
        by (rule task_start_lists [OF l5 assms(6)]) (use assms(7,8) in \<open>simp_all add: f5\<close>)
      have k: "translate (mem s5) dir va = translate (mem s) (kernel_page_dir s) va" if "va < MEMORY_TASK_BASE" for va
      proof -
        have "page_no va < 2 ^ 19" using that user_page_no [of va] by (simp add: not_le [symmetric])
        then show ?thesis using p(5) q(12) by (simp add: translate_eq)
      qed
      have mv: "move_to_first_task ?s' = Inr (\<lparr>ir_ss = app_data_sel s OR SEG_RPL3, ir_esp = first_task_entry env + 10 * MEM_PAGE_SIZE,
         ir_eflags = EFLAGS_IF OR EFLAGS_DEFAULT, ir_cs = app_code_sel s OR SEG_RPL3, ir_eip = first_task_entry env\<rparr>,
         write_eflags (EFLAGS_IF OR EFLAGS_DEFAULT) ?s')"
        using t0 by (simp add: move_to_first_task_def task_current_def f5 q(4) new_tss_def code_selector_def data_selector_def TASK_FLAGS_USER_def Let_def)
      have sp: "first_space s ?s'"
      proof -
        note o = p(4) [unfolded own_pages_def]
        have kw: "alloc_wf (paddr_alloc s)" "dir_wf (mem s) (kernel_page_dir s) (paddr_alloc s)" using assms(1) by (simp_all add: kernel_ready_def)
        have ks: "ks \<in> avail (paddr_alloc s)" "page_aligned ks" "page_aligned dir" using q(7) avail_aligned [OF kw(1)] by auto
        have kn: "page_no ks \<notin> page_no ` avail (paddr_alloc s2)"
          using page_no_inj [OF ks(2) avail_aligned [OF kw(1)]] unfolding q(10) by blast
        have kd: "page_no ks \<noteq> page_no dir" using page_no_inj [OF ks(2,3)] q(9) by blast
        have kk: "page_no ks \<notin> dir_pages (mem s) (kernel_page_dir s)" by (rule dir_pages_apart [OF kw(2,1) ks(1)])
        have dp: "dir_pages (mem s5) dir \<subseteq> insert (page_no dir) (dir_pages (mem s) (kernel_page_dir s)) \<union> page_no ` avail (paddr_alloc s2)"
          using o q(15) by auto
        have en: "entry (mem s5) dir n = entry (mem s) (kernel_page_dir s) n" if "n < 2 ^ 19" for n using p(5) [OF that] q(12) [of n] that by simp
        have m5: "mem s5 x = mem s x" if "page_no x \<notin> page_no ` avail (paddr_alloc s)" for x
        proof -
          have "page_no x \<noteq> page_no dir" "page_no x \<notin> page_no ` avail (paddr_alloc s2)" using that dd unfolding q(10) by auto
          then show ?thesis using o q(13) by simp
        qed
        have fields: "kernel_page_dir ?s' = kernel_page_dir s" "undef_ret ?s' = undef_ret s" "paddr_alloc ?s' = paddr_alloc s5" by (simp_all add: f5)
        have vm5: "vm_ok dir ?s'" using o fields(3) by (simp add: vm_ok_def)
        have esp: "tss_esp0 (t_tss (tasks ?s' ?t)) = ks + MEM_PAGE_SIZE" "parent_dir ?s' = dir"
          by (simp_all add: f5 q(4) new_tss_def parent_dir_def)
        have kp: "page_no ks \<notin> page_no ` avail (paddr_alloc s5) \<union> dir_pages (mem s5) dir" using kn kd kk dp o by auto
        have cd: "card (avail (paddr_alloc s)) \<le> card (avail (paddr_alloc s5)) + 14" using o gone by simp
        have dps: "dir_pages (mem s5) dir \<subseteq> dir_pages (mem s) (kernel_page_dir s) \<union> page_no ` avail (paddr_alloc s)" using dp dd q(10) by auto
        have fa: "frames (paddr_alloc s5) = frames (paddr_alloc s)" "avail (paddr_alloc s5) \<subseteq> avail (paddr_alloc s)" using o q(10,18) by auto
        show ?thesis unfolding first_space_def
          using fields vm5 esp kp cd dps fa en m5 dd ks(1) by (auto simp: f5)
      qed
      show ?case
        by (rule exI [of _ ?s'], rule exI [of _ dir], intro conjI e l mv sp)
          (use p(6) k msrc in \<open>simp_all add: f5\<close>)
        qed (use q(14) assms(2) in \<open>simp_all add: sel f2\<close>)
  qed
qed

text \<open>From the boot loader to the first task: \<^verbatim>\<open>kernel_init\<close>, then \<^verbatim>\<open>task_first_init\<close>.\<close>

lemma start_up_eq:
  assumes "boot_image env s" "total_mem_size boot_info = Some ms" "2 ^ 20 + 48 * 4096 \<le> unat ms" "unat ms \<le> 2 ^ 31"
    and "symbols_ok k" "c = (unat ms - 2 ^ 20) div 4096" "unat (mem_free_start k) + (c + 7) div 8 < 2 ^ 19" "pic_ok dev"
    and "0 \<le> sint (undef_ret s)" "first_linked (kernel_env.truncate env) n"
    and "\<forall>i < n. s_first_task env + of_nat i < MEM_EXT_START \<and> page_no (s_first_task env + of_nat i) \<noteq> page_no (kernel_page_dir s)"
  obtains s1 s2 where "kernel_init dev env k h boot_info s = Inr ((), s1)" "task_first_init (kernel_env.truncate env) s1 = Inr ((), s2)"
    "curr_task s2 = first_task s" "task_lists (kernel_tasks (kernel_env.truncate env) s) s2 [first_task s] [] [idle_task s, first_task s]"
    "\<forall>va < MEMORY_TASK_BASE. translate (mem s2) (cr3_reg s2) va = translate (mem s1) (kernel_page_dir s) va"
    "\<forall>i < 10 * 4096. \<exists>p. translate (mem s2) (cr3_reg s2) (first_task_entry env + of_nat i) = Some p
         \<and> (i < n \<longrightarrow> mem s2 p = mem s (s_first_task env + of_nat i))"
    "move_to_first_task s2 = Inr (\<lparr>ir_ss = 0x23, ir_esp = first_task_entry env + 10 * MEM_PAGE_SIZE,
         ir_eflags = EFLAGS_IF OR EFLAGS_DEFAULT, ir_cs = 0x2b, ir_eip = first_task_entry env\<rparr>,
         write_eflags (EFLAGS_IF OR EFLAGS_DEFAULT) s2)"
    "first_space s1 s2" "kernel_ready s1" "kernel_page_dir s1 = kernel_page_dir s" "undef_ret s1 = undef_ret s"
    "\<And>n. entry (mem s1) (kernel_page_dir s) n = map_option (\<lambda>p. of_nat (4096 * n) OR p OR PTE_P) (kernel_perm k n)"
    "frames (paddr_alloc s1) = (\<lambda>i. MEM_EXT_START + of_nat i * 4096) ` {..<c}" "c \<le> card (avail (paddr_alloc s1)) + 34"
    "\<And>x. x < MEM_EXT_START \<Longrightarrow> page_no x \<noteq> page_no (kernel_page_dir s) \<Longrightarrow> mem s1 x = mem s x"
    "\<And>x. x < MEM_EXT_START \<Longrightarrow> page_no x \<noteq> page_no (kernel_page_dir s) \<Longrightarrow>
       page_no x \<notin> dir_pages (mem s1) (kernel_page_dir s) \<union> page_no ` avail (paddr_alloc s1)"
proof -
  let ?env = "kernel_env.truncate env"
  let ?T = "kernel_tasks ?env s"
  have m: "2 ^ 20 + 34 * 4096 \<le> unat ms" using assms(3) by simp
  have c48: "48 \<le> c" using assms(3) unfolding assms(6) by (simp add: less_eq_div_iff_mult_less_eq)
  have ft: "first_task s \<in> ?T" "first_task s \<noteq> idle_task s" using assms(1) by (auto simp: kernel_tasks_def boot_image_def)
  have env: "s_first_task ?env = s_first_task env" "first_task_entry ?env = first_task_entry env" by (simp_all add: kernel_env.defs)
  show thesis
  proof (rule kernel_init_eq [OF assms(1,2) m assms(4-8), of h], goal_cases)
    case (1 s1 ks dir)
    note r = this
    have gl: "length (initial_gdt e) = 256" for e by (simp add: initial_gdt_def GDT_TABLE_SIZE_def)
    have g: "gdt_find_free 1 (gdt_table s1) \<noteq> None"
      using initial_gdt_used [of 7 "syscall_entry env"] gl unfolding gdt_find_free_None r(7)
      by (auto simp: GDT_TABLE_SIZE_def app_gdt_def nth_list_update intro!: exI [of _ 7])
    have im: "first_image ?env n s1"
      unfolding first_image_def r(13) env using assms(10) r(23) assms(11) by blast
    have room: "14 \<le> card (avail (paddr_alloc s1))" using r(11) c48 by linarith
    have f1: "first_task s1 \<in> ?T" "first_task s1 \<noteq> idle_task s1" "first_task s1 \<notin> set [] \<union> set [] \<union> set [idle_task s]" "0 \<le> sint (undef_ret s1)"
      using ft assms(9) r(19-21) by simp_all
    from first_task_starts [OF r(2) f1(4) g room r(3) f1(1-3) im]
    obtain s2 dir where f: "task_first_init ?env s1 = Inr ((), s2)" "curr_task s2 = first_task s" "cr3_reg s2 = dir"
      "task_lists ?T s2 [first_task s] [] [idle_task s, first_task s]"
      "\<forall>va < MEMORY_TASK_BASE. translate (mem s2) dir va = translate (mem s1) (kernel_page_dir s) va"
      "\<forall>i < 10 * 4096. \<exists>p. translate (mem s2) dir (first_task_entry env + of_nat i) = Some p
         \<and> (i < n \<longrightarrow> mem s2 p = mem s1 (s_first_task env + of_nat i))"
      "move_to_first_task s2 = Inr (\<lparr>ir_ss = 0x23, ir_esp = first_task_entry env + 10 * MEM_PAGE_SIZE,
         ir_eflags = EFLAGS_IF OR EFLAGS_DEFAULT, ir_cs = 0x2b, ir_eip = first_task_entry env\<rparr>,
         write_eflags (EFLAGS_IF OR EFLAGS_DEFAULT) s2)" "first_space s1 s2"
      unfolding r(8,9,13,20) env by (auto simp: SEG_RPL3_def)
    have code: "mem s1 (s_first_task env + of_nat i) = mem s (s_first_task env + of_nat i)" if "i < n" for i
      using r(22) assms(11) that by blast
    have kp: "\<forall>va < MEMORY_TASK_BASE. translate (mem s2) (cr3_reg s2) va = translate (mem s1) (kernel_page_dir s) va" using f(3,5) r(13) by simp
    have cp: "\<forall>i < 10 * 4096. \<exists>p. translate (mem s2) (cr3_reg s2) (first_task_entry env + of_nat i) = Some p
         \<and> (i < n \<longrightarrow> mem s2 p = mem s (s_first_task env + of_nat i))" using f(3,6) code by simp
    show ?case
      by (rule that [OF r(1) f(1,2,4) kp cp f(7,8) r(2,13,21,14,24,11,22,23)])
  qed
qed

lemma demo_first_linked: "first_linked demo_env 0x1000"
  by (simp add: first_linked_def demo_env_def page_aligned_def MEMORY_TASK_BASE_def)

lemma demo_first_low:
  "\<forall>i < 0x1000. s_first_task demo_init_env + of_nat i < MEM_EXT_START \<and> page_no (s_first_task demo_init_env + of_nat i) \<noteq> page_no 0x10000"
proof (intro allI impI)
  fix i :: nat assume i: "i < 0x1000"
  have a: "s_first_task demo_init_env = 0x60000" by (simp add: demo_init_env_def demo_env_def kernel_env.defs init_env.defs)
  have "unat (0x60000 + of_nat i :: addr) = 0x60000 + i" using unat_add_lt [of "0x60000" i] i by simp
  then show "s_first_task demo_init_env + of_nat i < MEM_EXT_START \<and> page_no (s_first_task demo_init_env + of_nat i) \<noteq> page_no 0x10000"
    using i unfolding a by (auto simp: word_less_nat_alt MEM_EXT_START_def page_no_def)
qed

text \<open>C7: From the boot loader to user mode. With at least 48 pages above 1 MiB and the code of the first task in
  low memory, outside of the kernel directory, \<^verbatim>\<open>kernel_init\<close> and \<^verbatim>\<open>task_first_init\<close> return one after the other, and \<^verbatim>\<open>move_to_first_task\<close>
  returns to user mode: to the entry of the first task in the application segments (privilege 3), with its
  stack at the end of ten pages that are mapped from the entry on and interrupts on. In the address space
  in use these pages start with the code as the boot loader placed it, and below \<open>MEMORY_TASK_BASE\<close> every address is
  that of the kernel. The first task is the running task and the only ready one; it and the idle task are all there are.
  The hypothesis on \<open>undef_ret\<close> is for \<^verbatim>\<open>memory_create_map\<close>, whose indeterminate result must not be negative.\<close>

theorem start_up_reaches_user_mode:
  assumes "boot_image env s" "total_mem_size boot_info = Some ms" "2 ^ 20 + 48 * 4096 \<le> unat ms" "unat ms \<le> 2 ^ 31"
    and "symbols_ok k" "c = (unat ms - 2 ^ 20) div 4096" "unat (mem_free_start k) + (c + 7) div 8 < 2 ^ 19" "pic_ok dev"
    and "0 \<le> sint (undef_ret s)" "first_linked (kernel_env.truncate env) n"
    and "\<forall>i < n. s_first_task env + of_nat i < MEM_EXT_START \<and> page_no (s_first_task env + of_nat i) \<noteq> page_no (kernel_page_dir s)"
  shows "\<exists>s1 s2. kernel_init dev env k h boot_info s = Inr ((), s1) \<and> task_first_init (kernel_env.truncate env) s1 = Inr ((), s2)
    \<and> curr_task s2 = first_task s
    \<and> task_lists (kernel_tasks (kernel_env.truncate env) s) s2 [first_task s] [] [idle_task s, first_task s]
    \<and> (\<forall>va < MEMORY_TASK_BASE. translate (mem s2) (cr3_reg s2) va = (if kernel_perm k (page_no va) = None then None else Some va))
    \<and> (\<forall>i < 10 * 4096. \<exists>p. translate (mem s2) (cr3_reg s2) (first_task_entry env + of_nat i) = Some p
         \<and> (i < n \<longrightarrow> mem s2 p = mem s (s_first_task env + of_nat i)))
    \<and> move_to_first_task s2 = Inr (\<lparr>ir_ss = 0x23, ir_esp = first_task_entry env + 10 * MEM_PAGE_SIZE,
         ir_eflags = EFLAGS_IF OR EFLAGS_DEFAULT, ir_cs = 0x2b, ir_eip = first_task_entry env\<rparr>,
         write_eflags (EFLAGS_IF OR EFLAGS_DEFAULT) s2)"
proof (rule start_up_eq [OF assms, of h], goal_cases)
  case (1 s1 s2)
  then show ?case by (intro exI [of _ s1] exI [of _ s2] conjI) (simp_all add: identity_translate(1) del: of_nat_mult)
qed

theorem start_up_reaches_user_mode_witness:
  "\<exists>s1 s2 p. kernel_init demo_device demo_init_env demo_symbols demo_handlers demo_boot_info demo_boot = Inr ((), s1)
    \<and> task_first_init demo_env s1 = Inr ((), s2) \<and> curr_task s2 = 0x3fe88
    \<and> translate (mem s2) (cr3_reg s2) 0x80000000 = Some p \<and> mem s2 p = 0xcd"
proof -
  have m: "2 ^ 20 + 48 * 4096 \<le> unat (0x1000000 :: u32)" by simp
  have u: "0 \<le> sint (undef_ret demo_boot)"
    by (simp add: demo_kernel_def demo_fs_def demo_irq_def demo_log_def demo_kmem_def gdt_state.defs kmem.defs sched.defs log_state.defs
        irq_state.defs fs_state.defs kernel.defs)
  have l: "first_linked (kernel_env.truncate demo_init_env) 0x1000" unfolding demo_init_env_fields by (rule demo_first_linked)
  have e: "first_task_entry demo_init_env = 0x80000000" "s_first_task demo_init_env = 0x60000"
    by (simp_all add: demo_init_env_def demo_env_def kernel_env.defs init_env.defs MEMORY_TASK_BASE_def)
  from start_up_reaches_user_mode [OF demo_boot_image demo_boot_memory(1) m demo_boot_memory(2) demo_symbols_ok demo_boot_memory(3,4)
      demo_device_ok(1) u l demo_first_low [folded demo_boot_fields(2)], of demo_handlers, unfolded demo_init_env_fields e]
  obtain s1 s2 where r: "kernel_init demo_device demo_init_env demo_symbols demo_handlers demo_boot_info demo_boot = Inr ((), s1)"
    "task_first_init demo_env s1 = Inr ((), s2)" "curr_task s2 = 0x3fe88"
    "\<forall>i < 10 * 4096. \<exists>p. translate (mem s2) (cr3_reg s2) (0x80000000 + of_nat i) = Some p
       \<and> (i < 0x1000 \<longrightarrow> mem s2 p = mem demo_boot (0x60000 + of_nat i))" by auto
  have "\<exists>p. translate (mem s2) (cr3_reg s2) 0x80000000 = Some p \<and> mem s2 p = 0xcd" using r(4) [rule_format, of 0] by simp
  with r(1-3) show ?thesis by blast
qed

end
