(* ===== verification/Run.thy ===== *)
theory Run
  imports Exec Start
begin

text \<open>
  From the boot loader to the first program: after \<^verbatim>\<open>kernel_init\<close> and \<^verbatim>\<open>task_first_init\<close> (Boot, Start) the first task is in
  the state in which \<^verbatim>\<open>sys_execve\<close> (Exec) works; and a machine with a program on its disk on which all this runs.
\<close>

text \<open>
  Where the variables of \<^verbatim>\<open>execve\<close> lie. The buffer of the file is a static array: the linker places it in low memory,
  outside of the kernel directory. The headers and the arguments are local variables: they lie on the page of the kernel
  stack, below the frame of the system call, and the two headers, live at the same time, apart from each other.
\<close>

definition locals_fit :: "kernel_env \<Rightarrow> bool" where
  "locals_fit env \<longleftrightarrow> (\<forall>(d, n) \<in> {(elf_hdr_below env, 52), (elf_phdr_below env, 32), (task_args_below env, 12)}. n + 88 \<le> unat d \<and> unat d \<le> 4096)
     \<and> (52 + unat (elf_phdr_below env) \<le> unat (elf_hdr_below env) \<or> 32 + unat (elf_hdr_below env) \<le> unat (elf_phdr_below env))"

definition exec_low :: "kernel_env \<Rightarrow> addr \<Rightarrow> bool" where
  "exec_low env kd \<longleftrightarrow> temp_at env \<noteq> 0 \<and> unat (temp_at env) + FILE_SIZE \<le> 2 ^ 20
     \<and> (\<forall>x \<in> region (temp_at env) FILE_SIZE. page_no x \<noteq> page_no kd) \<and> locals_fit env"

lemma exec_locals_fields:
  "temp_at (exec_locals env s) = temp_at env"
  "elf_hdr_at (exec_locals env s) = tss_esp0 (t_tss (tasks s (curr_task s))) - elf_hdr_below env"
  "elf_phdr_at (exec_locals env s) = tss_esp0 (t_tss (tasks s (curr_task s))) - elf_phdr_below env"
  "task_args_at (exec_locals env s) = tss_esp0 (t_tss (tasks s (curr_task s))) - task_args_below env"
  by (simp_all add: exec_locals_def task_current_def Let_def kernel_env.defs exec_env.defs)

text \<open>Parts of the page of the stack.\<close>

lemma stack_addr:
  assumes "unat d \<le> 4096"
  shows "ks + MEM_PAGE_SIZE - d + of_nat i = ks + of_nat (4096 - unat d + i)"
  using assms by (simp add: MEM_PAGE_SIZE_def of_nat_diff)

lemma stack_region_page:
  assumes "page_aligned ks" "unat d \<le> 4096" "n \<le> unat d" "x \<in> region (ks + MEM_PAGE_SIZE - d) n"
  shows "page_no x = page_no ks"
proof -
  obtain i where "i < n" "x = ks + of_nat (4096 - unat d + i)" using assms(4) by (auto simp: region_def stack_addr [OF assms(2)])
  then show ?thesis using assms(2,3) by (simp only: page_no_offset [OF assms(1)])
qed

lemma stack_regions_apart:
  assumes "unat d \<le> 4096" "unat e \<le> 4096" "n + unat e \<le> unat d" "m \<le> unat e"
  shows "region (ks + MEM_PAGE_SIZE - d) n \<inter> region (ks + MEM_PAGE_SIZE - e) m = {}"
proof (rule equals0I)
  fix x assume x: "x \<in> region (ks + MEM_PAGE_SIZE - d) n \<inter> region (ks + MEM_PAGE_SIZE - e) m"
  then obtain i j where i: "i < n" "x = ks + of_nat (4096 - unat d + i)" and j: "j < m" "x = ks + of_nat (4096 - unat e + j)"
    by (auto simp: region_def stack_addr [OF assms(1)] stack_addr [OF assms(2)])
  have "4096 - unat d + i \<le> 4096" "4096 - unat e + j \<le> 4096" using assms i(1) j(1) by simp_all
  then have b: "4096 - unat d + i < 2 ^ 32" "4096 - unat e + j < 2 ^ 32" by simp_all
  have "(of_nat (4096 - unat d + i) :: u32) = of_nat (4096 - unat e + j)" using i(2) j(2) by simp
  then have "unat (of_nat (4096 - unat d + i) :: u32) = unat (of_nat (4096 - unat e + j) :: u32)" by (rule arg_cong)
  then have "4096 - unat d + i = 4096 - unat e + j" unfolding unat_of_nat_u32 [OF b(1)] unat_of_nat_u32 [OF b(2)] .
  then show False using assms i(1) j(1) by linarith
qed

lemma stack_locals:
  assumes ks: "page_aligned ks" "ks \<noteq> 0" "ks < MEMORY_TASK_BASE" and top: "tss_esp0 (t_tss (tasks s (curr_task s))) = ks + MEM_PAGE_SIZE"
    and B: "exec_low env kd" and apart: "\<forall>x \<in> region (temp_at env) FILE_SIZE. page_no x \<noteq> page_no ks"
  shows "x \<in> buffers (exec_locals env s) \<Longrightarrow> x \<in> region (temp_at env) FILE_SIZE \<or> page_no x = page_no ks"
    and "region (ks + MEM_PAGE_SIZE - frame_size) 88 \<inter> buffers (exec_locals env s) = {}"
    and "exec_linked (exec_locals env s)"
proof -
  note e = exec_locals_fields [of env s, unfolded top]
  have l: "52 + 88 \<le> unat (elf_hdr_below env)" "unat (elf_hdr_below env) \<le> 4096" "32 + 88 \<le> unat (elf_phdr_below env)" "unat (elf_phdr_below env) \<le> 4096"
    "12 + 88 \<le> unat (task_args_below env)" "unat (task_args_below env) \<le> 4096"
    "52 + unat (elf_phdr_below env) \<le> unat (elf_hdr_below env) \<or> 32 + unat (elf_hdr_below env) \<le> unat (elf_phdr_below env)"
    using B by (auto simp: exec_low_def locals_fit_def)
  have a: "unat task_args_size = 12" by simp
  have p: "page_no x = page_no ks" if "x \<in> region (ks + MEM_PAGE_SIZE - elf_hdr_below env) 52 \<union> region (ks + MEM_PAGE_SIZE - elf_phdr_below env) 32
      \<union> region (ks + MEM_PAGE_SIZE - task_args_below env) 12" for x
    using that stack_region_page [OF ks(1) l(2), of 52 x] stack_region_page [OF ks(1) l(4), of 32 x] stack_region_page [OF ks(1) l(6), of 12 x] l by auto
  show bu: "x \<in> region (temp_at env) FILE_SIZE \<or> page_no x = page_no ks" if "x \<in> buffers (exec_locals env s)" for x
    using that p [of x] unfolding buffers_def e a by blast
  have f88: "unat frame_size \<le> 4096" "88 \<le> unat frame_size" "n + unat frame_size = n + 88" for n by simp_all
  have "region (ks + MEM_PAGE_SIZE - frame_size) 88 \<inter> region (temp_at env) FILE_SIZE = {}"
    using apart stack_region_page [OF ks(1) f88(1,2)] by blast
  then show "region (ks + MEM_PAGE_SIZE - frame_size) 88 \<inter> buffers (exec_locals env s) = {}"
    using stack_regions_apart [OF l(2) f88(1) _ f88(2), of 52 ks] stack_regions_apart [OF l(4) f88(1) _ f88(2), of 32 ks]
      stack_regions_apart [OF l(6) f88(1) _ f88(2), of 12 ks] l(1,3,5)
    unfolding buffers_def e a f88(3) by blast
  have nz: "ks + MEM_PAGE_SIZE - d \<noteq> 0" if d: "unat d \<le> 4096" "0 < unat d" for d
  proof
    assume z: "ks + MEM_PAGE_SIZE - d = 0"
    have "ks + MEM_PAGE_SIZE - d \<in> region (ks + MEM_PAGE_SIZE - d) (unat d)" using in_regionI [OF d(2), of "ks + MEM_PAGE_SIZE - d"] by simp
    then have "page_no (ks + MEM_PAGE_SIZE - d) = page_no ks" by (rule stack_region_page [OF ks(1) d(1) order_refl])
    then have "page_no ks = page_no 0" using z by simp
    then have "ks = 0" using page_no_inj [OF ks(1), of 0] by (simp add: page_aligned_def)
    then show False using ks(2) by simp
  qed
  have ub: "unat (ks + MEM_PAGE_SIZE - task_args_below env) + 12 \<le> 2 ^ 31"
  proof -
    obtain k where k: "unat ks = 4096 * k" using ks(1) by (auto simp: page_aligned_def)
    then have "k < 2 ^ 19" using ks(3) by (simp add: MEMORY_TASK_BASE_def word_less_nat_alt)
    then have le: "unat ks + 4096 \<le> 2 ^ 31" using k by simp
    have "ks + MEM_PAGE_SIZE - task_args_below env = ks + of_nat (4096 - unat (task_args_below env))"
      using stack_addr [OF l(6), of ks 0] by simp
    moreover have "unat ks + (4096 - unat (task_args_below env)) < 2 ^ 32" using le by simp
    ultimately have "unat (ks + MEM_PAGE_SIZE - task_args_below env) = unat ks + (4096 - unat (task_args_below env))"
      using unat_add_lt by metis
    then show ?thesis using le l(5) by linarith
  qed
  have "region (ks + MEM_PAGE_SIZE - elf_hdr_below env) 52 \<inter> region (ks + MEM_PAGE_SIZE - elf_phdr_below env) 32 = {}"
    using l(7) stack_regions_apart [OF l(2,4), of 52 32 ks] stack_regions_apart [OF l(4,2), of 32 52 ks] l(1,3) by fastforce
  moreover have "region (ks + MEM_PAGE_SIZE - elf_hdr_below env) 52 \<inter> region (temp_at env) FILE_SIZE = {}"
    "region (ks + MEM_PAGE_SIZE - elf_phdr_below env) 32 \<inter> region (temp_at env) FILE_SIZE = {}"
    using p apart by blast+
  moreover have "temp_at env \<noteq> 0" "unat (temp_at env) + FILE_SIZE \<le> 2 ^ 32" using B by (simp_all add: exec_low_def)
  ultimately show "exec_linked (exec_locals env s)" unfolding exec_linked_def e using nz ub l by simp
qed

text \<open>After start-up the first task may start a program.\<close>

lemma first_space_kernel:
  assumes F: "first_space s1 s2" and K: "kernel_ready s1"
  shows "x \<in> dir_pages (mem s1) (kernel_page_dir s1) \<Longrightarrow> x \<notin> page_no ` avail (paddr_alloc s1)"
    and "dir_wf (mem s2) (kernel_page_dir s2) (paddr_alloc s2)"
    and "dir_pages (mem s2) (kernel_page_dir s2) = dir_pages (mem s1) (kernel_page_dir s1)"
    and "entry (mem s2) (kernel_page_dir s2) n = entry (mem s1) (kernel_page_dir s1) n"
proof -
  note f = F [unfolded first_space_def]
  have aw: "alloc_wf (paddr_alloc s1)" and wf: "dir_wf (mem s1) (kernel_page_dir s1) (paddr_alloc s1)"
    using K by (simp_all add: kernel_ready_def)
  have kp: "kernel_page_dir s2 = kernel_page_dir s1" using f by simp
  show ap: "x \<in> dir_pages (mem s1) (kernel_page_dir s1) \<Longrightarrow> x \<notin> page_no ` avail (paddr_alloc s1)" for x
    using dir_pages_apart [OF wf aw] by auto
  then have D: "mem s2 x = mem s1 x" if "page_no x \<in> dir_pages (mem s1) (kernel_page_dir s1)" for x using f that by blast
  have al: "page_aligned (kernel_page_dir s1)" using wf by (simp add: dir_wf_def)
  note c = dir_cong [OF al, of "mem s1" "mem s2", OF D]
  show "dir_pages (mem s2) (kernel_page_dir s2) = dir_pages (mem s1) (kernel_page_dir s1)"
    unfolding kp by (rule dir_pages_same) (use c(1,2) in \<open>auto simp: has_pt_def\<close>)
  show "entry (mem s2) (kernel_page_dir s2) n = entry (mem s1) (kernel_page_dir s1) n" unfolding kp by (rule c(3))
  show "dir_wf (mem s2) (kernel_page_dir s2) (paddr_alloc s2)"
    unfolding kp by (rule dir_wf_cong [OF wf D]) (use f in auto)
qed

lemma first_task_exec_ready:
  assumes F: "first_space s1 s2" and K: "kernel_ready s1" and u: "0 \<le> sint (undef_ret s1)"
    and B: "exec_low env (kernel_page_dir s1)"
    and low: "\<And>x. x < MEM_EXT_START \<Longrightarrow> page_no x \<noteq> page_no (kernel_page_dir s1) \<Longrightarrow>
       page_no x \<notin> dir_pages (mem s1) (kernel_page_dir s1) \<union> page_no ` avail (paddr_alloc s1)"
  shows "exec_ready (exec_locals env s2) s2" and "page_no ` buffers (exec_locals env s2) \<inter> dir_pages (mem s2) (parent_dir s2) = {}"
    and "page_no (tss_esp0 (t_tss (tasks s2 (curr_task s2))) - MEM_PAGE_SIZE) \<notin> dir_pages (mem s2) (parent_dir s2)"
    and "x \<in> buffers (exec_locals env s2) \<Longrightarrow> x \<in> region (temp_at env) FILE_SIZE \<or> page_no x \<in> page_no ` avail (paddr_alloc s1)"
proof -
  note f = F [unfolded first_space_def]
  let ?buf = "buffers (exec_locals env s2)"
  have aw: "alloc_wf (paddr_alloc s1)" using K by (simp add: kernel_ready_def)
  have bt: "page_no x \<notin> dir_pages (mem s1) (kernel_page_dir s1) \<union> page_no ` avail (paddr_alloc s1)" if x: "x \<in> region (temp_at env) FILE_SIZE" for x
  proof (rule low)
    have b: "unat (temp_at env) + FILE_SIZE \<le> 2 ^ 20" using B by (simp add: exec_low_def)
    then have "unat x < unat (temp_at env) + FILE_SIZE" using region_unat [OF _ x] by simp
    then show "x < MEM_EXT_START" using b by (simp add: word_less_nat_alt MEM_EXT_START_def)
    show "page_no x \<noteq> page_no (kernel_page_dir s1)" using B x by (simp add: exec_low_def)
  qed
  obtain ks where ks: "ks \<in> avail (paddr_alloc s1)" "tss_esp0 (t_tss (tasks s2 (curr_task s2))) = ks + MEM_PAGE_SIZE"
    "page_no ks \<notin> page_no ` avail (paddr_alloc s2) \<union> dir_pages (mem s2) (cr3_reg s2)" using f by blast
  have ka: "page_aligned ks" by (rule avail_aligned [OF aw ks(1)])
  have kf: "ks \<in> frames (paddr_alloc s1)" using ks(1) avail_frames by blast
  have kv: "ks \<noteq> 0" "ks < MEMORY_TASK_BASE" using frames_valid [OF aw kf] kf frames_valid [OF aw] by auto
  have tk: "\<forall>x \<in> region (temp_at env) FILE_SIZE. page_no x \<noteq> page_no ks" using bt ks(1) by blast
  note L = stack_locals [OF ka kv ks(2) B tk]
  show bk: "x \<in> ?buf \<Longrightarrow> x \<in> region (temp_at env) FILE_SIZE \<or> page_no x \<in> page_no ` avail (paddr_alloc s1)" for x
    using L(1) [of x] ks(1) by auto
  note k = first_space_kernel [OF F K]
  have cr: "cr3_reg s2 \<in> avail (paddr_alloc s1)" "parent_dir s2 = cr3_reg s2" using f by simp_all
  have "cr3_reg s2 \<in> frames (paddr_alloc s1)" using cr(1) avail_frames by blast
  then have crn: "cr3_reg s2 \<noteq> 0" using frames_valid [OF aw] by auto
  have nk: "page_no ks \<notin> dir_pages (mem s2) (kernel_page_dir s2)" using k(1) [of "page_no ks"] ks(1) unfolding k(3) by blast
  have sub: "page_no ` avail (paddr_alloc s2) \<subseteq> page_no ` avail (paddr_alloc s1)" using f by (intro image_mono) simp
  have eb: "exec_buffers (exec_locals env s2) s2"
  proof -
    have "page_no x \<notin> page_no ` avail (paddr_alloc s2) \<union> dir_pages (mem s2) (kernel_page_dir s2)" if x: "x \<in> ?buf" for x
    proof (cases "x \<in> region (temp_at env) FILE_SIZE")
      case True
      from bt [OF this] show ?thesis using sub unfolding k(3) by blast
    next
      case False
      then have "page_no x = page_no ks" using L(1) [OF x] by blast
      then show ?thesis using ks(3) nk by simp
    qed
    then show ?thesis unfolding exec_buffers_def using L(3) by blast
  qed
  show "exec_ready (exec_locals env s2) s2"
    unfolding exec_ready_def
    by (intro conjI exI [of _ ks] ka ks(2) L(2) eb k(2)) (use f u cr crn avail_aligned [OF aw cr(1)] ks(3) nk in \<open>simp_all add: vm_ok_def\<close>)
  show "page_no ` ?buf \<inter> dir_pages (mem s2) (parent_dir s2) = {}"
  proof -
    have "page_no x \<notin> dir_pages (mem s2) (cr3_reg s2)" if x: "x \<in> ?buf" for x
    proof (cases "x \<in> region (temp_at env) FILE_SIZE")
      case True
      from bt [OF this] show ?thesis using f by blast
    next
      case False
      then have "page_no x = page_no ks" using L(1) [OF x] by blast
      then show ?thesis using ks(3) by simp
    qed
    then show ?thesis unfolding cr(2) by blast
  qed
  show "page_no (tss_esp0 (t_tss (tasks s2 (curr_task s2))) - MEM_PAGE_SIZE) \<notin> dir_pages (mem s2) (parent_dir s2)"
    unfolding cr(2) ks(2) using ks(3) by simp
qed

lemma first_task_kernel_half:
  assumes F: "first_space s1 s2" and K: "kernel_ready s1" and u: "0 \<le> sint (undef_ret s1)"
    and B: "exec_low env (kernel_page_dir s1)"
    and low: "\<And>x. x < MEM_EXT_START \<Longrightarrow> page_no x \<noteq> page_no (kernel_page_dir s1) \<Longrightarrow>
       page_no x \<notin> dir_pages (mem s1) (kernel_page_dir s1) \<union> page_no ` avail (paddr_alloc s1)"
    and id: "\<And>p. p \<in> frames (paddr_alloc s1) \<Longrightarrow> translate (mem s1) (kernel_page_dir s1) p = Some p"
    and small: "\<And>p. p \<in> frames (paddr_alloc s1) \<Longrightarrow> pde_index p = 0"
  shows "on_kernel_half (exec_locals env s2) s2"
proof -
  note f = F [unfolded first_space_def]
  note k = first_space_kernel [OF F K] and r = first_task_exec_ready [OF F K u B low]
  have "translate (mem s2) (kernel_page_dir s2) p = Some p" if "p \<in> frames (paddr_alloc s1)" for p
    using id [OF that] by (simp add: translate_eq k(4))
  moreover have "pde_index (parent_dir s2) = 0"
    using small [of "parent_dir s2"] f avail_frames [of "paddr_alloc s1"] by auto
  moreover have "pt_entry (mem s2) (parent_dir s2) va = pt_entry (mem s2) (kernel_page_dir s2) va" if "va < MEMORY_TASK_BASE" for va
    using f k(4) that user_page_no [of va] by (simp add: pt_entry_eq not_le [symmetric])
  ultimately show ?thesis
    unfolding on_kernel_half_def using r(2,3) f by (simp add: vm_ok_def)
qed

text \<open>A program on a disk, and a machine of 4 MiB with that disk whose memory holds its name and its arguments.\<close>

definition prog_file :: "nat \<Rightarrow> u8" where
  "prog_file = (\<lambda>_. 0)(0 := 0x7F, 1 := 69, 2 := 76, 3 := 70, 27 := 0x80, 28 := 52, 42 := 32, 44 := 1,
     52 := 1, 56 := 84, 63 := 0x80, 68 := 4, 72 := 8, 84 := 0xAA)"

definition prog_disk :: "nat \<Rightarrow> u8" where
  "prog_disk i = prog_file (i - 2560000)"

definition prog_phdr :: Elf32_Phdr where
  "prog_phdr = \<lparr>p_type = 1, p_offset = 84, p_vaddr = 0x80000000, p_paddr = 0, p_filesz = 4, p_memsz = 8, p_flags = 0, p_align = 0\<rparr>"

definition disk_device :: "(nat \<Rightarrow> u8) \<Rightarrow> device" where
  "disk_device disk h p = (if p = 0x1f0 then disk_word disk (word_pos (ata h)) else if p = 0x1f7 then 0x08 else demo_device h p)"

abbreviation prog_device :: device where "prog_device \<equiv> disk_device prog_disk"

definition prog_boot_info :: boot_info_t where
  "prog_boot_info = \<lparr>ram_region_cfg = [\<lparr>rr_start = 0, rr_size = 0x400000\<rparr>], ram_region_count = 1\<rparr>"

definition prog_boot :: kernel where
  "prog_boot = demo_boot\<lparr>mem := (\<lambda>_. 0)(0x60000 := 0xcd, 0x3000 := 47, 0x3001 := 120, 0x4001 := 0x30)\<rparr>"

lemma prog_image: "exec_image prog_disk a = prog_file (unat a)"
  by (simp add: exec_image_def prog_disk_def SECTOR_SIZE_def)

lemma prog_headers:
  "exec_header prog_disk = \<lparr>e_ident = [0x7F, 69, 76, 70, 0, 0, 0, 0, 0, 0, 0, 0, 0, 0, 0, 0], e_type = 0,
     e_machine = 0, e_version = 0, e_entry = 0x80000000, e_phoff = 52, e_shoff = 0, e_flags = 0, e_ehsize = 0,
     e_phentsize = 32, e_phnum = 1, e_shentsize = 0, e_shnum = 0, e_shstrndx = 0\<rparr>"
  "exec_phdr prog_disk 0 = prog_phdr"
proof -
  have b: "load_bytes (exec_image prog_disk) 0 16 = [0x7F, 69, 76, 70, 0, 0, 0, 0, 0, 0, 0, 0, 0, 0, 0, 0]"
    by (simp add: prog_image load_bytes_def upt_rec prog_file_def)
  show h: "exec_header prog_disk = \<lparr>e_ident = [0x7F, 69, 76, 70, 0, 0, 0, 0, 0, 0, 0, 0, 0, 0, 0, 0], e_type = 0,
     e_machine = 0, e_version = 0, e_entry = 0x80000000, e_phoff = 52, e_shoff = 0, e_flags = 0, e_ehsize = 0,
     e_phentsize = 32, e_phnum = 1, e_shentsize = 0, e_shnum = 0, e_shstrndx = 0\<rparr>"
    unfolding exec_header_def read_ehdr_def by (simp add: b EI_NIDENT_def load16_def load32_def prog_image prog_file_def)
  show "exec_phdr prog_disk 0 = prog_phdr"
    by (simp add: exec_phdr_def exec_phoff_def h read_phdr_def load32_def prog_image prog_file_def prog_phdr_def)
qed

lemma prog_exec: "exec_program prog_disk prog_phdr" "seg_pages prog_phdr = 1"
proof -
  have so: "segment_ok prog_phdr"
    by (simp add: segment_ok_def prog_phdr_def PT_LOAD_def page_aligned_def MEMORY_TASK_BASE_def stack_bottom_page(1) file_size word_le_nat_alt)
  show "exec_program prog_disk prog_phdr"
    unfolding exec_program_def prog_headers(1)
    by (intro conjI so exI [of _ 0]) (simp_all add: prog_headers elf_ident_ok_def ELF_MAGIC_def exec_phoff_def file_size)
  show "seg_pages prog_phdr = 1" by (simp add: seg_pages_def prog_phdr_def)
qed

lemma prog_device_ok: "pic_ok (disk_device disk)" "ata_ok disk (disk_device disk)"
proof -
  have "PIC0_IMR \<noteq> 0x1f0" "PIC1_IMR \<noteq> 0x1f0" "PIC0_IMR \<noteq> 0x1f7" "PIC1_IMR \<noteq> 0x1f7" by (simp_all add: pic_consts)
  then show "pic_ok (disk_device disk)" using demo_device_ok(1) by (simp add: pic_ok_def disk_device_def)
  show "ata_ok disk (disk_device disk)" by (simp add: ata_ok_def disk_device_def)
qed

lemma demo_exec_low: "exec_low demo_env 0x10000"
proof -
  have t: "temp_at demo_env = 0x1a000" by (simp add: demo_env_def)
  have r: "0x1a000 \<le> unat x" if "x \<in> region 0x1a000 FILE_SIZE" for x using region_unat [OF _ that] by (simp add: file_size)
  have "page_no x \<noteq> page_no 0x10000" if "x \<in> region 0x1a000 FILE_SIZE" for x using r [OF that] by (simp add: page_no_def)
  moreover have "locals_fit demo_env" by (simp add: locals_fit_def demo_env_def)
  ultimately show ?thesis unfolding exec_low_def t by (simp add: file_size)
qed

text \<open>Low memory is not touched by start-up, and the first task reads it as it is.\<close>

lemma first_task_quiet:
  assumes F: "first_space s1 s2" and K: "kernel_ready s1" and u: "0 \<le> sint (undef_ret s1)"
    and B: "exec_low env (kernel_page_dir s1)"
    and low: "\<And>x. x < MEM_EXT_START \<Longrightarrow> page_no x \<noteq> page_no (kernel_page_dir s1) \<Longrightarrow>
       page_no x \<notin> dir_pages (mem s1) (kernel_page_dir s1) \<union> page_no ` avail (paddr_alloc s1)"
    and x: "x < MEM_EXT_START" "page_no x \<noteq> page_no (kernel_page_dir s1)" "x \<notin> region (temp_at env) FILE_SIZE"
  shows "quiet (exec_locals env s2) s2 x" and "vbytes s2 x = mem s1 x"
proof -
  note f = F [unfolded first_space_def]
  have b: "x < MEMORY_TASK_BASE" using x(1) by (simp add: word_less_nat_alt MEM_EXT_START_def MEMORY_TASK_BASE_def)
  have n: "page_no x \<notin> page_no ` avail (paddr_alloc s1)" using low [OF x(1,2)] by blast
  then have m: "page_no x \<notin> page_no ` avail (paddr_alloc s2)" "mem s2 x = mem s1 x" using f by auto
  have nb: "x \<notin> buffers (exec_locals env s2)" using first_task_exec_ready(4) [OF F K u B low, of x] x(3) n by blast
  show "quiet (exec_locals env s2) s2 x" using b m(1) nb by (simp add: quiet_def vload_def)
  show "vbytes s2 x = mem s1 x" using b m(2) by (simp add: vbytes_def vload_def)
qed

lemma small_frames:
  assumes "c = (unat ms - 2 ^ 20) div 4096" "unat ms \<le> 2 ^ 22" "p \<in> (\<lambda>i. MEM_EXT_START + of_nat i * 4096) ` {..<c}"
  shows "kernel_perm k (page_no p) \<noteq> None" and "pde_index p = 0"
proof -
  obtain i where i: "i < c" "p = MEM_EXT_START + of_nat i * 4096" using assms(3) by auto
  have "c \<le> 768" unfolding assms(1) using div_le_mono [of "unat ms - 2 ^ 20" "768 * 4096" 4096] assms(2) by simp
  then have i7: "i < 768" using i(1) by simp
  have "p = MEM_EXT_START + of_nat (4096 * i)" using i(2) by (simp add: mult.commute)
  then have u: "unat p = 2 ^ 20 + 4096 * i" using unat_add_lt [of MEM_EXT_START "4096 * i"] i7 by (simp add: MEM_EXT_START_def del: of_nat_mult)
  have pn: "page_no p = 256 + i" unfolding page_no_def u by simp
  show "kernel_perm k (page_no p) \<noteq> None" unfolding pn kernel_perm_def using i7 by simp
  have "unat (pde_index p) = 0" unfolding unat_pde_index pn using i7 by simp
  then show "pde_index p = 0" by (simp add: unat_eq_0)
qed

text \<open>Start-up leads to a state in which the first task may start a program.\<close>

lemma start_up_exec_ready:
  assumes "boot_image env s" "total_mem_size boot_info = Some ms" "2 ^ 20 + 48 * 4096 \<le> unat ms" "unat ms \<le> 2 ^ 22"
    and "symbols_ok k" "c = (unat ms - 2 ^ 20) div 4096" "unat (mem_free_start k) + (c + 7) div 8 < 2 ^ 19" "pic_ok dev"
    and "0 \<le> sint (undef_ret s)" "first_linked (kernel_env.truncate env) n"
    and "\<forall>i < n. s_first_task env + of_nat i < MEM_EXT_START \<and> page_no (s_first_task env + of_nat i) \<noteq> page_no (kernel_page_dir s)"
    and "exec_low (kernel_env.truncate env) (kernel_page_dir s)"
  obtains s1 s2 where "kernel_init dev env k h boot_info s = Inr ((), s1)" "task_first_init (kernel_env.truncate env) s1 = Inr ((), s2)"
    "curr_task s2 = first_task s" "exec_ready (exec_locals (kernel_env.truncate env) s2) s2" "on_kernel_half (exec_locals (kernel_env.truncate env) s2) s2"
    "c \<le> card (avail (paddr_alloc s2)) + 48" "frames (paddr_alloc s2) = (\<lambda>i. MEM_EXT_START + of_nat i * 4096) ` {..<c}"
    "\<forall>x. x < MEM_EXT_START \<longrightarrow> page_no x \<noteq> page_no (kernel_page_dir s) \<longrightarrow> x \<notin> region (temp_at env) FILE_SIZE \<longrightarrow>
       quiet (exec_locals (kernel_env.truncate env) s2) s2 x \<and> vbytes s2 x = mem s x"
proof -
  have m31: "unat ms \<le> 2 ^ 31" using assms(4) by simp
  show thesis
  proof (rule start_up_eq [OF assms(1-3) m31 assms(5-11), of h], goal_cases)
    case (1 s1 s2)
    note r = this
    note low = r(16) [folded r(10)]
    have u: "0 \<le> sint (undef_ret s1)" using assms(9) r(11) by simp
    have B: "exec_low (kernel_env.truncate env) (kernel_page_dir s1)" using assms(12) r(10) by simp
    have te: "temp_at (kernel_env.truncate env) = temp_at env" by (simp add: kernel_env.defs)
    have fr: "frames (paddr_alloc s2) = frames (paddr_alloc s1)" "card (avail (paddr_alloc s1)) \<le> card (avail (paddr_alloc s2)) + 14"
      using r(8) by (simp_all add: first_space_def)
    note sm = small_frames [OF assms(6,4)]
    have id: "translate (mem s1) (kernel_page_dir s1) p = Some p" if "p \<in> frames (paddr_alloc s1)" for p
      using identity_translate(1) [OF r(12)] sm(1) [of p k] that unfolding r(10,13) by simp
    have z: "pde_index p = 0" if "p \<in> frames (paddr_alloc s1)" for p using sm(2) that unfolding r(13) by blast
    note er = first_task_exec_ready(1) [OF r(8,9) u B low]
    note kh = first_task_kernel_half [OF r(8,9) u B low id z]
    have q: "quiet (exec_locals (kernel_env.truncate env) s2) s2 x \<and> vbytes s2 x = mem s x"
      if "x < MEM_EXT_START" "page_no x \<noteq> page_no (kernel_page_dir s)" "x \<notin> region (temp_at env) FILE_SIZE" for x
      using first_task_quiet [OF r(8,9) u B low _ _ that(3) [folded te]] that(1,2) r(10,15) by simp
    show ?case
      by (rule that [OF r(1-3) er kh]) (use r(13,14) fr q in simp_all)
  qed
qed

text \<open>C4: From the boot loader to the first program, on a machine with at most 4 MiB. The linker places the buffer of the file
  in low memory, outside of the kernel directory, and the compiler the local variables of \<^verbatim>\<open>execve\<close> on the page of the kernel stack, below
  the frame of the system call; the stack itself is a frame above 1 MiB, taken by \<^verbatim>\<open>tss_init\<close>. After \<^verbatim>\<open>kernel_init\<close> and \<^verbatim>\<open>task_first_init\<close>
  the first task may call \<^verbatim>\<open>execve\<close>: for every program on the disk and all arguments that it can name and the frames suffice for, the
  call returns 0; the first task is still the running task and returns to the entry of the program, which finds its
  arguments at the top of its stack. But every frame above 1 MiB is then free, the directory of the running task included.\<close>

theorem start_up_then_execve:
  assumes "boot_image env s" "total_mem_size boot_info = Some ms" "2 ^ 20 + 48 * 4096 \<le> unat ms" "unat ms \<le> 2 ^ 22"
    and "symbols_ok k" "c = (unat ms - 2 ^ 20) div 4096" "unat (mem_free_start k) + (c + 7) div 8 < 2 ^ 19" "pic_ok dev" "ata_ok disk dev"
    and "0 \<le> sint (undef_ret s)" "first_linked (kernel_env.truncate env) n" "exec_low (kernel_env.truncate env) (kernel_page_dir s)"
    and "\<forall>i < n. s_first_task env + of_nat i < MEM_EXT_START \<and> page_no (s_first_task env + of_nat i) \<noteq> page_no (kernel_page_dir s)"
  shows "\<exists>s1 s2. kernel_init dev env k h boot_info s = Inr ((), s1) \<and> task_first_init (kernel_env.truncate env) s1 = Inr ((), s2)
    \<and> c \<le> card (avail (paddr_alloc s2)) + 48
    \<and> (\<forall>name path argv args ph envp. can_exec disk (exec_locals (kernel_env.truncate env) s2) name path argv args ph s2 \<longrightarrow>
        (\<exists>s3. sys_execve dev (kernel_env.truncate env) name argv envp s2 = Some (Inr (0, s3)) \<and> curr_task s3 = first_task s
          \<and> sf_eip (parent_frame s3) = e_entry (exec_header disk) \<and> args_at stack_top args (ubytes (mem s3) (cr3_reg s3))
          \<and> avail (paddr_alloc s3) = (\<lambda>i. MEM_EXT_START + of_nat i * 4096) ` {..<c} \<and> cr3_reg s3 \<in> avail (paddr_alloc s3)))"
proof (rule start_up_exec_ready [OF assms(1-8,10,11,13,12), of h], goal_cases)
  case (1 s1 s2)
  note r = this
  have ex: "\<exists>s3. sys_execve dev (kernel_env.truncate env) name argv envp s2 = Some (Inr (0, s3)) \<and> curr_task s3 = first_task s
      \<and> sf_eip (parent_frame s3) = e_entry (exec_header disk) \<and> args_at stack_top args (ubytes (mem s3) (cr3_reg s3))
      \<and> avail (paddr_alloc s3) = (\<lambda>i. MEM_EXT_START + of_nat i * 4096) ` {..<c} \<and> cr3_reg s3 \<in> avail (paddr_alloc s3)"
    if C: "can_exec disk (exec_locals (kernel_env.truncate env) s2) name path argv args ph s2" for name path argv args ph envp
  proof (rule sys_execve_frees_all [OF refl r(4) assms(9) C r(5), of envp], goal_cases)
    case (1 D s3 f F)
    note e = this
    show ?case by (intro exI [of _ s3] conjI e(1)) (use e r(3,7) in \<open>simp_all add: exec_regs_def\<close>)
  qed
  show ?case by (intro exI [of _ s1] exI [of _ s2] conjI r(1,2,6)) (use ex in blast)
qed

lemma prog_boot_fields [simp]:
  "kernel_page_dir prog_boot = 0x10000" "idle_task prog_boot = 0x3ff44" "first_task prog_boot = 0x3fe88" "undef_ret prog_boot = undef_ret demo_kernel"
  "mem prog_boot = (\<lambda>_. 0)(0x60000 := 0xcd, 0x3000 := 47, 0x3001 := 120, 0x4001 := 0x30)"
  by (simp_all add: prog_boot_def)

lemma prog_boot_image: "boot_image demo_init_env prog_boot"
  using demo_boot_image by (simp add: boot_image_def prog_boot_def kernel_tasks_def)

lemma prog_memory:
  "total_mem_size prog_boot_info = Some 0x400000" "2 ^ 20 + 48 * 4096 \<le> unat (0x400000 :: u32)" "unat (0x400000 :: u32) \<le> 2 ^ 22"
  "(768 :: nat) = (unat (0x400000 :: u32) - 2 ^ 20) div 4096" "unat (mem_free_start demo_symbols) + (768 + 7) div 8 < 2 ^ 19"
  by (simp_all add: total_mem_size_def prog_boot_info_def demo_symbols_def)

lemma demo_undef: "0 \<le> sint (undef_ret prog_boot)"
  by (simp add: demo_kernel_def demo_fs_def demo_irq_def demo_log_def demo_kmem_def gdt_state.defs kmem.defs sched.defs log_state.defs
      irq_state.defs fs_state.defs kernel.defs)

lemma demo_temp: "temp_at demo_init_env = 0x1a000"
  by (simp add: demo_init_env_def demo_env_def kernel_env.defs init_env.defs)

lemma prog_can_call:
  assumes q: "\<forall>x. x < MEM_EXT_START \<longrightarrow> page_no x \<noteq> page_no 0x10000 \<longrightarrow> x \<notin> region 0x1a000 FILE_SIZE \<longrightarrow> quiet env s x \<and> vbytes s x = mem prog_boot x"
  shows "can_call env 0x3000 [120] 0x4000 [[47, 120]] s"
proof -
  have q1: "quiet env s x \<and> vbytes s x = mem prog_boot x" if "unat x < 0x10000" for x
  proof -
    have "x \<notin> region 0x1a000 FILE_SIZE" using region_unat [of "0x1a000" FILE_SIZE x] that by (auto simp: file_size)
    moreover have "x < MEM_EXT_START" "page_no x \<noteq> page_no 0x10000" using that by (auto simp: word_less_nat_alt MEM_EXT_START_def page_no_def)
    ultimately show ?thesis using q by blast
  qed
  have r: "quiet env s x" if "x \<in> region a n" "unat a + n < 0x10000" for x a n
    using q1 [of x] region_unat [of a n x] that by simp
  have v: "vbytes s x = mem prog_boot x" if "unat x < 0x10000" for x using q1 that by blast
  have s1: "string_source env s 0x3000 [47, 120]"
  proof -
    have l: "length [47 :: u8, 120] + 1 = 3" by simp
    have "cstring (vbytes s) 0x3000 [47, 120]" by (simp add: cstring_def load_bytes_def v)
    then show ?thesis unfolding string_source_def l using r [of _ "0x3000" 3] by simp
  qed
  have l: "load32 (vbytes s) 0x4000 = 0x3000" "load32 (vbytes s) 0x4004 = 0" by (simp_all add: load32_def v)
  have qa: "quiet env s x" if "i \<le> 1" "x \<in> region (0x4000 + 4 * of_nat i) 4" for i x
  proof -
    have "i = 0 \<or> i = 1" using that(1) by linarith
    then show ?thesis using that(2) r [of x "0x4000" 4] r [of x "0x4004" 4] by auto
  qed
  have "argv_source env s 0x4000 [[47, 120]]"
    unfolding argv_source_def using qa s1 l by simp
  moreover have "args_fit [[47, 120]]" by (simp add: args_fit_def arg_off_def)
  ultimately show ?thesis using s1 by (simp add: can_call_def)
qed

lemma prog_can_exec:
  assumes "can_call env 0x3000 [120] 0x4000 [[47, 120]] s" "720 \<le> card (avail (paddr_alloc s))"
  shows "can_exec prog_disk env 0x3000 [120] 0x4000 [[47, 120]] prog_phdr s"
  using assms prog_exec by (simp add: can_exec_def)

text \<open>Start-up on this machine, with any disk.\<close>

lemma disk_run:
  obtains s1 s2 where "kernel_init (disk_device disk) demo_init_env demo_symbols demo_handlers prog_boot_info prog_boot = Inr ((), s1)"
    "task_first_init demo_env s1 = Inr ((), s2)" "exec_ready (exec_locals demo_env s2) s2" "on_kernel_half (exec_locals demo_env s2) s2"
    "can_call (exec_locals demo_env s2) 0x3000 [120] 0x4000 [[47, 120]] s2" "720 \<le> card (avail (paddr_alloc s2))"
proof -
  show thesis
  proof (rule start_up_exec_ready [OF prog_boot_image prog_memory(1-3) demo_symbols_ok prog_memory(4,5) prog_device_ok(1) [of disk] demo_undef,
      unfolded demo_init_env_fields prog_boot_fields, OF demo_first_linked demo_first_low demo_exec_low, of demo_handlers], goal_cases)
    case (1 s1 s2)
    have "can_call (exec_locals demo_env s2) 0x3000 [120] 0x4000 [[47, 120]] s2" by (rule prog_can_call) (use 1(8) in \<open>simp add: demo_temp\<close>)
    then show ?case using that 1 by auto
  qed
qed

lemma prog_run:
  obtains s1 s2 where "kernel_init prog_device demo_init_env demo_symbols demo_handlers prog_boot_info prog_boot = Inr ((), s1)"
    "task_first_init demo_env s1 = Inr ((), s2)" "exec_ready (exec_locals demo_env s2) s2" "on_kernel_half (exec_locals demo_env s2) s2"
    "can_exec prog_disk (exec_locals demo_env s2) 0x3000 [120] 0x4000 [[47, 120]] prog_phdr s2"
  using disk_run [of prog_disk] prog_can_exec by metis

theorem sys_execve_starts_program_witness:
  "\<exists>s1 s2 s3 q. kernel_init prog_device demo_init_env demo_symbols demo_handlers prog_boot_info prog_boot = Inr ((), s1)
    \<and> task_first_init demo_env s1 = Inr ((), s2) \<and> sys_execve prog_device demo_env 0x3000 0x4000 0 s2 = Some (Inr (0, s3))
    \<and> sf_eip (parent_frame s3) = 0x80000000 \<and> translate (mem s3) (cr3_reg s3) 0x80000000 = Some q \<and> mem s3 q = 0xAA"
proof -
  obtain s1 s2 where r: "kernel_init prog_device demo_init_env demo_symbols demo_handlers prog_boot_info prog_boot = Inr ((), s1)"
    "task_first_init demo_env s1 = Inr ((), s2)" "exec_ready (exec_locals demo_env s2) s2"
    "can_exec prog_disk (exec_locals demo_env s2) 0x3000 [120] 0x4000 [[47, 120]] prog_phdr s2" by (rule prog_run)
  obtain s3 D where e: "sys_execve prog_device demo_env 0x3000 0x4000 0 s2 = Some (Inr (0, s3))" "cr3_reg s3 = D"
    "parent_frame s3 = exec_regs (e_entry (exec_header prog_disk)) (stack_top - 4 * ucast SYSCALL_PARAM_COUNT) (parent_frame s2)"
    "\<forall>i < seg_pages prog_phdr * 4096. \<exists>q. translate (mem s3) D (p_vaddr prog_phdr + of_nat i) = Some q \<and> page_no q \<in> page_no ` avail (paddr_alloc s2)
       \<and> mem s3 q = (if i < unat (p_filesz prog_phdr) then exec_image prog_disk (of_nat (unat (p_offset prog_phdr) + i)) else mem s2 q)"
    using sys_execve_starts_program [OF r(3) prog_device_ok(2) r(4), of 0] by blast
  have "\<exists>q. translate (mem s3) D 0x80000000 = Some q \<and> mem s3 q = 0xAA"
    using e(4) [rule_format, of 0, unfolded prog_exec(2)] by (auto simp: prog_phdr_def prog_image prog_file_def)
  moreover have "sf_eip (parent_frame s3) = 0x80000000" unfolding e(3) by (simp add: exec_regs_def prog_headers(1))
  ultimately show ?thesis using r(1,2) e(1,2) by blast
qed

theorem sys_execve_frees_running_program_witness:
  "\<exists>s1 s2 s3. kernel_init prog_device demo_init_env demo_symbols demo_handlers prog_boot_info prog_boot = Inr ((), s1)
    \<and> task_first_init demo_env s1 = Inr ((), s2) \<and> sys_execve prog_device demo_env 0x3000 0x4000 0 s2 = Some (Inr (0, s3))
    \<and> cr3_reg s3 \<in> avail (paddr_alloc s3)"
proof -
  obtain s1 s2 where r: "kernel_init prog_device demo_init_env demo_symbols demo_handlers prog_boot_info prog_boot = Inr ((), s1)"
    "task_first_init demo_env s1 = Inr ((), s2)" "exec_ready (exec_locals demo_env s2) s2" "on_kernel_half (exec_locals demo_env s2) s2"
    "can_exec prog_disk (exec_locals demo_env s2) 0x3000 [120] 0x4000 [[47, 120]] prog_phdr s2" by (rule prog_run)
  show ?thesis using sys_execve_frees_running_program [OF r(3) prog_device_ok(2) r(5,4), of 0] r(1,2) by blast
qed

theorem start_up_then_execve_witness:
  "\<exists>s1 s2 s3. kernel_init prog_device demo_init_env demo_symbols demo_handlers prog_boot_info prog_boot = Inr ((), s1)
    \<and> task_first_init demo_env s1 = Inr ((), s2) \<and> 720 \<le> card (avail (paddr_alloc s2))
    \<and> sys_execve prog_device demo_env 0x3000 0x4000 0 s2 = Some (Inr (0, s3)) \<and> args_at stack_top [[47, 120]] (ubytes (mem s3) (cr3_reg s3))"
proof -
  obtain s1 s2 where r: "kernel_init prog_device demo_init_env demo_symbols demo_handlers prog_boot_info prog_boot = Inr ((), s1)"
    "task_first_init demo_env s1 = Inr ((), s2)" "can_exec prog_disk (exec_locals demo_env s2) 0x3000 [120] 0x4000 [[47, 120]] prog_phdr s2" by (rule prog_run)
  from start_up_then_execve [OF prog_boot_image prog_memory(1-3) demo_symbols_ok prog_memory(4,5) prog_device_ok [of prog_disk] demo_undef,
      unfolded demo_init_env_fields prog_boot_fields, OF demo_first_linked demo_exec_low demo_first_low, of demo_handlers]
  obtain t1 t2 where t: "kernel_init prog_device demo_init_env demo_symbols demo_handlers prog_boot_info prog_boot = Inr ((), t1)"
    "task_first_init demo_env t1 = Inr ((), t2)" "768 \<le> card (avail (paddr_alloc t2)) + 48"
    "\<And>name path argv args ph envp. can_exec prog_disk (exec_locals demo_env t2) name path argv args ph t2 \<Longrightarrow>
       \<exists>s3. sys_execve prog_device demo_env name argv envp t2 = Some (Inr (0, s3)) \<and> args_at stack_top args (ubytes (mem s3) (cr3_reg s3))"
    by (elim exE conjE) (rule that, assumption+, blast)
  have "t2 = s2" using r(1,2) t(1,2) by simp
  then show ?thesis using r t(3) t(4) [of "0x3000" "[120]" "0x4000" "[[47, 120]]" prog_phdr 0] by auto
qed

text \<open>On an empty disk there is no program.\<close>

lemma empty_disk: "broken_file (\<lambda>_. 0)"
proof -
  have "load_bytes (exec_image (\<lambda>_. 0)) 0 16 ! 0 = 0" by (simp add: load_bytes_def exec_image_def)
  then show ?thesis by (simp add: broken_file_def exec_header_def read_ehdr_def EI_NIDENT_def elf_ident_ok_def ELF_MAGIC_def)
qed

theorem sys_execve_runs_broken_file_witness:
  "\<exists>s1 s2 s3. kernel_init (disk_device (\<lambda>_. 0)) demo_init_env demo_symbols demo_handlers prog_boot_info prog_boot = Inr ((), s1)
    \<and> task_first_init demo_env s1 = Inr ((), s2) \<and> sys_execve (disk_device (\<lambda>_. 0)) demo_env 0x3000 0x4000 0 s2 = Some (Inr (0, s3))
    \<and> sf_eip (parent_frame s3) = 0xFFFFFFFF \<and> translate (mem s3) (cr3_reg s3) 0xFFFFFFFF = None"
proof -
  obtain s1 s2 where r: "kernel_init (disk_device (\<lambda>_. 0)) demo_init_env demo_symbols demo_handlers prog_boot_info prog_boot = Inr ((), s1)"
    "task_first_init demo_env s1 = Inr ((), s2)" "exec_ready (exec_locals demo_env s2) s2"
    "can_call (exec_locals demo_env s2) 0x3000 [120] 0x4000 [[47, 120]] s2" "720 \<le> card (avail (paddr_alloc s2))" by (rule disk_run)
  have c: "502 \<le> card (avail (paddr_alloc s2))" using r(5) by simp
  obtain s3 D where e: "sys_execve (disk_device (\<lambda>_. 0)) demo_env 0x3000 0x4000 0 s2 = Some (Inr (0, s3))" "cr3_reg s3 = D"
    "parent_frame s3 = exec_regs 0xFFFFFFFF (stack_top - 4 * ucast SYSCALL_PARAM_COUNT) (parent_frame s2)"
    "translate (mem s3) D 0xFFFFFFFF = None"
    using sys_execve_runs_broken_file [OF r(3) prog_device_ok(2) r(4) empty_disk c, of 0] by blast
  have "sf_eip (parent_frame s3) = 0xFFFFFFFF" unfolding e(3) by (simp add: exec_regs_def)
  then show ?thesis using r(1,2) e(1,2,4) by blast
qed

end
