(* ===== verification/Spec2Isabelle.thy ===== *)
theory Spec2Isabelle
  imports Loader Applib Run
begin

text \<open>
  A model in HOL of a small 32-bit x86 operating system (the C code under \<^verbatim>\<open>src/source\<close>) with the
  theorems on its parts. The header tells which theory models which part, what the theorems show,
  which hypotheses they have, and what is not modelled.

  \<^bold>\<open>The program.\<close> A boot loader (\<^verbatim>\<open>loader\<close>) asks the BIOS for the memory map, enters protected mode,
  reads the kernel image from disk, places its segments and jumps to it. \<^verbatim>\<open>kernel_init\<close> sets up
  the descriptor table, the serial log, memory, interrupts, the timer and the table of tasks;
  \<^verbatim>\<open>init_main\<close> starts the first task. From then on the kernel runs in two ways: the timer interrupt
  calls the scheduler (\<^verbatim>\<open>task_time_tick\<close>), and tasks enter it by system calls (\<^verbatim>\<open>sleep\<close>,
  \<^verbatim>\<open>getpid\<close>, \<^verbatim>\<open>print_msg\<close>, \<^verbatim>\<open>fork\<close>, \<^verbatim>\<open>execve\<close>, \<^verbatim>\<open>exit\<close>). Mutual exclusion is by masked
  interrupts for the lists of the scheduler and by mutexes for the descriptor table, the page pool,
  the table of tasks and the log.

  \<^bold>\<open>How the code is represented.\<close>
  \<^item> Unsigned integers are words of their width; signed integers are words read with \<open>sint\<close> where the
    wrap-around matters and \<open>int\<close> otherwise. Pointers are 32-bit addresses.
  \<^item> The machine is one record that grows with the parts of the kernel: \<open>machine\<close> (flags, control
    registers, log of port accesses, byte memory), \<open>sched\<close> (list nodes, task blocks, lists),
    \<open>gdt_state\<close>, \<open>kmem\<close> (page pool, kernel directory), \<open>log_state\<close>, \<open>irq_state\<close>, \<open>fs_state\<close>,
    \<open>kernel\<close>. An operation works on every extension of the record it needs, so the parts compose
    without translation. \<open>undef_ret\<close> is the indeterminate value of a missing \<^verbatim>\<open>return\<close>.
  \<^item> Page tables, strings, ELF files, system call frames and buffers are bytes in \<open>mem\<close>. Task blocks,
    list nodes, the descriptor tables and the mutexes are separate fields indexed by the address or
    the index that the code uses; list nodes are at their offsets in the task block, so the
    conversion from node to task is the arithmetic of the code.
  \<^item> An operation that cannot fail is a function of the state. One that can stop yields \<open>kres\<close>: a
    result with the new state, or \<open>Panic\<close> (a failed assertion), \<open>Fault\<close> (access outside of an object
    or undefined behaviour), \<open>Suspended\<close> (another task was switched to in the middle) or \<open>Halted\<close>.
    A loop that may run for ever yields an option, and its theorems show that it returns.
  \<^item> A switch to another task is the end of an operation: the state at the switch is its result, and
    what the code does when the task comes back is a separate definition where there is something
    to do: \<open>tick_rest\<close> for the rest of the clock tick, \<open>do_handler_syscall_resumed\<close> for the end of a \<^verbatim>\<open>sys_sleep\<close> in
    the handler of system calls. What remains of a mutex acquisition that had to wait has no such definition.

  \<^bold>\<open>The theories, in the order of their imports.\<close>
  \<^item> \<open>Prelude_C\<close>: C types, checked arrays, outcomes and their composition (\<open>bindR\<close>).
  \<^item> \<open>Bitmap\<close>: \<^verbatim>\<open>kernel/tools/bitmap.c\<close>. The single-bit request against its specification, safety
    of every request, and the wrong test in requests of several bits.
  \<^item> \<open>KList\<close>: \<^verbatim>\<open>kernel/tools/list.c\<close>. Doubly linked lists in a store of nodes; the representation \<open>dlist\<close>
    and the locale \<open>node_queue\<close> that the scheduler uses, interpreted on the list operations.
  \<^item> \<open>Machine\<close>: \<^verbatim>\<open>comm/cpu_instr.h\<close> and the masking of interrupts in \<^verbatim>\<open>kernel/cpu/irq.c\<close>; a locale for
    critical sections.
  \<^item> \<open>Mem\<close> and \<open>Klib\<close>: bytes and words in memory; \<^verbatim>\<open>kernel/tools/klib.c\<close>. The round trip of number
    output, and the copy functions with what they get wrong.
  \<^item> \<open>Sched\<close>: the scheduler of \<^verbatim>\<open>kernel/core/task.c\<close>. The representation of the ready and the sleep
    list by lists of tasks, the effect of every operation on them, the step relation of its runs with
    the invariant, round robin, and waking after the requested time.
  \<^item> \<open>Ipc\<close>: \<^verbatim>\<open>kernel/ipc\<close>. Refinement of an abstract mutex and semaphore, the invariant of the tasks that
    share a mutex, also when some exit or sleep for zero ticks (the set \<open>G\<close> of those that have left; one of them that holds
    the mutex keeps it for good, \<open>mutex_stuck_forever\<close>), and the locale \<open>lock\<close> under which other parts use a mutex.
  \<^item> \<open>Cpu\<close>: \<^verbatim>\<open>kernel/cpu/cpu.c\<close>. Descriptors read back, the initial table, allocation of entries.
  \<^item> \<open>Memory\<close> and \<open>Uvm\<close>: \<^verbatim>\<open>kernel/core/memory.c\<close>. The locale \<open>page_pool\<close> of page allocation, interpreted on
    the allocator; address translation (\<open>translate\<close>, \<open>entry\<close>, \<open>pt_entry\<close>) and the well-formedness of a
    directory (\<open>dir_wf\<close>); the effect of mapping, creating, filling, copying to and destroying an address
    space on the translation.
  \<^item> \<open>Log\<close>, \<open>Irq\<close>: \<^verbatim>\<open>kernel/tools/log.c\<close>, \<^verbatim>\<open>kernel/cpu/irq.c\<close>, \<^verbatim>\<open>kernel/dev/timer.c\<close>. What is sent to
    the port; the interrupt table; the masks of the controllers, read off the log of port accesses by
    an automaton of the controller; the programming of the timer.
  \<^item> \<open>Elf\<close>, \<open>Disk\<close>, \<open>Loader\<close>: \<^verbatim>\<open>comm/elf.h\<close>, the disk routines shared by loader and kernel, and
    \<^verbatim>\<open>loader/loader_16.c\<close>, \<^verbatim>\<open>loader/loader_32.c\<close>. The memory map within its bounds, reading sectors
    from a drive, the segments of a file in their places, and the entry of the kernel.
  \<^item> \<open>Fs\<close>: \<^verbatim>\<open>kernel/fs/fs.c\<close>. Open, seek and read give the bytes of the file on disk.
  \<^item> \<open>Task\<close>: the life of tasks in \<^verbatim>\<open>kernel/core/task.c\<close>. Initialisation gives a task its own stack and
    address space or, in \<^verbatim>\<open>tss_init\<close>, takes nothing; the table of tasks; \<^verbatim>\<open>fork\<close> and \<^verbatim>\<open>execve\<close>.
  \<^item> \<open>Copy\<close> and \<open>Fork\<close>: \<^verbatim>\<open>memory_copy_uvm2\<close> and \<^verbatim>\<open>sys_fork\<close>. The loop invariant of the copy (\<open>copied\<close>), and the
    whole effect of a fork on the child, its parent, their memory and the lists; afterwards the parent can
    fork again.
  \<^item> \<open>Syscall\<close>, \<open>Init\<close>: \<^verbatim>\<open>kernel/core/syscall.c\<close>, \<^verbatim>\<open>kernel/init/init.c\<close>. The dispatch and the result in
    the frame, at once or after a sleep; the order of the initialisation.
  \<^item> \<open>Identity\<close>, \<open>Boot\<close>, \<open>Start\<close>: the start of the system. \<^verbatim>\<open>memory_init\<close> leads to the identity map of the
    kernel (\<open>kernel_perm\<close>); \<^verbatim>\<open>kernel_init\<close>, from an image whose static objects are zero (\<open>boot_image\<close>), to a state in
    which tasks can be made; \<^verbatim>\<open>task_first_init\<close> and \<^verbatim>\<open>move_to_first_task\<close> from there to user mode. Mapping a range
    is shown to succeed by counting: a free frame for every missing page table of a set \<open>J\<close> (\<open>map_one_room\<close>).
  \<^item> \<open>Place\<close>: new pages in full, for the first task and for \<^verbatim>\<open>execve\<close>: which frame holds which byte (\<open>placed_at\<close>), that
    the frames are new and distinct (\<open>new_pages\<close>), how many are taken and which page tables are written.
  \<^item> \<open>Program\<close>, \<open>Args\<close>, \<open>Exec\<close>: \<^verbatim>\<open>sys_execve\<close> as a whole. While the new address space is filled, memory changes only
    in the buffers and in frames that were free (\<open>exec_inv\<close>), so what the caller names stays readable (\<open>quiet\<close>); the
    segment is loaded from the buffer of the file, the arguments are copied to the top of the stack (\<open>args_at\<close>, in the
    view of the program), the frame is written and the old directory destroyed. \<open>exec_ready\<close>, \<open>can_call\<close> and \<open>can_exec\<close>
    are the hypotheses: the kernel is in order, the program is an ELF file whose first loadable segment fits below
    the stack, name and arguments are readable and the frames suffice. The segment is not cleared behind the bytes of the
    file, the destruction frees every frame (\<open>on_kernel_half\<close>), and a file that is not a program is started as well
    (\<open>broken_file\<close>): these are theorems on what the code does.
  \<^item> \<open>Run\<close>: from the boot loader to the first program. Start-up (Boot, Start) leads to the hypotheses of Exec, with the file buffer in
    low memory and the local variables on the kernel stack of the task (\<open>exec_low\<close>, \<open>locals_fit\<close>), on every
    machine with at most 4 MiB (the bound makes all indices of frames in a directory equal; it is used only for
    the frames that are free afterwards). A machine with a program on its disk is an instance.
  \<^item> \<open>Applib\<close>: \<^verbatim>\<open>applib\<close>, \<^verbatim>\<open>shell/main.c\<close>, \<^verbatim>\<open>kernel/init/first_task.c\<close>. User programs as processes (a codatatype of
    actions); the exact calls of the shell and of the first task, and how a call of \<^verbatim>\<open>fork\<close> passes through
    the frame to the kernel and back to parent and child.

  \<^bold>\<open>Parameters.\<close> What is not C code of the repository is a parameter: the answers of devices to port
  reads are a function of the port accesses so far (\<open>device\<close>; \<open>ata_ok\<close>, \<open>pic_ok\<close> and \<open>uart_ready\<close> state
  what the drive, the interrupt controllers and the serial port are documented to answer, and each
  has an instance in its theory), the BIOS is a function \<open>bios_map\<close>, the addresses of
  static objects, handlers, linker symbols and string literals are records (\<open>kernel_env\<close>, \<open>init_env\<close>,
  \<open>handlers\<close>, \<open>kernel_symbols\<close>). Local variables whose address the code takes lie on the kernel stack of the
  running task: \<open>kernel_env\<close> has their distance from its top, and \<open>exec_locals\<close> turns it into the addresses that \<^verbatim>\<open>load_elf_file\<close>
  and \<^verbatim>\<open>copy_args\<close> use (\<open>exec_env\<close>). Memory is one array: an access by a kernel address is direct, since the
  kernel half is mapped one to one; an access by a user address goes through the directory in CR3.

  \<^bold>\<open>Bounds and fuel.\<close> Loops over an index are recursive functions with a measure. Loops that wait for a
  device or follow a list without a bound are partial functions with values in an option. Fuel is
  used for the loop of \<^verbatim>\<open>load_elf_file\<close> over the program headers, \<open>2 ^ 16\<close> rounds where their number has
  16 bits, and for the loop of \<^verbatim>\<open>detect_memory\<close>, which the code bounds by ten rounds.
  Lists are shorter than \<open>2 ^ 31\<close>, where their counter would turn negative.

  \<^bold>\<open>Not modelled.\<close>
  \<^item> The boot sector (\<^verbatim>\<open>boot/boot.c\<close> is one jump) and all assembly: entry stubs appear as the frames
    they leave, the task switch as the saving of the flags in the task state segment.
  \<^item> Messages that \<^verbatim>\<open>memory.c\<close> and \<^verbatim>\<open>task.c\<close> print for diagnosis, \<^verbatim>\<open>show_mem_info\<close>, the screen output of
    the loader, and the test functions \<^verbatim>\<open>test_alloc\<close>, \<^verbatim>\<open>link_test\<close> and the test tasks of
    \<^verbatim>\<open>init.c\<close>, which nothing calls.
  \<^item> Interleavings inside an operation: operations are atomic up to a switch of tasks.
  \<^item> The instructions of user programs: a process is its system calls and its accesses to memory. A call that
    switches to another task is not a step of \<open>process_step\<close>; the counters of the first task are words, which
    agree with the code as long as they do not overflow.
  \<^item> The theorems on the start-up leave out the three messages that \<^verbatim>\<open>init_main\<close> logs between \<^verbatim>\<open>kernel_init\<close> and
    \<^verbatim>\<open>task_first_init\<close>; the theorems on \<^verbatim>\<open>execve\<close> are about a program that can be started
    and about a file that is not a program; its exits when the frames run out are in the definition only.
\<close>

end
